(* ===== verification/Prelude.thy ===== *)
theory Prelude
  imports Main "HOL-Library.Word" "HOL-Library.Monad_Syntax"
begin

text \<open>
  What every component shares: the names of the machine types, the byte buffers the code
  patches with \<open>copy_from_slice\<close>, little-endian integers, the result type, and the
  interface of a fixed-width byte codec.

  A Rust \<open>Result\<close> is a sum, \<open>Inl\<close> for the error. A panic (an index or a subslice out of
  range) is the value \<open>None\<close> of an option around the result. Integer arithmetic is the one
  of a release build: \<open>+\<close>, \<open>-\<close> and \<open>*\<close> wrap at the width. \<open>usize\<close> values that count bytes
  or elements of a buffer in memory are naturals.
\<close>

unbundle bit_operations_syntax

type_synonym u8 = "8 word"
type_synonym u16 = "16 word"
type_synonym u32 = "32 word"
type_synonym u64 = "64 word"
type_synonym bytes = "u8 list"

section \<open>Results\<close>

definition result_bind :: "'e + 'a \<Rightarrow> ('a \<Rightarrow> 'e + 'b) \<Rightarrow> 'e + 'b" where
  "result_bind r f = (case r of Inl e \<Rightarrow> Inl e | Inr x \<Rightarrow> f x)"

lemma result_bind_simps [simp]:
  "result_bind (Inl e) f = Inl e"
  "result_bind (Inr x) f = f x"
  by (simp_all add: result_bind_def)

definition ok_or :: "'e \<Rightarrow> 'a option \<Rightarrow> 'e + 'a" where
  "ok_or e x = (case x of None \<Rightarrow> Inl e | Some a \<Rightarrow> Inr a)"

lemma ok_or_simps [simp]: "ok_or e None = Inl e" "ok_or e (Some a) = Inr a"
  by (simp_all add: ok_or_def)

section \<open>Stateful operations that can fail\<close>

text \<open>
  An operation on a state \<open>'s\<close> (a writer's buffer, a parser's position) returns its result
  and the state it leaves, also when it fails: an early return does not undo what was done.
\<close>

type_synonym ('s, 'e, 'a) op = "'s \<Rightarrow> ('e + 'a) \<times> 's"

definition op_return :: "'a \<Rightarrow> ('s, 'e, 'a) op" where
  "op_return x s = (Inr x, s)"

definition op_fail :: "'e \<Rightarrow> ('s, 'e, 'a) op" where
  "op_fail e s = (Inl e, s)"

definition op_bind :: "('s, 'e, 'a) op \<Rightarrow> ('a \<Rightarrow> ('s, 'e, 'b) op) \<Rightarrow> ('s, 'e, 'b) op" where
  "op_bind f g s = (case f s of (Inl e, t) \<Rightarrow> (Inl e, t) | (Inr x, t) \<Rightarrow> g x t)"

lemma op_simps [simp]:
  "op_return x s = (Inr x, s)"
  "op_fail e s = (Inl e, s)"
  by (simp_all add: op_return_def op_fail_def)

lemma op_bind_Inr:
  "op_bind f g s = (Inr y, u) \<longleftrightarrow> (\<exists>x t. f s = (Inr x, t) \<and> g x t = (Inr y, u))"
  by (auto simp: op_bind_def split: prod.splits sum.splits)

section \<open>Byte buffers\<close>

text \<open>\<open>subslice a b s\<close> is \<open>s[a..b]\<close>, for bounds in range.\<close>

definition subslice :: "nat \<Rightarrow> nat \<Rightarrow> 'a list \<Rightarrow> 'a list" where
  "subslice a b s = take (b - a) (drop a s)"

text \<open>\<open>put a x s\<close> is \<open>s[a..a + x.len()].copy_from_slice(x)\<close>: out of range it panics.\<close>

definition put :: "nat \<Rightarrow> 'a list \<Rightarrow> 'a list \<Rightarrow> 'a list option" where
  "put a x s = (if a + length x \<le> length s
     then Some (take a s @ x @ drop (a + length x) s) else None)"

lemma put_split:
  "length x = length y \<Longrightarrow> a = length p \<Longrightarrow> put a x (p @ y @ q) = Some (p @ x @ q)"
  by (simp add: put_def)

lemma put_length: "put a x s = Some t \<Longrightarrow> length t = length s"
  by (auto simp: put_def split: if_splits)

lemma put_None: "put a x s = None \<longleftrightarrow> length s < a + length x"
  by (auto simp: put_def)

lemma subslice_append_mid:
  "a = length p \<Longrightarrow> b = a + length x \<Longrightarrow> subslice a b (p @ x @ q) = x"
  by (simp add: subslice_def)

lemma length_subslice [simp]: "b \<le> length s \<Longrightarrow> length (subslice a b s) = b - a"
  by (simp add: subslice_def)

lemma subslice_append_left:
  "b \<le> length p \<Longrightarrow> subslice a b (p @ q) = subslice a b p"
  by (cases "a \<le> b") (simp_all add: subslice_def)

lemma subslice_append_right:
  "length p \<le> a \<Longrightarrow> subslice a b (p @ q) = subslice (a - length p) (b - length p) q"
  by (simp add: subslice_def)

lemma subslice_full: "subslice 0 (length s) s = s"
  by (simp add: subslice_def)

lemma subslice_chunks:
  assumes "\<forall>x \<in> set xs. length x = k" and "i < length xs"
  shows "subslice (i * k) (i * k + k) (concat xs @ r) = xs ! i"
  using assms
proof (induction xs arbitrary: i)
  case (Cons x xs)
  then show ?case
    by (cases i) (auto simp: subslice_def add.commute)
qed simp

section \<open>Little-endian integers\<close>

text \<open>\<open>to_le_bytes\<close> and \<open>from_le_bytes\<close> of an integer of \<open>n\<close> bytes.\<close>

definition to_le :: "nat \<Rightarrow> 'a::len word \<Rightarrow> bytes" where
  "to_le n w = map (\<lambda>i. ucast (drop_bit (8 * i) w)) [0..<n]"

fun from_le :: "bytes \<Rightarrow> 'a::len word" where
  "from_le [] = 0"
| "from_le (b # bs) = ucast b OR push_bit 8 (from_le bs)"

lemma length_to_le [simp]: "length (to_le n w) = n"
  by (simp add: to_le_def)

lemma to_le_Suc: "to_le (Suc n) w = ucast w # to_le n (drop_bit 8 w)"
  by (simp del: upt_Suc add: to_le_def upt_conv_Cons map_Suc_upt [symmetric] o_def
      add.commute [of 8])

lemma to_le_0 [simp]: "to_le 0 w = []"
  by (simp add: to_le_def)

lemma from_le_to_le: "from_le (to_le n (w :: 'a::len word)) = take_bit (8 * n) w"
proof (induction n arbitrary: w)
  case 0
  then show ?case by simp
next
  case (Suc n)
  show ?case
    by (rule bit_eqI)
      (auto simp: to_le_Suc Suc bit_or_iff bit_push_bit_iff bit_take_bit_iff bit_drop_bit_eq
        bit_ucast_iff not_less)
qed

lemma from_le_to_le_id:
  "LENGTH('a) \<le> 8 * n \<Longrightarrow> from_le (to_le n w) = (w :: 'a::len word)"
  by (simp add: from_le_to_le take_bit_word_eq_self)

lemma bit_from_le: "bit (from_le bs :: 'a::len word) n \<Longrightarrow> n < 8 * length bs"
proof (induction bs arbitrary: n)
  case Nil
  then show ?case by simp
next
  case (Cons b bs)
  then show ?case
    using bit_imp_le_length [of b n] Cons.IH [of "n - 8"]
    by (fastforce simp: bit_or_iff bit_push_bit_iff bit_ucast_iff)
qed

lemma to_le_from_le:
  "8 * length bs \<le> LENGTH('a) \<Longrightarrow> to_le (length bs) (from_le bs :: 'a::len word) = bs"
proof (induction bs)
  case Nil
  then show ?case by simp
next
  case (Cons b bs)
  have lo: "ucast (ucast b OR push_bit 8 (from_le bs :: 'a word)) = b"
    using Cons.prems
    by (intro bit_eqI) (auto simp: bit_or_iff bit_push_bit_iff bit_ucast_iff)
  have hi: "drop_bit 8 (ucast b OR push_bit 8 (from_le bs :: 'a word)) = from_le bs"
    using Cons.prems bit_from_le [of bs]
    by (intro bit_eqI) (fastforce simp: bit_drop_bit_eq bit_or_iff bit_push_bit_iff bit_ucast_iff
        dest: bit_imp_le_length)
  from Cons show ?case by (simp add: to_le_Suc lo hi del: drop_bit_or)
qed

lemmas le_codec = from_le_to_le_id to_le_from_le length_to_le

section \<open>Fixed-width codecs\<close>

text \<open>
  What a component that stores values in a byte array relies on: the encoding has a fixed
  width, decoding looks at that prefix only and inverts encoding, and a short buffer is
  refused. \<open>wf\<close> says which values the fields of the source type can hold.
\<close>

locale fixed_codec =
  fixes enc :: "'a \<Rightarrow> bytes"
    and dec :: "bytes \<Rightarrow> 'a option"
    and width :: nat
    and wf :: "'a \<Rightarrow> bool"
  assumes enc_length: "wf a \<Longrightarrow> length (enc a) = width"
    and dec_enc: "wf a \<Longrightarrow> dec (enc a @ r) = Some a"
    and dec_short: "length bs < width \<Longrightarrow> dec bs = None"
begin

lemma dec_enc_exact: "wf a \<Longrightarrow> dec (enc a) = Some a"
  using dec_enc [of a "[]"] by simp

lemma enc_inj: "wf a \<Longrightarrow> wf b \<Longrightarrow> enc a = enc b \<Longrightarrow> a = b"
  using dec_enc_exact by (metis option.inject)

lemma dec_Some_length: "dec bs = Some a \<Longrightarrow> width \<le> length bs"
  using dec_short [of bs] by (cases "length bs < width") auto

text \<open>An array of slots of \<open>stride\<close> bytes, each padded with zeroes, reads back slot by slot.\<close>

lemma length_slots:
  assumes "\<forall>x \<in> set xs. wf x" and "width \<le> stride"
  shows "length (concat (map (\<lambda>x. enc x @ replicate (stride - width) 0) xs)) = length xs * stride"
  using assms by (induction xs) (auto simp: enc_length)

lemma dec_slot:
  assumes "\<forall>x \<in> set xs. wf x" and "width \<le> stride" and "i < length xs"
  shows "dec (subslice (i * stride) (i * stride + stride)
     (concat (map (\<lambda>x. enc x @ replicate (stride - width) 0) xs) @ r)) = Some (xs ! i)"
  using assms
proof (induction xs arbitrary: i)
  case Nil
  then show ?case by simp
next
  case (Cons x xs)
  have len: "length (enc x @ replicate (stride - width) 0) = stride"
    using Cons.prems by (simp add: enc_length)
  show ?case
  proof (cases i)
    case 0
    have "subslice 0 stride ((enc x @ replicate (stride - width) 0) @ z)
        = enc x @ replicate (stride - width) 0" for z
      using len by (simp add: subslice_def)
    then show ?thesis
      using Cons.prems 0 by (simp add: dec_enc)
  next
    case (Suc j)
    have "subslice (i * stride) (i * stride + stride)
        ((enc x @ replicate (stride - width) 0) @ z) = subslice (j * stride) (j * stride + stride) z" for z
      by (subst subslice_append_right) (use len in \<open>simp_all add: Suc add.commute\<close>)
    then show ?thesis
      using Cons.IH [of j] Cons.prems Suc by simp
  qed
qed

end

section \<open>Invariants of a program's states\<close>

text \<open>
  What a component with state promises: the states it starts in satisfy the invariant, and
  every operation keeps it; then every state that a run of operations reaches satisfies it.
\<close>

locale invariant_system =
  fixes init :: "'s \<Rightarrow> bool"
    and step :: "'s \<Rightarrow> 's \<Rightarrow> bool"
    and inv :: "'s \<Rightarrow> bool"
  assumes init_inv: "init s \<Longrightarrow> inv s"
    and step_inv: "step s t \<Longrightarrow> inv s \<Longrightarrow> inv t"
begin

lemma run_inv: "step\<^sup>*\<^sup>* s t \<Longrightarrow> inv s \<Longrightarrow> inv t"
  by (induction rule: rtranclp_induct) (auto intro: step_inv)

lemma reach_inv: "init s \<Longrightarrow> step\<^sup>*\<^sup>* s t \<Longrightarrow> inv t"
  using run_inv init_inv by blast

end

section \<open>Machine integers as codecs\<close>

text \<open>The unsigned integers of the machine, stored little-endian.\<close>

definition dec_le :: "nat \<Rightarrow> bytes \<Rightarrow> 'a::len word option" where
  "dec_le n bs = (if length bs < n then None else Some (from_le (take n bs)))"

interpretation u16_codec: fixed_codec "to_le 2 :: u16 \<Rightarrow> bytes" "dec_le 2" 2 "\<lambda>_. True"
  by unfold_locales (simp_all add: dec_le_def from_le_to_le_id)

interpretation u32_codec: fixed_codec "to_le 4 :: u32 \<Rightarrow> bytes" "dec_le 4" 4 "\<lambda>_. True"
  by unfold_locales (simp_all add: dec_le_def from_le_to_le_id)

interpretation u64_codec: fixed_codec "to_le 8 :: u64 \<Rightarrow> bytes" "dec_le 8" 8 "\<lambda>_. True"
  by unfold_locales (simp_all add: dec_le_def from_le_to_le_id)

end
