(* ===== verification/RustStd.thy ===== *)
theory RustStd
  imports Prelude
begin

text \<open>
  The parts of the Rust standard library that several components call: text as a list of
  Unicode scalar values, trimming and splitting, unsigned integer parsing with
  \<open>from_str_radix\<close>, zero-padded hexadecimal formatting, UTF-16, and the integer helpers
  \<open>div_ceil\<close>, \<open>checked_add\<close>, \<open>checked_sub\<close> and \<open>saturating_sub\<close>.
\<close>

section \<open>Text\<close>

text \<open>
  A \<open>&str\<close> is its list of scalar values; \<open>lit\<close> writes an ASCII literal, \<open>ascii\<close> a byte
  string literal.
\<close>

type_synonym rust_str = "nat list"

definition lit :: "string \<Rightarrow> rust_str" where
  "lit s = map of_char s"

definition ascii :: "string \<Rightarrow> bytes" where
  "ascii s = map of_char s"

definition is_scalar :: "nat \<Rightarrow> bool" where
  "is_scalar c \<longleftrightarrow> c < 0xD800 \<or> (0xE000 \<le> c \<and> c < 0x110000)"

text \<open>\<open>str::len\<close> counts the bytes of the UTF-8 form.\<close>

definition utf8_len :: "nat \<Rightarrow> nat" where
  "utf8_len c = (if c < 0x80 then 1 else if c < 0x800 then 2 else if c < 0x10000 then 3 else 4)"

definition str_len :: "rust_str \<Rightarrow> nat" where
  "str_len s = sum_list (map utf8_len s)"

lemma str_len_ascii: "\<forall>c \<in> set s. c < 0x80 \<Longrightarrow> str_len s = length s"
  by (induction s) (auto simp: str_len_def utf8_len_def)

text \<open>The UTF-8 form of a string: what \<open>as_bytes\<close> and \<open>into_bytes\<close> give.\<close>

definition utf8_char :: "nat \<Rightarrow> bytes" where
  "utf8_char c =
     (if c < 0x80 then [of_nat c]
      else if c < 0x800 then [of_nat (0xC0 + c div 0x40), of_nat (0x80 + c mod 0x40)]
      else if c < 0x10000 then
        [of_nat (0xE0 + c div 0x1000), of_nat (0x80 + c div 0x40 mod 0x40), of_nat (0x80 + c mod 0x40)]
      else [of_nat (0xF0 + c div 0x40000), of_nat (0x80 + c div 0x1000 mod 0x40),
        of_nat (0x80 + c div 0x40 mod 0x40), of_nat (0x80 + c mod 0x40)])"

definition utf8 :: "rust_str \<Rightarrow> bytes" where
  "utf8 s = concat (map utf8_char s)"

lemma length_utf8: "length (utf8 s) = str_len s"
  by (induction s) (auto simp: utf8_def utf8_char_def str_len_def utf8_len_def)

lemma utf8_simps [simp]: "utf8 [] = []" "utf8 (c # s) = utf8_char c @ utf8 s"
  "utf8 (s @ t) = utf8 s @ utf8 t"
  by (simp_all add: utf8_def)

text \<open>Reading one character of valid UTF-8.\<close>

definition utf8_next :: "bytes \<Rightarrow> (nat \<times> bytes) option" where
  "utf8_next bs =
     (case bs of
        [] \<Rightarrow> None
      | a # r \<Rightarrow>
          let n = unat a; cont = (\<lambda>i. unat (r ! i) - 0x80) in
          if n < 0x80 then Some (n, r)
          else if n < 0xE0 then
            (if length r < 1 then None else Some ((n - 0xC0) * 0x40 + cont 0, drop 1 r))
          else if n < 0xF0 then
            (if length r < 2 then None
             else Some ((n - 0xE0) * 0x1000 + cont 0 * 0x40 + cont 1, drop 2 r))
          else
            (if length r < 3 then None
             else Some ((n - 0xF0) * 0x40000 + cont 0 * 0x1000 + cont 1 * 0x40 + cont 2, drop 3 r)))"

lemma unat_of_nat_u8: "n < 256 \<Longrightarrow> unat (of_nat n :: u8) = n"
  by (simp add: unat_of_nat)

lemma mod_64_bound: "(n :: nat) mod 64 < 64"
  by simp

lemma split_64: "(c :: nat) div 0x1000 * 0x40 + c div 0x40 mod 0x40 = c div 0x40"
  using div_mult_mod_eq [of "c div 0x40" "0x40"] by (simp add: div_mult2_eq [symmetric])

lemma split_4096: "(c :: nat) div 0x40000 * 0x40 + c div 0x1000 mod 0x40 = c div 0x1000"
  using div_mult_mod_eq [of "c div 0x1000" "0x40"] by (simp add: div_mult2_eq [symmetric])

lemma utf8_next_char:
  assumes "c < 0x110000"
  shows "utf8_next (utf8_char c @ r) = Some (c, r)"
proof -
  have b: "unat (of_nat (0x80 + n mod 0x40) :: u8) = 0x80 + n mod 0x40" for n :: nat
    using mod_64_bound [of n] by (intro unat_of_nat_u8) linarith
  consider "c < 0x80" | "0x80 \<le> c" "c < 0x800" | "0x800 \<le> c" "c < 0x10000" | "0x10000 \<le> c"
    by linarith
  then show ?thesis
  proof cases
    case 1
    then show ?thesis by (simp add: utf8_char_def utf8_next_def unat_of_nat_u8)
  next
    case 2
    then have "c div 0x40 < 0x20" by (simp add: less_mult_imp_div_less)
    then have a: "unat (of_nat (0xC0 + c div 0x40) :: u8) = 0xC0 + c div 0x40"
      by (intro unat_of_nat_u8) linarith
    show ?thesis
      using 2 a b [of c] \<open>c div 0x40 < 0x20\<close> div_mult_mod_eq [of c "0x40"]
      by (simp add: utf8_char_def utf8_next_def Let_def del: of_nat_add)
  next
    case 3
    then have "c div 0x1000 < 0x10" by (simp add: less_mult_imp_div_less)
    then have a: "unat (of_nat (0xE0 + c div 0x1000) :: u8) = 0xE0 + c div 0x1000"
      by (intro unat_of_nat_u8) linarith
    have "c div 0x1000 * 0x1000 + (c div 0x40 mod 0x40) * 0x40 + c mod 0x40 = c"
      using div_mult_mod_eq [of c "0x40"] split_64 [of c] by linarith
    then show ?thesis
      using 3 a b [of c] b [of "c div 0x40"] \<open>c div 0x1000 < 0x10\<close>
      by (simp add: utf8_char_def utf8_next_def Let_def del: of_nat_add)
  next
    case 4
    then have "c div 0x40000 < 5" using assms by (simp add: less_mult_imp_div_less)
    then have a: "unat (of_nat (0xF0 + c div 0x40000) :: u8) = 0xF0 + c div 0x40000"
      by (intro unat_of_nat_u8) linarith
    have "c div 0x40000 * 0x40000 + (c div 0x1000 mod 0x40) * 0x1000 + (c div 0x40 mod 0x40) * 0x40
        + c mod 0x40 = c"
      using div_mult_mod_eq [of c "0x40"] split_64 [of c] split_4096 [of c] by linarith
    then show ?thesis
      using 4 a b [of c] b [of "c div 0x40"] b [of "c div 0x1000"] \<open>c div 0x40000 < 5\<close>
      by (simp add: utf8_char_def utf8_next_def Let_def del: of_nat_add)
  qed
qed

text \<open>The scalar values of a \<open>str\<close>.\<close>

definition valid_str :: "rust_str \<Rightarrow> bool" where
  "valid_str s \<longleftrightarrow> (\<forall>c \<in> set s. is_scalar c)"

lemma is_scalar_bound: "is_scalar c \<Longrightarrow> c < 0x110000"
  by (auto simp: is_scalar_def)

lemma utf8_char_nonempty [simp]: "utf8_char c \<noteq> []"
  by (simp add: utf8_char_def)

lemma utf8_inj: "valid_str s \<Longrightarrow> valid_str t \<Longrightarrow> utf8 s = utf8 t \<Longrightarrow> s = t"
proof (induction s arbitrary: t)
  case Nil
  then show ?case by (cases t) auto
next
  case (Cons c s)
  then obtain d t' where t: "t = d # t'"
    by (cases t) auto
  have "utf8_next (utf8_char c @ utf8 s) = Some (c, utf8 s)"
    and "utf8_next (utf8_char d @ utf8 t') = Some (d, utf8 t')"
    using Cons.prems(1,2) t by (simp_all add: valid_str_def utf8_next_char is_scalar_bound)
  then have "c = d \<and> utf8 s = utf8 t'"
    using Cons.prems(3) t by (metis option.inject prod.inject utf8_simps(2))
  with Cons t show ?case by (simp add: valid_str_def)
qed

lemma utf8_inj_on: "\<forall>s \<in> A. valid_str s \<Longrightarrow> inj_on utf8 A"
  by (auto intro!: inj_onI utf8_inj)

text \<open>
  \<open>s.get(a..b)\<close> counts bytes of the UTF-8 form: \<open>None\<close> beyond the end or inside a character.
\<close>

fun split_bytes :: "nat \<Rightarrow> rust_str \<Rightarrow> (rust_str \<times> rust_str) option" where
  "split_bytes 0 s = Some ([], s)"
| "split_bytes (Suc k) [] = None"
| "split_bytes (Suc k) (c # cs) =
     (if utf8_len c \<le> Suc k
      then map_option (\<lambda>(a, b). (c # a, b)) (split_bytes (Suc k - utf8_len c) cs)
      else None)"

definition str_get :: "nat \<Rightarrow> nat \<Rightarrow> rust_str \<Rightarrow> rust_str option" where
  "str_get a b s =
     Option.bind (split_bytes a s) (\<lambda>(_, t). map_option fst (split_bytes (b - a) t))"

lemma split_bytes_ascii:
  "\<forall>c \<in> set s. c < 0x80 \<Longrightarrow> k \<le> length s \<Longrightarrow> split_bytes k s = Some (take k s, drop k s)"
proof (induction k arbitrary: s)
  case (Suc k)
  then show ?case by (cases s) (simp_all add: utf8_len_def)
qed simp

lemma str_get_ascii:
  "\<forall>c \<in> set s. c < 0x80 \<Longrightarrow> a \<le> b \<Longrightarrow> b \<le> length s \<Longrightarrow> str_get a b s = Some (subslice a b s)"
  using split_bytes_ascii [of s a] split_bytes_ascii [of "drop a s" "b - a"]
    in_set_dropD [of _ a s]
  by (simp add: str_get_def subslice_def Ball_def)

lemma str_len_simps [simp]: "str_len [] = 0" "str_len (c # s) = utf8_len c + str_len s"
  "str_len (s @ t) = str_len s + str_len t"
  by (simp_all add: str_len_def)

lemma split_bytes_append: "split_bytes (str_len a) (a @ b) = Some (a, b)"
proof (induction a)
  case (Cons c a)
  have "split_bytes (utf8_len c + str_len a) (c # a @ b) =
      map_option (\<lambda>(x, y). (c # x, y)) (split_bytes (str_len a) (a @ b))"
    by (cases "utf8_len c + str_len a") (auto simp: utf8_len_def split: if_splits)
  with Cons show ?case by simp
qed simp

lemma str_get_mid: "str_get (str_len a) (str_len a + str_len b) (a @ b @ c) = Some b"
  by (simp add: str_get_def split_bytes_append)

text \<open>\<open>char::is_whitespace\<close>: the Unicode property White_Space.\<close>

definition is_whitespace :: "nat \<Rightarrow> bool" where
  "is_whitespace c \<longleftrightarrow> (9 \<le> c \<and> c \<le> 13) \<or> c = 32 \<or> c = 0x85 \<or> c = 0xA0 \<or> c = 0x1680
     \<or> (0x2000 \<le> c \<and> c \<le> 0x200A) \<or> c = 0x2028 \<or> c = 0x2029 \<or> c = 0x202F \<or> c = 0x205F
     \<or> c = 0x3000"

definition trim_with :: "('a \<Rightarrow> bool) \<Rightarrow> 'a list \<Rightarrow> 'a list" where
  "trim_with p s = rev (dropWhile p (rev (dropWhile p s)))"

definition trim :: "rust_str \<Rightarrow> rust_str" where
  "trim s = trim_with is_whitespace s"

lemma trim_with_id: "s = [] \<or> (\<not> p (hd s) \<and> \<not> p (last s)) \<Longrightarrow> trim_with p s = s"
proof (cases "s = []")
  case False
  assume "s = [] \<or> (\<not> p (hd s) \<and> \<not> p (last s))"
  with False have "dropWhile p s = s" and "dropWhile p (rev s) = rev s"
    by (simp_all add: dropWhile_eq_self_iff hd_rev)
  then show ?thesis by (simp add: trim_with_def)
qed (simp add: trim_with_def)

text \<open>\<open>split(sep)\<close>: always at least one field, one more than there are separators.\<close>

fun split_on :: "'a \<Rightarrow> 'a list \<Rightarrow> 'a list list" where
  "split_on c [] = [[]]"
| "split_on c (x # xs) =
     (if x = c then [] # split_on c xs
      else (case split_on c xs of [] \<Rightarrow> [[x]] | f # fs \<Rightarrow> (x # f) # fs))"

lemma split_on_nonempty [simp]: "split_on c s \<noteq> []"
  by (cases s) (auto split: list.splits)

lemma split_on_no_sep: "c \<notin> set s \<Longrightarrow> split_on c s = [s]"
  by (induction s) auto

lemma split_on_append_sep: "c \<notin> set s \<Longrightarrow> split_on c (s @ c # t) = s # split_on c t"
  by (induction s) auto

lemma split_on_fields: "f \<in> set (split_on c s) \<Longrightarrow> c \<notin> set f"
  by (induction s arbitrary: f) (fastforce split: if_splits list.splits)+

text \<open>\<open>join(sep)\<close>.\<close>

fun join_with :: "'a list \<Rightarrow> 'a list list \<Rightarrow> 'a list" where
  "join_with sep [] = []"
| "join_with sep [x] = x"
| "join_with sep (x # y # ys) = x @ sep @ join_with sep (y # ys)"

lemma split_on_join:
  "fs \<noteq> [] \<Longrightarrow> \<forall>f \<in> set fs. c \<notin> set f \<Longrightarrow> split_on c (join_with [c] fs) = fs"
  by (induction "[c]" fs rule: join_with.induct) (simp_all add: split_on_no_sep split_on_append_sep)

lemma join_with_head: "join_with sep ((x # f) # fs) = x # join_with sep (f # fs)"
  by (cases fs) simp_all

lemma join_split: "join_with [c] (split_on c s) = s"
proof (induction s)
  case (Cons x s)
  then show ?case
    by (cases "split_on c s") (auto simp: join_with_head)
qed simp

lemma join_with_append:
  "xs \<noteq> [] \<Longrightarrow> ys \<noteq> [] \<Longrightarrow> join_with sep (xs @ ys) = join_with sep xs @ sep @ join_with sep ys"
  by (induction sep xs rule: join_with.induct) (auto simp: neq_Nil_conv)

text \<open>\<open>split_inclusive(c)\<close>: each piece keeps its separator.\<close>

fun split_inclusive :: "'a \<Rightarrow> 'a list \<Rightarrow> 'a list list" where
  "split_inclusive c [] = []"
| "split_inclusive c (x # xs) =
     (if x = c then [x] # split_inclusive c xs
      else (case split_inclusive c xs of [] \<Rightarrow> [[x]] | f # fs \<Rightarrow> (x # f) # fs))"

lemma concat_split_inclusive: "concat (split_inclusive c s) = s"
  by (induction s) (auto split: list.splits)

lemma split_inclusive_line: "c \<notin> set l \<Longrightarrow> split_inclusive c (l @ c # s) = (l @ [c]) # split_inclusive c s"
  by (induction l) auto

lemma split_inclusive_last: "c \<notin> set l \<Longrightarrow> l \<noteq> [] \<Longrightarrow> split_inclusive c l = [l]"
proof (induction l)
  case (Cons x l)
  then show ?case by (cases "l = []") auto
qed simp

definition strip_prefix :: "'a list \<Rightarrow> 'a list \<Rightarrow> 'a list option" where
  "strip_prefix p s = (if take (length p) s = p then Some (drop (length p) s) else None)"

definition strip_suffix :: "'a list \<Rightarrow> 'a list \<Rightarrow> 'a list option" where
  "strip_suffix p s = (if length p \<le> length s \<and> drop (length s - length p) s = p
     then Some (take (length s - length p) s) else None)"

definition trim_end :: "rust_str \<Rightarrow> rust_str" where
  "trim_end s = rev (dropWhile is_whitespace (rev s))"

definition trim_start :: "rust_str \<Rightarrow> rust_str" where
  "trim_start s = dropWhile is_whitespace s"

text \<open>\<open>str::lines\<close>: the pieces between line feeds, each without one trailing carriage return;
  an empty last piece is not a line.\<close>

definition strip_cr :: "rust_str \<Rightarrow> rust_str" where
  "strip_cr l = (case strip_suffix [13] l of Some r \<Rightarrow> r | None \<Rightarrow> l)"

definition lines :: "rust_str \<Rightarrow> rust_str list" where
  "lines s = (let ps = split_on 10 s in
     map strip_cr (butlast ps) @ (if last ps = [] then [] else [last ps]))"

text \<open>\<open>split_once(c)\<close>, at the first separator.\<close>

definition split_once :: "'a \<Rightarrow> 'a list \<Rightarrow> ('a list \<times> 'a list) option" where
  "split_once c s = (if c \<in> set s
     then Some (takeWhile (\<lambda>x. x \<noteq> c) s, tl (dropWhile (\<lambda>x. x \<noteq> c) s)) else None)"

text \<open>\<open>position(p)\<close>: the index of the first element that satisfies \<open>p\<close>.\<close>

fun position :: "('a \<Rightarrow> bool) \<Rightarrow> 'a list \<Rightarrow> nat option" where
  "position p [] = None"
| "position p (x # xs) = (if p x then Some 0 else map_option Suc (position p xs))"

lemma position_Some: "position p xs = Some i \<Longrightarrow> i < length xs \<and> p (xs ! i) \<and> (\<forall>j<i. \<not> p (xs ! j))"
proof (induction xs arbitrary: i)
  case (Cons x xs)
  then show ?case
    by (cases i) (auto split: if_splits simp: nth_Cons split: nat.splits)
qed simp

lemma position_None: "position p xs = None \<longleftrightarrow> (\<forall>x \<in> set xs. \<not> p x)"
  by (induction xs) auto

definition is_ascii_alnum :: "nat \<Rightarrow> bool" where
  "is_ascii_alnum c \<longleftrightarrow> (48 \<le> c \<and> c \<le> 57) \<or> (65 \<le> c \<and> c \<le> 90) \<or> (97 \<le> c \<and> c \<le> 122)"

definition to_ascii_lowercase :: "rust_str \<Rightarrow> rust_str" where
  "to_ascii_lowercase s = map (\<lambda>c. if 65 \<le> c \<and> c \<le> 90 then c + 32 else c) s"

section \<open>Integers in text\<close>

text \<open>\<open>char::to_digit(radix)\<close>, for a radix up to 36.\<close>

definition to_digit :: "nat \<Rightarrow> nat \<Rightarrow> nat option" where
  "to_digit radix c =
     (let d = (if 48 \<le> c \<and> c \<le> 57 then Some (c - 48)
               else if 97 \<le> c \<and> c \<le> 122 then Some (c - 87)
               else if 65 \<le> c \<and> c \<le> 90 then Some (c - 55)
               else None)
      in case d of None \<Rightarrow> None | Some v \<Rightarrow> if v < radix then Some v else None)"

text \<open>The digit loop: checked multiplication and addition, \<open>None\<close> beyond \<open>limit\<close>.\<close>

fun digits_value :: "nat \<Rightarrow> nat \<Rightarrow> nat \<Rightarrow> rust_str \<Rightarrow> nat option" where
  "digits_value radix limit acc [] = Some acc"
| "digits_value radix limit acc (c # cs) =
     (case to_digit radix c of
        None \<Rightarrow> None
      | Some d \<Rightarrow> if limit < acc * radix + d then None
                 else digits_value radix limit (acc * radix + d) cs)"

text \<open>
  \<open>from_str_radix\<close> of an unsigned type with maximum \<open>limit\<close>: the empty string and a lone
  sign are errors, a leading \<open>+\<close> is accepted, a leading \<open>-\<close> is not.
\<close>

definition parse_uint :: "nat \<Rightarrow> nat \<Rightarrow> rust_str \<Rightarrow> nat option" where
  "parse_uint radix limit s =
     (case s of
        [] \<Rightarrow> None
      | c # cs \<Rightarrow>
          if cs = [] \<and> (c = 43 \<or> c = 45) then None
          else if c = 43 then digits_value radix limit 0 cs
          else digits_value radix limit 0 s)"

text \<open>The same for a signed type: \<open>-\<close> negates, and the range is \<open>-(limit + 1) .. limit\<close>.\<close>

definition parse_sint :: "nat \<Rightarrow> nat \<Rightarrow> rust_str \<Rightarrow> int option" where
  "parse_sint radix limit s =
     (case s of
        [] \<Rightarrow> None
      | c # cs \<Rightarrow>
          if cs = [] \<and> (c = 43 \<or> c = 45) then None
          else if c = 43 then map_option int (digits_value radix limit 0 cs)
          else if c = 45 then map_option (\<lambda>n. - int n) (digits_value radix (Suc limit) 0 cs)
          else map_option int (digits_value radix limit 0 s))"

lemma digits_value_bound:
  "digits_value radix limit acc cs = Some v \<Longrightarrow> acc \<le> limit \<Longrightarrow> v \<le> limit"
  by (induction radix limit acc cs rule: digits_value.induct) (auto split: option.splits if_splits)

lemma parse_uint_bound: "parse_uint radix limit s = Some v \<Longrightarrow> v \<le> limit"
  by (auto simp: parse_uint_def simp del: digits_value.simps split: list.splits if_splits
      dest: digits_value_bound)

text \<open>One digit of a lower- or upper-case number in a base up to 16.\<close>

definition hex_digit :: "bool \<Rightarrow> nat \<Rightarrow> nat" where
  "hex_digit upper d = (if d < 10 then 48 + d else if upper then 55 + d else 87 + d)"

text \<open>\<open>{:0nX}\<close> and \<open>{:0nx}\<close>, for a value that fits in \<open>n\<close> digits.\<close>

fun fmt_hex :: "bool \<Rightarrow> nat \<Rightarrow> nat \<Rightarrow> rust_str" where
  "fmt_hex upper 0 v = []"
| "fmt_hex upper (Suc n) v = fmt_hex upper n (v div 16) @ [hex_digit upper (v mod 16)]"

lemma length_fmt_hex [simp]: "length (fmt_hex upper n v) = n"
  by (induction n arbitrary: v) auto

lemma fmt_hex_numeral:
  "fmt_hex u (numeral k) v = fmt_hex u (pred_numeral k) (v div 16) @ [hex_digit u (v mod 16)]"
  unfolding numeral_eq_Suc [of k] by (rule fmt_hex.simps)

lemma hex_digit_range:
  "d < 16 \<Longrightarrow> (48 \<le> hex_digit u d \<and> hex_digit u d \<le> 57) \<or> (65 \<le> hex_digit u d \<and> hex_digit u d \<le> 70)
     \<or> (97 \<le> hex_digit u d \<and> hex_digit u d \<le> 102)"
  by (auto simp: hex_digit_def)

lemma set_fmt_hex:
  "c \<in> set (fmt_hex u n v) \<Longrightarrow> (48 \<le> c \<and> c \<le> 57) \<or> (65 \<le> c \<and> c \<le> 70) \<or> (97 \<le> c \<and> c \<le> 102)"
proof (induction n arbitrary: v)
  case (Suc n)
  from Suc.prems consider "c \<in> set (fmt_hex u n (v div 16))" | "c = hex_digit u (v mod 16)"
    by auto
  then show ?case
    using Suc.IH hex_digit_range [of "v mod 16" u] by cases simp_all
qed simp

lemma to_digit_hex_digit: "d < 16 \<Longrightarrow> to_digit 16 (hex_digit u d) = Some d"
  by (auto simp: to_digit_def hex_digit_def)

lemma digits_value_append:
  "digits_value r l a (s @ t) = Option.bind (digits_value r l a s) (\<lambda>b. digits_value r l b t)"
  by (induction r l a s rule: digits_value.induct) (auto split: option.splits)

lemma digits_value_fmt_hex:
  "v < 16 ^ n \<Longrightarrow> v \<le> l \<Longrightarrow> digits_value 16 l 0 (fmt_hex u n v) = Some v"
proof (induction n arbitrary: v)
  case 0
  then show ?case by simp
next
  case (Suc n)
  then have "v div 16 < 16 ^ n" and "v div 16 \<le> l"
    by (auto simp: less_mult_imp_div_less)
  with Suc show ?case
    by (simp add: digits_value_append to_digit_hex_digit)
qed

lemma parse_uint_fmt_hex:
  assumes "v < 16 ^ n" and "v \<le> l" and "0 < n"
  shows "parse_uint 16 l (fmt_hex u n v) = Some v"
proof -
  obtain c cs where c: "fmt_hex u n v = c # cs"
    using assms(3) length_fmt_hex [of u n v] by (cases "fmt_hex u n v") auto
  then have "c \<noteq> 43" and "c \<noteq> 45"
    using set_fmt_hex [of c u n v] by auto
  then show ?thesis
    using digits_value_fmt_hex [OF assms(1,2), of u] c by (simp add: parse_uint_def)
qed

section \<open>UTF-16\<close>

definition encode_utf16_char :: "nat \<Rightarrow> u16 list" where
  "encode_utf16_char c =
     (if c < 0x10000 then [of_nat c]
      else [of_nat (0xD800 + (c - 0x10000) div 0x400), of_nat (0xDC00 + (c - 0x10000) mod 0x400)])"

definition encode_utf16 :: "rust_str \<Rightarrow> u16 list" where
  "encode_utf16 s = concat (map encode_utf16_char s)"

text \<open>
  \<open>String::from_utf16_lossy\<close>: a surrogate that is not the first half of a pair becomes
  U+FFFD, and the unit after it is read again.
\<close>

fun from_utf16_lossy :: "u16 list \<Rightarrow> rust_str" where
  "from_utf16_lossy [] = []"
| "from_utf16_lossy [u] = (if 0xD800 \<le> u \<and> u \<le> 0xDFFF then [0xFFFD] else [unat u])"
| "from_utf16_lossy (u # v # us) =
     (if u < 0xD800 \<or> 0xDFFF < u then unat u # from_utf16_lossy (v # us)
      else if 0xDC00 \<le> u then 0xFFFD # from_utf16_lossy (v # us)
      else if v < 0xDC00 \<or> 0xDFFF < v then 0xFFFD # from_utf16_lossy (v # us)
      else (0x10000 + (unat u - 0xD800) * 0x400 + (unat v - 0xDC00)) # from_utf16_lossy us)"

lemma from_utf16_lossy_char:
  assumes "is_scalar c"
  shows "from_utf16_lossy (encode_utf16_char c @ us) = c # from_utf16_lossy us"
proof (cases "c < 0x10000")
  case True
  then have c: "unat (of_nat c :: u16) = c"
    by (simp add: unat_of_nat)
  with True assms have "(of_nat c :: u16) < 0xD800 \<or> 0xDFFF < (of_nat c :: u16)"
    by (simp add: is_scalar_def word_less_nat_alt c) linarith
  with True c show ?thesis
    by (cases us) (auto simp: encode_utf16_char_def)
next
  case False
  define d where "d = c - 0x10000"
  have d: "d < 0x100000" "c = 0x10000 + d"
    using False assms by (auto simp: d_def is_scalar_def)
  have q: "d div 0x400 < 0x400" and m: "d mod 0x400 < 0x400"
    using d by (simp_all add: less_mult_imp_div_less)
  have hi: "unat (of_nat (0xD800 + d div 0x400) :: u16) = 0xD800 + d div 0x400"
    by (simp only: unat_of_nat) (use q in simp)
  have lo: "unat (of_nat (0xDC00 + d mod 0x400) :: u16) = 0xDC00 + d mod 0x400"
    by (simp only: unat_of_nat) simp
  show ?thesis
    using False d hi lo q m
    by (simp add: encode_utf16_char_def d_def [symmetric] word_less_nat_alt word_le_nat_alt)
qed

lemma from_utf16_lossy_encode:
  "\<forall>c \<in> set s. is_scalar c \<Longrightarrow> from_utf16_lossy (encode_utf16 s) = s"
proof -
  have "\<forall>c \<in> set s. is_scalar c \<Longrightarrow>
      from_utf16_lossy (concat (map encode_utf16_char s) @ []) = s"
    by (induction s) (simp_all only: list.map concat.simps append_assoc from_utf16_lossy_char
        list.set ball_simps insert_iff, simp_all add: from_utf16_lossy_char)
  then show "\<forall>c \<in> set s. is_scalar c \<Longrightarrow> from_utf16_lossy (encode_utf16 s) = s"
    by (simp add: encode_utf16_def)
qed

section \<open>Integer helpers\<close>

text \<open>\<open>div_ceil\<close> as the standard library computes it: the quotient, plus one for a remainder.\<close>

definition div_ceil :: "'a::len word \<Rightarrow> 'a word \<Rightarrow> 'a word" where
  "div_ceil a b = (if 0 < a mod b then a div b + 1 else a div b)"

definition checked_add :: "'a::len word \<Rightarrow> 'a word \<Rightarrow> 'a word option" where
  "checked_add a b = (if unat a + unat b < 2 ^ LENGTH('a) then Some (a + b) else None)"

definition checked_sub :: "'a::len word \<Rightarrow> 'a word \<Rightarrow> 'a word option" where
  "checked_sub a b = (if b \<le> a then Some (a - b) else None)"

definition checked_mul :: "'a::len word \<Rightarrow> 'a word \<Rightarrow> 'a word option" where
  "checked_mul a b = (if unat a * unat b < 2 ^ LENGTH('a) then Some (a * b) else None)"

definition saturating_sub :: "'a::len word \<Rightarrow> 'a word \<Rightarrow> 'a word" where
  "saturating_sub a b = (if b \<le> a then a - b else 0)"

definition saturating_add :: "'a::len word \<Rightarrow> 'a word \<Rightarrow> 'a word" where
  "saturating_add a b = (if unat a + unat b < 2 ^ LENGTH('a) then a + b else - 1)"

lemma unat_div_ceil:
  assumes "0 < b"
  shows "unat (div_ceil a b) = (unat a + unat b - 1) div unat b"
proof (cases "unat a mod unat b = 0")
  case True
  then obtain k where k: "unat a = unat b * k"
    by (auto simp: mod_eq_0_iff_dvd elim: dvdE)
  have b: "0 < unat b"
    using assms by (simp add: word_less_nat_alt)
  then have "(unat b * k + unat b - 1) div unat b = (unat b * k + (unat b - 1)) div unat b"
    by simp
  also have "\<dots> = k"
    using b by (subst div_mult_self4) auto
  finally show ?thesis
    using True k b
    by (simp add: div_ceil_def word_less_nat_alt unat_mod unat_div)
next
  case False
  define q r where "q = unat a div unat b" and "r = unat a mod unat b"
  have b: "0 < unat b" and r: "0 < r" "r < unat b" and a: "unat a = unat b * q + r"
    using assms False by (auto simp: q_def r_def word_less_nat_alt)
  have "q < unat a"
    using a r b by (cases "unat b") (auto simp: r_def)
  then have "q + 1 < 2 ^ LENGTH('a)"
    using unsigned_less [of a] by (metis Suc_eq_plus1 Suc_leI le_less_trans)
  then have "unat (a div b + 1) = q + 1"
    by (simp add: unat_word_ariths unat_div q_def)
  moreover have "(unat a + unat b - 1) div unat b = ((r - 1) + unat b * (q + 1)) div unat b"
    using a r by (simp add: algebra_simps)
  moreover have "\<dots> = q + 1"
    using b r by (subst div_mult_self2) auto
  ultimately show ?thesis
    using r by (simp add: div_ceil_def word_less_nat_alt unat_mod r_def)
qed

definition is_power_of_two :: "nat \<Rightarrow> bool" where
  "is_power_of_two n \<longleftrightarrow> 0 < n \<and> n AND (n - 1) = 0"

section \<open>Bytes to text\<close>

text \<open>
  Decoding as \<open>std::str::from_utf8\<close> and \<open>String::from_utf8_lossy\<close> do it: a lead byte says how
  many continuation bytes follow, in which range the first of them lies and which bits it gives;
  the longest prefix that could still have become a character is one error.
\<close>

definition utf8_lead :: "nat \<Rightarrow> (nat \<times> nat \<times> nat \<times> nat) option" where
  "utf8_lead n =
     (if n < 0x80 then Some (0, 0x80, 0xBF, n)
      else if n < 0xC2 then None
      else if n < 0xE0 then Some (1, 0x80, 0xBF, n - 0xC0)
      else if n < 0xF0 then
        Some (2, if n = 0xE0 then 0xA0 else 0x80, if n = 0xED then 0x9F else 0xBF, n - 0xE0)
      else if n < 0xF5 then
        Some (3, if n = 0xF0 then 0x90 else 0x80, if n = 0xF4 then 0x8F else 0xBF, n - 0xF0)
      else None)"

fun utf8_cont :: "nat \<Rightarrow> nat \<Rightarrow> nat \<Rightarrow> nat \<Rightarrow> bytes \<Rightarrow> nat option \<times> bytes" where
  "utf8_cont 0 lo hi acc bs = (Some acc, bs)"
| "utf8_cont (Suc k) lo hi acc [] = (None, [])"
| "utf8_cont (Suc k) lo hi acc (b # bs) =
     (if lo \<le> unat b \<and> unat b \<le> hi
      then utf8_cont k 0x80 0xBF (acc * 0x40 + (unat b - 0x80)) bs
      else (None, b # bs))"

definition utf8_item :: "u8 \<Rightarrow> bytes \<Rightarrow> nat option \<times> bytes" where
  "utf8_item b bs =
     (case utf8_lead (unat b) of
        None \<Rightarrow> (None, bs)
      | Some (k, lo, hi, v) \<Rightarrow> utf8_cont k lo hi v bs)"

lemma utf8_cont_length: "length (snd (utf8_cont k lo hi acc bs)) \<le> length bs"
  by (induction k lo hi acc bs rule: utf8_cont.induct) auto

lemma utf8_item_length: "length (snd (utf8_item b bs)) \<le> length bs"
  by (simp add: utf8_item_def utf8_cont_length split: option.splits prod.splits)

function utf8_items :: "bytes \<Rightarrow> nat option list" where
  "utf8_items [] = []"
| "utf8_items (b # bs) = fst (utf8_item b bs) # utf8_items (snd (utf8_item b bs))"
  by pat_completeness auto
termination
  by (relation "measure length") (simp_all add: utf8_item_length le_imp_less_Suc)

definition from_utf8 :: "bytes \<Rightarrow> rust_str option" where
  "from_utf8 bs = (let is = utf8_items bs in
     if None \<in> set is then None else Some (map the is))"

fun or_replacement :: "nat option \<Rightarrow> nat" where
  "or_replacement None = 0xFFFD"
| "or_replacement (Some c) = c"

definition from_utf8_lossy :: "bytes \<Rightarrow> rust_str" where
  "from_utf8_lossy bs = map or_replacement (utf8_items bs)"

lemma utf8_items_code:
  "utf8_items bs = (case bs of [] \<Rightarrow> []
     | b # bs \<Rightarrow> (case utf8_item b bs of (i, r) \<Rightarrow> i # utf8_items r))"
  by (auto split: list.splits prod.splits)

declare utf8_items.simps [code del] utf8_items_code [code]

lemma utf8_cont_ok: "lo \<le> unat b \<Longrightarrow> unat b \<le> hi
  \<Longrightarrow> utf8_cont (Suc k) lo hi acc (b # bs) = utf8_cont k 0x80 0xBF (acc * 0x40 + (unat b - 0x80)) bs"
  by simp

lemma utf8_item_char:
  assumes "is_scalar c"
  shows "\<exists>b bs. utf8_char c = b # bs \<and> utf8_item b (bs @ r) = (Some c, r)"
proof -
  have b: "unat (of_nat (0x80 + n mod 0x40) :: u8) = 0x80 + n mod 0x40" for n :: nat
    using mod_64_bound [of n] by (intro unat_of_nat_u8) linarith
  have m: "n mod 0x40 \<le> 0x3F" for n :: nat
    using mod_64_bound [of n] by linarith
  define y z w :: u8 where "y = of_nat (0x80 + c mod 0x40)"
    and "z = of_nat (0x80 + c div 0x40 mod 0x40)" and "w = of_nat (0x80 + c div 0x1000 mod 0x40)"
  have y: "unat y = 0x80 + c mod 0x40" and z: "unat z = 0x80 + c div 0x40 mod 0x40"
    and w: "unat w = 0x80 + c div 0x1000 mod 0x40"
    using b by (simp_all only: y_def z_def w_def)
  consider "c < 0x80" | "0x80 \<le> c" "c < 0x800" | "0x800 \<le> c" "c < 0x10000" | "0x10000 \<le> c"
    by linarith
  then show ?thesis
  proof cases
    case 1
    then show ?thesis
      by (simp add: utf8_char_def utf8_item_def utf8_lead_def unat_of_nat_u8)
  next
    case 2
    define x :: u8 where "x = of_nat (0xC0 + c div 0x40)"
    have q: "c div 0x40 < 0x20" "2 \<le> c div 0x40" using 2 by linarith+
    then have x: "unat x = 0xC0 + c div 0x40"
      unfolding x_def by (intro unat_of_nat_u8) linarith
    have "utf8_lead (unat x) = Some (Suc 0, 0x80, 0xBF, c div 0x40)"
      using q by (simp add: utf8_lead_def x)
    moreover have "utf8_char c = [x, y]" using 2 by (simp add: utf8_char_def x_def y_def)
    ultimately show ?thesis
      using m [of c] div_mult_mod_eq [of c "0x40"] by (simp add: utf8_item_def y)
  next
    case 3
    define x :: u8 where "x = of_nat (0xE0 + c div 0x1000)"
    have q: "c div 0x1000 < 0x10" using 3 by linarith
    then have x: "unat x = 0xE0 + c div 0x1000"
      unfolding x_def by (intro unat_of_nat_u8) linarith
    define lo hi :: nat where "lo = (if unat x = 0xE0 then 0xA0 else 0x80)"
      and "hi = (if unat x = 0xED then 0x9F else 0xBF)"
    have l: "utf8_lead (unat x) = Some (Suc (Suc 0), lo, hi, c div 0x1000)"
      using q by (simp add: utf8_lead_def x lo_def hi_def)
    have "lo \<le> unat z"
      using 3 split_64 [of c] by (auto simp: lo_def x z)
    moreover have "unat z \<le> hi"
      using assms m [of "c div 0x40"] split_64 [of c] by (auto simp: hi_def x z is_scalar_def)
    moreover have "utf8_char c = [x, z, y]" using 3 by (simp add: utf8_char_def x_def y_def z_def)
    moreover have "(c div 0x1000 * 0x40 + c div 0x40 mod 0x40) * 0x40 + c mod 0x40 = c"
      using div_mult_mod_eq [of c "0x40"] split_64 [of c] by simp
    ultimately show ?thesis
      using m [of c] l by (simp add: utf8_item_def) (simp add: y z)
  next
    case 4
    define x :: u8 where "x = of_nat (0xF0 + c div 0x40000)"
    have q: "c div 0x40000 < 5" using assms by (auto simp: is_scalar_def)
    then have x: "unat x = 0xF0 + c div 0x40000"
      unfolding x_def by (intro unat_of_nat_u8) linarith
    define lo hi :: nat where "lo = (if unat x = 0xF0 then 0x90 else 0x80)"
      and "hi = (if unat x = 0xF4 then 0x8F else 0xBF)"
    have l: "utf8_lead (unat x) = Some (Suc (Suc (Suc 0)), lo, hi, c div 0x40000)"
      using q by (simp add: utf8_lead_def x lo_def hi_def)
    have "lo \<le> unat w"
      using 4 split_4096 [of c] by (auto simp: lo_def x w)
    moreover have "unat w \<le> hi"
      using assms m [of "c div 0x1000"] split_4096 [of c] by (auto simp: hi_def x w is_scalar_def)
    moreover have "utf8_char c = [x, w, z, y]"
      using 4 by (simp add: utf8_char_def x_def y_def z_def w_def)
    moreover have "((c div 0x40000 * 0x40 + c div 0x1000 mod 0x40) * 0x40 + c div 0x40 mod 0x40) * 0x40
        + c mod 0x40 = c"
      using div_mult_mod_eq [of c "0x40"] split_64 [of c] split_4096 [of c] by simp
    ultimately show ?thesis
      using m [of c] m [of "c div 0x40"] l by (simp add: utf8_item_def) (simp add: y z w)
  qed
qed

lemma utf8_items_utf8: "valid_str s \<Longrightarrow> utf8_items (utf8 s) = map Some s"
proof (induction s)
  case (Cons c s)
  then obtain b bs where "utf8_char c = b # bs" "utf8_item b (bs @ utf8 s) = (Some c, utf8 s)"
    using utf8_item_char [of c "utf8 s"] by (auto simp: valid_str_def)
  with Cons show ?case by (simp add: valid_str_def)
qed simp

lemma from_utf8_utf8: "valid_str s \<Longrightarrow> from_utf8 (utf8 s) = Some s"
  by (simp add: from_utf8_def utf8_items_utf8 o_def image_iff)

lemma from_utf8_lossy_utf8: "valid_str s \<Longrightarrow> from_utf8_lossy (utf8 s) = s"
  by (simp add: from_utf8_lossy_def utf8_items_utf8 o_def)

lemma utf8_items_ascii: "\<forall>b \<in> set bs. unat b < 0x80 \<Longrightarrow> utf8_items bs = map (\<lambda>b. Some (unat b)) bs"
  by (induction bs) (simp_all add: utf8_item_def utf8_lead_def)

lemma from_utf8_ascii: "\<forall>b \<in> set bs. unat b < 0x80 \<Longrightarrow> from_utf8 bs = Some (map unat bs)"
  by (simp add: from_utf8_def utf8_items_ascii o_def image_iff)

lemma from_utf8_lossy_ascii: "\<forall>b \<in> set bs. unat b < 0x80 \<Longrightarrow> from_utf8_lossy bs = map unat bs"
  by (simp add: from_utf8_lossy_def utf8_items_ascii o_def)

text \<open>A lossy view equals an ASCII text only when the bytes are that text.\<close>

lemma utf8_cont_value: "utf8_cont k lo hi acc bs = (Some c, r) \<Longrightarrow> acc * 0x40 ^ k \<le> c"
proof (induction k lo hi acc bs rule: utf8_cont.induct)
  case (3 k lo hi acc b bs)
  then have "(acc * 0x40 + (unat b - 0x80)) * 0x40 ^ k \<le> c"
    by (simp split: if_splits)
  moreover have "acc * 0x40 * 0x40 ^ k \<le> (acc * 0x40 + (unat b - 0x80)) * 0x40 ^ k"
    by (intro mult_le_mono1) simp
  ultimately show ?case by (simp add: mult.assoc) (simp add: algebra_simps)
qed simp_all


lemma utf8_cont_lower: "utf8_cont (Suc k) lo hi acc bs = (Some c, r)
  \<Longrightarrow> (acc * 0x40 + (lo - 0x80)) * 0x40 ^ k \<le> c"
proof (cases bs)
  case (Cons b bs')
  assume "utf8_cont (Suc k) lo hi acc bs = (Some c, r)"
  then have "lo \<le> unat b" and "utf8_cont k 0x80 0xBF (acc * 0x40 + (unat b - 0x80)) bs' = (Some c, r)"
    using Cons by (auto split: if_splits)
  then have "(acc * 0x40 + (unat b - 0x80)) * 0x40 ^ k \<le> c"
    using utf8_cont_value by blast
  moreover have "(acc * 0x40 + (lo - 0x80)) * 0x40 ^ k \<le> (acc * 0x40 + (unat b - 0x80)) * 0x40 ^ k"
    using \<open>lo \<le> unat b\<close> by (intro mult_le_mono1) linarith
  ultimately show ?thesis by linarith
qed simp

lemma utf8_item_ascii:
  assumes "utf8_item b bs = (Some c, r)" and "c < 0x80"
  shows "unat b = c \<and> r = bs"
proof -
  obtain k lo hi v where l: "utf8_lead (unat b) = Some (k, lo, hi, v)"
    and t: "utf8_cont k lo hi v bs = (Some c, r)"
    using assms(1) by (auto simp: utf8_item_def split: option.splits prod.splits)
  show ?thesis
  proof (cases k)
    case 0
    then have "unat b = v"
      using l by (auto simp: utf8_lead_def split: if_splits)
    with t 0 show ?thesis by simp
  next
    case (Suc j)
    have "0x80 \<le> (v * 0x40 + (lo - 0x80)) * 0x40 ^ j"
      using l Suc by (auto simp: utf8_lead_def split: if_splits)
    with utf8_cont_lower [of j lo hi v bs c r] t Suc assms(2) show ?thesis by simp
  qed
qed

lemma from_utf8_lossy_eq_ascii:
  "from_utf8_lossy bs = s \<Longrightarrow> \<forall>c \<in> set s. c < 0x80 \<Longrightarrow> map unat bs = s"
proof (induction s arbitrary: bs)
  case Nil
  then show ?case by (cases bs) (simp_all add: from_utf8_lossy_def)
next
  case (Cons c s)
  then obtain b bs' where bs: "bs = b # bs'"
    by (cases bs) (simp_all add: from_utf8_lossy_def)
  obtain i r where i: "utf8_item b bs' = (i, r)"
    by fastforce
  have "i = Some c"
    using Cons.prems bs i by (cases i) (simp_all add: from_utf8_lossy_def)
  then have "unat b = c" "r = bs'"
    using utf8_item_ascii i Cons.prems(2) by auto
  moreover have "from_utf8_lossy bs' = s"
    using Cons.prems(1) bs i \<open>r = bs'\<close> by (simp add: from_utf8_lossy_def)
  ultimately show ?case
    using Cons.IH Cons.prems(2) bs by simp
qed

text \<open>\<open>Display\<close> of unsigned and signed integers.\<close>

fun fmt_dec :: "nat \<Rightarrow> rust_str" where
  "fmt_dec n = (if n < 10 then [48 + n] else fmt_dec (n div 10) @ [48 + n mod 10])"

declare fmt_dec.simps [simp del]

definition fmt_int :: "int \<Rightarrow> rust_str" where
  "fmt_int i = (if i < 0 then 45 # fmt_dec (nat (- i)) else fmt_dec (nat i))"

lemma fmt_dec_digits: "c \<in> set (fmt_dec n) \<Longrightarrow> 48 \<le> c \<and> c \<le> 57"
proof (induction n rule: fmt_dec.induct)
  case (1 n)
  have "n mod 10 \<le> 9" by simp
  with 1 show ?case by (subst (asm) (2) fmt_dec.simps) (auto split: if_splits)
qed

lemma fmt_dec_nonempty [simp]: "fmt_dec n \<noteq> []"
  by (subst fmt_dec.simps) simp

lemma to_digit_dec: "d < 10 \<Longrightarrow> to_digit 10 (48 + d) = Some d"
  by (simp add: to_digit_def)

lemma digits_value_fmt_dec: "n \<le> l \<Longrightarrow> digits_value 10 l 0 (fmt_dec n) = Some n"
proof (induction n rule: fmt_dec.induct)
  case (1 n)
  show ?case
  proof (cases "n < 10")
    case True
    with 1 show ?thesis by (subst fmt_dec.simps) (simp add: to_digit_dec)
  next
    case False
    have "digits_value 10 l 0 (fmt_dec (n div 10)) = Some (n div 10)"
      using 1 False by simp
    moreover have "n mod 10 < 10" "n div 10 * 10 + n mod 10 = n" by simp_all
    ultimately show ?thesis
      using False 1 by (subst fmt_dec.simps) (simp add: digits_value_append to_digit_dec)
  qed
qed

lemma fmt_dec_no_sign: "fmt_dec n = c # cs \<Longrightarrow> c \<noteq> 43 \<and> c \<noteq> 45"
  using fmt_dec_digits [of c n] by auto

lemma parse_uint_fmt_dec: "n \<le> l \<Longrightarrow> parse_uint 10 l (fmt_dec n) = Some n"
  using digits_value_fmt_dec [of n l] fmt_dec_no_sign [of n]
  by (cases "fmt_dec n") (simp_all add: parse_uint_def)

lemma parse_sint_fmt_int:
  "- int l - 1 \<le> i \<Longrightarrow> i \<le> int l \<Longrightarrow> parse_sint 10 l (fmt_int i) = Some i"
  using digits_value_fmt_dec [of "nat i" l] digits_value_fmt_dec [of "nat (- i)" "Suc l"]
    fmt_dec_no_sign [of "nat i"]
  by (cases "fmt_dec (nat i)") (auto simp: parse_sint_def fmt_int_def simp del: digits_value.simps)

end
