(* ===== verification/Gpt_Guid.thy ===== *)
theory Gpt_Guid
  imports RustStd
begin

text \<open>
  GUIDs as GPT stores them (\<open>src/uu/part/src/gpt/guid.rs\<close>) and the partition type names
  (\<open>src/uu/part/src/types.rs\<close>). A GUID is its 16 bytes on disk, where the first three
  groups of the text are little-endian and the last two are as written.
\<close>

type_synonym guid = bytes

definition guid_wf :: "guid \<Rightarrow> bool" where
  "guid_wf g \<longleftrightarrow> length g = 16"

definition guid_zero :: guid where
  "guid_zero = replicate 16 0"

definition guid_is_zero :: "guid \<Rightarrow> bool" where
  "guid_is_zero g \<longleftrightarrow> g = replicate 16 0"

definition guid_from_bytes :: "bytes \<Rightarrow> guid option" where
  "guid_from_bytes b = (if length b < 16 then None else Some (take 16 b))"

text \<open>\<open>hex_into\<close> fills a slice of \<open>n\<close> bytes: the filled slice, or \<open>None\<close>.\<close>

definition hex_into :: "rust_str \<Rightarrow> nat \<Rightarrow> bytes option" where
  "hex_into s n =
     (if str_len s \<noteq> n * 2 then None
      else those (map (\<lambda>i. Option.bind (str_get (i * 2) (i * 2 + 2) s)
                          (\<lambda>t. map_option of_nat (parse_uint 16 255 t))) [0..<n]))"

definition strip_braces :: "rust_str \<Rightarrow> rust_str" where
  "strip_braces s =
     (case Option.bind (strip_prefix (lit ''{'') s) (strip_suffix (lit ''}'')) of
        None \<Rightarrow> s | Some t \<Rightarrow> t)"

definition guid_parse :: "rust_str \<Rightarrow> guid option" where
  "guid_parse s0 =
     (let s = strip_braces (trim s0);
          f = split_on (of_char CHR ''-'') s
      in if length f \<noteq> 5 \<or> str_len (f ! 0) \<noteq> 8 \<or> str_len (f ! 1) \<noteq> 4
            \<or> str_len (f ! 2) \<noteq> 4 \<or> str_len (f ! 3) \<noteq> 4 \<or> str_len (f ! 4) \<noteq> 12
         then None
         else do {
           d1 \<leftarrow> parse_uint 16 (2 ^ 32 - 1) (f ! 0);
           d2 \<leftarrow> parse_uint 16 (2 ^ 16 - 1) (f ! 1);
           d3 \<leftarrow> parse_uint 16 (2 ^ 16 - 1) (f ! 2);
           a \<leftarrow> hex_into (f ! 3) 2;
           b \<leftarrow> hex_into (f ! 4) 6;
           Some (to_le 4 (of_nat d1 :: u32) @ to_le 2 (of_nat d2 :: u16)
                 @ to_le 2 (of_nat d3 :: u16) @ a @ b)
         })"

text \<open>\<open>random\<close>, over the 16 bytes the generator filled in.\<close>

definition guid_random :: "bytes \<Rightarrow> guid" where
  "guid_random b = b[7 := (b ! 7 AND 0x0f) OR 0x40, 8 := (b ! 8 AND 0x3f) OR 0x80]"

definition guid_display :: "guid \<Rightarrow> rust_str" where
  "guid_display b =
     fmt_hex True 8 (unat (from_le (subslice 0 4 b) :: u32)) @ lit ''-''
     @ fmt_hex True 4 (unat (from_le (subslice 4 6 b) :: u16)) @ lit ''-''
     @ fmt_hex True 4 (unat (from_le (subslice 6 8 b) :: u16)) @ lit ''-''
     @ concat (map (\<lambda>x. fmt_hex True 2 (unat x)) (subslice 8 10 b)) @ lit ''-''
     @ concat (map (\<lambda>x. fmt_hex True 2 (unat x)) (subslice 10 16 b))"

section \<open>Type names\<close>

definition esp_guid :: rust_str where
  "esp_guid = lit ''C12A7328-F81F-11D2-BA4B-00A0C93EC93B''"
definition linux_guid :: rust_str where
  "linux_guid = lit ''0FC63DAF-8483-4772-8E79-3D69D8477DE4''"
definition swap_guid :: rust_str where
  "swap_guid = lit ''0657FD6D-A4AB-43C4-84E5-0933C84B4F4F''"
definition msdata_guid :: rust_str where
  "msdata_guid = lit ''EBD0A0A2-B9E5-4433-87C0-68B6B72699C7''"

definition type_aliases :: "(rust_str \<times> rust_str \<times> rust_str) list" where
  "type_aliases =
     [(lit ''esp'', esp_guid, lit ''EFI system partition''),
      (lit ''linux'', linux_guid, lit ''Linux filesystem data''),
      (lit ''swap'', swap_guid, lit ''Linux swap''),
      (lit ''msdata'', msdata_guid, lit ''Microsoft basic data'')]"

definition eq_ignore_ascii_case :: "rust_str \<Rightarrow> rust_str \<Rightarrow> bool" where
  "eq_ignore_ascii_case s t \<longleftrightarrow> to_ascii_lowercase s = to_ascii_lowercase t"

definition resolve_type :: "rust_str \<Rightarrow> guid option" where
  "resolve_type spec =
     (case find (\<lambda>(a, _, _). a = to_ascii_lowercase spec) type_aliases of
        Some (_, g, _) \<Rightarrow> guid_parse g
      | None \<Rightarrow> guid_parse spec)"

definition lookup_type :: "guid \<Rightarrow> (rust_str \<times> rust_str \<times> rust_str) option" where
  "lookup_type g = find (\<lambda>(_, t, _). eq_ignore_ascii_case t (guid_display g)) type_aliases"

definition describe_type :: "guid \<Rightarrow> rust_str option" where
  "describe_type g = map_option (\<lambda>(_, _, d). d) (lookup_type g)"

definition alias_type :: "guid \<Rightarrow> rust_str option" where
  "alias_type g = map_option (\<lambda>(a, _, _). a) (lookup_type g)"

section \<open>Bytes\<close>

lemma guid_from_bytes_append: "guid_wf g \<Longrightarrow> guid_from_bytes (g @ r) = Some g"
  by (simp add: guid_wf_def guid_from_bytes_def)

lemma guid_from_bytes_wf: "guid_from_bytes b = Some g \<Longrightarrow> guid_wf g"
  by (auto simp: guid_wf_def guid_from_bytes_def split: if_splits)

interpretation guid_codec: fixed_codec "\<lambda>g. g" guid_from_bytes 16 guid_wf
  by unfold_locales (simp_all add: guid_from_bytes_def guid_wf_def)

section \<open>The text form\<close>

lemma concat_hex_subslice:
  "i < length xs \<Longrightarrow>
   subslice (i * 2) (i * 2 + 2) (concat (map (\<lambda>x. fmt_hex True 2 (unat x)) xs))
     = fmt_hex True 2 (unat ((xs :: bytes) ! i))"
proof (induction xs arbitrary: i)
  case (Cons x xs)
  show ?case
  proof (cases i)
    case 0
    then show ?thesis by (simp add: subslice_def numeral_2_eq_2)
  next
    case (Suc j)
    with Cons show ?thesis by (simp add: subslice_def numeral_2_eq_2)
  qed
qed simp

lemma length_concat_hex: "length (concat (map (\<lambda>x. fmt_hex True 2 (unat x)) xs)) = length xs * 2"
  by (induction xs) auto

lemma ascii_concat_hex: "c \<in> set (concat (map (\<lambda>x. fmt_hex True 2 (unat x)) xs)) \<Longrightarrow> c < 128"
  by (auto dest: set_fmt_hex)

lemma those_map_Some: "(\<And>x. x \<in> set xs \<Longrightarrow> f x = Some (g x)) \<Longrightarrow> those (map f xs) = Some (map g xs)"
  by (induction xs) auto

lemma hex_into_concat:
  "length xs = n \<Longrightarrow> hex_into (concat (map (\<lambda>x. fmt_hex True 2 (unat x)) xs)) n = Some xs"
proof -
  assume n: "length xs = n"
  let ?s = "concat (map (\<lambda>x. fmt_hex True 2 (unat x)) xs)"
  have len: "str_len ?s = n * 2" and l: "length ?s = n * 2"
    using n by (simp_all add: str_len_ascii ascii_concat_hex length_concat_hex
        del: set_concat set_map)
  have "Option.bind (str_get (i * 2) (i * 2 + 2) ?s) (\<lambda>t. map_option of_nat (parse_uint 16 255 t))
      = Some (xs ! i)" if "i \<in> set [0..<n]" for i
  proof -
    have "str_get (i * 2) (i * 2 + 2) ?s = Some (fmt_hex True 2 (unat (xs ! i)))"
      using that n l concat_hex_subslice [of i xs] by (subst str_get_ascii)
        (auto simp del: set_concat set_map intro: ascii_concat_hex)
    moreover have "parse_uint 16 255 (fmt_hex True 2 (unat (xs ! i))) = Some (unat (xs ! i))"
      using unsigned_less [of "xs ! i", where ?'a = nat] by (intro parse_uint_fmt_hex) auto
    ultimately show ?thesis by simp
  qed
  then have "those (map (\<lambda>i. Option.bind (str_get (i * 2) (i * 2 + 2) ?s)
      (\<lambda>t. map_option of_nat (parse_uint 16 255 t))) [0..<n]) = Some (map ((!) xs) [0..<n])"
    by (rule those_map_Some)
  moreover have "map ((!) xs) [0..<n] = xs"
    using n by (auto simp: map_nth)
  ultimately show ?thesis using len by (simp add: hex_into_def)
qed

lemma guid_display_chars:
  "c \<in> set (guid_display g) \<Longrightarrow>
     (48 \<le> c \<and> c \<le> 57) \<or> (65 \<le> c \<and> c \<le> 70) \<or> (97 \<le> c \<and> c \<le> 102) \<or> c = 45"
  by (auto simp: guid_display_def lit_def dest: set_fmt_hex)

lemma fmt_hex_no_dash: "45 \<notin> set (fmt_hex u n v)"
  using set_fmt_hex [of 45 u n v] by auto

lemma guid_display_ends: "guid_display g \<noteq> []"
  by (simp add: guid_display_def lit_def)

lemma trim_guid_display: "trim (guid_display g) = guid_display g"
  using guid_display_chars [of "hd (guid_display g)" g] guid_display_chars [of "last (guid_display g)" g]
    hd_in_set [OF guid_display_ends] last_in_set [OF guid_display_ends]
  unfolding trim_def by (intro trim_with_id) (auto simp: is_whitespace_def)

lemma strip_braces_guid_display: "strip_braces (guid_display g) = guid_display g"
proof -
  have "hd (guid_display g) \<noteq> 123"
    using guid_display_chars [of "hd (guid_display g)" g] hd_in_set [OF guid_display_ends] by auto
  then have "strip_prefix (lit ''{'') (guid_display g) = None"
    using guid_display_ends [of g]
    by (cases "guid_display g") (auto simp: strip_prefix_def lit_def)
  then show ?thesis by (simp add: strip_braces_def)
qed

lemma strip_braces_braced: "strip_braces (lit ''{'' @ s @ lit ''}'') = s"
  by (simp add: strip_braces_def strip_prefix_def strip_suffix_def lit_def)

lemma split_guid_display:
  "split_on 45 (guid_display g) =
     [fmt_hex True 8 (unat (from_le (subslice 0 4 g) :: u32)),
      fmt_hex True 4 (unat (from_le (subslice 4 6 g) :: u16)),
      fmt_hex True 4 (unat (from_le (subslice 6 8 g) :: u16)),
      concat (map (\<lambda>x. fmt_hex True 2 (unat x)) (subslice 8 10 g)),
      concat (map (\<lambda>x. fmt_hex True 2 (unat x)) (subslice 10 16 g))]"
  using fmt_hex_no_dash
  by (simp add: guid_display_def lit_def split_on_append_sep split_on_no_sep)

lemma unat_u16_bound: "unat (w :: u16) \<le> 65535"
  using unsigned_less [of w, where ?'a = nat] by simp

lemma unat_u32_bound: "unat (w :: u32) \<le> 4294967295"
  using unsigned_less [of w, where ?'a = nat] by simp

lemma str_len_fmt_hex: "str_len (fmt_hex u n v) = n"
  using set_fmt_hex [of _ u n v] by (subst str_len_ascii) fastforce+

lemma guid_pieces:
  "guid_wf g \<Longrightarrow>
     subslice 0 4 g @ subslice 4 6 g @ subslice 6 8 g @ subslice 8 10 g @ subslice 10 16 g = g"
proof -
  assume "guid_wf g"
  then have "length g = 16" by (simp add: guid_wf_def)
  moreover have "take 4 g @ take 2 (drop 4 g) @ take 2 (drop 6 g) @ take 2 (drop 8 g)
      @ take 6 (drop 10 g) = take 16 g"
    using take_add [of 4 12 g] take_add [of 2 10 "drop 4 g"] take_add [of 2 8 "drop 6 g"]
      take_add [of 2 6 "drop 8 g"] by simp
  ultimately show ?thesis by (simp add: subslice_def)
qed

lemma guid_parse_stripped:
  assumes "guid_wf g" and "strip_braces (trim s) = guid_display g"
  shows "guid_parse s = Some g"
proof -
  have len: "length g = 16" using assms(1) by (simp add: guid_wf_def)
  have a: "to_le 4 (from_le (subslice 0 4 g) :: u32) = subslice 0 4 g"
    using to_le_from_le [of "subslice 0 4 g", where 'a = 32] len by simp
  have b: "to_le 2 (from_le (subslice 4 6 g) :: u16) = subslice 4 6 g"
    using to_le_from_le [of "subslice 4 6 g", where 'a = 16] len by simp
  have c: "to_le 2 (from_le (subslice 6 8 g) :: u16) = subslice 6 8 g"
    using to_le_from_le [of "subslice 6 8 g", where 'a = 16] len by simp
  have l: "str_len (concat (map (\<lambda>x. fmt_hex True 2 (unat x)) xs)) = 2 * length xs" for xs :: bytes
    using length_concat_hex [of xs] by (subst str_len_ascii) (auto dest: set_fmt_hex)
  show ?thesis
    using len unat_u32_bound [of "from_le (subslice 0 4 g)"]
      unat_u16_bound [of "from_le (subslice 4 6 g)"] unat_u16_bound [of "from_le (subslice 6 8 g)"]
    by (simp add: guid_parse_def Let_def assms(2) split_guid_display str_len_fmt_hex l
        parse_uint_fmt_hex hex_into_concat a b c guid_pieces [OF assms(1)])
qed

text \<open>A GUID survives the text form: printing the 16 bytes on disk and parsing the text
  gives the same bytes, in the mixed byte order, also between braces and blanks.\<close>

theorem guid_parse_display:
  assumes "guid_wf g"
  shows "guid_parse (guid_display g) = Some g
    \<and> guid_parse (lit '' {'' @ guid_display g @ lit ''} '') = Some g"
proof
  show "guid_parse (guid_display g) = Some g"
    using assms by (simp add: guid_parse_stripped trim_guid_display strip_braces_guid_display)
  have "trim (lit '' {'' @ guid_display g @ lit ''} '') = lit ''{'' @ guid_display g @ lit ''}''"
    by (simp add: trim_def trim_with_def lit_def is_whitespace_def)
  then show "guid_parse (lit '' {'' @ guid_display g @ lit ''} '') = Some g"
    using assms by (simp add: guid_parse_stripped strip_braces_braced)
qed

theorem guid_parse_display_witness:
  "guid_parse (guid_display (replicate 16 0xC1)) = Some (replicate 16 0xC1)"
  using guid_parse_display [of "replicate 16 0xC1"] by (simp add: guid_wf_def)

section \<open>Random GUIDs and type names\<close>

lemma length_guid_random [simp]: "length (guid_random b) = length b"
  by (simp add: guid_random_def)

lemma guid_random_version:
  assumes "guid_wf b"
  shows "guid_random b ! 7 AND 0xf0 = 0x40" and "guid_random b ! 8 AND 0xc0 = 0x80"
proof -
  have "guid_random b ! 7 = (b ! 7 AND 0x0f) OR 0x40" "guid_random b ! 8 = (b ! 8 AND 0x3f) OR 0x80"
    using assms by (simp_all add: guid_random_def guid_wf_def)
  then show "guid_random b ! 7 AND 0xf0 = 0x40" "guid_random b ! 8 AND 0xc0 = 0x80"
    by (simp_all add: bit.conj_disj_distrib2 bit.conj_disj_distrib and.assoc)
qed

lemma guid_random_not_zero: "guid_wf b \<Longrightarrow> \<not> guid_is_zero (guid_random b)"
proof
  assume "guid_wf b" and "guid_is_zero (guid_random b)"
  then have "guid_random b ! 7 = 0"
    by (simp add: guid_is_zero_def)
  with guid_random_version(1) [OF \<open>guid_wf b\<close>] show False by simp
qed

lemma to_ascii_lowercase_length: "length (to_ascii_lowercase s) = length s"
  by (simp add: to_ascii_lowercase_def)

lemma length_guid_display: "guid_wf g \<Longrightarrow> length (guid_display g) = 36"
  by (simp add: guid_display_def guid_wf_def lit_def length_concat_hex)

definition esp_bytes :: bytes where
  "esp_bytes = [0x28, 0x73, 0x2A, 0xC1, 0x1F, 0xF8, 0xD2, 0x11,
     0xBA, 0x4B, 0x00, 0xA0, 0xC9, 0x3E, 0xC9, 0x3B]"
definition linux_bytes :: bytes where
  "linux_bytes = [0xAF, 0x3D, 0xC6, 0x0F, 0x83, 0x84, 0x72, 0x47,
     0x8E, 0x79, 0x3D, 0x69, 0xD8, 0x47, 0x7D, 0xE4]"
definition swap_bytes :: bytes where
  "swap_bytes = [0x6D, 0xFD, 0x57, 0x06, 0xAB, 0xA4, 0xC4, 0x43,
     0x84, 0xE5, 0x09, 0x33, 0xC8, 0x4B, 0x4F, 0x4F]"
definition msdata_bytes :: bytes where
  "msdata_bytes = [0xA2, 0xA0, 0xD0, 0xEB, 0xE5, 0xB9, 0x33, 0x44,
     0x87, 0xC0, 0x68, 0xB6, 0xB7, 0x26, 0x99, 0xC7]"

text \<open>The byte forms published for the four types, checked against their text.\<close>

lemma display_alias_bytes:
  "guid_display esp_bytes = esp_guid" "guid_display linux_bytes = linux_guid"
  "guid_display swap_bytes = swap_guid" "guid_display msdata_bytes = msdata_guid"
  by (simp_all add: guid_display_def subslice_def lit_def fmt_hex_numeral hex_digit_def
      esp_bytes_def linux_bytes_def swap_bytes_def msdata_bytes_def
      esp_guid_def linux_guid_def swap_guid_def msdata_guid_def)

lemmas type_guid_defs = esp_guid_def linux_guid_def swap_guid_def msdata_guid_def

lemma alias_bytes_wf:
  "guid_wf esp_bytes" "guid_wf linux_bytes" "guid_wf swap_bytes" "guid_wf msdata_bytes"
  by (simp_all add: guid_wf_def esp_bytes_def linux_bytes_def swap_bytes_def msdata_bytes_def)

lemma guid_parse_display_plain: "guid_wf g \<Longrightarrow> guid_parse (guid_display g) = Some g"
  by (simp add: guid_parse_stripped trim_guid_display strip_braces_guid_display)

lemmas alias_parse = alias_bytes_wf [THEN guid_parse_display_plain, unfolded display_alias_bytes]

lemma resolve_aliases:
  "resolve_type (lit ''esp'') = Some esp_bytes" "resolve_type (lit ''linux'') = Some linux_bytes"
  "resolve_type (lit ''swap'') = Some swap_bytes" "resolve_type (lit ''msdata'') = Some msdata_bytes"
  by (simp_all add: resolve_type_def type_aliases_def to_ascii_lowercase_def lit_def alias_parse)

lemma lookup_aliases:
  "lookup_type esp_bytes = Some (lit ''esp'', esp_guid, lit ''EFI system partition'')"
  "lookup_type linux_bytes = Some (lit ''linux'', linux_guid, lit ''Linux filesystem data'')"
  "lookup_type swap_bytes = Some (lit ''swap'', swap_guid, lit ''Linux swap'')"
  "lookup_type msdata_bytes = Some (lit ''msdata'', msdata_guid, lit ''Microsoft basic data'')"
  by (simp_all add: lookup_type_def type_aliases_def display_alias_bytes eq_ignore_ascii_case_def
      to_ascii_lowercase_def lit_def type_guid_defs)

lemma alias_rows:
  assumes "(a, t, d) \<in> set type_aliases"
  shows "\<exists>g. resolve_type a = Some g \<and> guid_display g = t
      \<and> alias_type g = Some a \<and> describe_type g = Some d"
  using assms resolve_aliases lookup_aliases display_alias_bytes
  unfolding type_aliases_def alias_type_def describe_type_def by fastforce

text \<open>Type names: every alias of the table resolves to a GUID whose alias and description
  are that row's; the printed form of any GUID resolves to that GUID.\<close>

theorem type_names_resolve:
  "(\<forall>(a, t, d) \<in> set type_aliases. \<exists>g. resolve_type a = Some g \<and> guid_display g = t
      \<and> alias_type g = Some a \<and> describe_type g = Some d)
   \<and> (\<forall>g. guid_wf g \<longrightarrow> resolve_type (guid_display g) = Some g)"
proof (intro conjI allI impI)
  show "\<forall>(a, t, d) \<in> set type_aliases. \<exists>g. resolve_type a = Some g \<and> guid_display g = t
      \<and> alias_type g = Some a \<and> describe_type g = Some d"
    using alias_rows by blast
next
  fix g
  assume g: "guid_wf g"
  have "find (\<lambda>(a, _, _). a = to_ascii_lowercase (guid_display g)) type_aliases = None"
  proof -
    have "\<forall>(a, _, _) \<in> set type_aliases. length a < 36"
      by (simp add: type_aliases_def lit_def)
    moreover have "length (to_ascii_lowercase (guid_display g)) = 36"
      using to_ascii_lowercase_length length_guid_display [OF g] by simp
    ultimately show ?thesis by (fastforce simp: find_None_iff)
  qed
  then show "resolve_type (guid_display g) = Some g"
    using g by (simp add: resolve_type_def guid_parse_display_plain)
qed

theorem type_names_resolve_witness: "resolve_type (guid_display guid_zero) = Some guid_zero \<and> guid_wf guid_zero"
proof -
  have w: "guid_wf guid_zero" by code_simp
  then show ?thesis using type_names_resolve by blast
qed

end
