(* ===== verification/Gpt_Entry.thy ===== *)
theory Gpt_Entry
  imports Gpt_Guid
begin

text \<open>
  A GPT partition entry (\<open>src/uu/part/src/gpt/entry.rs\<close>): two GUIDs, an inclusive LBA
  range, an attribute word and a name of up to 36 UTF-16 code units, in 128 bytes; and the
  error type of \<open>part\<close> (\<open>src/uu/part/src/error.rs\<close>). The text of a message is represented
  by which message it is and by the values it shows.
\<close>

section \<open>Errors\<close>

datatype usage_error =
    NameTooLong nat
  | ImplausibleSectorSize nat
  | DiskTooSmall u64 u64
  | TypeIsUnused
  | AllSlotsUsed
  | SizeIsZero
  | NoPartition nat
  | PartitionNotUsed nat
  | FileTooSmall bytes nat
  | NotADisk bytes
  | SectorSizeFixed
  | SizeUnknown bytes
  | UnknownType rust_str
  | BadSize rust_str
  | SizeMustBeNonZero

datatype damage =
    HeaderTooShort
  | HeaderSizeOutOfRange u32
  | HeaderCrcMismatch u32 u32
  | ImplausibleEntrySize u32
  | DamagedSectorSize nat
  | ArrayDoesNotFit u32 u64
  | HeaderOutsideDisk
  | UsableRangeBad
  | ArrayOverlaps
  | BackupOverlaps
  | ArrayShort
  | EntryCrcMismatch u32 u32
  | EntryMalformed nat
  | ProtectiveAlone
  | ProblemsFound nat

text \<open>What a disk is said to carry, and the refusals of the commands.\<close>

datatype disk_description =
    DescribesGpt
  | DescribesDamaged damage
  | DescribesTable rust_str
  | DescribesFilesystem rust_str
  | DescribesNothing

datatype foreign_table = CannotManage disk_description | NoGptToModify disk_description

datatype refusal =
    NotConfirmed bytes
  | IsPartition bytes rust_str
  | IsMounted rust_str rust_str bytes
  | TableNotReread bytes "rust_str list"

text \<open>A failed system call, or one of the errors \<open>std::io\<close> makes itself.\<close>

datatype io_failure = OsError int | ShortRead | OtherFailure

fun os_error :: "io_failure \<Rightarrow> int option" where
  "os_error (OsError n) = Some n"
| "os_error ShortRead = None"
| "os_error OtherFailure = None"

datatype part_error =
    Usage usage_error
  | Io bytes io_failure
  | NoGpt
  | Damaged damage
  | Foreign foreign_table
  | NoSpace u64 u64
  | Refused refusal

fun part_exit_code :: "part_error \<Rightarrow> int" where
  "part_exit_code (Io _ _) = 2"
| "part_exit_code (Refused _) = 3"
| "part_exit_code (Foreign _) = 3"
| "part_exit_code (Usage _) = 1"
| "part_exit_code NoGpt = 1"
| "part_exit_code (Damaged _) = 1"
| "part_exit_code (NoSpace _ _) = 1"

section \<open>Entries\<close>

definition NAME_UNITS :: nat where
  "NAME_UNITS = 36"

record gpt_entry =
  type_guid :: guid
  unique_guid :: guid
  starting_lba :: u64
  ending_lba :: u64
  attributes :: u64
  entry_name :: rust_str

definition entry_default :: gpt_entry where
  "entry_default = \<lparr>type_guid = guid_zero, unique_guid = guid_zero, starting_lba = 0,
     ending_lba = 0, attributes = 0, entry_name = []\<rparr>"

definition is_used :: "gpt_entry \<Rightarrow> bool" where
  "is_used e \<longleftrightarrow> \<not> guid_is_zero (type_guid e)"

definition entry_sectors :: "gpt_entry \<Rightarrow> u64" where
  "entry_sectors e =
     (if is_used e \<and> starting_lba e \<le> ending_lba e then ending_lba e - starting_lba e + 1 else 0)"

definition overlaps :: "gpt_entry \<Rightarrow> u64 \<Rightarrow> u64 \<Rightarrow> bool" where
  "overlaps e s t \<longleftrightarrow> is_used e \<and> starting_lba e \<le> t \<and> s \<le> ending_lba e"

text \<open>The 36 slots of the name field: the units taken, then zeroes.\<close>

definition name_field :: "rust_str \<Rightarrow> u16 list" where
  "name_field n = (let us = take NAME_UNITS (encode_utf16 n)
                   in us @ replicate (NAME_UNITS - length us) 0)"

definition entry_to_bytes :: "gpt_entry \<Rightarrow> bytes" where
  "entry_to_bytes e =
     type_guid e @ unique_guid e @ to_le 8 (starting_lba e) @ to_le 8 (ending_lba e)
     @ to_le 8 (attributes e) @ concat (map (to_le 2) (name_field (entry_name e)))"

text \<open>The reading loop over the 36 units, which stops at the first zero.\<close>

fun read_units :: "nat \<Rightarrow> bytes \<Rightarrow> u16 list" where
  "read_units 0 b = []"
| "read_units (Suc n) b =
     (let u = from_le (take 2 b) in if u = 0 then [] else u # read_units n (drop 2 b))"

definition entry_parse :: "bytes \<Rightarrow> gpt_entry option" where
  "entry_parse b =
     (if length b < 128 then None
      else do {
        tg \<leftarrow> guid_from_bytes (subslice 0 16 b);
        ug \<leftarrow> guid_from_bytes (subslice 16 32 b);
        Some \<lparr>type_guid = tg, unique_guid = ug,
              starting_lba = from_le (subslice 32 40 b),
              ending_lba = from_le (subslice 40 48 b),
              attributes = from_le (subslice 48 56 b),
              entry_name = from_utf16_lossy (read_units NAME_UNITS (drop 56 b))\<rparr>
      })"

definition validate_name :: "rust_str \<Rightarrow> part_error + unit" where
  "validate_name n =
     (let units = length (encode_utf16 n)
      in if NAME_UNITS < units then Inl (Usage (NameTooLong units)) else Inr ())"

text \<open>What the fields of an entry built by the program can hold.\<close>

definition name_ok :: "rust_str \<Rightarrow> bool" where
  "name_ok n \<longleftrightarrow> (\<forall>c \<in> set n. is_scalar c \<and> c \<noteq> 0) \<and> length (encode_utf16 n) \<le> NAME_UNITS"

definition entry_wf :: "gpt_entry \<Rightarrow> bool" where
  "entry_wf e \<longleftrightarrow> guid_wf (type_guid e) \<and> guid_wf (unique_guid e) \<and> name_ok (entry_name e)"

section \<open>Lemmas\<close>

lemma entry_default_wf [simp]: "entry_wf entry_default"
  by (simp add: entry_wf_def entry_default_def guid_wf_def guid_zero_def name_ok_def
      encode_utf16_def)

lemma entry_default_unused [simp]: "\<not> is_used entry_default"
  by (simp add: is_used_def entry_default_def guid_is_zero_def guid_zero_def)

lemma unused_no_overlap [simp]: "\<not> is_used e \<Longrightarrow> \<not> overlaps e s t"
  by (simp add: overlaps_def)

lemma length_name_field: "length (name_field n) = NAME_UNITS"
  by (simp add: name_field_def Let_def)

lemma length_concat_to_le: "length (concat (map (to_le 2) us)) = 2 * length us"
  by (induction us) auto

lemma length_entry_to_bytes: "entry_wf e \<Longrightarrow> length (entry_to_bytes e) = 128"
  by (simp add: entry_wf_def guid_wf_def entry_to_bytes_def length_concat_to_le length_name_field
      NAME_UNITS_def)

lemma from_le_take2: "from_le (take 2 (to_le 2 (u :: u16) @ r)) = u"
  by (simp add: from_le_to_le_id)

lemma read_units_encoded:
  assumes "\<forall>u \<in> set us. u \<noteq> 0" and "length us \<le> n"
  shows "read_units n (concat (map (to_le 2) (us @ replicate (n - length us) 0)) @ r) = us"
  using assms
proof (induction us arbitrary: n)
  case Nil
  have "(0 :: u16) # replicate k 0 = replicate (Suc k) 0" for k
    by simp
  have z: "from_le (take 2 (to_le 2 (0 :: u16) @ s)) = (0 :: u16)" for s
    by (rule from_le_take2)
  show ?case by (cases n) (simp_all add: Let_def z del: take_append)
next
  case (Cons u us)
  then obtain m where n: "n = Suc m" and m: "length us \<le> m"
    by (cases n) auto
  have t: "from_le (take 2 (to_le 2 u @ s)) = u" for s
    by (rule from_le_take2)
  show ?case
    using Cons.IH [of m] Cons.prems m
    by (simp add: n Let_def t del: take_append)
qed

lemma of_nat_u16_nonzero: "0 < k \<Longrightarrow> k < 65536 \<Longrightarrow> (of_nat k :: u16) \<noteq> 0"
  by (auto simp: word_of_nat_eq_0_iff dest: dvd_imp_le)

lemma encode_utf16_nonzero:
  assumes "\<forall>c \<in> set n. is_scalar c \<and> c \<noteq> 0" and "u \<in> set (encode_utf16 n)"
  shows "u \<noteq> 0"
proof -
  from assms(2) obtain c where c: "c \<in> set n" and u: "u \<in> set (encode_utf16_char c)"
    by (auto simp: encode_utf16_def)
  from c assms(1) have s: "is_scalar c" and z: "c \<noteq> 0" by auto
  have b: "(c - 0x10000) div 0x400 < 0x400" "(c - 0x10000) mod 0x400 < 0x400"
    using s by (auto simp: is_scalar_def less_mult_imp_div_less)
  show ?thesis
  proof (cases "c < 0x10000")
    case True
    with u z show ?thesis by (simp add: encode_utf16_char_def of_nat_u16_nonzero)
  next
    case False
    with u have "u = of_nat (0xD800 + (c - 0x10000) div 0x400)
        \<or> u = of_nat (0xDC00 + (c - 0x10000) mod 0x400)"
      by (auto simp only: encode_utf16_char_def if_False list.set)
    moreover have "(of_nat (0xD800 + (c - 0x10000) div 0x400) :: u16) \<noteq> 0"
      using b by (intro of_nat_u16_nonzero) simp_all
    moreover have "(of_nat (0xDC00 + (c - 0x10000) mod 0x400) :: u16) \<noteq> 0"
      using b by (intro of_nat_u16_nonzero) simp_all
    ultimately show ?thesis by metis
  qed
qed

lemma read_units_name_field:
  assumes "name_ok n"
  shows "read_units NAME_UNITS (concat (map (to_le 2) (name_field n)) @ r) = encode_utf16 n"
  using assms read_units_encoded [of "encode_utf16 n" NAME_UNITS r] encode_utf16_nonzero [of n]
  by (auto simp: name_ok_def name_field_def Let_def)

lemma entry_parse_to_bytes:
  assumes "entry_wf e"
  shows "entry_parse (entry_to_bytes e @ r) = Some e"
proof -
  let ?name = "concat (map (to_le 2) (name_field (entry_name e)))"
  have g: "length (type_guid e) = 16" "length (unique_guid e) = 16" and n: "name_ok (entry_name e)"
    using assms by (auto simp: entry_wf_def guid_wf_def)
  have u: "from_utf16_lossy (encode_utf16 (entry_name e)) = entry_name e"
    using n by (auto simp: name_ok_def intro: from_utf16_lossy_encode)
  have d: "drop 56 (entry_to_bytes e @ r) = ?name @ r"
    using g by (simp add: entry_to_bytes_def)
  have f: "from_le (to_le 8 (w :: u64)) = w" for w
    by (rule from_le_to_le_id) simp
  have len: "\<not> length (entry_to_bytes e @ r) < 128"
    using length_entry_to_bytes [OF assms] by simp
  have s: "subslice 0 16 (entry_to_bytes e @ r) = type_guid e"
    "subslice 16 32 (entry_to_bytes e @ r) = unique_guid e"
    "subslice 32 40 (entry_to_bytes e @ r) = to_le 8 (starting_lba e)"
    "subslice 40 48 (entry_to_bytes e @ r) = to_le 8 (ending_lba e)"
    "subslice 48 56 (entry_to_bytes e @ r) = to_le 8 (attributes e)"
    using g by (simp_all add: entry_to_bytes_def subslice_def)
  show ?thesis
    using g len by (simp add: entry_parse_def s f d read_units_name_field [OF n] u
        guid_from_bytes_def del: drop_append)
qed

lemma entry_parse_short: "length b < 128 \<Longrightarrow> entry_parse b = None"
  by (simp add: entry_parse_def)

interpretation entry_codec: fixed_codec entry_to_bytes entry_parse 128 entry_wf
  by unfold_locales (simp_all add: length_entry_to_bytes entry_parse_to_bytes entry_parse_short)

lemma validate_name_ok: "validate_name n = Inr () \<longleftrightarrow> length (encode_utf16 n) \<le> NAME_UNITS"
  by (auto simp: validate_name_def Let_def)

text \<open>A partition entry survives the disk: with a name that \<open>validate_name\<close> accepts and that
  holds no NUL, it takes exactly 128 bytes, and parsing them, also in front of other bytes,
  gives the entry back, name included.\<close>

theorem entry_roundtrip:
  assumes "guid_wf (type_guid e)" and "guid_wf (unique_guid e)"
    and "validate_name (entry_name e) = Inr ()"
    and "\<forall>c \<in> set (entry_name e). is_scalar c \<and> c \<noteq> 0"
  shows "length (entry_to_bytes e) = 128 \<and> entry_parse (entry_to_bytes e @ rest) = Some e"
proof -
  have "entry_wf e"
    using assms by (simp add: entry_wf_def name_ok_def validate_name_ok)
  then show ?thesis
    using entry_codec.enc_length entry_codec.dec_enc by blast
qed

theorem entry_roundtrip_witness:
  "entry_parse (entry_to_bytes \<lparr>type_guid = esp_bytes, unique_guid = linux_bytes, starting_lba = 2048,
       ending_lba = 1050623, attributes = 0, entry_name = [69, 0x10437]\<rparr> @ [1, 2])
   = Some \<lparr>type_guid = esp_bytes, unique_guid = linux_bytes, starting_lba = 2048,
       ending_lba = 1050623, attributes = 0, entry_name = [69, 0x10437]\<rparr>"
proof (rule entry_roundtrip [THEN conjunct2])
  show "validate_name (entry_name \<lparr>type_guid = esp_bytes, unique_guid = linux_bytes,
      starting_lba = 2048, ending_lba = 1050623, attributes = 0, entry_name = [69, 0x10437]\<rparr>)
    = Inr ()"
    by (simp add: validate_name_def encode_utf16_def encode_utf16_char_def NAME_UNITS_def)
qed (simp_all add: alias_bytes_wf is_scalar_def)

end
