(* ===== verification/Gpt_Header.thy ===== *)
theory Gpt_Header
  imports Gpt_Entry
begin

text \<open>
  The GPT header sector (\<open>src/uu/part/src/gpt/header.rs\<close>) and the protective MBR
  (\<open>src/uu/part/src/gpt/mbr.rs\<close>). The checksum routine is the crate \<open>crc_fast\<close>, which is
  not part of the sources: every definition that calls it takes it as the argument \<open>crc\<close>,
  and nothing is assumed of it.
\<close>

section \<open>The header\<close>

definition SIGNATURE :: bytes where
  "SIGNATURE = ascii ''EFI PART''"
definition REVISION :: u32 where
  "REVISION = 0x00010000"
definition HEADER_SIZE :: u32 where
  "HEADER_SIZE = 92"
definition ENTRY_SIZE :: u32 where
  "ENTRY_SIZE = 128"
definition NUM_ENTRIES :: u32 where
  "NUM_ENTRIES = 128"

record gpt_header =
  my_lba :: u64
  alternate_lba :: u64
  h_first_usable :: u64
  h_last_usable :: u64
  h_disk_guid :: guid
  h_entry_array_lba :: u64
  h_num_entries :: u32
  h_entry_size :: u32
  h_entries_crc32 :: u32

text \<open>
  The writes into a zeroed sector, in the order of the code. A sector shorter than the
  header makes one of the slices panic.
\<close>

definition to_sector :: "(bytes \<Rightarrow> u32) \<Rightarrow> gpt_header \<Rightarrow> nat \<Rightarrow> bytes option" where
  "to_sector crc h sector_size = do {
     s \<leftarrow> put 0 SIGNATURE (replicate sector_size 0);
     s \<leftarrow> put 8 (to_le 4 REVISION) s;
     s \<leftarrow> put 12 (to_le 4 HEADER_SIZE) s;
     s \<leftarrow> put 24 (to_le 8 (my_lba h)) s;
     s \<leftarrow> put 32 (to_le 8 (alternate_lba h)) s;
     s \<leftarrow> put 40 (to_le 8 (h_first_usable h)) s;
     s \<leftarrow> put 48 (to_le 8 (h_last_usable h)) s;
     s \<leftarrow> put 56 (h_disk_guid h) s;
     s \<leftarrow> put 72 (to_le 8 (h_entry_array_lba h)) s;
     s \<leftarrow> put 80 (to_le 4 (h_num_entries h)) s;
     s \<leftarrow> put 84 (to_le 4 (h_entry_size h)) s;
     s \<leftarrow> put 88 (to_le 4 (h_entries_crc32 h)) s;
     put 16 (to_le 4 (crc (subslice 0 (unat HEADER_SIZE) s))) s
   }"

definition plausible_sector_size :: "nat \<Rightarrow> bool" where
  "plausible_sector_size n \<longleftrightarrow> is_power_of_two n \<and> 512 \<le> n \<and> n \<le> 65536"

definition primary_array_sectors :: "gpt_header \<Rightarrow> u64 \<Rightarrow> nat \<Rightarrow> part_error + u64" where
  "primary_array_sectors h disk_sectors sector_size =
     (let array_bytes = ucast (h_num_entries h) * ucast (h_entry_size h) :: u64;
          array_sectors = div_ceil array_bytes (of_nat sector_size);
          array_end = checked_add (h_entry_array_lba h) array_sectors
      in if \<not> plausible_sector_size sector_size
           then Inl (Damaged (DamagedSectorSize sector_size))
         else if array_sectors = 0
           \<or> (case array_end of None \<Rightarrow> True | Some e \<Rightarrow> disk_sectors < e)
           then Inl (Damaged (ArrayDoesNotFit (h_num_entries h) (h_entry_array_lba h)))
         else if my_lba h \<noteq> 1 \<or> disk_sectors \<le> alternate_lba h
           then Inl (Damaged HeaderOutsideDisk)
         else if h_last_usable h < h_first_usable h \<or> disk_sectors \<le> h_last_usable h
           then Inl (Damaged UsableRangeBad)
         else if h_entry_array_lba h < 2
           \<or> (case array_end of None \<Rightarrow> True | Some e \<Rightarrow> h_first_usable h < e)
           then Inl (Damaged ArrayOverlaps)
         else if (case checked_sub (alternate_lba h) array_sectors of
                    None \<Rightarrow> True | Some st \<Rightarrow> st \<le> h_last_usable h)
           then Inl (Damaged BackupOverlaps)
         else Inr array_sectors)"

text \<open>
  Reading a header sector. \<open>sector.len() as u32\<close> keeps the low 32 bits of the length; the
  header size it lets through can then not exceed the sector.
\<close>

definition header_parse :: "(bytes \<Rightarrow> u32) \<Rightarrow> bytes \<Rightarrow> part_error + gpt_header" where
  "header_parse crc sector =
     (if length sector < unat HEADER_SIZE then Inl (Damaged HeaderTooShort)
      else if subslice 0 8 sector \<noteq> SIGNATURE then Inl NoGpt
      else let header_size = from_le (subslice 12 16 sector) :: u32 in
      if \<not> (HEADER_SIZE \<le> header_size \<and> header_size \<le> of_nat (length sector))
        then Inl (Damaged (HeaderSizeOutOfRange header_size))
      else let stored = from_le (subslice 16 20 sector) :: u32;
               check = subslice 0 16 sector @ replicate 4 0
                       @ subslice 20 (unat header_size) sector;
               actual = crc check in
      if stored \<noteq> actual then Inl (Damaged (HeaderCrcMismatch stored actual))
      else let entry_size = from_le (subslice 84 88 sector) :: u32 in
      if entry_size < ENTRY_SIZE \<or> entry_size mod 8 \<noteq> 0
        then Inl (Damaged (ImplausibleEntrySize entry_size))
      else Inr \<lparr>my_lba = from_le (subslice 24 32 sector),
                alternate_lba = from_le (subslice 32 40 sector),
                h_first_usable = from_le (subslice 40 48 sector),
                h_last_usable = from_le (subslice 48 56 sector),
                h_disk_guid = (case guid_from_bytes (subslice 56 72 sector) of
                                 None \<Rightarrow> guid_zero | Some g \<Rightarrow> g),
                h_entry_array_lba = from_le (subslice 72 80 sector),
                h_num_entries = from_le (subslice 80 84 sector),
                h_entry_size = entry_size,
                h_entries_crc32 = from_le (subslice 88 92 sector)\<rparr>)"

definition header_wf :: "gpt_header \<Rightarrow> bool" where
  "header_wf h \<longleftrightarrow> guid_wf (h_disk_guid h) \<and> ENTRY_SIZE \<le> h_entry_size h \<and> h_entry_size h mod 8 = 0"

section \<open>The protective MBR\<close>

definition PROTECTIVE_TYPE :: u8 where
  "PROTECTIVE_TYPE = 0xEE"

definition protective :: "u64 \<Rightarrow> nat \<Rightarrow> bytes option" where
  "protective disk_sectors sector_size =
     (let size = (if saturating_sub disk_sectors 1 \<le> 0xFFFFFFFF
                  then ucast (saturating_sub disk_sectors 1) else 0xFFFFFFFF) :: u32
      in do {
        s \<leftarrow> put 446 ([0x00, 0x00, 0x02, 0x00, PROTECTIVE_TYPE, 0xFF, 0xFF, 0xFF]
                     @ to_le 4 (1 :: u32) @ to_le 4 size) (replicate sector_size 0);
        s \<leftarrow> put 510 [0x55] s;
        put 511 [0xAA] s
      })"

definition is_protective :: "bytes \<Rightarrow> bool" where
  "is_protective sector \<longleftrightarrow>
     \<not> (length sector < 512 \<or> sector ! 510 \<noteq> 0x55 \<or> sector ! 511 \<noteq> 0xAA)
     \<and> (\<exists>i \<in> set [0..<4]. sector ! (446 + i * 16 + 4) = PROTECTIVE_TYPE)"

definition is_real_mbr :: "bytes \<Rightarrow> bool" where
  "is_real_mbr sector \<longleftrightarrow>
     \<not> (length sector < 512 \<or> sector ! 510 \<noteq> 0x55 \<or> sector ! 511 \<noteq> 0xAA)
     \<and> (\<exists>i \<in> set [0..<4]. sector ! (446 + i * 16 + 4) \<noteq> 0
            \<and> sector ! (446 + i * 16 + 4) \<noteq> PROTECTIVE_TYPE)"

section \<open>Layout of the header sector\<close>

text \<open>The 92 bytes with a given checksum field, and the sector they start.\<close>

definition header_bytes :: "gpt_header \<Rightarrow> u32 \<Rightarrow> bytes" where
  "header_bytes h c =
     SIGNATURE @ to_le 4 REVISION @ to_le 4 HEADER_SIZE @ to_le 4 c @ replicate 4 0
     @ to_le 8 (my_lba h) @ to_le 8 (alternate_lba h)
     @ to_le 8 (h_first_usable h) @ to_le 8 (h_last_usable h) @ h_disk_guid h
     @ to_le 8 (h_entry_array_lba h) @ to_le 4 (h_num_entries h) @ to_le 4 (h_entry_size h)
     @ to_le 4 (h_entries_crc32 h)"

lemma length_SIGNATURE [simp]: "length SIGNATURE = 8"
  by (simp add: SIGNATURE_def ascii_def)

lemma length_header_bytes: "guid_wf (h_disk_guid h) \<Longrightarrow> length (header_bytes h c) = 92"
  by (simp add: header_bytes_def guid_wf_def)

lemma to_sector_layout:
  assumes "guid_wf (h_disk_guid h)"
  shows "to_sector crc h (92 + k) = Some (header_bytes h (crc (header_bytes h 0)) @ replicate k 0)"
proof -
  have g: "length (h_disk_guid h) = 16" using assms by (simp add: guid_wf_def)
  have z: "to_le 4 (0 :: u32) = replicate 4 0" by (simp add: to_le_def numeral_eq_Suc)
  have r8: "replicate 8 (0 :: u8) = replicate 4 0 @ replicate 4 0"
    by (simp flip: replicate_add)
  show ?thesis
    using g by (simp add: to_sector_def put_def HEADER_SIZE_def subslice_def min_def)
     (simp add: header_bytes_def z r8 HEADER_SIZE_def)
qed

lemma put_SomeD: "put a x s = Some t \<Longrightarrow> length t = length s \<and> a + length x \<le> length s"
  by (auto simp: put_def split: if_splits)

lemma to_sector_SomeD: "to_sector crc h n = Some s \<Longrightarrow> 92 \<le> n"
  by (auto simp: to_sector_def bind_eq_Some_conv dest!: put_SomeD)

lemma unat_HEADER_SIZE [simp]: "unat HEADER_SIZE = 92"
  by (simp add: HEADER_SIZE_def)

lemma header_slices:
  assumes "guid_wf (h_disk_guid h)"
  shows "subslice 0 8 (header_bytes h c @ r) = SIGNATURE"
    "subslice 12 16 (header_bytes h c @ r) = to_le 4 HEADER_SIZE"
    "subslice 16 20 (header_bytes h c @ r) = to_le 4 c"
    "subslice 24 32 (header_bytes h c @ r) = to_le 8 (my_lba h)"
    "subslice 32 40 (header_bytes h c @ r) = to_le 8 (alternate_lba h)"
    "subslice 40 48 (header_bytes h c @ r) = to_le 8 (h_first_usable h)"
    "subslice 48 56 (header_bytes h c @ r) = to_le 8 (h_last_usable h)"
    "subslice 56 72 (header_bytes h c @ r) = h_disk_guid h"
    "subslice 72 80 (header_bytes h c @ r) = to_le 8 (h_entry_array_lba h)"
    "subslice 80 84 (header_bytes h c @ r) = to_le 4 (h_num_entries h)"
    "subslice 84 88 (header_bytes h c @ r) = to_le 4 (h_entry_size h)"
    "subslice 88 92 (header_bytes h c @ r) = to_le 4 (h_entries_crc32 h)"
    "subslice 0 16 (header_bytes h c @ r) @ replicate 4 0 @ subslice 20 92 (header_bytes h c @ r)
      = header_bytes h 0"
proof -
  have g: "length (h_disk_guid h) = 16" using assms by (simp add: guid_wf_def)
  have z: "to_le 4 (0 :: u32) = replicate 4 0" by (simp add: to_le_def numeral_eq_Suc)
  show "subslice 0 8 (header_bytes h c @ r) = SIGNATURE"
    "subslice 12 16 (header_bytes h c @ r) = to_le 4 HEADER_SIZE"
    "subslice 16 20 (header_bytes h c @ r) = to_le 4 c"
    "subslice 24 32 (header_bytes h c @ r) = to_le 8 (my_lba h)"
    "subslice 32 40 (header_bytes h c @ r) = to_le 8 (alternate_lba h)"
    "subslice 40 48 (header_bytes h c @ r) = to_le 8 (h_first_usable h)"
    "subslice 48 56 (header_bytes h c @ r) = to_le 8 (h_last_usable h)"
    "subslice 56 72 (header_bytes h c @ r) = h_disk_guid h"
    "subslice 72 80 (header_bytes h c @ r) = to_le 8 (h_entry_array_lba h)"
    "subslice 80 84 (header_bytes h c @ r) = to_le 4 (h_num_entries h)"
    "subslice 84 88 (header_bytes h c @ r) = to_le 4 (h_entry_size h)"
    "subslice 88 92 (header_bytes h c @ r) = to_le 4 (h_entries_crc32 h)"
    "subslice 0 16 (header_bytes h c @ r) @ replicate 4 0 @ subslice 20 92 (header_bytes h c @ r)
      = header_bytes h 0"
    using g by (simp_all add: header_bytes_def subslice_def z)
qed

lemma header_parse_layout:
  assumes "header_wf h" and "92 + k < 2 ^ 32"
  shows "header_parse crc (header_bytes h (crc (header_bytes h 0)) @ replicate k 0) = Inr h"
proof -
  have g: "guid_wf (h_disk_guid h)" and e: "\<not> h_entry_size h < ENTRY_SIZE" "h_entry_size h mod 8 = 0"
    using assms(1) by (auto simp: header_wf_def)
  have f4: "from_le (to_le 4 (w :: u32)) = w" and f8: "from_le (to_le 8 (v :: u64)) = v" for w v
    by (simp_all add: from_le_to_le_id)
  have len: "length (header_bytes h c) = 92" for c
    by (rule length_header_bytes [OF g])
  have le: "HEADER_SIZE \<le> of_nat (92 + k)"
  proof -
    have "unat (of_nat (92 + k) :: u32) = 92 + k"
      by (simp only: unat_of_nat) (use assms(2) in simp)
    then show ?thesis by (simp add: word_le_nat_alt)
  qed
  have d: "guid_from_bytes (h_disk_guid h) = Some (h_disk_guid h)"
    using guid_from_bytes_append [OF g, of "[]"] by simp
  show ?thesis
    using e le by (simp add: header_parse_def Let_def header_slices [OF g] len f4 f8 d)
qed
lemma to_sector_eq:
  assumes "guid_wf (h_disk_guid h)" and "92 \<le> n"
  shows "to_sector crc h n
    = Some (header_bytes h (crc (header_bytes h 0)) @ replicate (n - 92) 0)"
  using to_sector_layout [OF assms(1), of crc "n - 92"] assms(2) by simp

lemma header_parse_wf:
  assumes "header_parse crc s = Inr h"
  shows "header_wf h" and "92 \<le> length s"
    and "from_le (subslice 16 20 s) = crc (subslice 0 16 s @ replicate 4 0
           @ subslice 20 (unat (from_le (subslice 12 16 s) :: u32)) s)"
  using assms
  by (auto simp: header_parse_def Let_def header_wf_def guid_from_bytes_def guid_wf_def guid_zero_def
      split: if_splits del: mod_0_imp_dvd)

lemma header_roundtrip_ok:
  assumes "header_wf h" and "92 \<le> n" and "n < 2 ^ 32"
  shows "\<exists>s. to_sector crc h n = Some s \<and> length s = n \<and> header_parse crc s = Inr h"
proof -
  have g: "guid_wf (h_disk_guid h)" using assms(1) by (simp add: header_wf_def)
  have "header_parse crc (header_bytes h (crc (header_bytes h 0)) @ replicate (n - 92) 0) = Inr h"
    using assms by (intro header_parse_layout) simp_all
  then show ?thesis
    using assms(2) by (simp add: to_sector_eq [OF g] length_header_bytes [OF g])
qed

text \<open>A header survives the disk: serialised into a sector of any size from 92 bytes on
  it fills that sector exactly, and reading the sector back, checksum included, gives the
  same header, whatever the checksum function is.\<close>

theorem header_roundtrip:
  assumes "header_wf h" and "92 \<le> n" and "n < 2 ^ 32"
  shows "\<exists>s. to_sector crc h n = Some s \<and> length s = n \<and> header_parse crc s = Inr h"
  using assms by (rule header_roundtrip_ok)

theorem header_roundtrip_witness:
  "\<exists>s. to_sector (\<lambda>b. of_nat (length b)) \<lparr>my_lba = 1, alternate_lba = 16777215, h_first_usable = 34,
       h_last_usable = 16777182, h_disk_guid = esp_bytes, h_entry_array_lba = 2,
       h_num_entries = NUM_ENTRIES, h_entry_size = ENTRY_SIZE, h_entries_crc32 = 7\<rparr> 512 = Some s
     \<and> length s = 512"
  using header_roundtrip [of "\<lparr>my_lba = 1, alternate_lba = 16777215, h_first_usable = 34,
       h_last_usable = 16777182, h_disk_guid = esp_bytes, h_entry_array_lba = 2,
       h_num_entries = NUM_ENTRIES, h_entry_size = ENTRY_SIZE, h_entries_crc32 = 7\<rparr>" 512
      "\<lambda>b. of_nat (length b)"]
  by (auto simp: header_wf_def alias_bytes_wf ENTRY_SIZE_def)

lemma unat_u32_u64: "unat (ucast (w :: u32) :: u64) = unat w"
  using unat_u32_bound [of w] by (simp add: unsigned_ucast_eq take_bit_nat_eq_self)

lemma unat_u64_u32: "w \<le> 0xFFFFFFFF \<Longrightarrow> unat (ucast (w :: u64) :: u32) = unat w"
  by (simp add: unsigned_ucast_eq take_bit_nat_eq_self word_le_nat_alt)

text \<open>A primary header that passes the layout check describes disjoint regions inside the
  disk: the entry array, whose size in sectors is the exact rounded-up quotient, ends at or
  before the first usable sector, the usable range is not reversed, and it ends before the
  place of the backup array, which ends at the backup header on the disk.\<close>

theorem primary_layout:
  assumes "primary_array_sectors h disk n = Inr a"
  shows "plausible_sector_size n \<and> 0 < a
    \<and> unat a = (unat (h_num_entries h) * unat (h_entry_size h) + n - 1) div n
    \<and> my_lba h = 1 \<and> 2 \<le> h_entry_array_lba h
    \<and> unat (h_entry_array_lba h) + unat a \<le> unat (h_first_usable h)
    \<and> h_first_usable h \<le> h_last_usable h
    \<and> unat (h_last_usable h) + unat a < unat (alternate_lba h)
    \<and> alternate_lba h < disk"
proof -
  have n: "plausible_sector_size n"
    using assms by (auto simp: primary_array_sectors_def Let_def split: if_splits)
  then have nb: "512 \<le> n" "n \<le> 65536" by (auto simp: plausible_sector_size_def)
  then have nw: "unat (of_nat n :: u64) = n"
    by (simp add: unat_of_nat)
  have prod: "unat (ucast (h_num_entries h) * ucast (h_entry_size h) :: u64)
      = unat (h_num_entries h) * unat (h_entry_size h)"
  proof -
    have "unat (h_num_entries h) * unat (h_entry_size h) \<le> 4294967295 * 4294967295"
      by (rule mult_le_mono [OF unat_u32_bound unat_u32_bound])
    then show ?thesis
      by (simp add: unat_word_ariths unat_u32_u64)
  qed
  have a: "a = div_ceil (ucast (h_num_entries h) * ucast (h_entry_size h)) (of_nat n)"
    using assms by (auto simp: primary_array_sectors_def Let_def split: if_splits)
  have "unat a = (unat (h_num_entries h) * unat (h_entry_size h) + n - 1) div n"
    using nw nb prod by (simp add: a unat_div_ceil word_less_nat_alt)
  moreover have "0 < a \<and> my_lba h = 1 \<and> 2 \<le> h_entry_array_lba h
    \<and> unat (h_entry_array_lba h) + unat a \<le> unat (h_first_usable h)
    \<and> h_first_usable h \<le> h_last_usable h
    \<and> unat (h_last_usable h) + unat a < unat (alternate_lba h)
    \<and> alternate_lba h < disk"
    using assms
    by (auto simp: primary_array_sectors_def Let_def a [symmetric] checked_add_def checked_sub_def
        word_le_nat_alt word_less_nat_alt unat_word_ariths unat_sub_if_size not_le not_less
        unat_gt_0
        split: if_splits)
  ultimately show ?thesis using n by blast
qed

theorem primary_layout_witness:
  "primary_array_sectors \<lparr>my_lba = 1, alternate_lba = 16777215, h_first_usable = 34,
       h_last_usable = 16777182, h_disk_guid = esp_bytes, h_entry_array_lba = 2,
       h_num_entries = NUM_ENTRIES, h_entry_size = ENTRY_SIZE, h_entries_crc32 = 7\<rparr> 16777216 512
     = Inr 32 \<and> plausible_sector_size 512"
proof -
  have "primary_array_sectors \<lparr>my_lba = 1, alternate_lba = 16777215, h_first_usable = 34,
       h_last_usable = 16777182, h_disk_guid = esp_bytes, h_entry_array_lba = 2,
       h_num_entries = NUM_ENTRIES, h_entry_size = ENTRY_SIZE, h_entries_crc32 = 7\<rparr> 16777216 512
     = Inr 32"
    by (simp add: primary_array_sectors_def plausible_sector_size_def is_power_of_two_def div_ceil_def
        checked_add_def checked_sub_def NUM_ENTRIES_def ENTRY_SIZE_def)
  with primary_layout [OF this] show ?thesis by blast
qed

lemma protective_layout:
  assumes "512 \<le> n"
  shows "\<exists>z. protective d n = Some (replicate 446 0
     @ [0, 0, 2, 0, PROTECTIVE_TYPE, 0xFF, 0xFF, 0xFF] @ to_le 4 (1 :: u32)
     @ to_le 4 (z :: u32) @ replicate 48 0 @ [0x55, 0xAA] @ replicate (n - 512) 0)
     \<and> unat z = min (unat d - 1) (2 ^ 32 - 1)"
proof -
  obtain k where n: "n = 512 + k" using assms le_Suc_ex by blast
  define z :: u32 where "z = (if saturating_sub d 1 \<le> 0xFFFFFFFF
      then ucast (saturating_sub d 1) else 0xFFFFFFFF)"
  have s: "unat (saturating_sub d 1) = unat d - 1"
    by (auto simp: saturating_sub_def word_le_nat_alt unat_sub_if_size)
  have "unat z = min (unat d - 1) (2 ^ 32 - 1)"
    using s by (auto simp: z_def unat_u64_u32 word_le_nat_alt)
  moreover have "protective d n = Some (replicate 446 0
     @ [0, 0, 2, 0, PROTECTIVE_TYPE, 0xFF, 0xFF, 0xFF] @ to_le 4 (1 :: u32)
     @ to_le 4 z @ replicate 48 0 @ [0x55, 0xAA] @ replicate (n - 512) 0)"
    unfolding protective_def Let_def z_def [symmetric] by (simp add: n put_def)
  ultimately show ?thesis by blast
qed

lemma protective_layout_ok:
  assumes "512 \<le> n"
  shows "\<exists>s. protective d n = Some s \<and> length s = n \<and> is_protective s \<and> \<not> is_real_mbr s
    \<and> unat (from_le (subslice 458 462 s) :: u32) = min (unat d - 1) (2 ^ 32 - 1)"
proof -
  obtain z :: u32 where z: "unat z = min (unat d - 1) (2 ^ 32 - 1)"
    and s: "protective d n = Some (replicate 446 0
     @ [0, 0, 2, 0, PROTECTIVE_TYPE, 0xFF, 0xFF, 0xFF] @ to_le 4 (1 :: u32)
     @ to_le 4 z @ replicate 48 0 @ [0x55, 0xAA] @ replicate (n - 512) 0)" (is "_ = Some ?s")
    using protective_layout [OF assms] by blast
  have "length ?s = n" using assms by simp
  moreover have "?s ! 510 = 0x55" "?s ! 511 = 0xAA"
    by (simp_all add: nth_append)
  moreover have "?s ! 450 = PROTECTIVE_TYPE" "?s ! 466 = 0" "?s ! 482 = 0" "?s ! 498 = 0"
    by (simp_all add: nth_append)
  moreover have "subslice 458 462 ?s = to_le 4 z"
    by (simp add: subslice_def)
  ultimately show ?thesis
    using assms z unfolding s is_protective_def is_real_mbr_def
    by (auto simp: upt_rec from_le_to_le_id PROTECTIVE_TYPE_def)
qed

text \<open>The protective MBR written for a disk is recognised as protective and never as a real
  MBR, fills the sector, and records the number of sectors after the first, clamped to the
  32-bit maximum instead of wrapped.\<close>

theorem protective_mbr:
  assumes "512 \<le> n"
  shows "\<exists>s. protective d n = Some s \<and> length s = n \<and> is_protective s \<and> \<not> is_real_mbr s
    \<and> unat (from_le (subslice 458 462 s) :: u32) = min (unat d - 1) (2 ^ 32 - 1)"
  using assms by (rule protective_layout_ok)

theorem protective_mbr_witness:
  "\<exists>s. protective 16777216 512 = Some s \<and> is_protective s \<and> \<not> is_real_mbr s"
  using protective_mbr [of 512 16777216] by auto

end
