(* ===== verification/Gpt.thy ===== *)
theory Gpt
  imports Gpt_Header "HOL-Library.Product_Lexorder"
begin

text \<open>
  A GPT as a value (\<open>src/uu/part/src/gpt/mod.rs\<close>): the table, its layout on the disk, the
  writes that store it, and the operations that add and remove partitions. Every operation
  that changes the table returns the new one.
\<close>

section \<open>The table\<close>

definition ALIGN_BYTES :: u64 where
  "ALIGN_BYTES = 1024 * 1024"

record gpt =
  sector_size :: nat
  disk_sectors :: u64
  disk_guid :: guid
  num_entries :: u32
  entry_size :: u32
  entry_array_lba :: u64
  first_usable_lba :: u64
  last_usable_lba :: u64
  entries :: "gpt_entry list"

record free_extent =
  fe_start :: u64
  fe_end :: u64

definition fe_sectors :: "free_extent \<Rightarrow> u64" where
  "fe_sectors f = saturating_sub (fe_end f) (fe_start f) + 1"

definition array_sectors_for :: "u32 \<Rightarrow> u32 \<Rightarrow> nat \<Rightarrow> u64" where
  "array_sectors_for ne es ss = div_ceil (ucast ne * ucast es) (of_nat ss)"

definition entry_array_sectors :: "nat \<Rightarrow> u64" where
  "entry_array_sectors ss = array_sectors_for NUM_ENTRIES ENTRY_SIZE ss"

definition array_sectors :: "gpt \<Rightarrow> u64" where
  "array_sectors g = array_sectors_for (num_entries g) (entry_size g) (sector_size g)"

definition align_sectors :: "nat \<Rightarrow> u64" where
  "align_sectors ss = max (ALIGN_BYTES div of_nat ss) 1"

definition minimum_sectors :: "nat \<Rightarrow> u64" where
  "minimum_sectors ss = (let e = entry_array_sectors ss in 3 + 2 * e + align_sectors ss)"

definition last_lba :: "gpt \<Rightarrow> u64" where
  "last_lba g = disk_sectors g - 1"

definition backup_entries_lba :: "gpt \<Rightarrow> u64" where
  "backup_entries_lba g = last_lba g - array_sectors g"

text \<open>\<open>create\<close>; \<open>fresh\<close> is the GUID that \<open>Guid::random\<close> returned.\<close>

definition gpt_create :: "guid \<Rightarrow> u64 \<Rightarrow> nat \<Rightarrow> part_error + gpt" where
  "gpt_create fresh disk ss =
     (if \<not> plausible_sector_size ss then Inl (Usage (ImplausibleSectorSize ss))
      else if disk < minimum_sectors ss then Inl (Usage (DiskTooSmall disk (minimum_sectors ss)))
      else let array = entry_array_sectors ss in
        Inr \<lparr>sector_size = ss, disk_sectors = disk, disk_guid = fresh,
             num_entries = NUM_ENTRIES, entry_size = ENTRY_SIZE, entry_array_lba = 2,
             first_usable_lba = 2 + array, last_usable_lba = disk - 1 - array - 1,
             entries = replicate (unat NUM_ENTRIES) entry_default\<rparr>)"

section \<open>Reading and writing\<close>

text \<open>The loop over the slots of the array, which stops at the first malformed entry.\<close>

fun parse_entries :: "bytes \<Rightarrow> nat \<Rightarrow> nat list \<Rightarrow> part_error + gpt_entry list" where
  "parse_entries array stride [] = Inr []"
| "parse_entries array stride (i # is) =
     result_bind (ok_or (Damaged (EntryMalformed (i + 1)))
                        (entry_parse (subslice (i * stride) (i * stride + stride) array)))
       (\<lambda>e. result_bind (parse_entries array stride is) (\<lambda>es. Inr (e # es)))"

definition gpt_parse ::
  "(bytes \<Rightarrow> u32) \<Rightarrow> u64 \<Rightarrow> nat \<Rightarrow> bytes \<Rightarrow> bytes \<Rightarrow> part_error + gpt" where
  "gpt_parse crc disk ss header_sector entry_bytes =
     result_bind (header_parse crc header_sector) (\<lambda>h.
     result_bind (primary_array_sectors h disk ss) (\<lambda>_.
     let want = min (unat (h_num_entries h) * unat (h_entry_size h)) (2 ^ 64 - 1) in
     if length entry_bytes < want then Inl (Damaged ArrayShort)
     else let array = take want entry_bytes; actual = crc array in
     if actual \<noteq> h_entries_crc32 h
       then Inl (Damaged (EntryCrcMismatch (h_entries_crc32 h) actual))
     else result_bind (parse_entries array (unat (h_entry_size h)) [0..<unat (h_num_entries h)]) (\<lambda>es.
       Inr \<lparr>sector_size = ss, disk_sectors = disk, disk_guid = h_disk_guid h,
            num_entries = h_num_entries h, entry_size = h_entry_size h,
            entry_array_lba = h_entry_array_lba h, first_usable_lba = h_first_usable h,
            last_usable_lba = h_last_usable h, entries = es\<rparr>)))"

text \<open>Copying each encoded entry into its slot; a stride under 128 makes the last copy panic.\<close>

fun put_slots :: "nat \<Rightarrow> nat \<Rightarrow> bytes list \<Rightarrow> bytes \<Rightarrow> bytes option" where
  "put_slots stride i [] out = Some out"
| "put_slots stride i (x # xs) out =
     Option.bind (put (i * stride) x out) (put_slots stride (Suc i) xs)"

definition entry_array :: "gpt \<Rightarrow> bytes option" where
  "entry_array g =
     (let n = unat (num_entries g); stride = unat (entry_size g)
      in put_slots stride 0 (map entry_to_bytes (take n (entries g))) (replicate (n * stride) 0))"

definition header_for :: "gpt \<Rightarrow> bool \<Rightarrow> u32 \<Rightarrow> gpt_header" where
  "header_for g primary entries_crc =
     \<lparr>my_lba = (if primary then 1 else last_lba g),
      alternate_lba = (if primary then last_lba g else 1),
      h_first_usable = first_usable_lba g, h_last_usable = last_usable_lba g,
      h_disk_guid = disk_guid g,
      h_entry_array_lba = (if primary then entry_array_lba g else backup_entries_lba g),
      h_num_entries = num_entries g, h_entry_size = entry_size g,
      h_entries_crc32 = entries_crc\<rparr>"

definition resize :: "nat \<Rightarrow> bytes \<Rightarrow> bytes" where
  "resize n v = take n v @ replicate (n - length v) 0"

definition gpt_writes :: "(bytes \<Rightarrow> u32) \<Rightarrow> gpt \<Rightarrow> (u64 \<times> bytes) list option" where
  "gpt_writes crc g = do {
     array \<leftarrow> entry_array g;
     let c = crc array;
     let padded = resize (unat (array_sectors g) * sector_size g) array;
     mbr \<leftarrow> protective (disk_sectors g) (sector_size g);
     h1 \<leftarrow> to_sector crc (header_for g True c) (sector_size g);
     h2 \<leftarrow> to_sector crc (header_for g False c) (sector_size g);
     Some [(0, mbr), (entry_array_lba g, padded), (backup_entries_lba g, padded),
           (1, h1), (last_lba g, h2)]
   }"

section \<open>Partitions and free space\<close>

definition partitions :: "gpt \<Rightarrow> (nat \<times> gpt_entry) list" where
  "partitions g =
     map (\<lambda>(i, e). (i + 1, e)) (filter (\<lambda>(i, e). is_used e) (enumerate 0 (entries g)))"

definition align_up :: "u64 \<Rightarrow> u64 \<Rightarrow> u64" where
  "align_up v a = div_ceil v a * a"

text \<open>The loop over the used ranges: the extents found and the final cursor.\<close>

fun extents_loop :: "u64 \<Rightarrow> u64 \<Rightarrow> (u64 \<times> u64) list \<Rightarrow> free_extent list \<times> u64" where
  "extents_loop align cursor [] = ([], cursor)"
| "extents_loop align cursor ((s, e) # used) =
     (let found = (if cursor < s then [\<lparr>fe_start = cursor, fe_end = s - 1\<rparr>] else []);
          (fs, c) = extents_loop align (max cursor (align_up (saturating_add e 1) align)) used
      in (found @ fs, c))"

definition used_ranges :: "gpt \<Rightarrow> (u64 \<times> u64) list" where
  "used_ranges g = sort (map (\<lambda>e. (starting_lba e, ending_lba e)) (filter is_used (entries g)))"

definition free_extents :: "gpt \<Rightarrow> free_extent list" where
  "free_extents g =
     (let align = align_sectors (sector_size g);
          (out, cursor) = extents_loop align (align_up (first_usable_lba g) align) (used_ranges g);
          out = out @ (if cursor \<le> last_usable_lba g
                       then [\<lparr>fe_start = cursor, fe_end = last_usable_lba g\<rparr>] else [])
      in filter (\<lambda>f. fe_start f \<le> fe_end f) out)"

text \<open>\<open>max_by_key\<close> returns the last of the largest.\<close>

fun max_by_key :: "('a \<Rightarrow> 'b::linorder) \<Rightarrow> 'a list \<Rightarrow> 'a option" where
  "max_by_key k [] = None"
| "max_by_key k (x # xs) =
     (case max_by_key k xs of None \<Rightarrow> Some x | Some y \<Rightarrow> if k y < k x then Some x else Some y)"

definition choose_extent :: "free_extent list \<Rightarrow> u64 option \<Rightarrow> part_error + free_extent" where
  "choose_extent extents sectors =
     (case sectors of
        None \<Rightarrow> ok_or (NoSpace 0 0) (max_by_key fe_sectors extents)
      | Some n \<Rightarrow>
          if n = 0 then Inl (Usage SizeIsZero)
          else (case find (\<lambda>f. n \<le> fe_sectors f) extents of
                  Some f \<Rightarrow> Inr \<lparr>fe_start = fe_start f, fe_end = fe_start f + n - 1\<rparr>
                | None \<Rightarrow> Inl (NoSpace n
                    (case extents of [] \<Rightarrow> 0 | _ \<Rightarrow> Max (set (map fe_sectors extents))))))"

text \<open>\<open>add\<close>; \<open>fresh\<close> is what \<open>Guid::random\<close> would return for the partition.\<close>

definition gpt_add ::
  "guid \<Rightarrow> gpt \<Rightarrow> u64 option \<Rightarrow> guid \<Rightarrow> rust_str \<Rightarrow> guid option \<Rightarrow> part_error + (gpt \<times> nat)" where
  "gpt_add fresh g sectors tg name unique =
     result_bind (validate_name name) (\<lambda>_.
     if guid_is_zero tg then Inl (Usage TypeIsUnused)
     else result_bind (ok_or (Usage AllSlotsUsed) (position (\<lambda>e. \<not> is_used e) (entries g))) (\<lambda>slot.
     result_bind (choose_extent (free_extents g) sectors) (\<lambda>chosen.
     Inr (g\<lparr>entries := (entries g)[slot :=
             \<lparr>type_guid = tg,
              unique_guid = (case unique of None \<Rightarrow> fresh | Some u \<Rightarrow> u),
              starting_lba = fe_start chosen, ending_lba = fe_end chosen,
              attributes = 0, entry_name = name\<rparr>]\<rparr>, slot + 1))))"

definition gpt_remove :: "gpt \<Rightarrow> nat \<Rightarrow> part_error + gpt" where
  "gpt_remove g index =
     (if index = 0 \<or> length (entries g) < index then Inl (Usage (NoPartition index))
      else let slot = index - 1 in
        if \<not> is_used (entries g ! slot) then Inl (Usage (PartitionNotUsed index))
        else Inr (g\<lparr>entries := (entries g)[slot := entry_default]\<rparr>))"

section \<open>Structural problems\<close>

datatype problem =
    OutsideUsable nat
  | EndsBeforeStart nat
  | Misaligned nat
  | Overlap nat nat

definition entry_problems :: "gpt \<Rightarrow> nat \<times> gpt_entry \<Rightarrow> problem list" where
  "entry_problems g p =
     (case p of (i, e) \<Rightarrow>
       (if starting_lba e < first_usable_lba g \<or> last_usable_lba g < ending_lba e
        then [OutsideUsable i] else [])
       @ (if ending_lba e < starting_lba e then [EndsBeforeStart i] else [])
       @ (if starting_lba e mod align_sectors (sector_size g) \<noteq> 0 then [Misaligned i] else []))"

fun overlap_problems :: "(nat \<times> gpt_entry) list \<Rightarrow> problem list" where
  "overlap_problems [] = []"
| "overlap_problems ((i, x) # ps) =
     map (\<lambda>(j, y). Overlap i j) (filter (\<lambda>(j, y). overlaps x (starting_lba y) (ending_lba y)) ps)
     @ overlap_problems ps"

definition problems :: "gpt \<Rightarrow> problem list" where
  "problems g =
     concat (map (entry_problems g) (partitions g)) @ overlap_problems (partitions g)"

section \<open>Alignment\<close>

text \<open>The specification of \<open>align_up\<close>: the least multiple not below, on naturals.\<close>

definition nat_align_up :: "nat \<Rightarrow> nat \<Rightarrow> nat" where
  "nat_align_up v a = (v + a - 1) div a * a"

lemma nat_align_up_bounds:
  assumes "0 < a"
  shows "v \<le> nat_align_up v a" and "nat_align_up v a < v + a" and "a dvd nat_align_up v a"
proof -
  have e: "(v + a - 1) div a * a + (v + a - 1) mod a = v + a - 1"
    by simp
  have m: "(v + a - 1) mod a < a" using assms by simp
  show "v \<le> nat_align_up v a" using e m assms unfolding nat_align_up_def by linarith
  show "nat_align_up v a < v + a" using e assms unfolding nat_align_up_def by linarith
  show "a dvd nat_align_up v a" by (simp add: nat_align_up_def)
qed

lemma unat_align_up:
  assumes "0 < a" and "unat v + unat a \<le> 2 ^ 64"
  shows "unat (align_up v a) = nat_align_up (unat v) (unat a)"
proof -
  have a: "0 < unat a" using assms(1) by (simp add: unat_gt_0 word_neq_0_conv)
  have "nat_align_up (unat v) (unat a) < 2 ^ 64"
    using nat_align_up_bounds(2) [OF a, of "unat v"] assms(2) by simp
  then show ?thesis
    using assms(1) by (simp add: align_up_def unat_word_ariths unat_div_ceil nat_align_up_def)
qed

lemma sector_word: "plausible_sector_size n \<Longrightarrow> unat (of_nat n :: u64) = n"
  by (simp add: plausible_sector_size_def unat_of_nat)

lemma unat_align_sectors:
  assumes "plausible_sector_size n"
  shows "unat (align_sectors n) = 1048576 div n" and "16 \<le> 1048576 div n" and "1048576 div n \<le> 2048"
proof -
  have n: "512 \<le> n" "n \<le> 65536" using assms by (auto simp: plausible_sector_size_def)
  have "16 * n \<le> 1048576" using n by simp
  then show lo: "16 \<le> 1048576 div n" using n by (simp add: less_eq_div_iff_mult_less_eq)
  have "1048576 div n \<le> 1048576 div 512" using n by (intro div_le_mono2) simp_all
  then show "1048576 div n \<le> 2048" by simp
  have "unat (ALIGN_BYTES div of_nat n) = 1048576 div n"
    by (simp add: ALIGN_BYTES_def unat_div sector_word [OF assms])
  then show "unat (align_sectors n) = 1048576 div n"
    using lo by (simp add: align_sectors_def max_def word_le_nat_alt)
qed

lemma align_sectors_pos: "plausible_sector_size n \<Longrightarrow> 0 < align_sectors n"
  using unat_align_sectors [of n] by (simp add: word_less_nat_alt)

section \<open>The free extents\<close>

text \<open>
  What is found between the cursor and the ranges of a sorted list: aligned, not empty, past
  the cursor, clear of every range; the final cursor is past every range.
\<close>

definition clear_of :: "(u64 \<times> u64) set \<Rightarrow> free_extent \<Rightarrow> bool" where
  "clear_of used f \<longleftrightarrow> (\<forall>(s, e) \<in> used. e < fe_start f \<or> fe_end f < s)"

lemma extents_loop_spec:
  assumes "sorted used" and "\<forall>(s, e) \<in> set used. unat s \<le> l \<and> unat e \<le> l"
    and "0 < align" and "l + 1 + unat align \<le> 2 ^ 64" and "unat align dvd unat cursor"
    and "extents_loop align cursor used = (fs, c)"
  shows "(\<forall>f \<in> set fs. unat align dvd unat (fe_start f) \<and> cursor \<le> fe_start f
      \<and> fe_start f \<le> fe_end f \<and> unat (fe_end f) \<le> l \<and> clear_of (set used) f)
    \<and> cursor \<le> c \<and> unat align dvd unat c \<and> (\<forall>(s, e) \<in> set used. e < c)"
  using assms
proof (induction used arbitrary: cursor fs c)
  case Nil
  then show ?case by (simp add: clear_of_def)
next
  case (Cons p used)
  obtain s e where p: "p = (s, e)" by (cases p)
  define next_cursor where "next_cursor = max cursor (align_up (saturating_add e 1) align)"
  obtain fs' c' where rec: "extents_loop align next_cursor used = (fs', c')"
    by (cases "extents_loop align next_cursor used")
  have b: "unat s \<le> l" "unat e \<le> l" using Cons.prems(2) p by auto
  have pos: "0 < unat align" using Cons.prems(3) by (simp add: word_less_nat_alt)
  have e1: "unat (saturating_add e 1) = unat e + 1"
    using b pos Cons.prems(4) by (simp add: saturating_add_def unat_word_ariths)
  have al: "unat (align_up (saturating_add e 1) align) = nat_align_up (unat e + 1) (unat align)"
    using Cons.prems(3,4) b e1 by (subst unat_align_up) simp_all
  have past: "e < next_cursor"
    using nat_align_up_bounds(1) [OF pos, of "unat e + 1"] al
    by (simp add: next_cursor_def less_max_iff_disj) (simp add: word_less_nat_alt)
  have dv: "unat align dvd unat next_cursor"
    using Cons.prems(5) nat_align_up_bounds(3) [OF pos] al by (simp add: next_cursor_def max_def)
  have IH: "(\<forall>f \<in> set fs'. unat align dvd unat (fe_start f) \<and> next_cursor \<le> fe_start f
      \<and> fe_start f \<le> fe_end f \<and> unat (fe_end f) \<le> l \<and> clear_of (set used) f)
    \<and> next_cursor \<le> c' \<and> unat align dvd unat c' \<and> (\<forall>(s, e) \<in> set used. e < c')"
    using Cons.prems(1-4) dv rec by (intro Cons.IH) auto
  have ge: "cursor \<le> next_cursor" by (simp add: next_cursor_def)
  have fs: "fs = (if cursor < s then [\<lparr>fe_start = cursor, fe_end = s - 1\<rparr>] else []) @ fs'" "c = c'"
    using Cons.prems(6) rec p by (auto simp: next_cursor_def Let_def)
  have found: "cursor \<le> s - 1 \<and> unat (s - 1) \<le> l \<and> (\<forall>(s', e') \<in> set (p # used). s - 1 < s')"
    if "cursor < s"
  proof -
    have s1: "unat (s - 1) = unat s - 1" "0 < unat s"
      using that by (auto simp: word_less_nat_alt unat_sub_if_size)
    have "\<forall>(s', e') \<in> set (p # used). s \<le> s'"
      using Cons.prems(1) p by (auto simp: less_eq_prod_def)
    then show ?thesis
      using that s1 b by (auto simp: word_less_nat_alt word_le_nat_alt)
  qed
  have "clear_of (set (p # used)) f" if "f \<in> set fs'" for f
    using that IH past p by (auto simp: clear_of_def dest: less_le_trans)
  then show ?case
    using IH ge found Cons.prems(5) past p fs
    by (auto simp: clear_of_def intro: order_trans dest: less_le_trans split: if_splits)
qed

section \<open>Well-formed tables\<close>

text \<open>
  The geometry a parsed or created table carries: the regions of the layout are disjoint and
  inside the disk, and no alignment of a sector address can leave 64 bits.
\<close>

definition gpt_layout :: "gpt \<Rightarrow> bool" where
  "gpt_layout g \<longleftrightarrow> plausible_sector_size (sector_size g)
     \<and> ENTRY_SIZE \<le> entry_size g \<and> entry_size g mod 8 = 0 \<and> 0 < num_entries g
     \<and> guid_wf (disk_guid g)
     \<and> length (entries g) = unat (num_entries g) \<and> (\<forall>e \<in> set (entries g). entry_wf e)
     \<and> 2 \<le> entry_array_lba g
     \<and> unat (entry_array_lba g) + unat (array_sectors g) \<le> unat (first_usable_lba g)
     \<and> first_usable_lba g \<le> last_usable_lba g
     \<and> unat (last_usable_lba g) + unat (array_sectors g) + 1 < unat (disk_sectors g)
     \<and> unat (disk_sectors g) + unat (align_sectors (sector_size g)) \<le> 2 ^ 64"

text \<open>Every partition lies aligned in the usable range, and no two share a sector.\<close>

definition in_place :: "gpt \<Rightarrow> gpt_entry \<Rightarrow> bool" where
  "in_place g e \<longleftrightarrow> first_usable_lba g \<le> starting_lba e \<and> ending_lba e \<le> last_usable_lba g
     \<and> starting_lba e \<le> ending_lba e \<and> starting_lba e mod align_sectors (sector_size g) = 0"

definition apart :: "gpt_entry \<Rightarrow> gpt_entry \<Rightarrow> bool" where
  "apart x y \<longleftrightarrow> \<not> overlaps x (starting_lba y) (ending_lba y)"

definition healthy :: "gpt \<Rightarrow> bool" where
  "healthy g \<longleftrightarrow> (\<forall>e \<in> set (entries g). is_used e \<longrightarrow> in_place g e)
     \<and> sorted_wrt (\<lambda>x y. is_used x \<and> is_used y \<longrightarrow> apart x y) (entries g)"

lemma sorted_wrt_filter_iff:
  "sorted_wrt R (filter P xs) \<longleftrightarrow> sorted_wrt (\<lambda>x y. P x \<and> P y \<longrightarrow> R x y) xs"
  by (induction xs) auto

lemma map_snd_partitions: "map snd (partitions g) = filter is_used (entries g)"
proof -
  have "map snd (map (\<lambda>(i, e). (i + 1, e)) (filter (\<lambda>(i, e). is_used e) (enumerate n es)))
      = filter is_used es" for n es
    by (induction es arbitrary: n) auto
  then show ?thesis by (simp only: partitions_def)
qed

lemma entry_problems_Nil: "entry_problems g (i, e) = [] \<longleftrightarrow> in_place g e"
  by (auto simp: entry_problems_def in_place_def not_less)

lemma overlap_problems_Nil:
  "overlap_problems ps = [] \<longleftrightarrow> sorted_wrt apart (map snd ps)"
  by (induction ps rule: overlap_problems.induct) (auto simp: filter_empty_conv apart_def)

text \<open>\<open>problems\<close> reports nothing exactly for a healthy table.\<close>

lemma problems_Nil: "problems g = [] \<longleftrightarrow> healthy g"
proof -
  have "(\<forall>p \<in> set (partitions g). entry_problems g p = [])
      \<longleftrightarrow> (\<forall>e \<in> snd ` set (partitions g). in_place g e)"
    using entry_problems_Nil by fastforce
  also have "snd ` set (partitions g) = {e \<in> set (entries g). is_used e}"
    using map_snd_partitions [of g] by (metis list.set_map set_filter)
  finally show ?thesis
    by (auto simp: problems_def healthy_def overlap_problems_Nil map_snd_partitions
        sorted_wrt_filter_iff)
qed

lemma partitions_Nil: "partitions g = [] \<longleftrightarrow> (\<forall>e \<in> set (entries g). \<not> is_used e)"
  using map_snd_partitions [of g] by (auto simp: filter_empty_conv dest: sym)

lemma apart_sym: "is_used x \<Longrightarrow> is_used y \<Longrightarrow> apart x y = apart y x"
  by (auto simp: apart_def overlaps_def)

lemma healthy_update:
  assumes "healthy g" and "i < length (entries g)"
    and "is_used e \<Longrightarrow> in_place g e"
    and "\<And>y. is_used e \<Longrightarrow> y \<in> set (entries g) \<Longrightarrow> is_used y \<Longrightarrow> apart e y"
  shows "healthy (g\<lparr>entries := (entries g)[i := e]\<rparr>)"
proof -
  have p: "in_place (g\<lparr>entries := es\<rparr>) x = in_place g x" for es x
    by (simp add: in_place_def)
  have n: "apart e (entries g ! k) \<and> apart (entries g ! k) e"
    if "is_used e" "k < length (entries g)" "is_used (entries g ! k)" for k
    using assms(4) [of "entries g ! k"] apart_sym [of e "entries g ! k"] that by simp
  have "sorted_wrt (\<lambda>x y. is_used x \<and> is_used y \<longrightarrow> apart x y) ((entries g)[i := e])"
    using assms(1,2) n
    unfolding healthy_def sorted_wrt_iff_nth_less
    by (auto simp: nth_list_update)
  then show ?thesis
    using assms(1,3) by (auto simp: healthy_def p dest!: set_update_subset_insert [THEN subsetD])
qed

text \<open>The free extents of a healthy table.\<close>

lemma used_ranges_set:
  "set (used_ranges g) = {(starting_lba e, ending_lba e) | e. e \<in> set (entries g) \<and> is_used e}"
  by (auto simp: used_ranges_def)

lemma free_extents_spec:
  assumes "gpt_layout g" and "healthy g" and "f \<in> set (free_extents g)"
  shows "first_usable_lba g \<le> fe_start f \<and> fe_start f \<le> fe_end f \<and> fe_end f \<le> last_usable_lba g
    \<and> unat (align_sectors (sector_size g)) dvd unat (fe_start f)
    \<and> clear_of (set (used_ranges g)) f"
proof -
  define a where "a = align_sectors (sector_size g)"
  define l where "l = unat (last_usable_lba g)"
  define c0 where "c0 = align_up (first_usable_lba g) a"
  obtain fs c where loop: "extents_loop a c0 (used_ranges g) = (fs, c)"
    by (cases "extents_loop a c0 (used_ranges g)")
  have a0: "0 < a" using assms(1) by (simp add: a_def gpt_layout_def align_sectors_pos)
  then have un: "0 < unat a" by (simp add: word_less_nat_alt)
  have bound: "l + 1 + unat a \<le> 2 ^ 64" and fl: "unat (first_usable_lba g) \<le> l"
    using assms(1) by (auto simp: gpt_layout_def l_def a_def word_le_nat_alt)
  have c0: "unat c0 = nat_align_up (unat (first_usable_lba g)) (unat a)"
    using a0 bound fl unfolding c0_def by (subst unat_align_up) simp_all
  then have ge: "first_usable_lba g \<le> c0" and dv: "unat a dvd unat c0"
    using nat_align_up_bounds(1,3) [OF un] by (simp_all add: word_le_nat_alt)
  have "\<forall>(s, e) \<in> set (used_ranges g). unat s \<le> l \<and> unat e \<le> l"
    using assms(2) by (auto simp: used_ranges_set healthy_def in_place_def l_def word_le_nat_alt
        intro: order_trans)
  then have spec: "(\<forall>f \<in> set fs. unat a dvd unat (fe_start f) \<and> c0 \<le> fe_start f
      \<and> fe_start f \<le> fe_end f \<and> unat (fe_end f) \<le> l \<and> clear_of (set (used_ranges g)) f)
    \<and> c0 \<le> c \<and> unat a dvd unat c \<and> (\<forall>(s, e) \<in> set (used_ranges g). e < c)"
    using a0 bound dv loop
    by (intro extents_loop_spec [of "used_ranges g" l a c0 fs c]) (simp_all add: used_ranges_def)
  have "f \<in> set fs \<or> (c \<le> last_usable_lba g \<and> f = \<lparr>fe_start = c, fe_end = last_usable_lba g\<rparr>)"
    using assms(3) loop
    by (auto simp: free_extents_def Let_def a_def [symmetric] c0_def [symmetric] split: if_splits)
  then show ?thesis
    using spec ge unfolding a_def [symmetric]
    by (auto simp: l_def word_le_nat_alt [symmetric] clear_of_def intro: order_trans)
qed

section \<open>Creating, adding and removing\<close>

lemma unat_entry_array_sectors:
  assumes "plausible_sector_size n"
  shows "unat (entry_array_sectors n) = (16384 + n - 1) div n"
    and "1 \<le> (16384 + n - 1) div n" and "(16384 + n - 1) div n \<le> 33"
proof -
  have n: "512 \<le> n" "n \<le> 65536" using assms by (auto simp: plausible_sector_size_def)
  show "unat (entry_array_sectors n) = (16384 + n - 1) div n"
    using n by (simp add: entry_array_sectors_def array_sectors_for_def NUM_ENTRIES_def ENTRY_SIZE_def
        unat_div_ceil sector_word [OF assms] word_less_nat_alt)
  show "1 \<le> (16384 + n - 1) div n" using n by (simp add: Suc_le_eq div_greater_zero_iff)
  have "16384 + n - 1 \<le> n * 33" using n by simp
  then show "(16384 + n - 1) div n \<le> 33"
    using n by (metis div_le_mono nonzero_mult_div_cancel_left not_numeral_le_zero le_zero_eq)
qed

lemma unat_minimum_sectors:
  assumes "plausible_sector_size n"
  shows "unat (minimum_sectors n)
    = 3 + 2 * unat (entry_array_sectors n) + unat (align_sectors n)"
  using unat_entry_array_sectors [OF assms] unat_align_sectors [OF assms]
  by (simp add: minimum_sectors_def Let_def unat_word_ariths)

lemma gpt_create_cases:
  assumes "gpt_create fresh disk n = Inr g"
  shows "plausible_sector_size n" and "minimum_sectors n \<le> disk"
    and "g = \<lparr>sector_size = n, disk_sectors = disk, disk_guid = fresh,
             num_entries = NUM_ENTRIES, entry_size = ENTRY_SIZE, entry_array_lba = 2,
             first_usable_lba = 2 + entry_array_sectors n,
             last_usable_lba = disk - 1 - entry_array_sectors n - 1,
             entries = replicate (unat NUM_ENTRIES) entry_default\<rparr>"
  using assms by (auto simp: gpt_create_def Let_def not_less split: if_splits)

lemma gpt_create_layout:
  assumes "gpt_create fresh disk n = Inr g" and "guid_wf fresh"
    and "unat disk + unat (align_sectors n) \<le> 2 ^ 64"
  shows "gpt_layout g \<and> healthy g \<and> partitions g = []"
proof -
  note c = gpt_create_cases [OF assms(1)]
  define e where "e = entry_array_sectors n"
  have eb: "1 \<le> unat e" "unat e \<le> 33"
    using unat_entry_array_sectors [OF c(1)] by (simp_all add: e_def)
  have al: "16 \<le> unat (align_sectors n)" "unat (align_sectors n) \<le> 2048"
    using unat_align_sectors [OF c(1)] by simp_all
  have d: "3 + 2 * unat e + unat (align_sectors n) \<le> unat disk"
    using c(2) unat_minimum_sectors [OF c(1)] by (simp add: e_def word_le_nat_alt)
  have last: "unat (disk - 1 - e - 1) = unat disk - 2 - unat e"
    using d by (simp add: unat_sub_if_size word_le_nat_alt)
  have first: "unat (2 + e) = 2 + unat e"
    using eb by (simp add: unat_word_ariths)
  have arr: "array_sectors g = e"
    by (simp add: array_sectors_def c(3) e_def entry_array_sectors_def)
  have "gpt_layout g"
    using c(1) assms(2,3) eb al d last first
    unfolding gpt_layout_def arr
    by (simp add: c(3) e_def [symmetric] ENTRY_SIZE_def NUM_ENTRIES_def word_le_nat_alt) arith
  moreover have "\<forall>x \<in> set (entries g). \<not> is_used x"
    by (simp add: c(3))
  ultimately show ?thesis
    by (simp add: healthy_def partitions_Nil sorted_wrt_iff_nth_less)
qed

lemma max_by_key_None: "max_by_key k xs = None \<longleftrightarrow> xs = []"
  by (cases xs) (auto split: option.splits)

lemma max_by_key_mem: "max_by_key k xs = Some x \<Longrightarrow> x \<in> set xs \<and> (\<forall>y \<in> set xs. k y \<le> k x)"
proof (induction xs arbitrary: x)
  case (Cons a xs)
  show ?case
  proof (cases "max_by_key k xs")
    case None
    with Cons.prems show ?thesis by (simp add: max_by_key_None)
  next
    case (Some y)
    with Cons show ?thesis by (fastforce split: if_splits)
  qed
qed simp

lemma unat_fe_sectors:
  assumes "fe_start f \<le> fe_end f" and "unat (fe_end f) + 1 < 2 ^ 64"
  shows "unat (fe_sectors f) = unat (fe_end f) - unat (fe_start f) + 1"
  using assms by (simp add: fe_sectors_def saturating_sub_def unat_word_ariths unat_sub_if_size
      word_le_nat_alt)

text \<open>What \<open>choose_extent\<close> picks lies in one of the extents it is given.\<close>

lemma choose_extent_spec:
  assumes "choose_extent fs sectors = Inr c"
    and "\<forall>f \<in> set fs. fe_start f \<le> fe_end f \<and> unat (fe_end f) + 1 < 2 ^ 64"
  shows "\<exists>f \<in> set fs. fe_start c = fe_start f \<and> fe_start c \<le> fe_end c \<and> fe_end c \<le> fe_end f
    \<and> (case sectors of None \<Rightarrow> c = f \<and> (\<forall>h \<in> set fs. fe_sectors h \<le> fe_sectors f)
       | Some n \<Rightarrow> 0 < n \<and> unat (fe_end c) + 1 = unat (fe_start c) + unat n)"
proof (cases sectors)
  case None
  then have "max_by_key fe_sectors fs = Some c"
    using assms(1) by (cases "max_by_key fe_sectors fs") (simp_all add: choose_extent_def)
  then show ?thesis
    using max_by_key_mem [of fe_sectors fs c] assms(2) None by auto
next
  case (Some n)
  then obtain f where f: "find (\<lambda>f. n \<le> fe_sectors f) fs = Some f" and n0: "n \<noteq> 0"
    and c: "c = \<lparr>fe_start = fe_start f, fe_end = fe_start f + n - 1\<rparr>"
    using assms(1) by (auto simp: choose_extent_def split: if_splits option.splits)
  then have mem: "f \<in> set fs" and le: "n \<le> fe_sectors f"
    by (auto simp: find_Some_iff)
  then have b: "fe_start f \<le> fe_end f" "unat (fe_end f) + 1 < 2 ^ 64"
    using assms(2) by auto
  have n1: "unat n \<le> unat (fe_end f) - unat (fe_start f) + 1"
    using le unat_fe_sectors [OF b] by (simp add: word_le_nat_alt)
  have pos: "0 < unat n" using n0 by (simp add: unat_gt_0)
  have sum: "unat (fe_start f + n) = unat (fe_start f) + unat n"
    using n1 b by (simp add: unat_word_ariths word_le_nat_alt)
  then have e: "unat (fe_start f + n - 1) = unat (fe_start f) + unat n - 1"
    using pos by (subst unat_sub_if_size) (simp add: word_le_nat_alt)
  have "fe_start c = fe_start f \<and> fe_start c \<le> fe_end c \<and> fe_end c \<le> fe_end f
      \<and> 0 < n \<and> unat (fe_end c) + 1 = unat (fe_start c) + unat n"
    using e n1 pos b by (simp add: c word_le_nat_alt word_neq_0_conv [symmetric] n0) arith
  with mem Some show ?thesis by auto
qed

text \<open>The outcome of a successful \<open>add\<close>.\<close>

lemma gpt_add_cases:
  assumes "gpt_add fresh g sectors tg name unique = Inr (g', i)"
  obtains slot c where "length (encode_utf16 name) \<le> NAME_UNITS" and "\<not> guid_is_zero tg"
    and "position (\<lambda>e. \<not> is_used e) (entries g) = Some slot"
    and "choose_extent (free_extents g) sectors = Inr c" and "i = slot + 1"
    and "g' = g\<lparr>entries := (entries g)[slot :=
             \<lparr>type_guid = tg, unique_guid = (case unique of None \<Rightarrow> fresh | Some u \<Rightarrow> u),
              starting_lba = fe_start c, ending_lba = fe_end c,
              attributes = 0, entry_name = name\<rparr>]\<rparr>"
proof -
  from assms have v: "validate_name name = Inr ()"
    by (cases "validate_name name") (simp_all add: gpt_add_def)
  then have "length (encode_utf16 name) \<le> NAME_UNITS"
    by (simp add: validate_name_def Let_def not_less split: if_splits)
  moreover from assms v have "\<not> guid_is_zero tg"
    by (auto simp: gpt_add_def)
  moreover from assms v this obtain slot where
    p: "position (\<lambda>e. \<not> is_used e) (entries g) = Some slot"
    by (cases "position (\<lambda>e. \<not> is_used e) (entries g)") (auto simp: gpt_add_def)
  moreover from assms v calculation obtain c where "choose_extent (free_extents g) sectors = Inr c"
    by (cases "choose_extent (free_extents g) sectors") (auto simp: gpt_add_def)
  ultimately show thesis
    using assms v that by (auto simp: gpt_add_def)
qed

lemma gpt_add_keeps:
  assumes "gpt_layout g" and "healthy g"
    and "gpt_add fresh g sectors tg name unique = Inr (g', i)"
  shows "healthy g' \<and> 1 \<le> i \<and> i \<le> length (entries g)
    \<and> (\<forall>j < length (entries g). j \<noteq> i - 1 \<longrightarrow> entries g' ! j = entries g ! j)
    \<and> \<not> is_used (entries g ! (i - 1)) \<and> is_used (entries g' ! (i - 1))
    \<and> (\<forall>n. sectors = Some n \<longrightarrow> entry_sectors (entries g' ! (i - 1)) = n)"
proof -
  from assms(3) obtain slot c where n: "length (encode_utf16 name) \<le> NAME_UNITS"
    and tg: "\<not> guid_is_zero tg"
    and p: "position (\<lambda>e. \<not> is_used e) (entries g) = Some slot"
    and c: "choose_extent (free_extents g) sectors = Inr c" and i: "i = slot + 1"
    and g': "g' = g\<lparr>entries := (entries g)[slot :=
             \<lparr>type_guid = tg, unique_guid = (case unique of None \<Rightarrow> fresh | Some u \<Rightarrow> u),
              starting_lba = fe_start c, ending_lba = fe_end c,
              attributes = 0, entry_name = name\<rparr>]\<rparr>" (is "_ = g\<lparr>entries := (entries g)[slot := ?e]\<rparr>")
    by (rule gpt_add_cases)
  have slot: "slot < length (entries g)" "\<not> is_used (entries g ! slot)"
    using position_Some [OF p] by simp_all
  have used: "is_used ?e" using tg by (simp add: is_used_def)
  have b: "\<forall>f \<in> set (free_extents g). fe_start f \<le> fe_end f \<and> unat (fe_end f) + 1 < 2 ^ 64"
  proof
    fix f
    assume "f \<in> set (free_extents g)"
    from free_extents_spec [OF assms(1,2) this] assms(1)
    show "fe_start f \<le> fe_end f \<and> unat (fe_end f) + 1 < 2 ^ 64"
      unfolding gpt_layout_def word_le_nat_alt by linarith
  qed
  obtain f where f: "f \<in> set (free_extents g)" and st: "fe_start c = fe_start f"
    and ce: "fe_start c \<le> fe_end c" "fe_end c \<le> fe_end f"
    and size: "case sectors of None \<Rightarrow> c = f \<and> (\<forall>h \<in> set (free_extents g). fe_sectors h \<le> fe_sectors f)
       | Some n \<Rightarrow> 0 < n \<and> unat (fe_end c) + 1 = unat (fe_start c) + unat n"
    using choose_extent_spec [OF c b] by blast
  note fs = free_extents_spec [OF assms(1,2) f]
  have al: "fe_start c mod align_sectors (sector_size g) = 0"
  proof -
    have "unat (fe_start f mod align_sectors (sector_size g)) = 0"
      using fs by (simp add: unat_mod)
    then show ?thesis by (simp add: st unat_eq_0)
  qed
  have place: "in_place g ?e"
    using fs ce st al by (auto simp: in_place_def intro: order_trans)
  have "apart ?e y" if "y \<in> set (entries g)" "is_used y" for y
  proof -
    have "(starting_lba y, ending_lba y) \<in> set (used_ranges g)"
      using that by (auto simp: used_ranges_set)
    then have "ending_lba y < fe_start f \<or> fe_end f < starting_lba y"
      using fs by (auto simp: clear_of_def)
    then show ?thesis
      using st ce by (auto simp: apart_def overlaps_def not_le dest: less_le_trans le_less_trans)
  qed
  then have "healthy g'"
    unfolding g' using assms(2) slot(1) place by (intro healthy_update) simp_all
  moreover have "entry_sectors ?e = n" if "sectors = Some n" for n
  proof -
    have "0 < n" and e: "unat (fe_end c) + 1 = unat (fe_start c) + unat n"
      using size that by simp_all
    have "unat (fe_end c - fe_start c + 1) = unat n"
    proof -
      have "unat (fe_end c - fe_start c) = unat (fe_end c) - unat (fe_start c)"
        using ce(1) by (simp add: unat_sub_if_size word_le_nat_alt)
      moreover have "unat n < 2 ^ 64" using unsigned_less [of n] by simp
      ultimately show ?thesis
        using e ce(1) by (simp add: unat_word_ariths word_le_nat_alt)
    qed
    then show ?thesis
      using used ce(1) by (simp add: entry_sectors_def word_unat_eq_iff)
  qed
  ultimately show ?thesis
    using slot used by (simp add: i g')
qed

lemma gpt_remove_keeps:
  assumes "healthy g" and "gpt_remove g i = Inr g'"
  shows "healthy g' \<and> 1 \<le> i \<and> i \<le> length (entries g) \<and> is_used (entries g ! (i - 1))
    \<and> g' = g\<lparr>entries := (entries g)[i - 1 := entry_default]\<rparr>"
proof -
  have i: "1 \<le> i" "i \<le> length (entries g)" "is_used (entries g ! (i - 1))"
    and g': "g' = g\<lparr>entries := (entries g)[i - 1 := entry_default]\<rparr>"
    using assms(2) by (auto simp: gpt_remove_def Let_def split: if_splits)
  have "healthy g'"
    unfolding g' using assms(1) i by (intro healthy_update) simp_all
  with i g' show ?thesis by simp
qed

section \<open>Edits of a table\<close>

text \<open>One edit of a table by the program, with the arguments its callers can pass.\<close>

inductive gpt_step :: "gpt \<Rightarrow> gpt \<Rightarrow> bool" where
  added: "gpt_add fresh g sectors tg name unique = Inr (g', i) \<Longrightarrow> guid_wf fresh \<Longrightarrow> guid_wf tg \<Longrightarrow>
     (\<And>u. unique = Some u \<Longrightarrow> guid_wf u) \<Longrightarrow> (\<forall>c \<in> set name. is_scalar c \<and> c \<noteq> 0) \<Longrightarrow> gpt_step g g'"
| removed: "gpt_remove g i = Inr g' \<Longrightarrow> gpt_step g g'"

definition gpt_init :: "gpt \<Rightarrow> bool" where
  "gpt_init g \<longleftrightarrow> (\<exists>fresh disk n. gpt_create fresh disk n = Inr g \<and> guid_wf fresh
     \<and> unat disk + unat (align_sectors n) \<le> 2 ^ 64)"

definition gpt_inv :: "gpt \<Rightarrow> bool" where
  "gpt_inv g \<longleftrightarrow> gpt_layout g \<and> healthy g"

lemma gpt_layout_update:
  assumes "gpt_layout g" and "entry_wf e"
  shows "gpt_layout (g\<lparr>entries := (entries g)[i := e]\<rparr>)"
  using assms
  by (auto simp: gpt_layout_def array_sectors_def dest!: set_update_subset_insert [THEN subsetD])

lemma gpt_step_inv: "gpt_step g g' \<Longrightarrow> gpt_inv g \<Longrightarrow> gpt_inv g'"
proof (induction rule: gpt_step.induct)
  case (added fresh g sectors tg name unique g' i)
  then have inv: "gpt_layout g" "healthy g" by (simp_all add: gpt_inv_def)
  have "healthy g'" using gpt_add_keeps [OF inv added.hyps(1)] by simp
  moreover have "gpt_layout g'"
    using added.hyps(1)
  proof (rule gpt_add_cases)
    fix slot c
    assume "length (encode_utf16 name) \<le> NAME_UNITS" and
      "g' = g\<lparr>entries := (entries g)[slot :=
             \<lparr>type_guid = tg, unique_guid = (case unique of None \<Rightarrow> fresh | Some u \<Rightarrow> u),
              starting_lba = fe_start c, ending_lba = fe_end c,
              attributes = 0, entry_name = name\<rparr>]\<rparr>"
    then show "gpt_layout g'"
      using inv(1) added.hyps(2-5)
      by (auto intro!: gpt_layout_update simp: entry_wf_def name_ok_def split: option.splits)
  qed
  ultimately show ?case by (simp add: gpt_inv_def)
next
  case (removed g i g')
  then have inv: "gpt_layout g" "healthy g" by (simp_all add: gpt_inv_def)
  from gpt_remove_keeps [OF inv(2) removed.hyps(1)] inv(1) show ?case
    by (auto simp: gpt_inv_def intro: gpt_layout_update)
qed

interpretation gpt_edits: invariant_system gpt_init gpt_step gpt_inv
proof unfold_locales
  fix s t :: gpt
  show "gpt_init s \<Longrightarrow> gpt_inv s"
    using gpt_create_layout by (auto simp: gpt_init_def gpt_inv_def)
  show "gpt_step s t \<Longrightarrow> gpt_inv s \<Longrightarrow> gpt_inv t"
    by (rule gpt_step_inv)
qed

section \<open>The table on the disk\<close>

lemma put_slots_spec:
  assumes "\<forall>x \<in> set xs. length x = w" and "w \<le> stride" and "length p = i * stride"
  shows "put_slots stride i xs (p @ replicate (length xs * stride) 0)
    = Some (p @ concat (map (\<lambda>x. x @ replicate (stride - w) 0) xs))"
  using assms
proof (induction xs arbitrary: i p)
  case (Cons x xs)
  have w: "length x = w" using Cons.prems by simp
  have "put (i * stride) x (p @ replicate (length (x # xs) * stride) 0)
      = Some ((p @ x @ replicate (stride - w) 0) @ replicate (length xs * stride) 0)"
    using Cons.prems w by (simp add: put_def replicate_add [symmetric])
  moreover have "length (p @ x @ replicate (stride - w) 0) = Suc i * stride"
    using Cons.prems w by simp
  ultimately show ?case
    using Cons.IH [of "p @ x @ replicate (stride - w) 0" "Suc i"] Cons.prems by simp
qed simp

lemma unat_entry_size: "gpt_layout g \<Longrightarrow> 128 \<le> unat (entry_size g)"
  by (simp add: gpt_layout_def ENTRY_SIZE_def word_le_nat_alt)

lemma entry_array_layout:
  assumes "gpt_layout g"
  shows "entry_array g = Some (concat (map (\<lambda>e. entry_to_bytes e
     @ replicate (unat (entry_size g) - 128) 0) (entries g)))"
proof -
  have wf: "\<forall>e \<in> set (entries g). entry_wf e" and len: "length (entries g) = unat (num_entries g)"
    using assms by (auto simp: gpt_layout_def)
  then have "put_slots (unat (entry_size g)) 0 (map entry_to_bytes (entries g))
      ([] @ replicate (length (map entry_to_bytes (entries g)) * unat (entry_size g)) 0)
    = Some ([] @ concat (map (\<lambda>x. x @ replicate (unat (entry_size g) - 128) 0)
        (map entry_to_bytes (entries g))))"
    using unat_entry_size [OF assms] entry_codec.enc_length
    by (intro put_slots_spec) auto
  then show ?thesis
    using len by (simp add: entry_array_def o_def)
qed

lemma array_sectors_unat:
  assumes "plausible_sector_size (sector_size g)"
  shows "unat (array_sectors g)
    = (unat (num_entries g) * unat (entry_size g) + sector_size g - 1) div sector_size g"
proof -
  have n: "512 \<le> sector_size g" using assms by (auto simp: plausible_sector_size_def)
  have "unat (num_entries g) * unat (entry_size g) \<le> 4294967295 * 4294967295"
    by (rule mult_le_mono [OF unat_u32_bound unat_u32_bound])
  then show ?thesis
    using n by (simp add: array_sectors_def array_sectors_for_def unat_div_ceil sector_word [OF assms]
        word_less_nat_alt unat_word_ariths unat_u32_u64)
qed

lemma array_fits:
  assumes "plausible_sector_size (sector_size g)"
  shows "unat (num_entries g) * unat (entry_size g) \<le> unat (array_sectors g) * sector_size g"
  using nat_align_up_bounds(1) [of "sector_size g" "unat (num_entries g) * unat (entry_size g)"] assms
  by (simp add: array_sectors_unat nat_align_up_def plausible_sector_size_def)

lemma header_for_wf: "gpt_layout g \<Longrightarrow> header_wf (header_for g primary c)"
  by (simp add: gpt_layout_def header_wf_def header_for_def)

lemma primary_array_ok:
  assumes "gpt_layout g"
  shows "primary_array_sectors (header_for g True c) (disk_sectors g) (sector_size g)
    = Inr (array_sectors g)"
proof -
  have a: "div_ceil (ucast (num_entries g) * ucast (entry_size g)) (of_nat (sector_size g))
      = array_sectors g"
    by (simp add: array_sectors_def array_sectors_for_def)
  have L: "plausible_sector_size (sector_size g)" "2 \<le> entry_array_lba g"
    "unat (entry_array_lba g) + unat (array_sectors g) \<le> unat (first_usable_lba g)"
    "unat (first_usable_lba g) \<le> unat (last_usable_lba g)"
    "unat (last_usable_lba g) + unat (array_sectors g) + 1 < unat (disk_sectors g)"
    using assms by (auto simp: gpt_layout_def word_le_nat_alt)
  have n: "512 \<le> sector_size g" using L(1) by (simp add: plausible_sector_size_def)
  have "1 * 128 \<le> unat (num_entries g) * unat (entry_size g)"
    using assms unat_entry_size [OF assms]
    by (intro mult_le_mono) (auto simp: gpt_layout_def word_less_nat_alt)
  then have pos: "0 < unat (array_sectors g)"
    using n by (simp add: array_sectors_unat [OF L(1)] div_greater_zero_iff)
  have lst: "unat (last_lba g) = unat (disk_sectors g) - 1"
    using L(5) by (simp add: last_lba_def unat_sub_if_size word_le_nat_alt)
  have sub: "unat (last_lba g - array_sectors g) = unat (disk_sectors g) - 1 - unat (array_sectors g)"
    using L(5) lst by (simp add: unat_sub_if_size word_le_nat_alt)
  have add: "unat (entry_array_lba g + array_sectors g)
      = unat (entry_array_lba g) + unat (array_sectors g)"
    using L unsigned_less [of "first_usable_lba g", where ?'a = nat] by (simp add: unat_word_ariths)
  have bnd: "unat (entry_array_lba g) + unat (array_sectors g) < 2 ^ 64"
    using L unsigned_less [of "disk_sectors g", where ?'a = nat] by simp
  show ?thesis
    unfolding primary_array_sectors_def header_for_def
    using L pos lst sub add bnd
    by (simp add: a Let_def checked_add_def checked_sub_def word_le_nat_alt word_less_nat_alt
        unat_gt_0 not_le not_less) arith
qed

lemma parse_entries_map:
  assumes "\<And>i. i \<in> set is \<Longrightarrow> entry_parse (subslice (i * stride) (i * stride + stride) a) = Some (f i)"
  shows "parse_entries a stride is = Inr (map f is)"
  using assms by (induction "is") simp_all

text \<open>The five writes of a well-formed table.\<close>

lemma gpt_writes_layout:
  assumes "gpt_layout g"
  obtains a m h1 h2 where "entry_array g = Some a"
    and "length a = unat (num_entries g) * unat (entry_size g)"
    and "gpt_writes crc g = Some [(0, m),
      (entry_array_lba g, resize (unat (array_sectors g) * sector_size g) a),
      (backup_entries_lba g, resize (unat (array_sectors g) * sector_size g) a),
      (1, h1), (last_lba g, h2)]"
    and "header_parse crc h1 = Inr (header_for g True (crc a))"
    and "header_parse crc h2 = Inr (header_for g False (crc a))"
    and "is_protective m" and "length m = sector_size g"
    and "length h1 = sector_size g" and "length h2 = sector_size g"
proof -
  have n: "512 \<le> sector_size g" "sector_size g \<le> 65536"
    using assms by (auto simp: gpt_layout_def plausible_sector_size_def)
  have len: "length (entries g) = unat (num_entries g)" and wf: "\<forall>e \<in> set (entries g). entry_wf e"
    using assms by (auto simp: gpt_layout_def)
  define a where "a = concat (map (\<lambda>e. entry_to_bytes e
     @ replicate (unat (entry_size g) - 128) 0) (entries g))"
  have a: "entry_array g = Some a" unfolding a_def by (rule entry_array_layout [OF assms])
  have la: "length a = unat (num_entries g) * unat (entry_size g)"
    unfolding a_def len [symmetric]
    by (rule entry_codec.length_slots [OF wf unat_entry_size [OF assms]])
  obtain m where m: "protective (disk_sectors g) (sector_size g) = Some m" "length m = sector_size g"
    "is_protective m"
    using protective_layout_ok [OF n(1)] by blast
  obtain h1 where h1: "to_sector crc (header_for g True (crc a)) (sector_size g) = Some h1"
    "length h1 = sector_size g" "header_parse crc h1 = Inr (header_for g True (crc a))"
    using header_roundtrip_ok [OF header_for_wf [OF assms], of "sector_size g" crc True "crc a"] n by auto
  obtain h2 where h2: "to_sector crc (header_for g False (crc a)) (sector_size g) = Some h2"
    "length h2 = sector_size g" "header_parse crc h2 = Inr (header_for g False (crc a))"
    using header_roundtrip_ok [OF header_for_wf [OF assms], of "sector_size g" crc False "crc a"] n by auto
  show thesis
    using a la m h1 h2 by (intro that [of a m h1 h2]) (auto simp: gpt_writes_def Let_def)
qed

lemma gpt_parse_written:
  assumes "gpt_layout g" and "entry_array g = Some a"
    and "header_parse crc h = Inr (header_for g True (crc a))"
  shows "gpt_parse crc (disk_sectors g) (sector_size g) h
    (resize (unat (array_sectors g) * sector_size g) a) = Inr g"
proof -
  have len: "length (entries g) = unat (num_entries g)" and wf: "\<forall>e \<in> set (entries g). entry_wf e"
    and ss: "plausible_sector_size (sector_size g)"
    using assms(1) by (auto simp: gpt_layout_def)
  have a: "a = concat (map (\<lambda>e. entry_to_bytes e
     @ replicate (unat (entry_size g) - 128) 0) (entries g)) @ []"
    using entry_array_layout [OF assms(1)] assms(2) by simp
  have la: "length a = unat (num_entries g) * unat (entry_size g)"
    using entry_codec.length_slots [OF wf unat_entry_size [OF assms(1)]] a len by simp
  have big: "unat (num_entries g) * unat (entry_size g) \<le> 4294967295 * 4294967295"
    by (rule mult_le_mono [OF unat_u32_bound unat_u32_bound])
  have parse: "parse_entries a (unat (entry_size g)) [0..<unat (num_entries g)]
      = Inr (map ((!) (entries g)) [0..<unat (num_entries g)])"
    by (rule parse_entries_map, unfold a, rule entry_codec.dec_slot [OF wf unat_entry_size [OF assms(1)]])
      (simp add: len)
  have nth: "map ((!) (entries g)) [0..<unat (num_entries g)] = entries g"
    unfolding len [symmetric] by (rule map_nth)
  have want: "min (length a) (2 ^ 64 - 1) = length a"
    using big la by simp
  have fit: "length a \<le> length (resize (unat (array_sectors g) * sector_size g) a)"
    "take (length a) (resize (unat (array_sectors g) * sector_size g) a) = a"
    using array_fits [OF ss] la by (simp_all add: resize_def)
  have w: "min (unat (h_num_entries (header_for g True (crc a))) * unat (h_entry_size (header_for g True (crc a))))
      (2 ^ 64 - 1) = length a"
    using want la by (simp add: header_for_def)
  show ?thesis
    unfolding gpt_parse_def
    by (simp only: assms(3) primary_array_ok [OF assms(1)] result_bind_simps Let_def w fit)
      (use fit parse nth in \<open>simp add: header_for_def not_less\<close>)
qed

lemma gpt_disk_roundtrip_ok:
  assumes "gpt_layout g"
  shows "\<exists>mbr arr h1 h2. gpt_writes crc g =
      Some [(0, mbr), (entry_array_lba g, arr), (backup_entries_lba g, arr), (1, h1), (last_lba g, h2)]
    \<and> gpt_parse crc (disk_sectors g) (sector_size g) h1 arr = Inr g
    \<and> (\<exists>h. header_parse crc h2 = Inr h \<and> my_lba h = last_lba g \<and> alternate_lba h = 1
         \<and> h_entry_array_lba h = backup_entries_lba g)
    \<and> is_protective mbr"
  by (rule gpt_writes_layout [OF assms, of crc])
    (use gpt_parse_written [OF assms] in \<open>fastforce simp: header_for_def\<close>)

section \<open>Where the writes land\<close>

definition write_region :: "nat \<Rightarrow> u64 \<times> bytes \<Rightarrow> nat set" where
  "write_region ss w = {unat (fst w) ..< unat (fst w) + length (snd w) div ss}"

lemma length_resize [simp]: "length (resize n v) = n"
  by (simp add: resize_def)

lemma gpt_writes_regions_ok:
  assumes "gpt_layout g" and "gpt_writes crc g = Some ws"
  shows "sorted_wrt (\<lambda>v w. write_region (sector_size g) v \<inter> write_region (sector_size g) w = {}) ws
    \<and> (\<forall>w \<in> set ws. write_region (sector_size g) w \<subseteq> {..<unat (disk_sectors g)}
        \<and> write_region (sector_size g) w
           \<inter> {unat (first_usable_lba g)..unat (last_usable_lba g)} = {})"
proof -
  obtain a m h1 h2 where w: "gpt_writes crc g = Some [(0, m),
      (entry_array_lba g, resize (unat (array_sectors g) * sector_size g) a),
      (backup_entries_lba g, resize (unat (array_sectors g) * sector_size g) a),
      (1, h1), (last_lba g, h2)]"
    and l: "length m = sector_size g" "length h1 = sector_size g" "length h2 = sector_size g"
    by (rule gpt_writes_layout [OF assms(1), of crc])
  have n: "0 < sector_size g"
    using assms(1) by (auto simp: gpt_layout_def plausible_sector_size_def)
  have L: "2 \<le> unat (entry_array_lba g)"
    "unat (entry_array_lba g) + unat (array_sectors g) \<le> unat (first_usable_lba g)"
    "unat (first_usable_lba g) \<le> unat (last_usable_lba g)"
    "unat (last_usable_lba g) + unat (array_sectors g) + 1 < unat (disk_sectors g)"
    using assms(1) by (auto simp: gpt_layout_def word_le_nat_alt)
  have lst: "unat (last_lba g) = unat (disk_sectors g) - 1"
    using L by (simp add: last_lba_def unat_sub_if_size word_le_nat_alt)
  then have bak: "unat (backup_entries_lba g) = unat (disk_sectors g) - 1 - unat (array_sectors g)"
    using L by (simp add: backup_entries_lba_def unat_sub_if_size word_le_nat_alt)
  have ws: "map (write_region (sector_size g)) ws =
     [{0..<1}, {unat (entry_array_lba g) ..< unat (entry_array_lba g) + unat (array_sectors g)},
      {unat (disk_sectors g) - 1 - unat (array_sectors g) ..< unat (disk_sectors g) - 1},
      {1}, {unat (disk_sectors g) - 1 ..< unat (disk_sectors g)}]"
    using w assms(2) l n L lst bak by (simp add: write_region_def)
  have "sorted_wrt (\<lambda>v w. v \<inter> w = {}) (map (write_region (sector_size g)) ws)"
    using L unfolding ws by (auto simp: disjoint_iff)
  moreover have "\<forall>r \<in> set (map (write_region (sector_size g)) ws). r \<subseteq> {..<unat (disk_sectors g)}
      \<and> r \<inter> {unat (first_usable_lba g)..unat (last_usable_lba g)} = {}"
    using L unfolding ws by (auto simp: disjoint_iff)
  ultimately show ?thesis
    by (auto simp: sorted_wrt_map)
qed

section \<open>Properties\<close>

text \<open>Creating a table succeeds exactly on a plausible sector size and a disk with room
  for the metadata and one aligned partition; the fresh table has the documented layout,
  no partition and nothing to report.\<close>

theorem gpt_create_correct:
  assumes "guid_wf fresh" and "unat disk + unat (align_sectors n) \<le> 2 ^ 64"
  shows "((\<exists>g. gpt_create fresh disk n = Inr g)
      \<longleftrightarrow> plausible_sector_size n \<and> minimum_sectors n \<le> disk)
    \<and> (\<forall>g. gpt_create fresh disk n = Inr g \<longrightarrow> gpt_layout g \<and> partitions g = [] \<and> problems g = [])"
proof
  show "(\<exists>g. gpt_create fresh disk n = Inr g)
      \<longleftrightarrow> plausible_sector_size n \<and> minimum_sectors n \<le> disk"
    by (auto simp: gpt_create_def Let_def)
  show "\<forall>g. gpt_create fresh disk n = Inr g \<longrightarrow> gpt_layout g \<and> partitions g = [] \<and> problems g = []"
    using gpt_create_layout assms by (auto simp: problems_Nil)
qed

definition sample_guid :: guid where
  "sample_guid = replicate 16 7"

definition sample_gpt :: gpt where
  "sample_gpt = (case gpt_create sample_guid 16777216 512 of Inr g \<Rightarrow> g)"

lemma sample_guid_wf [simp]: "guid_wf sample_guid"
  by (simp add: sample_guid_def guid_wf_def)

lemma sample_plausible: "plausible_sector_size 512"
  by (simp add: plausible_sector_size_def is_power_of_two_def)

lemma sample_minimum: "minimum_sectors 512 \<le> 16777216"
  by (simp add: minimum_sectors_def entry_array_sectors_def array_sectors_for_def div_ceil_def
      NUM_ENTRIES_def ENTRY_SIZE_def align_sectors_def ALIGN_BYTES_def Let_def)

lemma sample_room: "unat (16777216 :: u64) + unat (align_sectors 512) \<le> 2 ^ 64"
  using unat_align_sectors [OF sample_plausible] by simp

lemma sample_created: "gpt_create sample_guid 16777216 512 = Inr sample_gpt"
  using sample_plausible sample_minimum by (simp add: sample_gpt_def gpt_create_def Let_def)

lemmas sample_fields = gpt_create_cases(3) [OF sample_created]

lemma sample_layout: "gpt_layout sample_gpt" "healthy sample_gpt"
  using gpt_create_layout [OF sample_created] sample_room by simp_all

theorem gpt_create_correct_witness:
  "\<exists>g. gpt_create sample_guid 16777216 512 = Inr g \<and> gpt_layout g \<and> problems g = []"
  using gpt_create_correct [OF sample_guid_wf sample_room] sample_plausible sample_minimum by blast

text \<open>C1. However a table is edited, starting from a created one: after any sequence of
  successful \<open>add\<close>s and \<open>remove\<close>s every partition is aligned, ordered and inside the usable
  range, no two overlap (\<open>problems\<close> has nothing to report), and the geometry is intact.\<close>

theorem gpt_edits_safe:
  assumes "gpt_init g0" and "gpt_step\<^sup>*\<^sup>* g0 g"
  shows "problems g = [] \<and> gpt_layout g"
  using gpt_edits.reach_inv [OF assms] by (simp add: gpt_inv_def problems_Nil)

theorem gpt_edits_safe_witness:
  "problems sample_gpt = [] \<and> gpt_layout sample_gpt"
proof -
  have "gpt_init sample_gpt"
    using sample_created sample_room sample_guid_wf unfolding gpt_init_def by blast
  then show ?thesis by (rule gpt_edits_safe) simp
qed

text \<open>C19. A successful \<open>add\<close> on a healthy table takes the slot it reports, which was free, gives
  the partition exactly the requested number of sectors, leaves every other slot as it was
  and keeps the table healthy.\<close>

theorem gpt_add_correct:
  assumes "gpt_layout g" and "problems g = []"
    and "gpt_add fresh g sectors tg name unique = Inr (g', i)"
  shows "problems g' = [] \<and> 1 \<le> i \<and> i \<le> length (entries g)
    \<and> \<not> is_used (entries g ! (i - 1)) \<and> is_used (entries g' ! (i - 1))
    \<and> (\<forall>j < length (entries g). j \<noteq> i - 1 \<longrightarrow> entries g' ! j = entries g ! j)
    \<and> (\<forall>n. sectors = Some n \<longrightarrow> entry_sectors (entries g' ! (i - 1)) = n)"
  using gpt_add_keeps [OF assms(1) _ assms(3)] assms(2) by (simp add: problems_Nil)


lemma sample_extent:
  "free_extents sample_gpt = [\<lparr>fe_start = 2048, fe_end = 16777182\<rparr>]"
proof -
  have "used_ranges sample_gpt = []"
    by (simp add: used_ranges_def sample_fields)
  moreover have "sector_size sample_gpt = 512" "first_usable_lba sample_gpt = 34"
    "last_usable_lba sample_gpt = 16777182"
    by (simp_all add: sample_fields entry_array_sectors_def
        array_sectors_for_def div_ceil_def NUM_ENTRIES_def ENTRY_SIZE_def)
  ultimately show ?thesis
    by (simp add: free_extents_def align_sectors_def ALIGN_BYTES_def align_up_def div_ceil_def)
qed


lemma sample_add:
  "\<exists>g'. gpt_add sample_guid sample_gpt (Some 2048) esp_bytes (lit ''root'') None = Inr (g', 1)"
proof -
  have "entries sample_gpt = entry_default # replicate 127 entry_default"
    using replicate_Suc [of 127 entry_default] by (simp add: sample_fields NUM_ENTRIES_def)
  then have "position (\<lambda>e. \<not> is_used e) (entries sample_gpt) = Some 0"
    by simp
  moreover have "\<not> guid_is_zero esp_bytes"
  proof
    assume "guid_is_zero esp_bytes"
    then have "esp_bytes ! 0 = replicate 16 0 ! 0" by (simp add: guid_is_zero_def)
    then show False by (simp add: esp_bytes_def)
  qed
  moreover have "validate_name (lit ''root'') = Inr ()"
    by (simp add: validate_name_def encode_utf16_def encode_utf16_char_def lit_def NAME_UNITS_def)
  ultimately show ?thesis
    by (simp add: gpt_add_def sample_extent choose_extent_def fe_sectors_def saturating_sub_def)
qed

theorem gpt_add_correct_witness:
  "\<exists>g'. gpt_add sample_guid sample_gpt (Some 2048) esp_bytes (lit ''root'') None = Inr (g', 1)
     \<and> problems g' = [] \<and> entry_sectors (entries g' ! 0) = 2048"
proof -
  obtain g' where g': "gpt_add sample_guid sample_gpt (Some 2048) esp_bytes (lit ''root'') None
      = Inr (g', 1)"
    using sample_add by blast
  have "problems sample_gpt = []" using sample_layout by (simp add: problems_Nil)
  from gpt_add_correct [OF sample_layout(1) this g'] g' show ?thesis by auto
qed

text \<open>C9. A table survives the disk: the five writes are produced without a panic, and reading
  back the primary header and the entry array gives the very same table; the backup header
  is valid and points at the backup array and the primary header.\<close>

theorem gpt_disk_roundtrip:
  assumes "gpt_layout g"
  shows "\<exists>mbr arr h1 h2. gpt_writes crc g =
      Some [(0, mbr), (entry_array_lba g, arr), (backup_entries_lba g, arr), (1, h1), (last_lba g, h2)]
    \<and> gpt_parse crc (disk_sectors g) (sector_size g) h1 arr = Inr g
    \<and> (\<exists>h. header_parse crc h2 = Inr h \<and> my_lba h = last_lba g \<and> alternate_lba h = 1
         \<and> h_entry_array_lba h = backup_entries_lba g)
    \<and> is_protective mbr"
  by (rule gpt_disk_roundtrip_ok [OF assms])

theorem gpt_disk_roundtrip_witness:
  "\<exists>h1 arr. gpt_parse (\<lambda>b. of_nat (length b)) (disk_sectors sample_gpt) (sector_size sample_gpt) h1 arr
     = Inr sample_gpt"
  using gpt_disk_roundtrip [OF sample_layout(1), of "\<lambda>b. of_nat (length b)"] by blast

text \<open>The writes never touch a partition or each other: as sector ranges they are pairwise
  disjoint, lie on the disk, and stay out of the usable range.\<close>

theorem gpt_writes_regions:
  assumes "gpt_layout g" and "gpt_writes crc g = Some ws"
  shows "sorted_wrt (\<lambda>v w. write_region (sector_size g) v \<inter> write_region (sector_size g) w = {}) ws
    \<and> (\<forall>w \<in> set ws. write_region (sector_size g) w \<subseteq> {..<unat (disk_sectors g)}
        \<and> write_region (sector_size g) w
           \<inter> {unat (first_usable_lba g)..unat (last_usable_lba g)} = {})"
  by (rule gpt_writes_regions_ok [OF assms])

theorem gpt_writes_regions_witness:
  "\<exists>ws. gpt_writes (\<lambda>b. of_nat (length b)) sample_gpt = Some ws
     \<and> (\<forall>w \<in> set ws. write_region (sector_size sample_gpt) w \<subseteq> {..<unat (disk_sectors sample_gpt)})"
proof -
  obtain ws where ws: "gpt_writes (\<lambda>b. of_nat (length b)) sample_gpt = Some ws"
    using gpt_disk_roundtrip_ok [OF sample_layout(1), of "\<lambda>b. of_nat (length b)"] by blast
  from gpt_writes_regions [OF sample_layout(1) ws] ws show ?thesis by blast
qed
end
