(* ===== verification/Part_Device.thy ===== *)
theory Part_Device
  imports Gpt "HOL-Library.List_Lexorder"
begin

text \<open>
  The device behind a table (\<open>src/uu/part/src/device.rs\<close>): geometry, the guards against touching a
  partition or a mounted disk, sector reads and writes, and asking the kernel to read the table
  again. The contents of the open device are a list of bytes; what the kernel, sysfs and libblkid
  answer is a parameter of every operation, and any call may fail.
\<close>

section \<open>The system\<close>

text \<open>
  A write that fails may have stored a prefix of its data: the fault gives its length. Durations
  are in nanoseconds.
\<close>

record 'k part_env =
  pe_open :: "bytes \<Rightarrow> bool \<Rightarrow> 'k \<Rightarrow> io_failure option"
  pe_open_exclusive :: "bytes \<Rightarrow> 'k \<Rightarrow> io_failure option"
  pe_metadata :: "bytes \<Rightarrow> 'k \<Rightarrow> io_failure + (bool \<times> nat)"
  pe_blksszget :: "bytes \<Rightarrow> 'k \<Rightarrow> int option"
  pe_is_dir :: "bytes \<Rightarrow> 'k \<Rightarrow> bool"
  pe_exists :: "bytes \<Rightarrow> 'k \<Rightarrow> bool"
  pe_text :: "bytes \<Rightarrow> 'k \<Rightarrow> rust_str option"
  pe_names :: "bytes \<Rightarrow> 'k \<Rightarrow> bytes list option"
  pe_canonical :: "bytes \<Rightarrow> 'k \<Rightarrow> bytes option"
  pe_read_fault :: "nat \<Rightarrow> nat \<Rightarrow> 'k \<Rightarrow> io_failure option \<times> 'k"
  pe_write_fault :: "nat \<Rightarrow> bytes \<Rightarrow> 'k \<Rightarrow> (nat \<times> io_failure) option \<times> 'k"
  pe_sync :: "'k \<Rightarrow> io_failure option \<times> 'k"
  pe_reread :: "'k \<Rightarrow> io_failure option \<times> 'k"
  pe_sleep :: "nat \<Rightarrow> 'k \<Rightarrow> 'k"
  pe_blkid :: "bytes \<Rightarrow> 'k \<Rightarrow> (rust_str option \<times> rust_str option) option"
  pe_random :: "'k \<Rightarrow> bytes \<times> 'k"

record 'k part_state =
  disk_bytes :: bytes
  kernel :: 'k

text \<open>An operation fails, panics, or never returns.\<close>

datatype part_stop = PartFails part_error | PartPanics | PartHangs

type_synonym ('k, 'a) part_op = "('k part_state, part_stop, 'a) op"

definition part_ask :: "('k \<Rightarrow> 'a) \<Rightarrow> ('k, 'a) part_op" where
  "part_ask f s = (Inr (f (kernel s)), s)"

definition part_result :: "part_error + 'a \<Rightarrow> ('k, 'a) part_op" where
  "part_result r = (case r of Inl e \<Rightarrow> op_fail (PartFails e) | Inr x \<Rightarrow> op_return x)"

abbreviation part_fail :: "part_error \<Rightarrow> ('k, 'a) part_op" where
  "part_fail e \<equiv> op_fail (PartFails e)"

definition EBUSY :: int where "EBUSY = 16"

section \<open>Paths of sysfs\<close>

definition path_file_name :: "bytes \<Rightarrow> bytes option" where
  "path_file_name path =
     (let names = filter (\<lambda>c. c \<noteq> [] \<and> c \<noteq> ascii ''.'') (split_on 0x2F path) in
      if names = [] \<or> last names = ascii ''..'' then None else Some (last names))"

definition class_block :: "rust_str \<Rightarrow> bytes" where
  "class_block name = utf8 (lit ''/sys/class/block/'' @ name)"

definition sysfs_file :: "rust_str \<Rightarrow> string \<Rightarrow> bytes" where
  "sysfs_file name f = utf8 (lit ''/sys/class/block/'' @ name @ lit f)"

definition sysfs_name :: "'k part_env \<Rightarrow> bytes \<Rightarrow> 'k \<Rightarrow> rust_str option" where
  "sysfs_name E path k =
     (case map_option from_utf8_lossy (path_file_name path) of
        Some name \<Rightarrow>
          if pe_is_dir E (class_block name) k then Some name
          else map_option from_utf8_lossy
            (path_file_name (case pe_canonical E path k of Some p \<Rightarrow> p | None \<Rightarrow> path))
      | None \<Rightarrow> map_option from_utf8_lossy
            (path_file_name (case pe_canonical E path k of Some p \<Rightarrow> p | None \<Rightarrow> path)))"

definition read_u64 :: "'k part_env \<Rightarrow> bytes \<Rightarrow> 'k \<Rightarrow> u64 option" where
  "read_u64 E p k =
     Option.bind (pe_text E p k) (\<lambda>s. map_option of_nat (parse_uint 10 (2 ^ 64 - 1) (trim s)))"

section \<open>Opening\<close>

definition FILE_SECTOR_SIZE :: nat where "FILE_SECTOR_SIZE = 512"

record geometry =
  gm_sector_size :: nat
  gm_sectors :: u64

record device =
  dv_path :: bytes
  dv_geom :: geometry
  dv_is_block :: bool

definition regular_file_len :: "'k part_env \<Rightarrow> bytes \<Rightarrow> 'k \<Rightarrow> part_error + nat option" where
  "regular_file_len E path k =
     (case pe_metadata E path k of
        Inl e \<Rightarrow> Inl (Io (utf8 (from_utf8_lossy path @ lit '' (reading its size)'')) e)
      | Inr (is_file, len) \<Rightarrow> Inr (if is_file then Some len else None))"

text \<open>\<open>None\<close> is the panic of the division by a sector size of 0.\<close>

definition block_geometry :: "'k part_env \<Rightarrow> bytes \<Rightarrow> 'k \<Rightarrow> (part_error + geometry) option" where
  "block_geometry E path k =
     (let name = sysfs_name E path k;
          sector_size =
            (case Option.bind name (\<lambda>n. read_u64 E (sysfs_file n ''/queue/logical_block_size'') k) of
               Some v \<Rightarrow> unat v
             | None \<Rightarrow> (case pe_blksszget E path k of
                 Some ssz \<Rightarrow> if 0 < ssz then nat ssz else FILE_SECTOR_SIZE
               | None \<Rightarrow> FILE_SECTOR_SIZE))
      in case Option.bind name (\<lambda>n. read_u64 E (sysfs_file n ''/size'') k) of
           None \<Rightarrow> Some (Inl (Usage (SizeUnknown path)))
         | Some sectors_512 \<Rightarrow>
             if sector_size = 0 then None
             else Some (Inr \<lparr>gm_sector_size = sector_size, gm_sectors = sectors_512 * 512 div of_nat sector_size\<rparr>))"

definition device_open :: "'k part_env \<Rightarrow> bytes \<Rightarrow> bool \<Rightarrow> ('k, device) part_op" where
  "device_open E path write =
     op_bind (part_ask (pe_open E path write)) (\<lambda>r.
     case r of Some e \<Rightarrow> part_fail (Io path e) | None \<Rightarrow>
     op_bind (part_ask (\<lambda>k. case sysfs_name E path k of Some n \<Rightarrow> pe_is_dir E (class_block n) k | None \<Rightarrow> False)) (\<lambda>is_block.
     op_bind
       (if is_block then
          op_bind (part_ask (block_geometry E path)) (\<lambda>g.
            case g of None \<Rightarrow> op_fail PartPanics | Some g \<Rightarrow> part_result g)
        else
          op_bind (part_ask (regular_file_len E path)) (\<lambda>len.
          op_bind (part_result len) (\<lambda>len.
            case len of
              None \<Rightarrow> part_fail (Usage (NotADisk path))
            | Some len \<Rightarrow>
                if len < FILE_SECTOR_SIZE then part_fail (Usage (FileTooSmall path len))
                else op_return \<lparr>gm_sector_size = FILE_SECTOR_SIZE,
                       gm_sectors = of_nat (len div FILE_SECTOR_SIZE)\<rparr>)))
       (\<lambda>geom. op_return \<lparr>dv_path = path, dv_geom = geom, dv_is_block = is_block\<rparr>)))"

text \<open>\<open>None\<close> is the panic of the division by 0.\<close>

definition with_sector_size :: "device \<Rightarrow> nat \<Rightarrow> (part_error + device) option" where
  "with_sector_size dev n =
     (if dv_is_block dev then Some (Inl (Usage SectorSizeFixed))
      else if n = 0 then None
      else let total = gm_sectors (dv_geom dev) * of_nat (gm_sector_size (dv_geom dev)) in
        Some (Inr (dev\<lparr>dv_geom := \<lparr>gm_sector_size = n, gm_sectors = total div of_nat n\<rparr>\<rparr>)))"

section \<open>Sectors\<close>

abbreviation dv_sector_size :: "device \<Rightarrow> nat" where
  "dv_sector_size dev \<equiv> gm_sector_size (dv_geom dev)"

definition byte_offset :: "device \<Rightarrow> u64 \<Rightarrow> nat" where
  "byte_offset dev lba = unat (lba * of_nat (dv_sector_size dev))"

definition read_sectors :: "'k part_env \<Rightarrow> device \<Rightarrow> u64 \<Rightarrow> u64 \<Rightarrow> ('k, bytes) part_op" where
  "read_sectors E dev lba count s =
     (let len = unat (count * of_nat (dv_sector_size dev)); off = byte_offset dev lba in
      case pe_read_fault E off len (kernel s) of
        (Some e, k) \<Rightarrow> (Inl (PartFails (Io (dv_path dev) e)), s\<lparr>kernel := k\<rparr>)
      | (None, k) \<Rightarrow>
          if off + len \<le> length (disk_bytes s)
          then (Inr (subslice off (off + len) (disk_bytes s)), s\<lparr>kernel := k\<rparr>)
          else (Inl (PartFails (Io (dv_path dev) ShortRead)), s\<lparr>kernel := k\<rparr>))"

text \<open>Storing bytes at an offset; a gap after the end reads as zeroes. Storing nothing does nothing.\<close>

definition store :: "nat \<Rightarrow> bytes \<Rightarrow> bytes \<Rightarrow> bytes" where
  "store off x d =
     (if x = [] then d
      else take off (d @ replicate (off - length d) 0) @ x @ drop (off + length x) d)"

definition write_at :: "'k part_env \<Rightarrow> device \<Rightarrow> u64 \<Rightarrow> bytes \<Rightarrow> ('k, unit) part_op" where
  "write_at E dev lba data s =
     (let off = byte_offset dev lba in
      case pe_write_fault E off data (kernel s) of
        (Some (n, e), k) \<Rightarrow>
          (Inl (PartFails (Io (dv_path dev) e)),
           s\<lparr>disk_bytes := store off (take n data) (disk_bytes s), kernel := k\<rparr>)
      | (None, k) \<Rightarrow> (Inr (), s\<lparr>disk_bytes := store off data (disk_bytes s), kernel := k\<rparr>))"

definition device_sync :: "'k part_env \<Rightarrow> device \<Rightarrow> ('k, unit) part_op" where
  "device_sync E dev s =
     (case pe_sync E (kernel s) of
        (Some e, k) \<Rightarrow> (Inl (PartFails (Io (dv_path dev) e)), s\<lparr>kernel := k\<rparr>)
      | (None, k) \<Rightarrow> (Inr (), s\<lparr>kernel := k\<rparr>))"

section \<open>Asking the kernel to read the table again\<close>

text \<open>Durations, in nanoseconds.\<close>

definition from_millis :: "nat \<Rightarrow> nat" where "from_millis n = n * 1000000"

definition REREAD_BUSY_BUDGET :: nat where "REREAD_BUSY_BUDGET = from_millis 3000"
definition REREAD_FIRST_WAIT :: nat where "REREAD_FIRST_WAIT = from_millis 10"
definition REREAD_MAX_WAIT :: nat where "REREAD_MAX_WAIT = from_millis 250"

text \<open>The loop; \<open>None\<close> means that it never returns.\<close>

partial_function (option) retry_loop ::
  "nat \<Rightarrow> ('s \<Rightarrow> io_failure option \<times> 's) \<Rightarrow> (nat \<Rightarrow> 's \<Rightarrow> 's) \<Rightarrow> nat \<Rightarrow> nat \<Rightarrow> 's
    \<Rightarrow> (io_failure option \<times> 's) option" where
  "retry_loop budget attempt sleep waited wait s =
     (case attempt s of
        (Some e, t) \<Rightarrow>
          if os_error e = Some EBUSY \<and> waited < budget then
            let nap = min wait (budget - waited) in
            retry_loop budget attempt sleep (waited + nap) (min (wait * 2) REREAD_MAX_WAIT) (sleep nap t)
          else Some (Some e, t)
      | (None, t) \<Rightarrow> Some (None, t))"

declare retry_loop.simps [code]

definition retry_while_busy ::
  "nat \<Rightarrow> ('s \<Rightarrow> io_failure option \<times> 's) \<Rightarrow> (nat \<Rightarrow> 's \<Rightarrow> 's) \<Rightarrow> 's \<Rightarrow> (io_failure option \<times> 's) option" where
  "retry_while_busy budget attempt sleep s = retry_loop budget attempt sleep 0 REREAD_FIRST_WAIT s"

section \<open>What holds a disk\<close>

fun split_by :: "('a \<Rightarrow> bool) \<Rightarrow> 'a list \<Rightarrow> 'a list list" where
  "split_by P [] = [[]]"
| "split_by P (x # xs) =
     (if P x then [] # split_by P xs
      else (case split_by P xs of w # ws \<Rightarrow> (x # w) # ws | [] \<Rightarrow> [[x]]))"

definition split_whitespace :: "rust_str \<Rightarrow> rust_str list" where
  "split_whitespace s = filter (\<lambda>w. w \<noteq> []) (split_by is_whitespace s)"

text \<open>The source and the target of a line of the mount table.\<close>

definition mount_fields :: "rust_str \<Rightarrow> (rust_str \<times> rust_str) option" where
  "mount_fields line = (case split_whitespace line of source # target # _ \<Rightarrow> Some (source, target) | _ \<Rightarrow> None)"

fun find_map :: "('a \<Rightarrow> 'b option) \<Rightarrow> 'a list \<Rightarrow> 'b option" where
  "find_map f [] = None"
| "find_map f (x # xs) = (case f x of Some y \<Rightarrow> Some y | None \<Rightarrow> find_map f xs)"

definition mount_target_of :: "rust_str \<Rightarrow> rust_str \<Rightarrow> rust_str option" where
  "mount_target_of node mounts =
     find_map (\<lambda>line. case mount_fields line of
         Some (source, target) \<Rightarrow> if source = node then Some target else None
       | None \<Rightarrow> None) (lines mounts)"

definition is_held_exclusively :: "'k part_env \<Rightarrow> rust_str \<Rightarrow> 'k \<Rightarrow> bool" where
  "is_held_exclusively E node k \<longleftrightarrow> Option.bind (pe_open_exclusive E (utf8 node) k) os_error = Some EBUSY"

definition numbered_children :: "'k part_env \<Rightarrow> rust_str \<Rightarrow> bytes list \<Rightarrow> 'k \<Rightarrow> (rust_str \<times> u64) list" where
  "numbered_children E name children k =
     List.map_filter (\<lambda>c. let child = from_utf8_lossy c in
         map_option (Pair child) (read_u64 E (utf8 (lit ''/sys/class/block/'' @ name @ lit ''/'' @ child @ lit ''/partition'')) k))
       children"

definition partition_nodes :: "'k part_env \<Rightarrow> bytes \<Rightarrow> 'k \<Rightarrow> rust_str list" where
  "partition_nodes E path k =
     (case sysfs_name E path k of
        None \<Rightarrow> []
      | Some name \<Rightarrow>
          (case pe_names E (class_block name) k of
             None \<Rightarrow> []
           | Some children \<Rightarrow>
               map (\<lambda>(child, idx). lit ''/dev/'' @ child) (sort_key (\<lambda>(child, idx). idx) (numbered_children E name children k))))"

definition held_partitions :: "'k part_env \<Rightarrow> bytes \<Rightarrow> 'k \<Rightarrow> rust_str list" where
  "held_partitions E path k =
     (let mounts = (case pe_text E (ascii ''/proc/mounts'') k of Some t \<Rightarrow> t | None \<Rightarrow> []) in
      List.map_filter (\<lambda>node.
          case mount_target_of node mounts of
            Some target \<Rightarrow> Some (node @ lit '' is mounted on '' @ target)
          | None \<Rightarrow> if is_held_exclusively E node k then Some (node @ lit '' is open in another program'') else None)
        (partition_nodes E path k))"

definition busy_message :: "'k part_env \<Rightarrow> bytes \<Rightarrow> 'k \<Rightarrow> refusal" where
  "busy_message E path k = TableNotReread path (held_partitions E path k)"

definition reread_partition_table :: "'k part_env \<Rightarrow> device \<Rightarrow> ('k, unit) part_op" where
  "reread_partition_table E dev s =
     (if \<not> dv_is_block dev then (Inr (), s)
      else case retry_while_busy REREAD_BUSY_BUDGET (pe_reread E) (pe_sleep E) (kernel s) of
        None \<Rightarrow> (Inl PartHangs, s)
      | Some (None, k) \<Rightarrow> (Inr (), s\<lparr>kernel := k\<rparr>)
      | Some (Some e, k) \<Rightarrow>
          (if os_error e = Some EBUSY then (Inl (PartFails (Refused (busy_message E (dv_path dev) k))), s\<lparr>kernel := k\<rparr>)
           else (Inl (PartFails (Io (dv_path dev) e)), s\<lparr>kernel := k\<rparr>)))"

section \<open>Guards\<close>

definition ensure_whole_disk :: "'k part_env \<Rightarrow> bytes \<Rightarrow> 'k \<Rightarrow> part_error + unit" where
  "ensure_whole_disk E path k =
     (case sysfs_name E path k of
        None \<Rightarrow> Inr ()
      | Some name \<Rightarrow>
          if pe_exists E (sysfs_file name ''/partition'') k then
            let parent = (case Option.bind (pe_text E (sysfs_file name ''/../uevent'') k)
                (\<lambda>s. find_map (\<lambda>l. map_option (\<lambda>v. lit ''/dev/'' @ v) (strip_prefix (lit ''DEVNAME='') l)) (lines s)) of
                Some p \<Rightarrow> p | None \<Rightarrow> lit ''the whole disk'')
            in Inl (Refused (IsPartition path parent))
          else Inr ())"

definition device_and_partitions :: "'k part_env \<Rightarrow> bytes \<Rightarrow> 'k \<Rightarrow> rust_str list" where
  "device_and_partitions E path k =
     (let out = [from_utf8_lossy path];
          out = (case pe_canonical E path k of
              Some real \<Rightarrow> let s = from_utf8_lossy real in if s \<in> set out then out else out @ [s]
            | None \<Rightarrow> out)
      in out @ partition_nodes E path k)"

fun mount_guard :: "rust_str list \<Rightarrow> bytes \<Rightarrow> rust_str list \<Rightarrow> part_error + unit" where
  "mount_guard targets path [] = Inr ()"
| "mount_guard targets path (line # rest) =
     (case mount_fields line of
        None \<Rightarrow> mount_guard targets path rest
      | Some (source, target) \<Rightarrow>
          if source \<in> set targets then Inl (Refused (IsMounted source target path))
          else mount_guard targets path rest)"

definition ensure_not_mounted :: "'k part_env \<Rightarrow> bytes \<Rightarrow> 'k \<Rightarrow> part_error + unit" where
  "ensure_not_mounted E path k =
     (case pe_text E (ascii ''/proc/mounts'') k of
        None \<Rightarrow> Inr ()
      | Some mounts \<Rightarrow> mount_guard (device_and_partitions E path k) path (lines mounts))"

section \<open>Every disk\<close>

datatype ordering = Less | Equal | Greater

definition cmp :: "'a::linorder \<Rightarrow> 'a \<Rightarrow> ordering" where
  "cmp x y = (if x < y then Less else if x = y then Equal else Greater)"

definition is_digit :: "nat \<Rightarrow> bool" where
  "is_digit c \<longleftrightarrow> 48 \<le> c \<and> c \<le> 57"

text \<open>The saturating value of a run of digits.\<close>

definition run_value :: "rust_str \<Rightarrow> nat" where
  "run_value ds = foldl (\<lambda>n d. min (2 ^ 64 - 1) (min (2 ^ 64 - 1) (n * 10) + (d - 48))) 0 ds"

function natural_cmp :: "rust_str \<Rightarrow> rust_str \<Rightarrow> ordering" where
  "natural_cmp [] [] = Equal"
| "natural_cmp [] (r # rs) = Less"
| "natural_cmp (l # ls) [] = Greater"
| "natural_cmp (l # ls) (r # rs) =
     (if is_digit l \<and> is_digit r then
        case cmp (run_value (takeWhile is_digit (l # ls))) (run_value (takeWhile is_digit (r # rs))) of
          Equal \<Rightarrow> natural_cmp (dropWhile is_digit (l # ls)) (dropWhile is_digit (r # rs))
        | other \<Rightarrow> other
      else case cmp l r of Equal \<Rightarrow> natural_cmp ls rs | other \<Rightarrow> other)"
  by pat_completeness auto
termination
  by (relation "measure (\<lambda>(l, r). length l)") (auto simp: le_imp_less_Suc length_dropWhile_le)

text \<open>\<open>sort_by\<close>: a stable sort by a comparison.\<close>

fun insert_by :: "('a \<Rightarrow> 'a \<Rightarrow> ordering) \<Rightarrow> 'a \<Rightarrow> 'a list \<Rightarrow> 'a list" where
  "insert_by c x [] = [x]"
| "insert_by c x (y # ys) = (if c x y = Greater then y # insert_by c x ys else x # y # ys)"

definition sort_by :: "('a \<Rightarrow> 'a \<Rightarrow> ordering) \<Rightarrow> 'a list \<Rightarrow> 'a list" where
  "sort_by c xs = foldr (insert_by c) xs []"

record disk_entry =
  de_name :: rust_str
  de_path :: rust_str
  de_size_bytes :: u64
  de_partitions :: "(rust_str \<times> nat) list"

definition disk_of :: "'k part_env \<Rightarrow> 'k \<Rightarrow> bytes \<Rightarrow> disk_entry option" where
  "disk_of E k e =
     (let name = from_utf8_lossy e in
      if pe_exists E (sysfs_file name ''/partition'') k then None
      else let sectors = (case read_u64 E (sysfs_file name ''/size'') k of Some n \<Rightarrow> n | None \<Rightarrow> 0) in
        if sectors = 0 then None
        else Some \<lparr>de_name = name, de_path = lit ''/dev/'' @ name, de_size_bytes = sectors * 512,
               de_partitions = sort_key snd (map (\<lambda>(c, i). (c, unat i))
                 (case pe_names E (class_block name) k of
                    Some children \<Rightarrow> numbered_children E name children k | None \<Rightarrow> []))\<rparr>)"

definition enumerate_disks :: "'k part_env \<Rightarrow> 'k \<Rightarrow> disk_entry list" where
  "enumerate_disks E k =
     (case pe_names E (ascii ''/sys/class/block'') k of
        None \<Rightarrow> []
      | Some es \<Rightarrow> sort_by (\<lambda>a b. natural_cmp (de_name a) (de_name b)) (List.map_filter (disk_of E k) es))"

section \<open>Stored bytes\<close>

lemma store_nth: "i < off \<or> off + length x \<le> i \<Longrightarrow> i < length d \<Longrightarrow> store off x d ! i = d ! i"
  by (auto simp: store_def nth_append min_def)

lemma length_store: "off + length x \<le> length d \<Longrightarrow> length (store off x d) = length d"
  by (auto simp: store_def)

lemma length_store_mono: "length d \<le> length (store off x d)"
  by (auto simp: store_def)

lemma subslice_store_same: "subslice off (off + length x) (store off x d) = x"
  by (cases "x = []") (auto simp: store_def subslice_def min_def)

lemma subslice_eqI:
  "length s = length t \<Longrightarrow> b \<le> length s \<Longrightarrow> (\<And>i. a \<le> i \<Longrightarrow> i < b \<Longrightarrow> s ! i = t ! i) \<Longrightarrow> subslice a b s = subslice a b t"
  by (rule nth_equalityI) (auto simp: subslice_def)

lemma subslice_store_other:
  assumes "off + length x \<le> length d" "b \<le> length d" "b \<le> off \<or> off + length x \<le> a"
  shows "subslice a b (store off x d) = subslice a b d"
  using assms by (intro subslice_eqI) (auto simp: length_store intro!: store_nth)

section \<open>Asking again\<close>

text \<open>An attempt and a sleep that also record how long was slept.\<close>

definition recorded :: "('s \<Rightarrow> io_failure option \<times> 's) \<Rightarrow> 's \<times> nat list \<Rightarrow> io_failure option \<times> 's \<times> nat list" where
  "recorded attempt s = (case attempt (fst s) of (r, t) \<Rightarrow> (r, t, snd s))"

definition napping :: "(nat \<Rightarrow> 's \<Rightarrow> 's) \<Rightarrow> nat \<Rightarrow> 's \<times> nat list \<Rightarrow> 's \<times> nat list" where
  "napping sleep nap s = (sleep nap (fst s), snd s @ [nap])"

lemma retry_loop_returns:
  assumes "waited \<le> budget" "REREAD_FIRST_WAIT \<le> wait"
  shows "\<exists>r t naps. retry_loop budget (recorded attempt) (napping sleep) waited wait (s, ds) = Some (r, t, ds @ naps)
    \<and> retry_loop budget attempt sleep waited wait s = Some (r, t) \<and> waited + sum_list naps \<le> budget
    \<and> (Option.bind r os_error = Some EBUSY \<longrightarrow> waited + sum_list naps = budget)
    \<and> (length naps - 1) * REREAD_FIRST_WAIT \<le> budget - waited \<and> (waited = budget \<longrightarrow> naps = [])"
  using assms
proof (induction "budget - waited" arbitrary: waited wait s ds rule: less_induct)
  case less
  obtain r t where a: "attempt s = (r, t)" by (cases "attempt s")
  have rec: "recorded attempt (s, ds) = (r, t, ds)" by (simp add: recorded_def a)
  have first: "0 < REREAD_FIRST_WAIT" "REREAD_FIRST_WAIT \<le> REREAD_MAX_WAIT"
    by (simp_all add: REREAD_FIRST_WAIT_def REREAD_MAX_WAIT_def from_millis_def)
  show ?case
  proof (cases "Option.bind r os_error = Some EBUSY \<and> waited < budget")
    case True
    then obtain e where e: "r = Some e" "os_error e = Some EBUSY" by (cases r) auto
    define nap where "nap = min wait (budget - waited)"
    have nap: "0 < nap" "waited + nap \<le> budget" "waited + nap < budget \<longrightarrow> REREAD_FIRST_WAIT \<le> nap"
      using True less.prems first by (auto simp: nap_def)
    have step: "retry_loop budget (recorded attempt) (napping sleep) waited wait (s, ds)
        = retry_loop budget (recorded attempt) (napping sleep) (waited + nap) (min (wait * 2) REREAD_MAX_WAIT) (sleep nap t, ds @ [nap])"
      using True e by (subst retry_loop.simps) (simp add: rec nap_def napping_def Let_def)
    have plain: "retry_loop budget attempt sleep waited wait s
        = retry_loop budget attempt sleep (waited + nap) (min (wait * 2) REREAD_MAX_WAIT) (sleep nap t)"
      using True e by (subst retry_loop.simps) (simp add: a nap_def Let_def)
    have "budget - (waited + nap) < budget - waited" "REREAD_FIRST_WAIT \<le> min (wait * 2) REREAD_MAX_WAIT"
      using nap True first less.prems by auto
    from less.hyps [OF this(1) nap(2) this(2), of "sleep nap t" "ds @ [nap]"]
    obtain r' t' naps where ih: "retry_loop budget (recorded attempt) (napping sleep) (waited + nap) (min (wait * 2) REREAD_MAX_WAIT) (sleep nap t, ds @ [nap])
          = Some (r', t', (ds @ [nap]) @ naps)" "waited + nap + sum_list naps \<le> budget"
        "retry_loop budget attempt sleep (waited + nap) (min (wait * 2) REREAD_MAX_WAIT) (sleep nap t) = Some (r', t')"
        "Option.bind r' os_error = Some EBUSY \<longrightarrow> waited + nap + sum_list naps = budget"
        "(length naps - 1) * REREAD_FIRST_WAIT \<le> budget - (waited + nap)" "waited + nap = budget \<longrightarrow> naps = []" by blast
    have "length naps * REREAD_FIRST_WAIT \<le> budget - waited"
    proof (cases "waited + nap < budget")
      case True
      with nap(3) ih(5) show ?thesis by (cases naps) auto
    next
      case False
      with nap(2) ih(6) show ?thesis by simp
    qed
    with ih step plain True show ?thesis by (intro exI [of _ r'] exI [of _ t'] exI [of _ "nap # naps"]) auto
  next
    case False
    then have "retry_loop budget (recorded attempt) (napping sleep) waited wait (s, ds) = Some (r, t, ds)"
      and "retry_loop budget attempt sleep waited wait s = Some (r, t)"
      by (subst retry_loop.simps, auto simp: rec a split: option.splits)+
    with False less.prems show ?thesis by (intro exI [of _ r] exI [of _ t] exI [of _ "[]"]) auto
  qed
qed

section \<open>Device names in order\<close>

function natural_key :: "rust_str \<Rightarrow> (nat \<times> nat) list" where
  "natural_key [] = []"
| "natural_key (c # cs) =
     (if is_digit c then (48, run_value (takeWhile is_digit (c # cs))) # natural_key (dropWhile is_digit (c # cs))
      else (c, 0) # natural_key cs)"
  by pat_completeness auto
termination
  by (relation "measure length") (auto simp: le_imp_less_Suc length_dropWhile_le)

lemma cmp_simps [simp]: "cmp x y = Less \<longleftrightarrow> x < y" "cmp x y = Equal \<longleftrightarrow> x = y" "cmp x y = Greater \<longleftrightarrow> y < x"
  by (auto simp: cmp_def)

lemma cmp_Cons: "cmp (x # xs) (y # ys) = (case cmp x y of Equal \<Rightarrow> cmp xs ys | other \<Rightarrow> other)"
  by (auto simp: cmp_def split: ordering.splits)

lemma cmp_Nil: "cmp [] (y # ys) = Less" "cmp (x # xs) [] = Greater" "cmp [] [] = Equal"
  by simp_all

lemma natural_cmp_keys: "natural_cmp l r = cmp (natural_key l) (natural_key r)"
proof (induction l r rule: natural_cmp.induct)
  case (4 l ls r rs)
  consider "is_digit l" "is_digit r" | "\<not> is_digit l" "\<not> is_digit r" | "is_digit l" "\<not> is_digit r" | "\<not> is_digit l" "is_digit r"
    by blast
  then show ?case
  proof cases
    case 1
    have "cmp (48 :: nat, m :: nat) (48, n) = cmp m n" for m n by (auto simp: cmp_def)
    with 1 4(1) show ?thesis by (auto simp: cmp_Cons split: ordering.splits)
  next
    case 2
    have "cmp (l, 0 :: nat) (r, 0) = cmp l r" by (auto simp: cmp_def)
    with 2 4(2) show ?thesis by (auto simp: cmp_Cons split: ordering.splits)
  next
    case 3
    then have "cmp (48 :: nat, n) (r, 0 :: nat) = cmp l r" "cmp l r \<noteq> Equal" for n by (auto simp: cmp_def is_digit_def)
    with 3 show ?thesis by (auto simp: cmp_Cons split: ordering.splits)
  next
    case mixed: 4
    then have "cmp (l, 0 :: nat) (48 :: nat, n) = cmp l r" "cmp l r \<noteq> Equal" for n by (auto simp: cmp_def is_digit_def)
    with mixed show ?thesis by (auto simp: cmp_Cons split: ordering.splits)
  qed
qed (simp_all add: cmp_def)

lemma insert_by_key: "insert_by (\<lambda>a b. cmp (f a) (f b)) x xs = insort_key f x xs"
  by (induction xs) auto

lemma sort_by_key: "sort_by (\<lambda>a b. cmp (f a) (f b)) xs = sort_key f xs"
proof -
  have "insert_by (\<lambda>a b. cmp (f a) (f b)) = insort_key f" by (intro ext) (rule insert_by_key)
  then show ?thesis by (simp add: sort_by_def sort_key_def)
qed

lemma retry_while_busy_returns:
  "\<exists>r t naps. retry_while_busy budget (recorded attempt) (napping sleep) (s, []) = Some (r, t, naps)
    \<and> retry_while_busy budget attempt sleep s = Some (r, t) \<and> sum_list naps \<le> budget
    \<and> (Option.bind r os_error = Some EBUSY \<longrightarrow> sum_list naps = budget)
    \<and> length naps \<le> budget div REREAD_FIRST_WAIT + 1"
proof -
  have "0 < REREAD_FIRST_WAIT" by (simp add: REREAD_FIRST_WAIT_def from_millis_def)
  then have "length ns - 1 \<le> budget div REREAD_FIRST_WAIT" if "(length ns - 1) * REREAD_FIRST_WAIT \<le> budget" for ns :: "nat list"
    using that by (simp add: less_eq_div_iff_mult_less_eq)
  then show ?thesis
    using retry_loop_returns [of 0 budget REREAD_FIRST_WAIT attempt sleep s "[]"]
    by (fastforce simp: retry_while_busy_def)
qed

section \<open>Properties\<close>

text \<open>C36. Asking the kernel to read the table again always comes to an end: whatever the kernel answers and
  whatever the budget, the loop returns, never sleeps past the budget nor more often than the budget
  has room for, and gives up on a busy disk only when the whole budget is spent.\<close>

theorem retry_bounded:
  "\<exists>r t naps. retry_while_busy budget (recorded attempt) (napping sleep) (s, []) = Some (r, t, naps)
    \<and> sum_list naps \<le> budget \<and> length naps \<le> budget div REREAD_FIRST_WAIT + 1
    \<and> (Option.bind r os_error = Some EBUSY \<longrightarrow> sum_list naps = budget)"
  using retry_while_busy_returns [where budget = budget and attempt = attempt and sleep = sleep and s = s]
  by (elim exE conjE) (intro exI conjI, assumption+)

theorem retry_bounded_witness:
  "\<exists>r t naps. retry_while_busy REREAD_BUSY_BUDGET (recorded (\<lambda>s. (Some (OsError EBUSY), s))) (napping (\<lambda>_ s. s)) ((), [])
      = Some (r, t, naps) \<and> sum_list naps \<le> REREAD_BUSY_BUDGET"
  using retry_bounded [of REREAD_BUSY_BUDGET "\<lambda>s. (Some (OsError EBUSY), s)" "\<lambda>_ s. s" "()"] by blast

text \<open>The order of the disk listing is one: the comparison of device names is the lexicographic order
  of the names read as characters and numbers, so it is total and transitive, as \<open>sort_by\<close> needs, and
  sorting by it is a stable sort by those readings.\<close>

theorem natural_order:
  "natural_cmp l r = cmp (natural_key l) (natural_key r)
    \<and> sort_by (\<lambda>a b. natural_cmp (de_name a) (de_name b)) ds = sort_key (\<lambda>d. natural_key (de_name d)) ds"
  using natural_cmp_keys sort_by_key [of "\<lambda>d. natural_key (de_name d)" ds] by simp

end
