(* ===== verification/Part_Label.thy ===== *)
theory Part_Label
  imports Part_Device
begin

text \<open>
  What is on a disk and what may be done with it (\<open>src/uu/part/src/label.rs\<close>): recognising a table,
  loading one, and committing one to the device. The catalogue of foreign formats is libblkid's, a
  parameter.
\<close>

section \<open>Views of a table\<close>

record partition_view =
  pv_index :: nat
  pv_start :: u64
  pv_end :: u64
  pv_sectors :: u64
  pv_type_name :: rust_str
  pv_name :: rust_str
  pv_uuid :: rust_str

definition label_partitions :: "gpt \<Rightarrow> partition_view list" where
  "label_partitions g =
     map (\<lambda>(i, e). \<lparr>pv_index = i, pv_start = starting_lba e, pv_end = ending_lba e, pv_sectors = entry_sectors e,
         pv_type_name = (case alias_type (type_guid e) of Some a \<Rightarrow> a | None \<Rightarrow> guid_display (type_guid e)),
         pv_name = entry_name e, pv_uuid = guid_display (unique_guid e)\<rparr>)
       (partitions g)"

section \<open>What was found\<close>

datatype disk_state =
    GptFound gpt
  | DamagedFound damage
  | ForeignFound rust_str
  | FilesystemFound rust_str
  | BlankFound

definition pretty_kind :: "rust_str \<Rightarrow> rust_str" where
  "pretty_kind kind =
     (if kind = lit ''dos'' then lit ''an MBR (dos)''
      else if kind = lit ''mac'' then lit ''an Apple Partition Map''
      else if kind = lit ''bsd'' then lit ''a BSD disklabel''
      else if kind = lit ''sun'' then lit ''a Sun disklabel''
      else if kind = lit ''sgi'' then lit ''an SGI disklabel''
      else if kind = lit ''atari'' then lit ''an Atari''
      else lit ''a '' @ kind)"

fun describe :: "disk_state \<Rightarrow> disk_description" where
  "describe (GptFound _) = DescribesGpt"
| "describe (DamagedFound m) = DescribesDamaged m"
| "describe (ForeignFound kind) = DescribesTable (pretty_kind kind)"
| "describe (FilesystemFound fstype) = DescribesFilesystem fstype"
| "describe BlankFound = DescribesNothing"

fun permit_destructive :: "disk_state \<Rightarrow> bool \<Rightarrow> part_error + unit" where
  "permit_destructive (GptFound _) force = Inr ()"
| "permit_destructive BlankFound force = Inr ()"
| "permit_destructive other force =
     (if force then Inr () else Inl (Foreign (CannotManage (describe other))))"

section \<open>Probing\<close>

text \<open>When there is no GPT: an MBR, what libblkid knows, or nothing.\<close>

definition probe_others :: "'k part_env \<Rightarrow> device \<Rightarrow> bytes \<Rightarrow> ('k, disk_state) part_op" where
  "probe_others E dev sector0 =
     (if is_protective sector0 \<and> \<not> is_real_mbr sector0 then op_return (DamagedFound ProtectiveAlone)
      else if is_real_mbr sector0 then op_return (ForeignFound (lit ''dos''))
      else op_bind (part_ask (pe_blkid E (dv_path dev))) (\<lambda>r.
        op_return (case r of
            Some (pttype, fstype) \<Rightarrow>
              (case (case pttype of Some p \<Rightarrow> if p \<noteq> lit ''gpt'' then Some p else None | None \<Rightarrow> None) of
                 Some pt \<Rightarrow> ForeignFound pt
               | None \<Rightarrow> (case fstype of Some fs \<Rightarrow> FilesystemFound fs | None \<Rightarrow> BlankFound))
          | None \<Rightarrow> BlankFound)))"

definition probe :: "(bytes \<Rightarrow> u32) \<Rightarrow> 'k part_env \<Rightarrow> device \<Rightarrow> ('k, disk_state) part_op" where
  "probe crc E dev =
     (let disk = gm_sectors (dv_geom dev); ss = dv_sector_size dev in
      op_bind (read_sectors E dev 0 1) (\<lambda>sector0.
      op_bind (read_sectors E dev 1 1) (\<lambda>header.
      case header_parse crc header of
        Inr h \<Rightarrow>
          (case primary_array_sectors h disk ss of
             Inl (Damaged m) \<Rightarrow> op_return (DamagedFound m)
           | Inl e \<Rightarrow> part_fail e
           | Inr n \<Rightarrow>
               op_bind (read_sectors E dev (h_entry_array_lba h) n) (\<lambda>ents.
               case gpt_parse crc disk ss header ents of
                 Inr g \<Rightarrow> op_return (GptFound g)
               | Inl (Damaged m) \<Rightarrow> op_return (DamagedFound m)
               | Inl NoGpt \<Rightarrow> probe_others E dev sector0
               | Inl e \<Rightarrow> part_fail e))
      | Inl (Damaged m) \<Rightarrow> op_return (DamagedFound m)
      | Inl NoGpt \<Rightarrow> probe_others E dev sector0
      | Inl e \<Rightarrow> part_fail e)))"

definition load_gpt :: "(bytes \<Rightarrow> u32) \<Rightarrow> 'k part_env \<Rightarrow> device \<Rightarrow> ('k, gpt) part_op" where
  "load_gpt crc E dev =
     op_bind (probe crc E dev) (\<lambda>st.
     case st of
       GptFound g \<Rightarrow> op_return g
     | DamagedFound m \<Rightarrow> part_fail (Damaged m)
     | other \<Rightarrow> part_fail (Foreign (NoGptToModify (describe other))))"

section \<open>Committing\<close>

fun write_all_at :: "'k part_env \<Rightarrow> device \<Rightarrow> (u64 \<times> bytes) list \<Rightarrow> ('k, unit) part_op" where
  "write_all_at E dev [] = op_return ()"
| "write_all_at E dev ((lba, data) # ws) = op_bind (write_at E dev lba data) (\<lambda>_. write_all_at E dev ws)"

definition commit :: "(bytes \<Rightarrow> u32) \<Rightarrow> 'k part_env \<Rightarrow> device \<Rightarrow> gpt \<Rightarrow> ('k, unit) part_op" where
  "commit crc E dev g =
     (case gpt_writes crc g of
        None \<Rightarrow> op_fail PartPanics
      | Some ws \<Rightarrow>
          op_bind (write_all_at E dev ws) (\<lambda>_.
          op_bind (device_sync E dev) (\<lambda>_. reread_partition_table E dev)))"

section \<open>Accepted tables are well-formed\<close>

lemma scalar_unit: "(u :: u16) < 0xD800 \<or> 0xDFFF < u \<Longrightarrow> is_scalar (unat u)"
  using unsigned_less [of u, where ?'a = nat] by (auto simp: is_scalar_def word_less_nat_alt)

lemma length_encode_char: "length (encode_utf16_char c) = (if c < 0x10000 then 1 else 2)"
  by (simp add: encode_utf16_char_def)

lemma encode_utf16_Cons: "encode_utf16 (c # s) = encode_utf16_char c @ encode_utf16 s"
  by (simp add: encode_utf16_def)

lemma unat_u16_less: "unat (u :: u16) < 65536"
  using unsigned_less [of u, where ?'a = nat] by simp

lemma lossy_name:
  "\<forall>u \<in> set us. u \<noteq> 0 \<Longrightarrow> (\<forall>c \<in> set (from_utf16_lossy us). is_scalar c \<and> c \<noteq> 0)
    \<and> length (encode_utf16 (from_utf16_lossy us)) \<le> length us"
proof (induction us rule: from_utf16_lossy.induct)
  case 1
  then show ?case by (simp add: encode_utf16_def)
next
  case (2 u)
  then show ?case
    using scalar_unit [of u] unat_u16_less [of u]
    by (auto simp: encode_utf16_Cons length_encode_char encode_utf16_def is_scalar_def not_le unat_gt_0)
next
  case (3 u v us)
  have fffd: "is_scalar 0xFFFD" by (simp add: is_scalar_def)
  show ?case
  proof (cases "u < 0xD800 \<or> 0xDFFF < u")
    case True
    then show ?thesis using 3 scalar_unit [OF True] unat_u16_less [of u]
      by (auto simp: encode_utf16_Cons length_encode_char unat_gt_0)
  next
    case surrogate: False
    show ?thesis
    proof (cases "0xDC00 \<le> u \<or> v < 0xDC00 \<or> 0xDFFF < v")
      case True
      then show ?thesis using 3 surrogate fffd by (auto simp: encode_utf16_Cons length_encode_char)
    next
      case False
      let ?c = "0x10000 + (unat u - 0xD800) * 0x400 + (unat v - 0xDC00)"
      have "unat u < 0xDC00" "0xD800 \<le> unat u" "unat v \<le> 0xDFFF"
        using False surrogate by (auto simp: word_less_nat_alt word_le_nat_alt not_le not_less)
      then have "?c < 0x110000" by simp
      then have "is_scalar ?c" by (simp add: is_scalar_def)
      then show ?thesis using 3 surrogate False by (auto simp: encode_utf16_Cons length_encode_char)
    qed
  qed
qed

lemma read_units_ok: "(\<forall>u \<in> set (read_units n b). u \<noteq> 0) \<and> length (read_units n b) \<le> n"
  by (induction n b rule: read_units.induct) (auto simp: Let_def)

lemma entry_parse_wf: "entry_parse b = Some e \<Longrightarrow> entry_wf e"
  using lossy_name [of "read_units NAME_UNITS (drop 56 b)"] read_units_ok [of NAME_UNITS "drop 56 b"]
  by (auto simp: entry_parse_def entry_wf_def guid_from_bytes_def guid_wf_def name_ok_def
      split: if_splits bind_splits)

lemma parse_entries_wf:
  "parse_entries a stride is = Inr es \<Longrightarrow> length es = length is \<and> (\<forall>e \<in> set es. entry_wf e)"
proof (induction a stride "is" arbitrary: es rule: parse_entries.induct)
  case (2 a stride i "is")
  then show ?case
    by (cases "entry_parse (subslice (i * stride) (i * stride + stride) a)"; cases "parse_entries a stride is")
      (auto dest: entry_parse_wf)
qed simp

lemma parsed_header_wf:
  assumes "header_parse crc s = Inr h"
  shows "header_wf h"
proof -
  let ?n = "from_le (subslice 84 88 s) :: u32"
  have "ENTRY_SIZE \<le> ?n \<and> ?n mod 8 = 0"
    by (rule ccontr) (use assms in \<open>auto simp: header_parse_def Let_def not_less split: if_splits\<close>)
  moreover have "h_entry_size h = ?n" "guid_wf (h_disk_guid h)"
    using assms
    by (auto simp: header_parse_def guid_from_bytes_def guid_wf_def guid_zero_def Let_def split: if_splits)
  ultimately show ?thesis by (simp only: header_wf_def)
qed

lemma gpt_parse_layout:
  assumes "gpt_parse crc disk n h b = Inr g" "unat disk + unat (align_sectors n) \<le> 2 ^ 64"
  shows "gpt_layout g \<and> disk_sectors g = disk \<and> sector_size g = n"
proof -
  obtain hd a es where hd: "header_parse crc h = Inr hd" and a: "primary_array_sectors hd disk n = Inr a"
    and es: "length es = unat (h_num_entries hd)" "\<forall>e \<in> set es. entry_wf e"
    and g: "g = \<lparr>sector_size = n, disk_sectors = disk, disk_guid = h_disk_guid hd,
            num_entries = h_num_entries hd, entry_size = h_entry_size hd,
            entry_array_lba = h_entry_array_lba hd, first_usable_lba = h_first_usable hd,
            last_usable_lba = h_last_usable hd, entries = es\<rparr>"
    using assms(1)
    by (auto simp: gpt_parse_def result_bind_def Let_def split: sum.splits if_splits dest!: parse_entries_wf)
  note p = primary_layout [OF a]
  have eq: "unat (array_sectors g) = unat a"
    using p by (simp add: array_sectors_unat g)
  have "0 < num_entries g"
  proof (rule ccontr)
    assume "\<not> 0 < num_entries g"
    then have "h_num_entries hd = 0" by (simp add: g word_neq_0_conv [symmetric])
    then have "unat a = (n - 1) div n" using p by simp
    then show False using p by (auto simp: word_less_nat_alt plausible_sector_size_def)
  qed
  then show ?thesis
    using p eq parsed_header_wf [OF hd] es assms(2)
    by (auto simp: gpt_layout_def g header_wf_def word_less_nat_alt)
qed

section \<open>Operations that only read\<close>

definition reads_only :: "('k, 'a) part_op \<Rightarrow> bool" where
  "reads_only f \<longleftrightarrow> (\<forall>s. disk_bytes (snd (f s)) = disk_bytes s)"

lemma reads_only_intros [intro!]:
  "reads_only (op_return x)" "reads_only (op_fail e)" "reads_only (part_ask q)" "reads_only (part_result r)"
  "reads_only (read_sectors E dev lba n)" "reads_only (device_sync E dev)" "reads_only (reread_partition_table E dev)"
  by (auto simp: reads_only_def part_ask_def part_result_def read_sectors_def device_sync_def
      reread_partition_table_def Let_def split: prod.splits option.splits sum.splits)

lemma reads_only_bind [intro]:
  assumes "reads_only f" "\<And>x. reads_only (g x)"
  shows "reads_only (op_bind f g)"
  unfolding reads_only_def
proof
  fix s
  show "disk_bytes (snd (op_bind f g s)) = disk_bytes s"
    using assms(1) assms(2) [unfolded reads_only_def]
    by (cases "fst (f s)") (simp_all add: reads_only_def op_bind_def split_beta)
qed

lemma probe_reads: "reads_only (probe crc E dev)"
  unfolding probe_def probe_others_def Let_def
  by (intro reads_only_bind reads_only_intros; auto split: sum.splits part_error.splits option.splits intro!: reads_only_bind)

lemma load_gpt_reads: "reads_only (load_gpt crc E dev)"
  unfolding load_gpt_def by (intro reads_only_bind probe_reads; auto split: disk_state.splits)

section \<open>Writing\<close>

definition byte_region :: "device \<Rightarrow> u64 \<times> bytes \<Rightarrow> nat set" where
  "byte_region dev w = {byte_offset dev (fst w) ..< byte_offset dev (fst w) + length (snd w)}"

lemma write_at_outcome:
  assumes "write_at E dev lba x s = (r, t)"
  shows "\<exists>n. disk_bytes t = store (byte_offset dev lba) (take n x) (disk_bytes s) \<and> (r = Inr () \<longrightarrow> take n x = x)"
  using assms by (auto simp: write_at_def Let_def split: prod.splits option.splits intro: exI [of _ "length x"])

lemma write_all_outside:
  assumes "write_all_at E dev ws s = (r, t)" "\<forall>w \<in> set ws. byte_region dev w \<subseteq> {..<length (disk_bytes s)}"
  shows "length (disk_bytes t) = length (disk_bytes s)
    \<and> (\<forall>i < length (disk_bytes s). (\<forall>w \<in> set ws. i \<notin> byte_region dev w) \<longrightarrow> disk_bytes t ! i = disk_bytes s ! i)"
  using assms
proof (induction ws arbitrary: s)
  case (Cons w ws)
  obtain lba x where w: "w = (lba, x)" by (cases w)
  obtain r' u where u: "write_at E dev lba x s = (r', u)" by (cases "write_at E dev lba x s")
  obtain n where n: "disk_bytes u = store (byte_offset dev lba) (take n x) (disk_bytes s)"
    using write_at_outcome [OF u] by blast
  have fits: "take n x = [] \<or> byte_offset dev lba + length (take n x) \<le> length (disk_bytes s)"
  proof (cases x)
    case (Cons b bs)
    have "byte_offset dev lba + length x - 1 \<in> byte_region dev w" by (simp add: byte_region_def w Cons)
    then have "byte_offset dev lba + length x - 1 < length (disk_bytes s)" using Cons.prems(2) by auto
    then show ?thesis using Cons by auto
  qed simp
  then have len: "length (disk_bytes u) = length (disk_bytes s)"
    unfolding n by (cases "take n x = []") (auto simp: store_def)
  have same: "disk_bytes u ! i = disk_bytes s ! i" if "i < length (disk_bytes s)" "i \<notin> byte_region dev w" for i
    unfolding n using that by (intro store_nth) (auto simp: byte_region_def w)
  show ?case
  proof (cases r')
    case (Inl e)
    then have "t = u" using Cons.prems(1) u by (simp add: w op_bind_def)
    then show ?thesis using len same by simp
  next
    case (Inr y)
    then have "write_all_at E dev ws u = (r, t)" using Cons.prems(1) u by (simp add: w op_bind_def)
    from Cons.IH [OF this] len same Cons.prems(2) show ?thesis by simp
  qed
qed simp

lemma write_all_done:
  "write_all_at E dev ws s = (Inr (), t)
    \<Longrightarrow> disk_bytes t = foldl (\<lambda>d w. store (byte_offset dev (fst w)) (snd w) d) (disk_bytes s) ws"
proof (induction ws arbitrary: s)
  case (Cons w ws)
  obtain u where "write_at E dev (fst w) (snd w) s = (Inr (), u)" "write_all_at E dev ws u = (Inr (), t)"
    using Cons.prems by (cases w) (auto simp: op_bind_Inr)
  with Cons.IH [OF this(2)] write_at_outcome [OF this(1)] show ?case by auto
qed simp

lemma foldl_store_read:
  assumes "sorted_wrt (\<lambda>v w. byte_region dev v \<inter> byte_region dev w = {}) ws"
    and "\<forall>w \<in> set ws. byte_offset dev (fst w) + length (snd w) \<le> length d" "w \<in> set ws"
  shows "subslice (byte_offset dev (fst w)) (byte_offset dev (fst w) + length (snd w))
      (foldl (\<lambda>d w. store (byte_offset dev (fst w)) (snd w) d) d ws) = snd w"
  using assms
proof (induction ws arbitrary: d)
  case (Cons v ws)
  let ?st = "\<lambda>d w. store (byte_offset dev (fst w)) (snd w) d"
  have len: "length (?st d v) = length d" using Cons.prems(2) by (simp add: length_store)
  have keep: "subslice a b (foldl ?st d' ws) = subslice a b d'"
    if "\<forall>w \<in> set ws. byte_offset dev (fst w) + length (snd w) \<le> length d'" "b \<le> length d'"
      "\<forall>w \<in> set ws. {a..<b} \<inter> byte_region dev w = {}" for a b d'
    using that
  proof (induction ws arbitrary: d')
    case (Cons w ws)
    have "length (?st d' w) = length d'" using Cons.prems(1) by (simp add: length_store)
    moreover have "subslice a b (?st d' w) = subslice a b d'"
    proof (intro subslice_eqI)
      fix i assume "a \<le> i" "i < b"
      then have "i \<notin> byte_region dev w" using Cons.prems(3) by auto
      then show "?st d' w ! i = d' ! i" using \<open>i < b\<close> Cons.prems(2)
        by (intro store_nth) (auto simp: byte_region_def)
    qed (use calculation Cons.prems(2) in auto)
    ultimately show ?case using Cons.IH [of "?st d' w"] Cons.prems by simp
  qed simp
  show ?case
  proof (cases "w = v")
    case True
    have "\<forall>w \<in> set ws. byte_region dev v \<inter> byte_region dev w = {}" using Cons.prems(1) by simp
    then have "subslice (byte_offset dev (fst v)) (byte_offset dev (fst v) + length (snd v)) (foldl ?st (?st d v) ws)
        = subslice (byte_offset dev (fst v)) (byte_offset dev (fst v) + length (snd v)) (?st d v)"
      using Cons.prems(2) len unfolding byte_region_def [of dev v] by (intro keep) auto
    then show ?thesis using True subslice_store_same by simp
  next
    case False
    then show ?thesis using Cons.IH [of "?st d v"] Cons.prems len by simp
  qed
qed simp

section \<open>Committing a table\<close>

definition device_holds :: "device \<Rightarrow> gpt \<Rightarrow> bytes \<Rightarrow> bool" where
  "device_holds dev g d \<longleftrightarrow>
     dv_geom dev = \<lparr>gm_sector_size = sector_size g, gm_sectors = disk_sectors g\<rparr>
     \<and> unat (disk_sectors g) * sector_size g \<le> length d \<and> length d < 2 ^ 64"

lemma unat_mult_sector:
  assumes "n < 2 ^ 64" "unat (a :: u64) * n < 2 ^ 64"
  shows "unat (a * of_nat n) = unat a * n"
  using assms by (simp add: unat_word_ariths unat_of_nat)

lemma byte_offset_sector:
  assumes "gpt_layout g" "device_holds dev g d" "unat lba \<le> unat (disk_sectors g)"
  shows "byte_offset dev lba = unat lba * sector_size g"
proof -
  have "unat lba * sector_size g \<le> unat (disk_sectors g) * sector_size g" using assms(3) by (rule mult_le_mono1)
  also have "\<dots> < 2 ^ 64" using assms(2) by (simp add: device_holds_def)
  finally have "unat lba * sector_size g < 2 ^ 64" .
  moreover have "sector_size g < 2 ^ 64" using assms(1) by (auto simp: gpt_layout_def plausible_sector_size_def)
  ultimately show ?thesis using assms(2) by (simp add: byte_offset_def device_holds_def unat_mult_sector)
qed

lemma array_sectors_pos: "gpt_layout g \<Longrightarrow> 0 < unat (array_sectors g)"
  using primary_layout [OF primary_array_ok [of g 0]] by (simp add: word_less_nat_alt)

lemma sector_pos: "gpt_layout g \<Longrightarrow> 0 < sector_size g"
  by (auto simp: gpt_layout_def plausible_sector_size_def)

lemma written_sectors:
  assumes "gpt_layout g" "gpt_writes crc g = Some ws" "w \<in> set ws"
  shows "sector_size g dvd length (snd w) \<and> unat (fst w) < unat (disk_sectors g) \<and> snd w \<noteq> []"
proof -
  obtain a m h1 h2 where w: "gpt_writes crc g = Some [(0, m),
      (entry_array_lba g, resize (unat (array_sectors g) * sector_size g) a),
      (backup_entries_lba g, resize (unat (array_sectors g) * sector_size g) a),
      (1, h1), (last_lba g, h2)]"
    and l: "length m = sector_size g" "length h1 = sector_size g" "length h2 = sector_size g"
    by (rule gpt_writes_layout [OF assms(1), of crc])
  have ws: "set ws = {(0, m), (entry_array_lba g, resize (unat (array_sectors g) * sector_size g) a),
      (backup_entries_lba g, resize (unat (array_sectors g) * sector_size g) a), (1, h1), (last_lba g, h2)}"
    using w assms(2) by simp
  have "length (snd w) = sector_size g \<or> length (snd w) = unat (array_sectors g) * sector_size g"
    using assms(3) l unfolding ws by auto
  then have lens: "sector_size g dvd length (snd w)" "0 < length (snd w)"
    using array_sectors_pos [OF assms(1)] sector_pos [OF assms(1)] by (elim disjE; simp del: length_greater_0_conv)+
  have "0 < length (snd w) div sector_size g"
    using lens sector_pos [OF assms(1)] by (simp add: dvd_div_eq_0_iff flip: neq0_conv)
  then have "unat (fst w) \<in> write_region (sector_size g) w" by (simp add: write_region_def)
  then have "unat (fst w) < unat (disk_sectors g)" using gpt_writes_regions_ok [OF assms(1,2)] assms(3) by auto
  with lens show ?thesis by auto
qed

lemma byte_region_sectors:
  assumes "gpt_layout g" "device_holds dev g d" "gpt_writes crc g = Some ws" "w \<in> set ws"
  shows "i \<in> byte_region dev w \<longleftrightarrow> i div sector_size g \<in> write_region (sector_size g) w"
proof -
  note w = written_sectors [OF assms(1,3,4)] and n = sector_pos [OF assms(1)]
  obtain k where k: "length (snd w) = k * sector_size g" using w by (metis dvd_def mult.commute)
  have "byte_offset dev (fst w) = unat (fst w) * sector_size g"
    using w by (intro byte_offset_sector [OF assms(1,2)]) simp
  then have "i \<in> byte_region dev w \<longleftrightarrow> unat (fst w) * sector_size g \<le> i \<and> i < (unat (fst w) + k) * sector_size g"
    by (simp add: byte_region_def k algebra_simps)
  also have "\<dots> \<longleftrightarrow> i div sector_size g \<in> write_region (sector_size g) w"
    using n by (simp add: write_region_def k less_eq_div_iff_mult_less_eq div_less_iff_less_mult)
  finally show ?thesis .
qed

lemma byte_regions:
  assumes "gpt_layout g" "device_holds dev g d" "gpt_writes crc g = Some ws"
  shows "sorted_wrt (\<lambda>v w. byte_region dev v \<inter> byte_region dev w = {}) ws"
    and "w \<in> set ws \<Longrightarrow> byte_region dev w \<subseteq> {..<length d}"
    and "w \<in> set ws \<Longrightarrow> i div sector_size g \<in> {unat (first_usable_lba g)..unat (last_usable_lba g)} \<Longrightarrow> i \<notin> byte_region dev w"
proof -
  note r = gpt_writes_regions_ok [OF assms(1,3)] and b = byte_region_sectors [OF assms]
  show "sorted_wrt (\<lambda>v w. byte_region dev v \<inter> byte_region dev w = {}) ws"
    by (rule sorted_wrt_mono_rel [OF _ conjunct1 [OF r]]) (use b in \<open>auto simp: disjoint_iff\<close>)
  show "byte_region dev w \<subseteq> {..<length d}" if w: "w \<in> set ws"
  proof
    fix i assume "i \<in> byte_region dev w"
    then have "i div sector_size g < unat (disk_sectors g)" using b [OF w] r w by auto
    then have "i < unat (disk_sectors g) * sector_size g" using sector_pos [OF assms(1)] by (simp add: div_less_iff_less_mult)
    then show "i \<in> {..<length d}" using assms(2) by (simp add: device_holds_def)
  qed
  show "i \<notin> byte_region dev w" if w: "w \<in> set ws" and "i div sector_size g \<in> {unat (first_usable_lba g)..unat (last_usable_lba g)}"
    using b [OF w, of i] r w that by (auto simp: disjoint_iff)
qed

lemma commit_stages:
  assumes "commit crc E dev g s = (r, t)" "gpt_layout g"
  shows "\<exists>ws r' u. gpt_writes crc g = Some ws \<and> write_all_at E dev ws s = (r', u) \<and> disk_bytes t = disk_bytes u
    \<and> (\<forall>e. r' = Inl e \<longrightarrow> r = Inl e)"
proof -
  obtain ws where ws: "gpt_writes crc g = Some ws" using gpt_writes_layout [OF assms(2), of crc] by metis
  obtain r' u where u: "write_all_at E dev ws s = (r', u)" by (cases "write_all_at E dev ws s")
  have "reads_only (op_bind (device_sync E dev) (\<lambda>_. reread_partition_table E dev))"
    by (intro reads_only_bind reads_only_intros)
  then show ?thesis using assms(1) ws u
    by (cases r') (auto simp: commit_def op_bind_def [of "write_all_at E dev ws"] reads_only_def dest: spec [of _ u])
qed

lemma commit_spares_ok:
  assumes "gpt_layout g" "device_holds dev g (disk_bytes s)" "commit crc E dev g s = (r, t)"
  shows "length (disk_bytes t) = length (disk_bytes s)
    \<and> (\<forall>i. i div sector_size g \<in> {unat (first_usable_lba g)..unat (last_usable_lba g)} \<longrightarrow> disk_bytes t ! i = disk_bytes s ! i)"
proof -
  obtain ws r' u where c: "gpt_writes crc g = Some ws" "write_all_at E dev ws s = (r', u)" "disk_bytes t = disk_bytes u"
    using commit_stages [OF assms(3,1)] by blast
  note b = byte_regions [OF assms(1,2) c(1)]
  note out = write_all_outside [OF c(2)]
  have inside: "i < length (disk_bytes s)" if "i div sector_size g \<in> {unat (first_usable_lba g)..unat (last_usable_lba g)}" for i
  proof -
    have "i div sector_size g < unat (disk_sectors g)" using that assms(1) by (auto simp: gpt_layout_def)
    then have "i < unat (disk_sectors g) * sector_size g" using sector_pos [OF assms(1)] by (simp add: div_less_iff_less_mult)
    then show ?thesis using assms(2) by (simp add: device_holds_def)
  qed
  show ?thesis using out b(2,3) inside c(3) by auto
qed

section \<open>Reading a committed table back\<close>

definition reads_work :: "'k part_env \<Rightarrow> bool" where
  "reads_work E \<longleftrightarrow> (\<forall>off len k. fst (pe_read_fault E off len k) = None)"

lemma read_sectors_works:
  assumes "reads_work E" "byte_offset dev lba + unat (n * of_nat (dv_sector_size dev)) \<le> length (disk_bytes s)"
  shows "\<exists>k. read_sectors E dev lba n s
    = (Inr (subslice (byte_offset dev lba) (byte_offset dev lba + unat (n * of_nat (dv_sector_size dev))) (disk_bytes s)), s\<lparr>kernel := k\<rparr>)"
proof -
  obtain k where "pe_read_fault E (byte_offset dev lba) (unat (n * of_nat (dv_sector_size dev))) (kernel s) = (None, k)"
    using assms(1) unfolding reads_work_def by (metis prod.collapse)
  with assms(2) show ?thesis by (intro exI [of _ k]) (simp add: read_sectors_def Let_def)
qed

lemma read_written:
  assumes "reads_work E" "gpt_layout g" "device_holds dev g (disk_bytes s)" "gpt_writes crc g = Some ws"
    and "disk_bytes t = foldl (\<lambda>d w. store (byte_offset dev (fst w)) (snd w) d) (disk_bytes s) ws"
    and "(lba, x) \<in> set ws" "length x = unat n * sector_size g"
  shows "\<exists>k. read_sectors E dev lba n t = (Inr x, t\<lparr>kernel := k\<rparr>)"
proof -
  note b = byte_regions [OF assms(2,3,4)]
  have fits: "byte_offset dev (fst w) + length (snd w) \<le> length (disk_bytes s)" if w: "w \<in> set ws" for w
  proof -
    have "byte_offset dev (fst w) + length (snd w) - 1 \<in> byte_region dev w"
      using written_sectors [OF assms(2,4) w] by (cases "snd w") (auto simp: byte_region_def)
    then have "byte_offset dev (fst w) + length (snd w) - 1 < length (disk_bytes s)" using b(2) [OF w] by blast
    then show ?thesis using written_sectors [OF assms(2,4) w] by (cases "snd w") auto
  qed
  have len: "length (foldl (\<lambda>d w. store (byte_offset dev (fst w)) (snd w) d) d vs) = length d"
    if "\<forall>w \<in> set vs. byte_offset dev (fst w) + length (snd w) \<le> length d" for vs d
    using that by (induction vs arbitrary: d) (simp_all add: length_store)
  have ss: "dv_sector_size dev = sector_size g" using assms(3) by (simp add: device_holds_def)
  have "unat n * sector_size g \<le> length (disk_bytes s)" using fits [OF assms(6)] assms(7) by simp
  then have "unat n * sector_size g < 2 ^ 64" using assms(3) by (simp add: device_holds_def)
  moreover have "sector_size g < 2 ^ 64" using assms(2) by (auto simp: gpt_layout_def plausible_sector_size_def)
  ultimately have n: "unat (n * of_nat (dv_sector_size dev)) = length x"
    using assms(7) by (simp add: ss unat_mult_sector)
  have "length (disk_bytes t) = length (disk_bytes s)" using len fits assms(5) by simp
  then have "byte_offset dev lba + length x \<le> length (disk_bytes t)" using fits [OF assms(6)] by simp
  moreover have "subslice (byte_offset dev lba) (byte_offset dev lba + length x) (disk_bytes t) = x"
    using foldl_store_read [OF b(1), of "disk_bytes s" "(lba, x)"] fits assms(5,6) by simp
  ultimately show ?thesis using read_sectors_works [OF assms(1), of dev lba n t] n by simp
qed

lemma probe_written:
  assumes "reads_work E" "gpt_layout g" "device_holds dev g (disk_bytes s)" "gpt_writes crc g = Some ws"
    and "disk_bytes t = foldl (\<lambda>d w. store (byte_offset dev (fst w)) (snd w) d) (disk_bytes s) ws"
  shows "fst (probe crc E dev t) = Inr (GptFound g)"
proof -
  obtain a m h1 h2 where a: "entry_array g = Some a" and w: "gpt_writes crc g = Some [(0, m),
      (entry_array_lba g, resize (unat (array_sectors g) * sector_size g) a),
      (backup_entries_lba g, resize (unat (array_sectors g) * sector_size g) a),
      (1, h1), (last_lba g, h2)]"
    and h1: "header_parse crc h1 = Inr (header_for g True (crc a))"
    and l: "length m = sector_size g" "length h1 = sector_size g"
    by (rule gpt_writes_layout [OF assms(2), of crc])
  let ?arr = "resize (unat (array_sectors g) * sector_size g) a"
  have mem: "(0, m) \<in> set ws" "(1, h1) \<in> set ws" "(entry_array_lba g, ?arr) \<in> set ws" using w assms(4) by auto
  have rd: "\<exists>k. read_sectors E dev lba n (t\<lparr>kernel := k'\<rparr>) = (Inr x, t\<lparr>kernel := k\<rparr>)"
    if "(lba, x) \<in> set ws" "length x = unat n * sector_size g" for lba x n k'
    using read_written [OF assms(1-4) _ that, of "t\<lparr>kernel := k'\<rparr>"] assms(5) by simp
  have t: "t = t\<lparr>kernel := kernel t\<rparr>" by simp
  obtain k1 where k1: "read_sectors E dev 0 1 t = (Inr m, t\<lparr>kernel := k1\<rparr>)"
    using rd [OF mem(1), of 1 "kernel t"] l by auto
  obtain k2 where k2: "read_sectors E dev 1 1 (t\<lparr>kernel := k1\<rparr>) = (Inr h1, t\<lparr>kernel := k2\<rparr>)"
    using rd [OF mem(2), of 1 k1] l by auto
  obtain k3 where k3: "read_sectors E dev (entry_array_lba g) (array_sectors g) (t\<lparr>kernel := k2\<rparr>) = (Inr ?arr, t\<lparr>kernel := k3\<rparr>)"
    using rd [OF mem(3), of "array_sectors g" k2] by auto
  have geom: "gm_sectors (dv_geom dev) = disk_sectors g" "dv_sector_size dev = sector_size g"
    using assms(3) by (simp_all add: device_holds_def)
  have lba: "h_entry_array_lba (header_for g True (crc a)) = entry_array_lba g" by (simp add: header_for_def)
  show ?thesis
    using gpt_parse_written [OF assms(2) a h1]
    by (simp add: probe_def Let_def op_bind_def k1 k2 h1 geom primary_array_ok [OF assms(2)] lba k3)
qed

lemma write_all_error: "write_all_at E dev ws s = (Inl e, u) \<Longrightarrow> e \<noteq> PartFails (Refused x)"
proof (induction ws arbitrary: s)
  case (Cons w ws)
  then show ?case
    by (cases w; cases "write_at E dev (fst w) (snd w) s")
      (auto simp: op_bind_def write_at_def Let_def split: sum.splits prod.splits option.splits)
qed simp

lemma commit_probe_ok:
  assumes "gpt_layout g" "device_holds dev g (disk_bytes s)" "commit crc E dev g s = (r, t)" "reads_work F"
    and "r = Inr () \<or> r = Inl (PartFails (Refused x))"
  shows "fst (probe crc F dev t) = Inr (GptFound g)"
proof -
  obtain ws r' u where c: "gpt_writes crc g = Some ws" "write_all_at E dev ws s = (r', u)" "disk_bytes t = disk_bytes u"
    "\<forall>e. r' = Inl e \<longrightarrow> r = Inl e"
    using commit_stages [OF assms(3,1)] by blast
  have "r' = Inr ()"
  proof (cases r')
    case (Inl e)
    have "e \<noteq> PartFails (Refused x)"
      using c(2) unfolding Inl by (rule write_all_error)
    then show ?thesis using Inl c(4) assms(5) by auto
  qed simp
  with c(2) have "disk_bytes u = foldl (\<lambda>d w. store (byte_offset dev (fst w)) (snd w) d) (disk_bytes s) ws"
    using write_all_done by blast
  then show ?thesis using probe_written [OF assms(4,1,2) c(1)] c(3) by simp
qed

section \<open>Properties\<close>

text \<open>C35. Whatever bytes a disk holds, a table accepted from it is well-formed: plausible sector and entry
  sizes, one well-formed entry per slot, the primary array before the usable range and the backup array
  after it, all inside the disk it was read from.\<close>

theorem accepted_table_well_formed:
  assumes "gpt_parse crc disk n header ents = Inr g" "unat disk + unat (align_sectors n) \<le> 2 ^ 64"
  shows "gpt_layout g \<and> disk_sectors g = disk \<and> sector_size g = n"
  by (rule gpt_parse_layout [OF assms])

theorem accepted_table_well_formed_witness:
  "\<exists>header ents. gpt_parse (\<lambda>_. 0) 16777216 512 header ents = Inr sample_gpt \<and> gpt_layout sample_gpt"
proof -
  obtain a h where p: "gpt_parse (\<lambda>_. 0) (disk_sectors sample_gpt) (sector_size sample_gpt) h
      (resize (unat (array_sectors sample_gpt) * sector_size sample_gpt) a) = Inr sample_gpt"
    using gpt_writes_layout [OF sample_layout(1), of "\<lambda>_. 0"] gpt_parse_written [OF sample_layout(1)] by metis
  have f: "disk_sectors sample_gpt = 16777216" "sector_size sample_gpt = 512" by (simp_all add: sample_fields)
  from accepted_table_well_formed [OF p [unfolded f] sample_room] p [unfolded f] show ?thesis by blast
qed

end
