(* ===== verification/Part_Cli.thy ===== *)
theory Part_Cli
  imports Part_Label
begin

text \<open>
  The commands of \<open>part\<close> (\<open>src/uu/part/src/cli.rs\<close>), from the parsed command line to the device. What a
  command prints is not modelled; its result is the value it prints from.
\<close>

section \<open>Sizes\<close>

definition size_suffix :: "rust_str \<Rightarrow> rust_str \<times> nat" where
  "size_suffix s =
     (let c = last s in
      if c \<in> {75, 107} then (butlast s, 1024)
      else if c \<in> {77, 109} then (butlast s, 1024 * 1024)
      else if c \<in> {71, 103} then (butlast s, 1024 * 1024 * 1024)
      else if c \<in> {84, 116} then (butlast s, 1024 ^ 4)
      else if c \<in> {83, 115} then (butlast s, 0)
      else (s, 0))"

definition parse_size :: "rust_str \<Rightarrow> nat \<Rightarrow> part_error + u64 option" where
  "parse_size spec ss =
     (let s = trim spec; bad = Inl (Usage (BadSize spec)) in
      if eq_ignore_ascii_case s (lit ''max'') then Inr None
      else if s = [] then bad
      else case size_suffix s of (digits, mult) \<Rightarrow>
        (case parse_uint 10 (2 ^ 64 - 1) (trim digits) of
           None \<Rightarrow> bad
         | Some n \<Rightarrow>
             if n = 0 then Inl (Usage SizeMustBeNonZero)
             else if mult = 0 then Inr (Some (of_nat n))
             else case checked_mul (of_nat n) (of_nat mult) of
               None \<Rightarrow> bad
             | Some b \<Rightarrow> Inr (Some (div_ceil b (of_nat ss)))))"

section \<open>Opening with the guards\<close>

definition open_ro :: "'k part_env \<Rightarrow> bytes \<Rightarrow> ('k, device) part_op" where
  "open_ro E path =
     op_bind (part_ask (ensure_whole_disk E path)) (\<lambda>g.
     op_bind (part_result g) (\<lambda>_. device_open E path False))"

definition open_rw :: "'k part_env \<Rightarrow> bytes \<Rightarrow> bool \<Rightarrow> ('k, device) part_op" where
  "open_rw E path yes =
     (if \<not> yes then part_fail (Refused (NotConfirmed path))
      else
        op_bind (part_ask (ensure_whole_disk E path)) (\<lambda>g.
        op_bind (part_result g) (\<lambda>_.
        op_bind (part_ask (ensure_not_mounted E path)) (\<lambda>g.
        op_bind (part_result g) (\<lambda>_. device_open E path True)))))"

section \<open>Commands\<close>

text \<open>An operation that draws a random GUID when it succeeds.\<close>

definition with_random :: "'k part_env \<Rightarrow> (guid \<Rightarrow> part_error + 'a) \<Rightarrow> ('k, 'a) part_op" where
  "with_random E f s =
     (case pe_random E (kernel s) of (b, k) \<Rightarrow>
        (case f (guid_random b) of
           Inl e \<Rightarrow> (Inl (PartFails e), s)
         | Inr x \<Rightarrow> (Inr x, s\<lparr>kernel := k\<rparr>)))"

definition cmd_verify :: "(bytes \<Rightarrow> u32) \<Rightarrow> 'k part_env \<Rightarrow> bytes \<Rightarrow> ('k, unit) part_op" where
  "cmd_verify crc E path =
     op_bind (open_ro E path) (\<lambda>dev.
     op_bind (load_gpt crc E dev) (\<lambda>g.
       if problems g = [] then op_return ()
       else part_fail (Damaged (ProblemsFound (length (problems g))))))"

definition cmd_create :: "(bytes \<Rightarrow> u32) \<Rightarrow> 'k part_env \<Rightarrow> bytes \<Rightarrow> bool \<Rightarrow> bool \<Rightarrow> ('k, guid) part_op" where
  "cmd_create crc E path yes force =
     op_bind (open_rw E path yes) (\<lambda>dev.
     op_bind (probe crc E dev) (\<lambda>st.
     op_bind (part_result (permit_destructive st force)) (\<lambda>_.
     op_bind (with_random E (\<lambda>fresh. gpt_create fresh (gm_sectors (dv_geom dev)) (dv_sector_size dev))) (\<lambda>g.
     op_bind (commit crc E dev g) (\<lambda>_. op_return (disk_guid g))))))"

definition cmd_add ::
  "(bytes \<Rightarrow> u32) \<Rightarrow> 'k part_env \<Rightarrow> bytes \<Rightarrow> bool \<Rightarrow> bool \<Rightarrow> rust_str \<Rightarrow> rust_str \<Rightarrow> rust_str \<Rightarrow> ('k, nat \<times> gpt_entry) part_op" where
  "cmd_add crc E path yes force spec type_spec name =
     op_bind (open_rw E path yes) (\<lambda>dev.
     op_bind (probe crc E dev) (\<lambda>st.
     op_bind (part_result (permit_destructive st force)) (\<lambda>_.
     op_bind (load_gpt crc E dev) (\<lambda>g.
     op_bind (part_result (parse_size spec (dv_sector_size dev))) (\<lambda>sectors.
     op_bind (part_result (ok_or (Usage (UnknownType type_spec)) (resolve_type type_spec))) (\<lambda>tg.
     op_bind (with_random E (\<lambda>fresh. gpt_add fresh g sectors tg name None)) (\<lambda>(g', index).
     op_bind (commit crc E dev g') (\<lambda>_. op_return (index, entries g' ! (index - 1))))))))))"

definition cmd_del :: "(bytes \<Rightarrow> u32) \<Rightarrow> 'k part_env \<Rightarrow> bytes \<Rightarrow> bool \<Rightarrow> bool \<Rightarrow> nat \<Rightarrow> ('k, unit) part_op" where
  "cmd_del crc E path yes force index =
     op_bind (open_rw E path yes) (\<lambda>dev.
     op_bind (probe crc E dev) (\<lambda>st.
     op_bind (part_result (permit_destructive st force)) (\<lambda>_.
     op_bind (load_gpt crc E dev) (\<lambda>g.
     op_bind (part_result (gpt_remove g index)) (\<lambda>g'. commit crc E dev g')))))"

section \<open>The commands that write\<close>

datatype part_command =
    CreateTable
  | AddPartition rust_str rust_str rust_str
  | DelPartition nat

fun run_command :: "(bytes \<Rightarrow> u32) \<Rightarrow> 'k part_env \<Rightarrow> bytes \<Rightarrow> bool \<Rightarrow> bool \<Rightarrow> part_command \<Rightarrow> ('k, unit) part_op" where
  "run_command crc E path yes force CreateTable = op_bind (cmd_create crc E path yes force) (\<lambda>_. op_return ())"
| "run_command crc E path yes force (AddPartition spec type_spec name) =
     op_bind (cmd_add crc E path yes force spec type_spec name) (\<lambda>_. op_return ())"
| "run_command crc E path yes force (DelPartition index) = cmd_del crc E path yes force index"

section \<open>The stages of a command\<close>

lemma op_bind_split:
  "op_bind f g s = (r, u) \<Longrightarrow> (\<exists>e. f s = (Inl e, u) \<and> r = Inl e) \<or> (\<exists>x t. f s = (Inr x, t) \<and> g x t = (r, u))"
  by (auto simp: op_bind_def split: prod.splits sum.splits)

text \<open>Operations that leave everything as it is.\<close>

definition asks :: "('k, 'a) part_op \<Rightarrow> bool" where
  "asks f \<longleftrightarrow> (\<forall>s. snd (f s) = s)"

lemma asks_intros: "asks (op_return x)" "asks (op_fail e)" "asks (part_ask q)" "asks (part_result r)"
  by (auto simp: asks_def part_ask_def part_result_def split: sum.splits)

lemma asks_bind: "asks f \<Longrightarrow> (\<And>x. asks (g x)) \<Longrightarrow> asks (op_bind f g)"
  by (auto simp: asks_def op_bind_def split: prod.splits sum.splits) (metis snd_conv)+

lemma device_open_asks: "asks (device_open E path w)"
  unfolding device_open_def
  by (intro asks_bind asks_intros; auto split: option.splits intro!: asks_bind asks_intros)

lemma open_rw_asks: "asks (open_rw E path yes)"
  unfolding open_rw_def by (auto intro!: asks_bind asks_intros device_open_asks)

lemma open_rw_guards:
  assumes "open_rw E path yes s = (Inr dev, t)"
  shows "t = s \<and> yes \<and> ensure_whole_disk E path (kernel s) = Inr () \<and> ensure_not_mounted E path (kernel s) = Inr ()
    \<and> device_open E path True s = (Inr dev, s)"
proof -
  have t: "t = s" using open_rw_asks [of E path yes] assms unfolding asks_def by (metis snd_conv)
  then show ?thesis using assms
    by (cases yes) (auto simp: open_rw_def op_bind_Inr part_ask_def part_result_def split: sum.splits)
qed

text \<open>The table a command commits, on a disk with given contents.\<close>

inductive new_table ::
  "(bytes \<Rightarrow> u32) \<Rightarrow> 'k part_env \<Rightarrow> device \<Rightarrow> bytes \<Rightarrow> bool \<Rightarrow> part_command \<Rightarrow> gpt \<Rightarrow> bool"
  for crc E dev d force where
  created: "fst (probe crc E dev \<lparr>disk_bytes = d, kernel = k\<rparr>) = Inr st \<Longrightarrow> permit_destructive st force = Inr ()
    \<Longrightarrow> gpt_create (guid_random (fst (pe_random E k'))) (gm_sectors (dv_geom dev)) (dv_sector_size dev) = Inr g'
    \<Longrightarrow> new_table crc E dev d force CreateTable g'"
| added: "fst (probe crc E dev \<lparr>disk_bytes = d, kernel = k\<rparr>) = Inr (GptFound g)
    \<Longrightarrow> parse_size spec (dv_sector_size dev) = Inr sectors \<Longrightarrow> resolve_type type_spec = Some tg
    \<Longrightarrow> gpt_add (guid_random (fst (pe_random E k'))) g sectors tg name None = Inr (g', i)
    \<Longrightarrow> new_table crc E dev d force (AddPartition spec type_spec name) g'"
| deleted: "fst (probe crc E dev \<lparr>disk_bytes = d, kernel = k\<rparr>) = Inr (GptFound g) \<Longrightarrow> gpt_remove g i = Inr g'
    \<Longrightarrow> new_table crc E dev d force (DelPartition i) g'"

inductive_cases create_tableE: "new_table crc E dev d force CreateTable g'"
inductive_cases add_tableE: "new_table crc E dev d force (AddPartition spec type_spec name) g'"
inductive_cases del_tableE: "new_table crc E dev d force (DelPartition i) g'"

lemma reads_same: "reads_only f \<Longrightarrow> f s = (r, t) \<Longrightarrow> disk_bytes t = disk_bytes s"
  unfolding reads_only_def by (metis snd_conv)

lemma part_state_eta: "\<lparr>disk_bytes = disk_bytes s, kernel = kernel s\<rparr> = (s :: 'k part_state)"
  by simp

lemma load_gpt_found:
  assumes "load_gpt crc E dev s = (Inr g, t)"
  shows "fst (probe crc E dev s) = Inr (GptFound g) \<and> disk_bytes t = disk_bytes s"
proof -
  obtain st u where "probe crc E dev s = (Inr st, u)" using assms by (auto simp: load_gpt_def op_bind_Inr)
  with assms have "fst (probe crc E dev s) = Inr (GptFound g)"
    by (cases st) (simp_all add: load_gpt_def op_bind_def)
  with reads_same [OF load_gpt_reads assms] show ?thesis by simp
qed

lemma with_random_outcome:
  "with_random E f s = (r, t) \<Longrightarrow> disk_bytes t = disk_bytes s
    \<and> (case r of Inl e \<Rightarrow> True | Inr x \<Rightarrow> \<exists>k. f (guid_random (fst (pe_random E k))) = Inr x)"
  by (auto simp: with_random_def split: prod.splits sum.splits) (metis fst_conv)+

definition refused :: "'k part_state \<Rightarrow> 'k part_state \<Rightarrow> (part_stop + 'a) \<Rightarrow> bool" where
  "refused s t r \<longleftrightarrow> disk_bytes t = disk_bytes s \<and> (\<exists>e. r = Inl e)"

lemma refused_Inl [simp]: "refused s t (Inl e) \<longleftrightarrow> disk_bytes t = disk_bytes s"
  by (simp add: refused_def)

lemma opened_probed:
  assumes "op_bind (open_rw E path yes) (\<lambda>dev. op_bind (probe crc E dev) (\<lambda>st.
      op_bind (part_result (permit_destructive st force)) (\<lambda>_. h dev))) s = (r, t)"
  shows "refused s t r \<or> (\<exists>dev st u. open_rw E path yes s = (Inr dev, s) \<and> fst (probe crc E dev s) = Inr st
    \<and> permit_destructive st force = Inr () \<and> disk_bytes u = disk_bytes s \<and> h dev u = (r, t))"
  using op_bind_split [OF assms]
proof (elim disjE exE conjE)
  fix e assume "open_rw E path yes s = (Inl e, t)" "r = Inl e"
  then show ?thesis using open_rw_asks [of E path yes] by (metis asks_def refused_Inl snd_conv)
next
  fix dev s1
  assume o: "open_rw E path yes s = (Inr dev, s1)"
    and k: "op_bind (probe crc E dev) (\<lambda>st. op_bind (part_result (permit_destructive st force)) (\<lambda>_. h dev)) s1 = (r, t)"
  have s1: "s1 = s" using open_rw_guards [OF o] by simp
  from op_bind_split [OF k] show ?thesis
  proof (elim disjE exE conjE)
    fix e assume "probe crc E dev s1 = (Inl e, t)" "r = Inl e"
    then show ?thesis using reads_same [OF probe_reads] s1 by (metis refused_Inl)
  next
    fix st u assume p: "probe crc E dev s1 = (Inr st, u)"
      and k: "op_bind (part_result (permit_destructive st force)) (\<lambda>_. h dev) u = (r, t)"
    have u: "disk_bytes u = disk_bytes s" using reads_same [OF probe_reads p] s1 by simp
    show ?thesis
    proof (cases "permit_destructive st force")
      case (Inl e)
      then show ?thesis using k u by (auto simp: part_result_def op_bind_def)
    next
      case (Inr y)
      then have "h dev u = (r, t)" using k by (simp add: part_result_def op_bind_def)
      then show ?thesis using o p u Inr s1 by auto
    qed
  qed
qed

lemma cmd_del_stages:
  assumes "cmd_del crc E path yes force i s = (r, t)"
  shows "refused s t r \<or> (\<exists>dev g' u. open_rw E path yes s = (Inr dev, s) \<and> disk_bytes u = disk_bytes s
    \<and> new_table crc E dev (disk_bytes s) force (DelPartition i) g' \<and> commit crc E dev g' u = (r, t))"
  using opened_probed [OF assms [unfolded cmd_del_def]]
proof (elim disjE exE conjE)
  fix dev st u assume o: "open_rw E path yes s = (Inr dev, s)" and u: "disk_bytes u = disk_bytes s"
    and k: "op_bind (load_gpt crc E dev) (\<lambda>g. op_bind (part_result (gpt_remove g i)) (commit crc E dev)) u = (r, t)"
  from op_bind_split [OF k] show ?thesis
  proof (elim disjE exE conjE)
    fix e assume "load_gpt crc E dev u = (Inl e, t)" "r = Inl e"
    then show ?thesis using reads_same [OF load_gpt_reads] u by (metis refused_Inl)
  next
    fix g v assume l: "load_gpt crc E dev u = (Inr g, v)" and k: "op_bind (part_result (gpt_remove g i)) (commit crc E dev) v = (r, t)"
    note f = load_gpt_found [OF l]
    have "fst (probe crc E dev \<lparr>disk_bytes = disk_bytes s, kernel = kernel u\<rparr>) = Inr (GptFound g)"
      using f u by (metis part_state_eta)
    with k o f u show ?thesis
      by (cases "gpt_remove g i") (auto simp: part_result_def op_bind_def intro: deleted)
  qed
qed simp

lemma bind_result: "op_bind (part_result x) f u = (r, t) \<Longrightarrow> disk_bytes u = disk_bytes s
    \<Longrightarrow> refused s t r \<or> (\<exists>y. x = Inr y \<and> f y u = (r, t))"
  by (cases x) (auto simp: part_result_def op_bind_def)

lemma bind_random:
  assumes "op_bind (with_random E f) g u = (r, t)" "disk_bytes u = disk_bytes s"
  shows "refused s t r \<or> (\<exists>k y v. f (guid_random (fst (pe_random E k))) = Inr y \<and> disk_bytes v = disk_bytes s \<and> g y v = (r, t))"
  using op_bind_split [OF assms(1)]
proof (elim disjE exE conjE)
  fix e assume "with_random E f u = (Inl e, t)" "r = Inl e"
  then show ?thesis using with_random_outcome assms(2) by (metis refused_Inl)
next
  fix y v assume "with_random E f u = (Inr y, v)" "g y v = (r, t)"
  with with_random_outcome [OF this(1)] assms(2) show ?thesis by auto
qed

definition discard :: "part_stop + 'a \<Rightarrow> part_stop + unit" where
  "discard r = (case r of Inl e \<Rightarrow> Inl e | Inr _ \<Rightarrow> Inr ())"

lemma bind_commit:
  "op_bind (commit crc E dev g) (\<lambda>_. op_return x) u = (r, t) \<Longrightarrow> commit crc E dev g u = (discard r, t)"
  by (auto simp: op_bind_def discard_def split: prod.splits sum.splits)

lemma bind_discard: "op_bind f (\<lambda>_. op_return ()) s = (r, t) \<Longrightarrow> \<exists>q. f s = (q, t) \<and> r = discard q"
  by (auto simp: op_bind_def discard_def split: prod.splits sum.splits)

lemma refused_discard: "refused s t q \<Longrightarrow> refused s t (discard q)"
  by (auto simp: refused_def discard_def)

lemma cmd_create_stages:
  assumes "cmd_create crc E path yes force s = (r, t)"
  shows "refused s t r \<or> (\<exists>dev g' u. open_rw E path yes s = (Inr dev, s) \<and> disk_bytes u = disk_bytes s
    \<and> new_table crc E dev (disk_bytes s) force CreateTable g' \<and> commit crc E dev g' u = (discard r, t))"
  using opened_probed [OF assms [unfolded cmd_create_def]]
proof (elim disjE exE conjE)
  fix dev st u assume o: "open_rw E path yes s = (Inr dev, s)" and u: "disk_bytes u = disk_bytes s"
    and p: "fst (probe crc E dev s) = Inr st" "permit_destructive st force = Inr ()"
    and k: "op_bind (with_random E (\<lambda>fresh. gpt_create fresh (gm_sectors (dv_geom dev)) (dv_sector_size dev)))
        (\<lambda>g. op_bind (commit crc E dev g) (\<lambda>_. op_return (disk_guid g))) u = (r, t)"
  from bind_random [OF k u] show ?thesis
  proof (elim disjE exE conjE)
    fix k' g' v assume c: "gpt_create (guid_random (fst (pe_random E k'))) (gm_sectors (dv_geom dev)) (dv_sector_size dev) = Inr g'"
      and v: "disk_bytes v = disk_bytes s" and m: "op_bind (commit crc E dev g') (\<lambda>_. op_return (disk_guid g')) v = (r, t)"
    have "new_table crc E dev (disk_bytes s) force CreateTable g'"
      using p c by (intro created [where k = "kernel s"]) (simp_all add: part_state_eta)
    with o v bind_commit [OF m] show ?thesis by blast
  qed simp
qed simp

lemma cmd_add_stages:
  assumes "cmd_add crc E path yes force spec type_spec name s = (r, t)"
  shows "refused s t r \<or> (\<exists>dev g' u. open_rw E path yes s = (Inr dev, s) \<and> disk_bytes u = disk_bytes s
    \<and> new_table crc E dev (disk_bytes s) force (AddPartition spec type_spec name) g' \<and> commit crc E dev g' u = (discard r, t))"
  using opened_probed [OF assms [unfolded cmd_add_def]]
proof (elim disjE exE conjE)
  let ?store = "\<lambda>dev (g', index). op_bind (commit crc E dev g') (\<lambda>_. op_return (index, entries g' ! (index - 1)))"
  let ?edit = "\<lambda>dev g sectors tg. op_bind (with_random E (\<lambda>fresh. gpt_add fresh g sectors tg name None)) (?store dev)"
  let ?type = "ok_or (Usage (UnknownType type_spec)) (resolve_type type_spec)"
  let ?typed = "\<lambda>dev g sectors. op_bind (part_result ?type) (?edit dev g sectors)"
  let ?sized = "\<lambda>dev g. op_bind (part_result (parse_size spec (dv_sector_size dev))) (?typed dev g)"
  fix dev st u assume o: "open_rw E path yes s = (Inr dev, s)" and u: "disk_bytes u = disk_bytes s"
    and k: "op_bind (load_gpt crc E dev) (?sized dev) u = (r, t)"
  from op_bind_split [OF k] show ?thesis
  proof (elim disjE exE conjE)
    fix e assume "load_gpt crc E dev u = (Inl e, t)" "r = Inl e"
    then show ?thesis using reads_same [OF load_gpt_reads] u by (metis refused_Inl)
  next
    fix g v assume l: "load_gpt crc E dev u = (Inr g, v)" and k: "?sized dev g v = (r, t)"
    have v: "disk_bytes v = disk_bytes s" using load_gpt_found [OF l] u by simp
    have f: "fst (probe crc E dev \<lparr>disk_bytes = disk_bytes s, kernel = kernel u\<rparr>) = Inr (GptFound g)"
      using load_gpt_found [OF l] u by (metis part_state_eta)
    consider "refused s t r" | sectors tg where "parse_size spec (dv_sector_size dev) = Inr sectors" "?type = Inr tg" "?edit dev g sectors tg v = (r, t)"
      using bind_result [OF k v] bind_result [OF _ v] by blast
    then show ?thesis
    proof cases
      case (2 sectors tg)
      then have tg: "resolve_type type_spec = Some tg" by (cases "resolve_type type_spec") simp_all
      from bind_random [OF 2(3) v] show ?thesis
      proof (elim disjE exE conjE)
        fix k' y w assume a: "gpt_add (guid_random (fst (pe_random E k'))) g sectors tg name None = Inr y"
          and w: "disk_bytes w = disk_bytes s" and m: "?store dev y w = (r, t)"
        obtain g' i where y: "y = (g', i)" by (cases y)
        have "new_table crc E dev (disk_bytes s) force (AddPartition spec type_spec name) g'"
          using f 2(1) tg a y by (intro added) simp_all
        with o w bind_commit m y show ?thesis by fastforce
      qed simp
    qed simp
  qed
qed simp

section \<open>The writing commands\<close>

lemma run_command_stages:
  assumes "run_command crc E path yes force cmd s = (r, t)"
  shows "refused s t r \<or> (\<exists>dev g' u. open_rw E path yes s = (Inr dev, s) \<and> disk_bytes u = disk_bytes s
    \<and> new_table crc E dev (disk_bytes s) force cmd g' \<and> commit crc E dev g' u = (r, t))"
proof (cases cmd)
  case CreateTable
  then have "op_bind (cmd_create crc E path yes force) (\<lambda>_. op_return ()) s = (r, t)" using assms by simp
  from bind_discard [OF this] cmd_create_stages CreateTable show ?thesis by (blast intro: refused_discard)
next
  case (AddPartition spec type_spec name)
  then have "op_bind (cmd_add crc E path yes force spec type_spec name) (\<lambda>_. op_return ()) s = (r, t)" using assms by simp
  from bind_discard [OF this] cmd_add_stages AddPartition show ?thesis by (blast intro: refused_discard)
next
  case (DelPartition i)
  then show ?thesis using cmd_del_stages assms by simp
qed

section \<open>The tables that are committed\<close>

lemma those_length: "those xs = Some ys \<Longrightarrow> length ys = length xs"
  by (induction xs arbitrary: ys) (auto split: option.splits)

lemma guid_parse_wf: "guid_parse s = Some g \<Longrightarrow> guid_wf g"
  by (auto simp: guid_parse_def hex_into_def guid_wf_def Let_def split: if_splits bind_splits dest!: those_length)

lemma resolve_type_wf: "resolve_type spec = Some g \<Longrightarrow> guid_wf g"
  by (auto simp: resolve_type_def guid_parse_wf split: option.splits)

lemma guid_random_wf: "length b = 16 \<Longrightarrow> guid_wf (guid_random b)"
  by (simp add: guid_random_def guid_wf_def)

lemma disk_room:
  assumes "plausible_sector_size n" "unat (disk :: u64) * n < 2 ^ 64"
  shows "unat disk + unat (align_sectors n) \<le> 2 ^ 64"
proof -
  have "512 \<le> n" using assms(1) by (simp add: plausible_sector_size_def)
  then have "unat disk * 512 \<le> unat disk * n" by (rule mult_le_mono2)
  then have "unat disk * 512 < 2 ^ 64" using assms(2) by (rule le_less_trans)
  then show ?thesis using unat_align_sectors [OF assms(1)] by simp
qed

text \<open>The device is as long as its geometry says, and the name given holds no NUL.\<close>

definition device_fits :: "device \<Rightarrow> bytes \<Rightarrow> bool" where
  "device_fits dev d \<longleftrightarrow>
     unat (gm_sectors (dv_geom dev)) * dv_sector_size dev \<le> length d \<and> length d < 2 ^ 64"

fun name_given :: "part_command \<Rightarrow> rust_str" where
  "name_given (AddPartition _ _ name) = name"
| "name_given _ = []"

definition sane_input :: "'k part_env \<Rightarrow> part_command \<Rightarrow> bool" where
  "sane_input E cmd \<longleftrightarrow> (\<forall>k. length (fst (pe_random E k)) = 16) \<and> (\<forall>c \<in> set (name_given cmd). is_scalar c \<and> c \<noteq> 0)"

lemma probe_others_no_gpt: "probe_others E dev x v \<noteq> (Inr (GptFound g), u)"
  by (auto simp: probe_others_def op_bind_def part_ask_def split: option.splits)

lemma probe_found:
  assumes "fst (probe crc E dev s) = Inr (GptFound g)"
  shows "\<exists>h b. gpt_parse crc (gm_sectors (dv_geom dev)) (dv_sector_size dev) h b = Inr g"
proof -
  obtain u where u: "probe crc E dev s = (Inr (GptFound g), u)" using assms by (metis prod.collapse)
  obtain sector0 s1 header s2 where k: "(case header_parse crc header of
        Inr h \<Rightarrow>
          (case primary_array_sectors h (gm_sectors (dv_geom dev)) (dv_sector_size dev) of
             Inl (Damaged m) \<Rightarrow> op_return (DamagedFound m)
           | Inl e \<Rightarrow> part_fail e
           | Inr n \<Rightarrow>
               op_bind (read_sectors E dev (h_entry_array_lba h) n) (\<lambda>ents.
               case gpt_parse crc (gm_sectors (dv_geom dev)) (dv_sector_size dev) header ents of
                 Inr g \<Rightarrow> op_return (GptFound g)
               | Inl (Damaged m) \<Rightarrow> op_return (DamagedFound m)
               | Inl NoGpt \<Rightarrow> probe_others E dev sector0
               | Inl e \<Rightarrow> part_fail e))
      | Inl (Damaged m) \<Rightarrow> op_return (DamagedFound m)
      | Inl NoGpt \<Rightarrow> probe_others E dev sector0
      | Inl e \<Rightarrow> part_fail e) s2 = (Inr (GptFound g), u)"
    using u by (auto simp: probe_def Let_def op_bind_Inr)
  show ?thesis
  proof (cases "header_parse crc header")
    case (Inl e)
    with k show ?thesis by (cases e) (simp_all add: probe_others_no_gpt)
  next
    case (Inr h)
    show ?thesis
    proof (cases "primary_array_sectors h (gm_sectors (dv_geom dev)) (dv_sector_size dev)")
      case (Inl e)
      with k Inr show ?thesis by (cases e) simp_all
    next
      case n: (Inr n)
      obtain ents v where v: "(case gpt_parse crc (gm_sectors (dv_geom dev)) (dv_sector_size dev) header ents of
                 Inr g \<Rightarrow> op_return (GptFound g)
               | Inl (Damaged m) \<Rightarrow> op_return (DamagedFound m)
               | Inl NoGpt \<Rightarrow> probe_others E dev sector0
               | Inl e \<Rightarrow> part_fail e) v = (Inr (GptFound g), u)"
        using k Inr n by (auto simp: op_bind_Inr)
      then show ?thesis
        by (cases "gpt_parse crc (gm_sectors (dv_geom dev)) (dv_sector_size dev) header ents")
          (auto simp: probe_others_no_gpt split: part_error.splits)
    qed
  qed
qed

lemma found_layout:
  assumes "fst (probe crc E dev s) = Inr (GptFound g)" "device_fits dev d"
  shows "gpt_layout g \<and> device_holds dev g d"
proof -
  obtain h b where p: "gpt_parse crc (gm_sectors (dv_geom dev)) (dv_sector_size dev) h b = Inr g"
    using probe_found [OF assms(1)] by blast
  then obtain hd a where "primary_array_sectors hd (gm_sectors (dv_geom dev)) (dv_sector_size dev) = Inr a"
    by (auto simp: gpt_parse_def result_bind_def split: sum.splits)
  then have "plausible_sector_size (dv_sector_size dev)" using primary_layout by blast
  then have "gpt_layout g \<and> disk_sectors g = gm_sectors (dv_geom dev) \<and> sector_size g = dv_sector_size dev"
    using assms(2) by (intro gpt_parse_layout [OF p] disk_room) (simp_all add: device_fits_def)
  then show ?thesis using assms(2) by (simp add: device_holds_def device_fits_def)
qed

lemma gpt_add_layout:
  assumes "gpt_layout g" "gpt_add fresh g sectors tg name None = Inr (g', i)" "guid_wf fresh" "guid_wf tg"
    and "\<forall>c \<in> set name. is_scalar c \<and> c \<noteq> 0"
  shows "gpt_layout g' \<and> (\<exists>es. g' = g\<lparr>entries := es\<rparr>)"
  using assms(2)
proof (rule gpt_add_cases)
  fix slot c
  assume "length (encode_utf16 name) \<le> NAME_UNITS" and g': "g' = g\<lparr>entries := (entries g)[slot :=
             \<lparr>type_guid = tg, unique_guid = (case None of None \<Rightarrow> fresh | Some u \<Rightarrow> u),
              starting_lba = fe_start c, ending_lba = fe_end c, attributes = 0, entry_name = name\<rparr>]\<rparr>"
  then have "gpt_layout g'" using assms(1,3-5) by (auto intro!: gpt_layout_update simp: entry_wf_def name_ok_def)
  with g' show ?thesis by blast
qed

lemma gpt_remove_layout:
  assumes "gpt_layout g" "gpt_remove g i = Inr g'"
  shows "gpt_layout g' \<and> (\<exists>es. g' = g\<lparr>entries := es\<rparr>)"
proof -
  have g': "g' = g\<lparr>entries := (entries g)[i - 1 := entry_default]\<rparr>"
    using assms(2) by (auto simp: gpt_remove_def Let_def split: if_splits)
  then have "gpt_layout g'" using assms(1) by (auto intro: gpt_layout_update)
  with g' show ?thesis by blast
qed

lemma device_holds_entries: "device_holds dev (g\<lparr>entries := es\<rparr>) d = device_holds dev g d"
  by (simp add: device_holds_def)

lemma new_table_layout:
  assumes "new_table crc E dev d force cmd g'" "device_fits dev d" "sane_input E cmd"
  shows "gpt_layout g' \<and> device_holds dev g' d"
  using assms
proof (induction rule: new_table.induct)
  case (created k st k' g')
  then have "guid_wf (guid_random (fst (pe_random E k')))" by (simp add: sane_input_def guid_random_wf)
  moreover have "plausible_sector_size (dv_sector_size dev)" using gpt_create_cases(1) created.hyps(3) .
  ultimately have "gpt_layout g'"
    using gpt_create_layout [OF created.hyps(3)] created.prems(1) disk_room by (simp add: device_fits_def)
  then show ?case
    using gpt_create_cases(3) [OF created.hyps(3)] created.prems(1) by (simp add: device_holds_def device_fits_def)
next
  case (added k g spec sectors type_spec tg k' name g' i)
  note f = found_layout [OF added.hyps(1) added.prems(1)]
  have "gpt_layout g' \<and> (\<exists>es. g' = g\<lparr>entries := es\<rparr>)"
    using f added.prems(2) resolve_type_wf [OF added.hyps(3)]
    by (intro gpt_add_layout [OF _ added.hyps(4)]) (simp_all add: sane_input_def guid_random_wf)
  with f show ?case by (auto simp: device_holds_entries)
next
  case (deleted k g i g')
  note f = found_layout [OF deleted.hyps(1) deleted.prems(1)]
  with gpt_remove_layout [OF _ deleted.hyps(2)] show ?case by (auto simp: device_holds_entries)
qed

section \<open>Properties\<close>

text \<open>C5. A command writes to a disk only when it was confirmed, the path is a whole disk, nothing of it is
  mounted, and what is there is a GPT, or the command creates a table and the disk is blank or replacing
  what is there was forced.\<close>

theorem writes_guarded:
  assumes "run_command crc E path yes force cmd s = (r, t)" "disk_bytes t \<noteq> disk_bytes s"
  shows "yes \<and> ensure_whole_disk E path (kernel s) = Inr () \<and> ensure_not_mounted E path (kernel s) = Inr ()
    \<and> (\<exists>dev k st. device_open E path True s = (Inr dev, s)
        \<and> fst (probe crc E dev \<lparr>disk_bytes = disk_bytes s, kernel = k\<rparr>) = Inr st
        \<and> ((\<exists>g. st = GptFound g) \<or> cmd = CreateTable \<and> (st = BlankFound \<or> force)))"
proof -
  obtain dev g' where o: "open_rw E path yes s = (Inr dev, s)" and n: "new_table crc E dev (disk_bytes s) force cmd g'"
    using run_command_stages [OF assms(1)] assms(2) by (auto simp: refused_def)
  have "\<exists>k st. fst (probe crc E dev \<lparr>disk_bytes = disk_bytes s, kernel = k\<rparr>) = Inr st
      \<and> ((\<exists>g. st = GptFound g) \<or> cmd = CreateTable \<and> (st = BlankFound \<or> force))"
    using n
  proof (induction rule: new_table.induct)
    case (created k st k' g')
    then show ?case by (cases "(st, force)" rule: permit_destructive.cases) (auto split: if_splits)
  qed blast+
  with open_rw_guards [OF o] show ?thesis by blast
qed

text \<open>C6. Whatever fails, and wherever it fails, changing a table never changes a byte that belongs to a
  partition: with \<open>add\<close> and \<open>del\<close> the usable range of the table that was found is untouched,
  even when a write stops half way.\<close>

theorem edits_spare_partitions:
  assumes "run_command crc E path yes force cmd s = (r, t)" "cmd \<noteq> CreateTable" "sane_input E cmd"
    and "device_open E path True s = (Inr dev, s)" "device_fits dev (disk_bytes s)"
  shows "disk_bytes t = disk_bytes s \<or> length (disk_bytes t) = length (disk_bytes s)
    \<and> (\<exists>g k. fst (probe crc E dev \<lparr>disk_bytes = disk_bytes s, kernel = k\<rparr>) = Inr (GptFound g)
        \<and> (\<forall>i. i div dv_sector_size dev \<in> {unat (first_usable_lba g)..unat (last_usable_lba g)}
             \<longrightarrow> disk_bytes t ! i = disk_bytes s ! i))"
proof (cases "refused s t r")
  case False
  then obtain dev' g' u where o: "open_rw E path yes s = (Inr dev', s)" and u: "disk_bytes u = disk_bytes s"
    and n: "new_table crc E dev' (disk_bytes s) force cmd g'" and c: "commit crc E dev' g' u = (r, t)"
    using run_command_stages [OF assms(1)] by blast
  have dev: "dev' = dev" using open_rw_guards [OF o] assms(4) by simp
  have l: "gpt_layout g'" "device_holds dev g' (disk_bytes u)"
    using new_table_layout [OF n] assms(3,5) u by (simp_all add: dev)
  have "\<exists>g k es. fst (probe crc E dev \<lparr>disk_bytes = disk_bytes s, kernel = k\<rparr>) = Inr (GptFound g) \<and> g' = g\<lparr>entries := es\<rparr>"
    using n assms(2,3) unfolding dev
  proof (induction rule: new_table.induct)
    case (added k g spec sectors type_spec tg k' name g' i)
    then show ?case by (auto elim!: gpt_add_cases)
  next
    case (deleted k g i g')
    then show ?case by (auto simp: gpt_remove_def Let_def split: if_splits)
  qed simp
  then show ?thesis using commit_spares_ok [OF l c [unfolded dev]] u l(2) by (fastforce simp: device_holds_def)
qed (simp add: refused_def)

lemma new_table_sound:
  assumes "new_table crc E dev d force cmd g'" "device_fits dev d" "sane_input E cmd"
    and "cmd = CreateTable \<or> (\<forall>g k. fst (probe crc E dev \<lparr>disk_bytes = d, kernel = k\<rparr>) = Inr (GptFound g) \<longrightarrow> problems g = [])"
  shows "problems g' = []"
  using assms
proof (induction rule: new_table.induct)
  case (created k st k' g')
  then have "guid_wf (guid_random (fst (pe_random E k')))" by (simp add: sane_input_def guid_random_wf)
  then show ?case
    using gpt_create_layout [OF created.hyps(3)] created.prems(1) gpt_create_cases(1) [OF created.hyps(3)] disk_room
    by (simp add: device_fits_def problems_Nil)
next
  case (added k g spec sectors type_spec tg k' name g' i)
  then have "gpt_layout g" "healthy g" using found_layout by (blast, auto simp flip: problems_Nil)
  from gpt_add_keeps [OF this added.hyps(4)] show ?case by (simp add: problems_Nil)
next
  case (deleted k g i g')
  then have "healthy g" by (auto simp flip: problems_Nil)
  from gpt_remove_keeps [OF this deleted.hyps(2)] show ?case unfolding problems_Nil by (rule conjunct1)
qed

text \<open>C2. A command that succeeds has taken effect: probing the disk afterwards finds exactly the table the
  command computed, whatever table was there before. Its structure is sound when it was created, and also when
  it was edited unless the table found before had problems itself.\<close>

theorem command_takes_effect:
  assumes "run_command crc E path yes force cmd s = (Inr (), t)" "sane_input E cmd"
    and "device_open E path True s = (Inr dev, s)" "device_fits dev (disk_bytes s)" "reads_work F"
  shows "\<exists>g'. new_table crc E dev (disk_bytes s) force cmd g' \<and> fst (probe crc F dev t) = Inr (GptFound g')
    \<and> ((cmd = CreateTable \<or> (\<forall>g k. fst (probe crc E dev \<lparr>disk_bytes = disk_bytes s, kernel = k\<rparr>) = Inr (GptFound g)
         \<longrightarrow> problems g = [])) \<longrightarrow> problems g' = [])"
proof -
  obtain dev' g' u where o: "open_rw E path yes s = (Inr dev', s)" and u: "disk_bytes u = disk_bytes s"
    and n: "new_table crc E dev' (disk_bytes s) force cmd g'" and c: "commit crc E dev' g' u = (Inr (), t)"
    using run_command_stages [OF assms(1)] by (auto simp: refused_def)
  have dev: "dev' = dev" using open_rw_guards [OF o] assms(3) by simp
  have l: "gpt_layout g'" "device_holds dev g' (disk_bytes u)"
    using new_table_layout [OF n] assms(2,4) u by (simp_all add: dev)
  show ?thesis
    using n commit_probe_ok [OF l c [unfolded dev] assms(5)] new_table_sound [OF n [unfolded dev] assms(4,2)]
    unfolding dev by blast
qed

section \<open>A disk image\<close>

text \<open>An image file of zeroes on a system where every call succeeds.\<close>

definition image_env :: "nat \<Rightarrow> unit part_env" where
  "image_env n =
     \<lparr>pe_open = (\<lambda>_ _ _. None), pe_open_exclusive = (\<lambda>_ _. None), pe_metadata = (\<lambda>_ _. Inr (True, n * 512)),
      pe_blksszget = (\<lambda>_ _. None), pe_is_dir = (\<lambda>_ _. False), pe_exists = (\<lambda>_ _. False), pe_text = (\<lambda>_ _. None),
      pe_names = (\<lambda>_ _. None), pe_canonical = (\<lambda>_ _. None), pe_read_fault = (\<lambda>_ _ k. (None, k)),
      pe_write_fault = (\<lambda>_ _ k. (None, k)), pe_sync = (\<lambda>k. (None, k)), pe_reread = (\<lambda>k. (None, k)),
      pe_sleep = (\<lambda>_ k. k), pe_blkid = (\<lambda>_ _. None), pe_random = (\<lambda>k. (replicate 16 7, k))\<rparr>"

abbreviation image_path :: bytes where "image_path \<equiv> ascii ''disk.img''"

abbreviation image_device :: device where
  "image_device \<equiv> \<lparr>dv_path = image_path, dv_geom = \<lparr>gm_sector_size = 512, gm_sectors = 4096\<rparr>, dv_is_block = False\<rparr>"

abbreviation blank_image :: "unit part_state" where
  "blank_image \<equiv> \<lparr>disk_bytes = replicate 2097152 0, kernel = ()\<rparr>"

lemma image_calls [simp]:
  "pe_open (image_env n) p w k = None" "pe_metadata (image_env n) p k = Inr (True, n * 512)"
  "pe_is_dir (image_env n) p k = False" "pe_exists (image_env n) p k = False" "pe_text (image_env n) p k = None"
  "pe_canonical (image_env n) p k = None" "pe_read_fault (image_env n) off len k = (None, k)"
  "pe_write_fault (image_env n) off d k = (None, k)" "pe_sync (image_env n) k = (None, k)"
  "pe_blkid (image_env n) p k = None" "pe_random (image_env n) k = (replicate 16 7, k)"
  by (simp_all add: image_env_def)

lemma image_opens: "device_open (image_env 4096) image_path w s = (Inr image_device, s)"
  by (simp add: device_open_def op_bind_def op_return_def part_ask_def part_result_def sysfs_name_def
      path_file_name_def ascii_def regular_file_len_def FILE_SECTOR_SIZE_def)

lemma image_guards: "open_rw (image_env 4096) image_path True s = (Inr image_device, s)"
proof -
  have "ensure_whole_disk (image_env n) p k = Inr ()" "ensure_not_mounted (image_env n) p k = Inr ()" for n p k
    by (simp_all add: ensure_whole_disk_def ensure_not_mounted_def split: option.split)
  then show ?thesis by (simp add: open_rw_def op_bind_def part_ask_def part_result_def op_return_def image_opens)
qed

lemma subslice_replicate: "b \<le> n \<Longrightarrow> subslice a b (replicate n x) = replicate (b - a) x"
  by (simp add: subslice_def min_def)

lemma blank_probe: "probe crc (image_env 4096) image_device blank_image = (Inr BlankFound, blank_image)"
proof -
  have r: "read_sectors (image_env 4096) image_device lba 1 blank_image = (Inr (replicate 512 0), blank_image)" if "lba \<in> {0, 1}" for lba
    using that by (auto simp: read_sectors_def byte_offset_def subslice_replicate)
  have "header_parse crc (replicate 512 0) = Inl NoGpt"
  proof -
    have "replicate 8 0 \<noteq> SIGNATURE" by code_simp
    then show ?thesis by (simp add: header_parse_def subslice_replicate HEADER_SIZE_def)
  qed
  moreover have "\<not> is_protective (replicate 512 0)" "\<not> is_real_mbr (replicate 512 0)"
    by (simp_all add: is_protective_def is_real_mbr_def)
  ultimately show ?thesis
    by (simp add: probe_def Let_def op_bind_def r probe_others_def part_ask_def op_return_def)
qed

lemma image_created: "\<exists>g. gpt_create (guid_random (fst (pe_random (image_env 4096) k))) 4096 512 = Inr g"
proof -
  have "\<not> 4096 < minimum_sectors 512"
    by (simp add: minimum_sectors_def entry_array_sectors_def array_sectors_for_def div_ceil_def
        align_sectors_def ALIGN_BYTES_def NUM_ENTRIES_def ENTRY_SIZE_def)
  moreover have "plausible_sector_size 512" by (rule sample_plausible)
  ultimately show ?thesis by (simp add: gpt_create_def Let_def)
qed

lemma image_commit:
  assumes "gpt_layout g"
  shows "\<exists>t. commit crc (image_env n) image_device g s = (Inr (), t)"
proof -
  obtain ws where "gpt_writes crc g = Some ws" using gpt_writes_layout [OF assms, of crc] by metis
  moreover have "\<exists>t. write_all_at (image_env n) dev ws s = (Inr (), t)" for dev ws and s :: "unit part_state"
    by (induction ws arbitrary: s) (auto simp: op_return_def op_bind_def write_at_def)
  then obtain t where "write_all_at (image_env n) image_device ws s = (Inr (), t)" by blast
  ultimately show ?thesis by (simp add: commit_def op_bind_def device_sync_def reread_partition_table_def)
qed

lemma image_input: "sane_input (image_env n) CreateTable" "reads_work (image_env n)" "device_fits image_device (disk_bytes blank_image)"
  by (simp_all add: sane_input_def reads_work_def device_fits_def)

lemma image_table:
  "\<exists>t. run_command crc (image_env 4096) image_path True force CreateTable blank_image = (Inr (), t)
    \<and> disk_bytes t \<noteq> disk_bytes blank_image \<and> length (disk_bytes t) = 2097152"
proof -
  obtain g where g: "gpt_create (guid_random (fst (pe_random (image_env 4096) ()))) 4096 512 = Inr g"
    using image_created by blast
  have n: "new_table crc (image_env 4096) image_device (disk_bytes blank_image) force CreateTable g"
    using blank_probe g by (intro created [where st = BlankFound]) auto
  have l: "gpt_layout g" "device_holds image_device g (disk_bytes blank_image)"
    using new_table_layout [OF n image_input(3,1)] by simp_all
  obtain t where t: "commit crc (image_env 4096) image_device g blank_image = (Inr (), t)"
    using image_commit [OF l(1)] by blast
  from g have "with_random (image_env 4096) (\<lambda>fresh. gpt_create fresh 4096 512) blank_image = (Inr g, blank_image)"
    by (simp add: with_random_def)
  then have run: "run_command crc (image_env 4096) image_path True force CreateTable blank_image = (Inr (), t)"
    by (simp add: cmd_create_def op_bind_def image_guards blank_probe part_result_def op_return_def t)
  have "fst (probe crc (image_env 4096) image_device t) = Inr (GptFound g)"
    using commit_probe_ok [OF l t image_input(2)] by simp
  then have "t \<noteq> blank_image" using blank_probe by auto
  then have "disk_bytes t \<noteq> disk_bytes blank_image" by (cases t) simp
  moreover have "length (disk_bytes t) = 2097152" using commit_spares_ok [OF l t] by simp
  ultimately show ?thesis using run by blast
qed

theorem writes_guarded_witness:
  "\<exists>dev k st. device_open (image_env 4096) image_path True blank_image = (Inr dev, blank_image)
    \<and> fst (probe (\<lambda>_. 0) (image_env 4096) dev \<lparr>disk_bytes = replicate 2097152 0, kernel = k\<rparr>) = Inr st
    \<and> ((\<exists>g. st = GptFound g) \<or> CreateTable = CreateTable \<and> (st = BlankFound \<or> False))"
proof -
  obtain t where t: "run_command (\<lambda>_. 0) (image_env 4096) image_path True False CreateTable blank_image = (Inr (), t)"
    "disk_bytes t \<noteq> disk_bytes blank_image"
    using image_table by metis
  show ?thesis using writes_guarded [OF t] by simp
qed

theorem edits_spare_partitions_witness:
  "\<exists>s r t. length (disk_bytes s) = 2097152
    \<and> run_command (\<lambda>_. 0) (image_env 4096) image_path True False (AddPartition (lit ''max'') (lit ''linux'') (lit ''root'')) s = (r, t)
    \<and> (disk_bytes t = disk_bytes s \<or> length (disk_bytes t) = length (disk_bytes s)
      \<and> (\<exists>g k. fst (probe (\<lambda>_. 0) (image_env 4096) image_device \<lparr>disk_bytes = disk_bytes s, kernel = k\<rparr>) = Inr (GptFound g)
        \<and> (\<forall>i. i div 512 \<in> {unat (first_usable_lba g)..unat (last_usable_lba g)} \<longrightarrow> disk_bytes t ! i = disk_bytes s ! i)))"
proof -
  obtain s :: "unit part_state" where s: "length (disk_bytes s) = 2097152"
    using image_table [of "\<lambda>_. 0" False] by blast
  let ?cmd = "AddPartition (lit ''max'') (lit ''linux'') (lit ''root'')"
  obtain r t where t: "run_command (\<lambda>_. 0) (image_env 4096) image_path True False ?cmd s = (r, t)"
    by (cases "run_command (\<lambda>_. 0) (image_env 4096) image_path True False ?cmd s")
  have "sane_input (image_env 4096) ?cmd" by (simp add: sane_input_def is_scalar_def lit_def)
  from edits_spare_partitions [OF t _ this image_opens] s t show ?thesis by (auto simp: device_fits_def)
qed

theorem command_takes_effect_witness:
  "\<exists>t g'. new_table (\<lambda>_. 0) (image_env 4096) image_device (replicate 2097152 0) False CreateTable g'
    \<and> fst (probe (\<lambda>_. 0) (image_env 4096) image_device t) = Inr (GptFound g') \<and> problems g' = []"
proof -
  obtain t where t: "run_command (\<lambda>_. 0) (image_env 4096) image_path True False CreateTable blank_image = (Inr (), t)"
    using image_table by metis
  show ?thesis
    using command_takes_effect [OF t image_input(1) image_opens image_input(3) image_input(2) [of 4096]] by auto
qed

end
