(* ===== verification/Mkirf_Cpio.thy ===== *)
theory Mkirf_Cpio
  imports RustStd
begin

text \<open>
  \<open>src/uu/mkirf/src/cpio.rs\<close>: the newc archive writer. The writer is the list of the bytes
  written so far; a call appends to it, and what an aborted call has written stays. The
  contents of the source files are a parameter: \<open>open_copy p\<close> is what opening and streaming
  \<open>p\<close> gives. \<open>newc_parse\<close> is the independent reader of the module's tests.
\<close>

section \<open>Entries\<close>

type_synonym path = bytes

datatype body =
    Directory
  | File path u64 bool
  | Inline bytes bool
  | Symlink bytes
  | Device bool u64 u64
  | Fifo

record cpio_entry =
  ce_name :: bytes
  ce_body :: body

text \<open>
  Opening a source may fail; copying it may fail after some bytes have reached the writer.
\<close>

datatype 'k source =
    Open_error 'k
  | Copy_error bytes 'k
  | Content bytes

datatype 'k cpio_error =
    Field_too_wide u64
  | Cannot_open path 'k
  | Cannot_copy 'k
  | File_changed path u64 u64

type_synonym ('k, 'a) cpio_op = "(bytes, 'k cpio_error, 'a) op"

definition CPIO_MAGIC :: bytes where "CPIO_MAGIC = ascii ''070701''"
definition TRAILER_NAME :: bytes where "TRAILER_NAME = ascii ''TRAILER!!!''"

definition S_IFDIR :: u32 where "S_IFDIR = 0x4000"
definition S_IFREG :: u32 where "S_IFREG = 0x8000"
definition S_IFLNK :: u32 where "S_IFLNK = 0xA000"
definition S_IFCHR :: u32 where "S_IFCHR = 0x2000"
definition S_IFBLK :: u32 where "S_IFBLK = 0x6000"
definition S_IFIFO :: u32 where "S_IFIFO = 0x1000"

text \<open>The permission constants: \<open>0o755\<close> is 493, \<open>0o777\<close> is 511, \<open>0o644\<close> is 420.\<close>

fun body_mode :: "body \<Rightarrow> u32" where
  "body_mode Directory = S_IFDIR OR 493"
| "body_mode (Symlink _) = S_IFLNK OR 511"
| "body_mode Fifo = S_IFIFO OR 420"
| "body_mode (Device block _ _) = (if block then S_IFBLK else S_IFCHR) OR 420"
| "body_mode (File _ _ executable) = S_IFREG OR (if executable then 493 else 420)"
| "body_mode (Inline _ executable) = S_IFREG OR (if executable then 493 else 420)"

section \<open>Writing\<close>

definition write_all :: "bytes \<Rightarrow> ('k, unit) cpio_op" where
  "write_all bs w = (Inr (), w @ bs)"

text \<open>A field: eight lower-case hexadecimal digits, at most 32 bits.\<close>

definition field :: "bytes \<Rightarrow> u64 \<Rightarrow> 'k cpio_error + bytes" where
  "field buf v = (if 0xFFFFFFFF < v then Inl (Field_too_wide v)
     else Inr (buf @ map of_nat (fmt_hex False 8 (unat v))))"

fun push_fields :: "bytes \<Rightarrow> u64 list \<Rightarrow> 'k cpio_error + bytes" where
  "push_fields buf [] = Inr buf"
| "push_fields buf (v # vs) = result_bind (field buf v) (\<lambda>b. push_fields b vs)"

definition pad4 :: "u64 \<Rightarrow> u64" where
  "pad4 written = (4 - written mod 4) mod 4"

definition write_pad :: "u64 \<Rightarrow> ('k, unit) cpio_op" where
  "write_pad written = write_all (replicate (unat (pad4 written)) 0)"

text \<open>Lifting a result that does not touch the writer.\<close>

definition op_of :: "'e + 'a \<Rightarrow> ('s, 'e, 'a) op" where
  "op_of r s = (r, s)"

definition write_header :: "bytes \<Rightarrow> u32 \<Rightarrow> u64 \<Rightarrow> u64 \<Rightarrow> u64 \<Rightarrow> ('k, unit) cpio_op" where
  "write_header name mode filesize rdevmajor rdevminor =
     (let namesize = of_nat (length name) + 1 in
      op_bind (op_of (push_fields CPIO_MAGIC
        [0, ucast mode, 0, 0, 1, 0, filesize, 0, 0, rdevmajor, rdevminor, namesize, 0])) (\<lambda>hdr.
      op_bind (write_all hdr) (\<lambda>_.
      op_bind (write_all name) (\<lambda>_.
      op_bind (write_all [0]) (\<lambda>_.
      write_pad (110 + namesize))))))"

text \<open>The sizes and device numbers of an entry's header.\<close>

fun header_sizes :: "body \<Rightarrow> u64 \<times> u64 \<times> u64" where
  "header_sizes Directory = (0, 0, 0)"
| "header_sizes Fifo = (0, 0, 0)"
| "header_sizes (Device _ major minor) = (0, major, minor)"
| "header_sizes (Symlink target) = (of_nat (length target), 0, 0)"
| "header_sizes (File _ sz _) = (sz, 0, 0)"
| "header_sizes (Inline data _) = (of_nat (length data), 0, 0)"

text \<open>\<open>File::open\<close>, \<open>io::copy\<close> into the writer, and the check of the number of bytes copied.\<close>

definition copy_source :: "(path \<Rightarrow> 'k source) \<Rightarrow> path \<Rightarrow> u64 \<Rightarrow> ('k, unit) cpio_op" where
  "copy_source open_copy source sz =
     (case open_copy source of
        Open_error k \<Rightarrow> op_fail (Cannot_open source k)
      | Copy_error bs k \<Rightarrow> op_bind (write_all bs) (\<lambda>_. op_fail (Cannot_copy k))
      | Content bs \<Rightarrow> op_bind (write_all bs) (\<lambda>_.
          let copied = of_nat (length bs) in
          if copied \<noteq> sz then op_fail (File_changed source sz copied) else op_return ()))"

definition write_entry :: "(path \<Rightarrow> 'k source) \<Rightarrow> cpio_entry \<Rightarrow> ('k, unit) cpio_op" where
  "write_entry open_copy entry =
     (let mode = body_mode (ce_body entry);
          (filesize, rdevmajor, rdevminor) = header_sizes (ce_body entry)
      in op_bind (write_header (ce_name entry) mode filesize rdevmajor rdevminor) (\<lambda>_.
         case ce_body entry of
           Symlink target \<Rightarrow>
             op_bind (write_all target) (\<lambda>_. write_pad (of_nat (length target)))
         | File source sz _ \<Rightarrow>
             op_bind (copy_source open_copy source sz) (\<lambda>_. write_pad sz)
         | Inline data _ \<Rightarrow>
             op_bind (write_all data) (\<lambda>_. write_pad (of_nat (length data)))
         | _ \<Rightarrow> op_return ()))"

fun write_entries :: "(path \<Rightarrow> 'k source) \<Rightarrow> cpio_entry list \<Rightarrow> ('k, unit) cpio_op" where
  "write_entries open_copy [] = op_return ()"
| "write_entries open_copy (e # es) =
     op_bind (write_entry open_copy e) (\<lambda>_. write_entries open_copy es)"

definition write_archive :: "(path \<Rightarrow> 'k source) \<Rightarrow> cpio_entry list \<Rightarrow> ('k, unit) cpio_op" where
  "write_archive open_copy entries =
     op_bind (write_entries open_copy entries) (\<lambda>_. write_header TRAILER_NAME 0 0 0 0)"

section \<open>The early region\<close>

definition EARLY_ALIGN :: u64 where "EARLY_ALIGN = 16"

definition write_aligned_header ::
  "bytes \<Rightarrow> u32 \<Rightarrow> u64 \<Rightarrow> u64 \<Rightarrow> u64 \<Rightarrow> u64 \<Rightarrow> bool \<Rightarrow> ('k, u64) cpio_op" where
  "write_aligned_header name mode filesize rdevmajor rdevminor off align16 =
     (let namesize_min = of_nat (length name) + 1;
          namesize = (if align16 then
              let base = off + 110 + namesize_min in
              namesize_min + (EARLY_ALIGN - base mod EARLY_ALIGN) mod EARLY_ALIGN
            else namesize_min)
      in
      op_bind (op_of (push_fields CPIO_MAGIC
        [0, ucast mode, 0, 0, 1, 0, filesize, 0, 0, rdevmajor, rdevminor, namesize, 0])) (\<lambda>hdr.
      op_bind (write_all hdr) (\<lambda>_.
      op_bind (write_all name) (\<lambda>_.
      op_bind (write_all (replicate (unat (namesize - of_nat (length name))) 0)) (\<lambda>_.
      let consumed = 110 + namesize in
      op_bind (write_pad consumed) (\<lambda>_.
      op_return (off + consumed + pad4 consumed)))))))"

fun is_payload :: "body \<Rightarrow> bool" where
  "is_payload (File _ _ _) = True"
| "is_payload (Inline _ _) = True"
| "is_payload _ = False"

definition write_early_entry :: "(path \<Rightarrow> 'k source) \<Rightarrow> cpio_entry \<Rightarrow> u64 \<Rightarrow> ('k, u64) cpio_op" where
  "write_early_entry open_copy entry off =
     (let mode = body_mode (ce_body entry);
          (filesize, rdevmajor, rdevminor) = header_sizes (ce_body entry)
      in op_bind (write_aligned_header (ce_name entry) mode filesize rdevmajor rdevminor off
                    (is_payload (ce_body entry))) (\<lambda>off.
         case ce_body entry of
           Symlink target \<Rightarrow>
             op_bind (write_all target) (\<lambda>_.
             op_bind (write_pad (of_nat (length target))) (\<lambda>_.
             op_return (off + of_nat (length target) + pad4 (of_nat (length target)))))
         | File source sz _ \<Rightarrow>
             op_bind (copy_source open_copy source sz) (\<lambda>_.
             op_bind (write_pad sz) (\<lambda>_.
             op_return (off + sz + pad4 sz)))
         | Inline data _ \<Rightarrow>
             op_bind (write_all data) (\<lambda>_.
             op_bind (write_pad (of_nat (length data))) (\<lambda>_.
             op_return (off + of_nat (length data) + pad4 (of_nat (length data)))))
         | _ \<Rightarrow> op_return off))"

fun write_early_entries ::
  "(path \<Rightarrow> 'k source) \<Rightarrow> cpio_entry list \<Rightarrow> u64 \<Rightarrow> ('k, u64) cpio_op" where
  "write_early_entries open_copy [] off = op_return off"
| "write_early_entries open_copy (e # es) off =
     op_bind (write_early_entry open_copy e off) (write_early_entries open_copy es)"

definition write_early_archive :: "(path \<Rightarrow> 'k source) \<Rightarrow> cpio_entry list \<Rightarrow> ('k, unit) cpio_op" where
  "write_early_archive open_copy entries =
     op_bind (write_early_entries open_copy entries 0) (\<lambda>_. write_header TRAILER_NAME 0 0 0 0)"

section \<open>The independent reader\<close>

record newc_member =
  nm_name :: bytes
  nm_mode :: nat
  nm_nlink :: nat
  nm_rdevmajor :: nat
  nm_rdevminor :: nat
  nm_zero :: "nat list"
  nm_data :: bytes

definition newc_field :: "bytes \<Rightarrow> nat \<Rightarrow> nat option" where
  "newc_field hdr i =
     parse_uint 16 (2 ^ 64 - 1) (map unat (subslice (6 + i * 8) (6 + i * 8 + 8) hdr))"

definition pad_to4 :: "nat \<Rightarrow> nat" where
  "pad_to4 n = (4 - n mod 4) mod 4"

text \<open>
  One round of the reader's loop at the start of \<open>buf\<close>: the member, where its data starts and
  what follows it.
  \<open>None\<close> is a panic: a bad magic, a field that is no number, a range beyond the end.
\<close>

definition newc_member_at :: "bytes \<Rightarrow> (newc_member \<times> nat \<times> bytes) option" where
  "newc_member_at buf =
     (if length buf < 110 \<or> take 6 buf \<noteq> CPIO_MAGIC then None else
      do {
        let hdr = take 110 buf;
        ino \<leftarrow> newc_field hdr 0;
        mode \<leftarrow> newc_field hdr 1;
        uid \<leftarrow> newc_field hdr 2;
        gid \<leftarrow> newc_field hdr 3;
        nlink \<leftarrow> newc_field hdr 4;
        mtime \<leftarrow> newc_field hdr 5;
        filesize \<leftarrow> newc_field hdr 6;
        rdevmajor \<leftarrow> newc_field hdr 9;
        rdevminor \<leftarrow> newc_field hdr 10;
        namesize \<leftarrow> newc_field hdr 11;
        let start = 110 + namesize + pad_to4 (110 + namesize);
        if namesize = 0 \<or> length buf < start \<or> length buf < start + filesize then None
        else Some (\<lparr>nm_name = subslice 110 (110 + namesize - 1) buf, nm_mode = mode,
          nm_nlink = nlink, nm_rdevmajor = rdevmajor, nm_rdevminor = rdevminor,
          nm_zero = [ino, uid, gid, mtime],
          nm_data = subslice start (start + filesize) buf\<rparr>,
          start, drop (start + filesize + pad_to4 filesize) buf)
      })"

lemma newc_member_at_shorter:
  "newc_member_at buf = Some (m, start, rest) \<Longrightarrow> length rest < length buf"
  by (auto simp: newc_member_at_def Let_def bind_eq_Some_conv split: if_splits)

function newc_parse :: "bytes \<Rightarrow> newc_member list option" where
  "newc_parse buf =
     (case newc_member_at buf of
        None \<Rightarrow> None
      | Some (m, _, rest) \<Rightarrow>
          if nm_name m = TRAILER_NAME then Some []
          else map_option ((#) m) (newc_parse rest))"
  by pat_completeness auto
termination
  by (relation "measure length") (auto dest: newc_member_at_shorter)

declare newc_parse.simps [simp del]

section \<open>The layout of a member\<close>

definition hexf :: "u64 \<Rightarrow> bytes" where
  "hexf v = map of_nat (fmt_hex False 8 (unat v))"

definition newc_fits :: "u64 \<Rightarrow> bool" where
  "newc_fits v \<longleftrightarrow> unat v < 2 ^ 32"

lemma field_eq: "field buf v = (if newc_fits v then Inr (buf @ hexf v) else Inl (Field_too_wide v))"
  by (auto simp: field_def newc_fits_def hexf_def word_less_nat_alt)

lemma push_fields_Inr:
  "push_fields buf vs = Inr h \<longleftrightarrow> (\<forall>v \<in> set vs. newc_fits v) \<and> h = buf @ concat (map hexf vs)"
  by (induction vs arbitrary: buf) (auto simp: field_eq)

lemma length_hexf [simp]: "length (hexf v) = 8"
  by (simp add: hexf_def)

lemma fmt_hex_byte: "c \<in> set (fmt_hex u n v) \<Longrightarrow> c mod 256 = c"
  using set_fmt_hex [of c u n v] by auto

lemma newc_field_hexf:
  assumes "length vs = 13" and "\<forall>v \<in> set vs. newc_fits v" and "i < 13"
  shows "newc_field (CPIO_MAGIC @ concat (map hexf vs)) i = Some (unat (vs ! i))"
proof -
  have m: "length CPIO_MAGIC = 6"
    by (simp add: CPIO_MAGIC_def ascii_def)
  have "subslice (i * 8) (i * 8 + 8) (concat (map hexf vs) @ []) = hexf (vs ! i)"
    using subslice_chunks [of "map hexf vs" 8 i "[]"] assms by simp
  then have "subslice (6 + i * 8) (6 + i * 8 + 8) (CPIO_MAGIC @ concat (map hexf vs)) = hexf (vs ! i)"
    by (subst subslice_append_right) (simp_all add: m add.commute)
  moreover have "map unat (hexf (vs ! i)) = fmt_hex False 8 (unat (vs ! i))"
    by (simp add: hexf_def o_def unat_of_nat fmt_hex_byte cong: map_cong)
  moreover have "unat (vs ! i) < 16 ^ 8"
    using assms by (simp add: newc_fits_def)
  ultimately show ?thesis
    using assms by (simp add: newc_field_def parse_uint_fmt_hex)
qed


text \<open>A member as it stands in the archive, its name field \<open>k\<close> NUL bytes wider than the name.\<close>

definition newc_bytes :: "bytes \<Rightarrow> nat \<Rightarrow> u32 \<Rightarrow> u64 \<Rightarrow> u64 \<Rightarrow> bytes \<Rightarrow> bytes" where
  "newc_bytes name k mode major minor data =
     CPIO_MAGIC @ concat (map hexf [0, ucast mode, 0, 0, 1, 0, of_nat (length data), 0, 0,
       major, minor, of_nat (length name + k), 0])
     @ name @ replicate k 0 @ replicate (pad_to4 (110 + (length name + k))) 0
     @ data @ replicate (pad_to4 (length data)) 0"

lemma pad_to4_dvd [simp]: "(n + pad_to4 n) mod 4 = 0"
proof -
  have "n mod 4 \<le> 4"
    by (simp add: less_imp_le)
  then have "(n mod 4 + (4 - n mod 4)) mod 4 = 0"
    by simp
  then show ?thesis
    by (simp only: pad_to4_def mod_add_left_eq mod_add_right_eq)
qed

lemma length_header: "length vs = 13 \<Longrightarrow> length (CPIO_MAGIC @ concat (map hexf vs)) = 110"
  by (simp add: length_concat o_def sum_list_triv CPIO_MAGIC_def ascii_def)

lemma newc_member_at_bytes:
  assumes "0 < k" and "length name + k < 2 ^ 32" and "length data < 2 ^ 32"
    and "newc_fits major" and "newc_fits minor"
  shows "newc_member_at (newc_bytes name k mode major minor data @ rest) =
    Some (\<lparr>nm_name = name @ replicate (k - 1) 0, nm_mode = unat mode, nm_nlink = 1,
        nm_rdevmajor = unat major, nm_rdevminor = unat minor, nm_zero = [0, 0, 0, 0],
        nm_data = data\<rparr>,
      110 + (length name + k) + pad_to4 (110 + (length name + k)), rest)"
proof -
  define vs where "vs = [0, ucast mode, 0, 0, 1, 0, of_nat (length data), 0, 0,
       major, minor, of_nat (length name + k), 0 :: u64]"
  define hdr where "hdr = CPIO_MAGIC @ concat (map hexf vs)"
  define tail where "tail = name @ replicate k 0 @ replicate (pad_to4 (110 + (length name + k))) 0
     @ data @ replicate (pad_to4 (length data)) 0 @ rest"
  have b: "newc_bytes name k mode major minor data @ rest = hdr @ tail"
    by (simp add: newc_bytes_def hdr_def tail_def vs_def)
  have l: "length hdr = 110"
    unfolding hdr_def by (rule length_header) (simp add: vs_def)
  have m: "take 6 (hdr @ tail) = CPIO_MAGIC"
    by (simp add: hdr_def CPIO_MAGIC_def ascii_def)
  have sm: "unat (ucast mode :: u64) = unat mode" "unat mode < 2 ^ 32"
    using unsigned_less [of mode, where ?'a = nat] by (simp_all add: unsigned_ucast_eq take_bit_nat_eq_self)
  have sd: "unat (of_nat (length data) :: u64) = length data"
    and sn: "unat (of_nat (length name + k) :: u64) = length name + k"
    using assms by (simp_all only: unat_of_nat) simp_all
  have fits: "\<forall>v \<in> set vs. newc_fits v"
    using assms sm sd sn by (simp add: vs_def newc_fits_def)
  have f: "newc_field hdr i = Some (unat (vs ! i))" if "i < 13" for i
    unfolding hdr_def by (rule newc_field_hexf) (use fits that in \<open>simp_all add: vs_def\<close>)
  have f': "newc_field hdr 0 = Some 0" "newc_field hdr 1 = Some (unat mode)"
    "newc_field hdr 2 = Some 0" "newc_field hdr 3 = Some 0" "newc_field hdr 4 = Some 1"
    "newc_field hdr 5 = Some 0" "newc_field hdr 6 = Some (length data)"
    "newc_field hdr 9 = Some (unat major)" "newc_field hdr 10 = Some (unat minor)"
    "newc_field hdr 11 = Some (length name + k)"
    by (simp_all add: f vs_def sm sd sn del: of_nat_add)
  have name: "subslice 110 (110 + (length name + k) - 1) (hdr @ tail) = name @ replicate (k - 1) 0"
    using assms(1) by (simp add: subslice_def l tail_def)
  show ?thesis
    unfolding newc_member_at_def b using assms m name
    by (simp add: l f' f' (2) [unfolded One_nat_def] Let_def subslice_def tail_def)
qed

section \<open>What the writer has written\<close>

declare push_fields.simps [simp del]

lemma unat_pad4 [simp]: "unat (pad4 v) = pad_to4 (unat v)"
proof -
  have "v mod 4 \<le> 4"
    by (simp add: word_le_nat_alt unat_mod less_imp_le)
  then show ?thesis
    by (simp add: pad4_def pad_to4_def unat_mod unat_sub word_le_nat_alt)
qed

lemma write_all_simps [simp]: "write_all bs w = (Inr (), w @ bs)"
  "write_pad v w = (Inr (), w @ replicate (pad_to4 (unat v)) 0)"
  by (simp_all add: write_all_def write_pad_def)

lemma op_of_simp [simp]: "op_of r s = (r, s)"
  by (simp add: op_of_def)

lemma newc_fits_const [simp]: "newc_fits 0" "newc_fits 1" "newc_fits (ucast (m :: u32))"
  using unsigned_less [of m, where ?'a = nat]
  by (simp_all add: newc_fits_def unsigned_ucast_eq take_bit_nat_eq_self)

lemma unat_of_nat_mem: "n < 2 ^ 63 + 1000 \<Longrightarrow> unat (of_nat n :: u64) = n"
  by (simp add: unat_of_nat)

definition newc_header :: "bytes \<Rightarrow> nat \<Rightarrow> u32 \<Rightarrow> u64 \<Rightarrow> u64 \<Rightarrow> u64 \<Rightarrow> bytes" where
  "newc_header name k mode filesize major minor =
     CPIO_MAGIC @ concat (map hexf [0, ucast mode, 0, 0, 1, 0, filesize, 0, 0,
       major, minor, of_nat (length name + k), 0])
     @ name @ replicate k 0 @ replicate (pad_to4 (110 + (length name + k))) 0"

lemma newc_bytes_header:
  "newc_bytes name k mode major minor data =
     newc_header name k mode (of_nat (length data)) major minor
       @ data @ replicate (pad_to4 (length data)) 0"
  by (simp add: newc_bytes_def newc_header_def)

lemma write_header_Inr:
  assumes "length name < 2 ^ 63"
  shows "(write_header name mode filesize major minor :: ('k, unit) cpio_op) w = (Inr (), w') \<longleftrightarrow>
    length name + 1 < 2 ^ 32 \<and> newc_fits filesize \<and> newc_fits major \<and> newc_fits minor \<and>
    w' = w @ newc_header name 1 mode filesize major minor"
proof -
  have n: "unat (of_nat (length name) + 1 :: u64) = length name + 1"
    using unat_of_nat_mem [of "length name + 1"] assms by (simp add: add.commute)
  then have f: "newc_fits (of_nat (length name) + 1) \<longleftrightarrow> length name + 1 < 2 ^ 32"
    by (simp add: newc_fits_def)
  have p: "length name + 1 < 2 ^ 32 \<Longrightarrow> unat (111 + of_nat (length name) :: u64) = 111 + length name"
    using unat_of_nat_mem [of "111 + length name"] by simp
  have e: "(write_header name mode filesize major minor :: ('k, unit) cpio_op) w = (Inr (), w') \<longleftrightarrow>
      (\<exists>h. push_fields CPIO_MAGIC [0, ucast mode, 0, 0, 1, 0, filesize, 0, 0, major, minor,
           of_nat (length name) + 1, 0] = (Inr h :: 'k cpio_error + bytes) \<and>
         w' = w @ h @ name @ [0] @ replicate (pad_to4 (unat (111 + of_nat (length name) :: u64))) 0)"
    by (auto simp: write_header_def Let_def op_bind_def split: sum.splits)
  show ?thesis
    unfolding e push_fields_Inr using f p by (auto simp: newc_header_def add.commute)
qed


section \<open>Entries written whole\<close>

text \<open>What stands after the header of an entry, when its source can be read.\<close>

fun body_data :: "(path \<Rightarrow> 'k source) \<Rightarrow> body \<Rightarrow> bytes" where
  "body_data open_copy (Symlink target) = target"
| "body_data open_copy (Inline data _) = data"
| "body_data open_copy (File p _ _) = (case open_copy p of Content bs \<Rightarrow> bs | _ \<Rightarrow> [])"
| "body_data open_copy _ = []"

fun body_device :: "body \<Rightarrow> u64 \<times> u64" where
  "body_device (Device _ major minor) = (major, minor)"
| "body_device _ = (0, 0)"

text \<open>Names, targets and files are shorter than \<open>isize::MAX\<close>.\<close>

definition in_memory :: "(path \<Rightarrow> 'k source) \<Rightarrow> cpio_entry \<Rightarrow> bool" where
  "in_memory open_copy e \<longleftrightarrow>
     length (ce_name e) < 2 ^ 63 \<and> length (body_data open_copy (ce_body e)) < 2 ^ 63"

text \<open>The entries newc can hold: 32-bit sizes and device numbers, and files that did not change.\<close>

fun source_stable :: "(path \<Rightarrow> 'k source) \<Rightarrow> body \<Rightarrow> bool" where
  "source_stable open_copy (File p sz _) =
     (case open_copy p of Content bs \<Rightarrow> length bs = unat sz | _ \<Rightarrow> False)"
| "source_stable open_copy _ = True"

definition entry_fits :: "(path \<Rightarrow> 'k source) \<Rightarrow> cpio_entry \<Rightarrow> bool" where
  "entry_fits open_copy e \<longleftrightarrow>
     source_stable open_copy (ce_body e) \<and>
     length (body_data open_copy (ce_body e)) < 2 ^ 32 \<and>
     newc_fits (fst (body_device (ce_body e))) \<and> newc_fits (snd (body_device (ce_body e)))"

definition entry_bytes :: "(path \<Rightarrow> 'k source) \<Rightarrow> nat \<Rightarrow> cpio_entry \<Rightarrow> bytes" where
  "entry_bytes open_copy k e =
     newc_bytes (ce_name e) k (body_mode (ce_body e)) (fst (body_device (ce_body e)))
       (snd (body_device (ce_body e))) (body_data open_copy (ce_body e))"

lemma newc_fits_length: "n < 2 ^ 63 \<Longrightarrow> newc_fits (of_nat n) \<longleftrightarrow> n < 2 ^ 32"
  by (simp add: newc_fits_def unat_of_nat_mem)

lemma copy_source_Inr:
  assumes "length (body_data open_copy (File p sz x)) < 2 ^ 63"
  shows "copy_source open_copy p sz w = (Inr (), w') \<longleftrightarrow>
    source_stable open_copy (File p sz x) \<and> w' = w @ body_data open_copy (File p sz x)"
  using assms
  by (cases "open_copy p")
    (auto simp: copy_source_def Let_def op_bind_def unat_of_nat_mem word_unat_eq_iff)

lemma write_entry_Inr:
  assumes "in_memory open_copy e"
  shows "write_entry open_copy e w = (Inr (), w') \<longleftrightarrow>
    length (ce_name e) + 1 < 2 ^ 32 \<and> entry_fits open_copy e \<and>
    w' = w @ entry_bytes open_copy 1 e"
proof -
  have n: "length (ce_name e) < 2 ^ 63" and d: "length (body_data open_copy (ce_body e)) < 2 ^ 63"
    using assms by (simp_all add: in_memory_def)
  have h: "\<And>m f a b v. write_header (ce_name e) m f a b w = (Inr (), v) \<longleftrightarrow>
    length (ce_name e) + 1 < 2 ^ 32 \<and> newc_fits f \<and> newc_fits a \<and> newc_fits b \<and>
    v = w @ newc_header (ce_name e) 1 m f a b"
    by (rule write_header_Inr [OF n])
  show ?thesis
  proof (cases "ce_body e")
    case (File p sz x)
    have c: "\<And>u v. copy_source open_copy p sz u = (Inr (), v) \<longleftrightarrow>
        source_stable open_copy (File p sz x) \<and> v = u @ body_data open_copy (File p sz x)"
      by (rule copy_source_Inr) (use d File in simp)
    show ?thesis
      using d File by (cases "open_copy p") (auto simp: write_entry_def op_bind_Inr h c
        entry_fits_def entry_bytes_def newc_bytes_header newc_fits_def word_unat_eq_iff unat_of_nat_mem)
  qed (use d in \<open>auto simp: write_entry_def op_bind_Inr h entry_fits_def entry_bytes_def
        newc_bytes_header newc_fits_length unat_of_nat_mem pad_to4_def\<close>)
qed


lemma write_entries_Inr:
  assumes "\<forall>e \<in> set es. in_memory open_copy e"
  shows "write_entries open_copy es w = (Inr (), w') \<longleftrightarrow>
    (\<forall>e \<in> set es. length (ce_name e) + 1 < 2 ^ 32 \<and> entry_fits open_copy e) \<and>
    w' = w @ concat (map (entry_bytes open_copy 1) es)"
  using assms
  by (induction es arbitrary: w) (auto simp: op_bind_Inr write_entry_Inr)

definition trailer_bytes :: bytes where
  "trailer_bytes = newc_bytes TRAILER_NAME 1 0 0 0 []"

lemma write_trailer [simp]: "write_header TRAILER_NAME 0 0 0 0 w = (Inr (), w @ trailer_bytes)"
  by (subst write_header_Inr)
    (simp_all add: TRAILER_NAME_def ascii_def trailer_bytes_def newc_bytes_header pad_to4_def)

lemma write_archive_Inr:
  assumes "\<forall>e \<in> set es. in_memory open_copy e"
  shows "write_archive open_copy es w = (Inr (), w') \<longleftrightarrow>
    (\<forall>e \<in> set es. length (ce_name e) + 1 < 2 ^ 32 \<and> entry_fits open_copy e) \<and>
    w' = w @ concat (map (entry_bytes open_copy 1) es) @ trailer_bytes"
  using assms by (auto simp: write_archive_def op_bind_Inr write_entries_Inr)

section \<open>Reading an archive back, with the offsets of the data\<close>

function newc_walk :: "nat \<Rightarrow> bytes \<Rightarrow> (newc_member \<times> nat) list option" where
  "newc_walk pos buf =
     (case newc_member_at buf of
        None \<Rightarrow> None
      | Some (m, start, rest) \<Rightarrow>
          if nm_name m = TRAILER_NAME then Some []
          else map_option ((#) (m, pos + start)) (newc_walk (pos + (length buf - length rest)) rest))"
  by pat_completeness auto
termination
  by (relation "measure (length \<circ> snd)") (auto dest: newc_member_at_shorter)

declare newc_walk.simps [simp del]

lemma newc_parse_walk: "newc_parse buf = map_option (map fst) (newc_walk pos buf)"
proof (induction buf arbitrary: pos rule: newc_parse.induct)
  case (1 buf)
  note unfold = newc_parse.simps [of buf] newc_walk.simps [of pos buf]
  show ?case
  proof (cases "newc_member_at buf")
    case (Some x)
    obtain m start rest where x: "x = (m, start, rest)"
      by (cases x) auto
    show ?thesis
    proof (cases "nm_name m = TRAILER_NAME")
      case False
      note IH = 1 [OF Some x [symmetric] refl False, of "pos + (length buf - length rest)"]
      show ?thesis
        unfolding unfold by (simp add: Some x False IH option.map_comp o_def)
    qed (simp add: unfold Some x)
  qed (simp add: unfold)
qed

text \<open>The member the reader sees of an entry whose name field is widened to \<open>k\<close> NUL bytes.\<close>

definition member_of :: "(path \<Rightarrow> 'k source) \<Rightarrow> nat \<Rightarrow> cpio_entry \<Rightarrow> newc_member" where
  "member_of open_copy k e =
     \<lparr>nm_name = ce_name e @ replicate (k - 1) 0, nm_mode = unat (body_mode (ce_body e)), nm_nlink = 1,
      nm_rdevmajor = unat (fst (body_device (ce_body e))),
      nm_rdevminor = unat (snd (body_device (ce_body e))), nm_zero = [0, 0, 0, 0],
      nm_data = body_data open_copy (ce_body e)\<rparr>"

definition data_start :: "nat \<Rightarrow> cpio_entry \<Rightarrow> nat" where
  "data_start k e = 110 + (length (ce_name e) + k) + pad_to4 (110 + (length (ce_name e) + k))"

lemma newc_walk_entry:
  assumes "0 < k" and "length (ce_name e) + k < 2 ^ 32" and "entry_fits open_copy e"
    and "ce_name e @ replicate (k - 1) 0 \<noteq> TRAILER_NAME"
  shows "newc_walk pos (entry_bytes open_copy k e @ rest) =
    map_option ((#) (member_of open_copy k e, pos + data_start k e))
      (newc_walk (pos + length (entry_bytes open_copy k e)) rest)"
  using assms newc_member_at_bytes [of k "ce_name e" "body_data open_copy (ce_body e)"
    "fst (body_device (ce_body e))" "snd (body_device (ce_body e))" "body_mode (ce_body e)" rest]
  by (subst newc_walk.simps)
    (simp add: entry_bytes_def entry_fits_def member_of_def data_start_def)

lemma newc_walk_trailer [simp]: "newc_walk pos trailer_bytes = Some []"
  using newc_member_at_bytes [of 1 TRAILER_NAME "[]" 0 0 0 "[]"]
  by (subst newc_walk.simps)
    (simp add: trailer_bytes_def TRAILER_NAME_def ascii_def newc_fits_def)

lemma newc_parse_entries:
  assumes "\<forall>e \<in> set es. length (ce_name e) + 1 < 2 ^ 32 \<and> entry_fits open_copy e \<and>
      ce_name e \<noteq> TRAILER_NAME"
  shows "newc_parse (concat (map (entry_bytes open_copy 1) es) @ trailer_bytes) =
    Some (map (member_of open_copy 1) es)"
proof -
  have "\<exists>ws. newc_walk pos (concat (map (entry_bytes open_copy 1) es) @ trailer_bytes) = Some ws \<and>
      map fst ws = map (member_of open_copy 1) es" for pos
    using assms
  proof (induction es arbitrary: pos)
    case (Cons e es)
    obtain ws where "newc_walk (pos + length (entry_bytes open_copy 1 e))
        (concat (map (entry_bytes open_copy 1) es) @ trailer_bytes) = Some ws"
      "map fst ws = map (member_of open_copy 1) es"
      using Cons.IH [of "pos + length (entry_bytes open_copy 1 e)"] Cons.prems by auto
    then show ?case
      using Cons.prems by (simp add: newc_walk_entry)
  qed simp
  from this [of 0] show ?thesis
    by (auto simp: newc_parse_walk [of _ 0])
qed

section \<open>The early region\<close>

text \<open>How many NUL bytes follow a name written at offset \<open>n\<close>.\<close>

definition early_nuls :: "cpio_entry \<Rightarrow> nat \<Rightarrow> nat" where
  "early_nuls e n = 1 + (if is_payload (ce_body e)
     then (16 - (n + 110 + (length (ce_name e) + 1)) mod 16) mod 16 else 0)"

lemma mod_16_le: "(x :: nat) mod 16 \<le> 15"
  using mod_less_divisor [of 16 x] by linarith

lemma early_nuls_range: "0 < early_nuls e n" "early_nuls e n \<le> 16"
  by (simp_all add: early_nuls_def mod_16_le)

lemma early_nuls_aligned:
  assumes "is_payload (ce_body e)" and "n mod 4 = 0"
  shows "(n + data_start (early_nuls e n) e) mod 16 = 0"
proof -
  define b where "b = n + 110 + (length (ce_name e) + 1)"
  have "b mod 16 \<le> 16"
    by (simp add: less_imp_le)
  then have "(b mod 16 + (16 - b mod 16)) mod 16 = 0"
    by simp
  then have b: "(b + (16 - b mod 16) mod 16) mod 16 = 0"
    by (simp only: mod_add_left_eq mod_add_right_eq)
  have "n + (110 + (length (ce_name e) + early_nuls e n)) = b + (16 - b mod 16) mod 16"
    using assms by (simp add: early_nuls_def b_def)
  with b have a: "(n + (110 + (length (ce_name e) + early_nuls e n))) mod 16 = 0"
    by simp
  define c where "c = 110 + (length (ce_name e) + early_nuls e n)"
  have "(n + c) mod 4 = 0"
    using mod_mod_cancel [of 4 16 "n + c"] a by (simp add: c_def)
  then have "c mod 4 = 0"
    using assms(2) by presburger
  then show ?thesis
    using a by (simp add: data_start_def c_def [symmetric] pad_to4_def)
qed

lemma length_entry_bytes: "length (entry_bytes open_copy k e) = data_start k e
    + (length (body_data open_copy (ce_body e)) + pad_to4 (length (body_data open_copy (ce_body e))))"
  using length_header [of "[0, ucast (body_mode (ce_body e)), 0, 0, 1, 0,
    of_nat (length (body_data open_copy (ce_body e))), 0, 0, fst (body_device (ce_body e)),
    snd (body_device (ce_body e)), of_nat (length (ce_name e) + k), 0]"]
  by (simp add: entry_bytes_def newc_bytes_def data_start_def)

lemma data_start_mod4: "data_start k e mod 4 = 0"
  unfolding data_start_def by (rule pad_to4_dvd)

lemma length_entry_bytes_mod4: "length (entry_bytes open_copy k e) mod 4 = 0"
  unfolding length_entry_bytes
  by (metis add_0 data_start_mod4 mod_0 mod_add_eq pad_to4_dvd)

lemma write_aligned_header_Inr:
  assumes "length name < 2 ^ 63" and "off = of_nat n"
    and "k = 1 + (if align16 then (16 - (n + 110 + (length name + 1)) mod 16) mod 16 else 0)"
  shows "(write_aligned_header name mode filesize major minor off align16 :: ('k, u64) cpio_op) w
      = (Inr off', w') \<longleftrightarrow>
    length name + k < 2 ^ 32 \<and> newc_fits filesize \<and> newc_fits major \<and> newc_fits minor \<and>
    w' = w @ newc_header name k mode filesize major minor \<and>
    off' = of_nat (n + length (newc_header name k mode filesize major minor))"
proof -
  define base where "base = off + 110 + (of_nat (length name) + 1)"
  define ns where "ns = of_nat (length name) + 1 + (if align16 then (16 - base mod 16) mod 16 else 0)"
  have "base = of_nat (n + 110 + (length name + 1))"
    using assms(2) by (simp add: base_def)
  then have "unat base mod 16 = (n + 110 + (length name + 1)) mod 16"
    by (simp only: unat_of_nat) (simp add: mod_mod_cancel)
  moreover have "base mod 16 \<le> 16"
    by (simp add: word_le_nat_alt unat_mod less_imp_le)
  ultimately have "unat ((16 - base mod 16) mod 16) = (16 - (n + 110 + (length name + 1)) mod 16) mod 16"
    by (simp add: unat_mod unat_sub)
  then have "(16 - base mod 16) mod 16 = of_nat ((16 - (n + 110 + (length name + 1)) mod 16) mod 16)"
    by (metis of_nat_unat ucast_id)
  then have ns: "ns = of_nat (length name + k)"
    using assms(3) by (simp add: ns_def)
  have k: "k \<le> 16" "0 < k"
    using assms(3) by (auto simp: mod_16_le)
  have uns: "unat ns = length name + k"
    unfolding ns by (rule unat_of_nat_mem) (use assms(1) k in simp)
  have f: "newc_fits ns \<longleftrightarrow> length name + k < 2 ^ 32"
    by (simp add: newc_fits_def uns)
  have nul: "unat (ns - of_nat (length name)) = k"
    unfolding ns using k by (simp add: unat_of_nat)
  have p: "length name + k < 2 ^ 32 \<Longrightarrow> unat (110 + ns) = 110 + (length name + k)"
    unfolding ns using unat_of_nat_mem [of "110 + (length name + k)"] by simp
  have e: "(write_aligned_header name mode filesize major minor off align16 :: ('k, u64) cpio_op) w
      = (Inr off', w') \<longleftrightarrow>
      (\<exists>h. push_fields CPIO_MAGIC [0, ucast mode, 0, 0, 1, 0, filesize, 0, 0, major, minor, ns, 0]
         = (Inr h :: 'k cpio_error + bytes) \<and>
         w' = w @ h @ name @ replicate k 0 @ replicate (pad_to4 (unat (110 + ns))) 0 \<and>
         off' = off + (110 + ns) + pad4 (110 + ns))"
    using nul
    by (auto simp: write_aligned_header_def Let_def op_bind_def EARLY_ALIGN_def ns_def base_def
        add.assoc split: sum.splits)
  have l: "length (newc_header name k mode filesize major minor) =
      110 + (length name + k) + pad_to4 (110 + (length name + k))"
    using length_header [of "[0, ucast mode, 0, 0, 1, 0, filesize, 0, 0, major, minor,
      of_nat (length name + k), 0]"] by (simp add: newc_header_def)
  have o: "off + (110 + ns) + pad4 (110 + ns) =
      of_nat (n + length (newc_header name k mode filesize major minor))"
    if "length name + k < 2 ^ 32"
  proof -
    have "pad4 (110 + ns) = of_nat (pad_to4 (110 + (length name + k)))"
      using p [OF that] unat_pad4 [of "110 + ns"] by (metis of_nat_unat ucast_id)
    then show ?thesis
      using assms(2) by (simp add: l ns)
  qed
  show ?thesis
    unfolding e push_fields_Inr using f p o by (auto simp: newc_header_def ns)
qed


lemma pad4_of_nat: "n < 2 ^ 63 \<Longrightarrow> pad4 (of_nat n) = of_nat (pad_to4 n)"
  using unat_pad4 [of "of_nat n"] by (metis of_nat_unat ucast_id unat_of_nat_mem trans_less_add1)

lemma write_early_entry_Inr:
  assumes "in_memory open_copy e" and "off = of_nat n" and "k = early_nuls e n"
  shows "write_early_entry open_copy e off w = (Inr off', w') \<longleftrightarrow>
    length (ce_name e) + k < 2 ^ 32 \<and> entry_fits open_copy e \<and>
    w' = w @ entry_bytes open_copy k e \<and>
    off' = of_nat (n + length (entry_bytes open_copy k e))"
proof -
  have nm: "length (ce_name e) < 2 ^ 63" and d: "length (body_data open_copy (ce_body e)) < 2 ^ 63"
    using assms by (simp_all add: in_memory_def)
  have h: "\<And>m f a b o' v al. al = is_payload (ce_body e) \<Longrightarrow>
    write_aligned_header (ce_name e) m f a b off al w = (Inr o', v) \<longleftrightarrow>
    length (ce_name e) + k < 2 ^ 32 \<and> newc_fits f \<and> newc_fits a \<and> newc_fits b \<and>
    v = w @ newc_header (ce_name e) k m f a b \<and>
    o' = of_nat (n + length (newc_header (ce_name e) k m f a b))"
    by (rule write_aligned_header_Inr [OF nm assms(2)]) (simp add: assms(3) early_nuls_def)
  note defs = write_early_entry_def op_bind_Inr h entry_fits_def entry_bytes_def
        newc_bytes_header newc_fits_length unat_of_nat_mem pad4_of_nat
  show ?thesis
  proof (cases "ce_body e")
    case (File p sz x)
    have c: "\<And>u v. copy_source open_copy p sz u = (Inr (), v) \<longleftrightarrow>
        source_stable open_copy (File p sz x) \<and> v = u @ body_data open_copy (File p sz x)"
      by (rule copy_source_Inr) (use d File in simp)
    show ?thesis
    proof (cases "open_copy p")
      case (Content bs)
      have "length bs < 2 ^ 63"
        using d File Content by simp
      note pl = pad4_of_nat [OF this]
      show ?thesis
      proof (cases "length bs = unat sz")
        case True
        then have sz: "sz = of_nat (length bs)" by simp
        show ?thesis
          using d unfolding sz by (auto simp: File [unfolded sz] Content defs c [unfolded sz] pl)
      qed (auto simp: File Content defs c)
    qed (auto simp: File defs c)
  next
    case Directory
    then show ?thesis by (simp add: defs pad_to4_def) auto
  next
    case Fifo
    then show ?thesis by (simp add: defs pad_to4_def) auto
  next
    case (Device b x y)
    then show ?thesis by (simp add: defs pad_to4_def) auto
  next
    case (Symlink target)
    then have "length target < 2 ^ 63" using d by simp
    then show ?thesis
      using Symlink by (auto simp: defs)
  next
    case (Inline data x)
    then have "length data < 2 ^ 63" using d by simp
    then show ?thesis
      using Inline by (auto simp: defs)
  qed
qed

fun early_bytes :: "(path \<Rightarrow> 'k source) \<Rightarrow> nat \<Rightarrow> cpio_entry list \<Rightarrow> bytes" where
  "early_bytes open_copy n [] = trailer_bytes"
| "early_bytes open_copy n (e # es) = entry_bytes open_copy (early_nuls e n) e
     @ early_bytes open_copy (n + length (entry_bytes open_copy (early_nuls e n) e)) es"

fun early_fits :: "(path \<Rightarrow> 'k source) \<Rightarrow> nat \<Rightarrow> cpio_entry list \<Rightarrow> bool" where
  "early_fits open_copy n [] \<longleftrightarrow> True"
| "early_fits open_copy n (e # es) \<longleftrightarrow>
     length (ce_name e) + early_nuls e n < 2 ^ 32 \<and> entry_fits open_copy e \<and>
     early_fits open_copy (n + length (entry_bytes open_copy (early_nuls e n) e)) es"

lemma write_early_Inr:
  assumes "\<forall>e \<in> set es. in_memory open_copy e" and "off = of_nat n"
  shows "op_bind (write_early_entries open_copy es off) (\<lambda>_. write_header TRAILER_NAME 0 0 0 0) w
      = (Inr (), w') \<longleftrightarrow>
    early_fits open_copy n es \<and> w' = w @ early_bytes open_copy n es"
  using assms
proof (induction es arbitrary: n w off)
  case (Cons e es)
  have e: "in_memory open_copy e" using Cons.prems by simp
  have IH: "op_bind (write_early_entries open_copy es (of_nat m)) (\<lambda>_. write_header TRAILER_NAME 0 0 0 0) v
      = (Inr (), w') \<longleftrightarrow> early_fits open_copy m es \<and> w' = v @ early_bytes open_copy m es" for m v
    by (rule Cons.IH) (use Cons.prems in simp_all)
  show ?case
    using IH unfolding op_bind_Inr write_early_entries.simps
      write_early_entry_Inr [OF e Cons.prems(2) refl]
    by (auto simp del: of_nat_add)
qed (auto simp: op_bind_Inr)

text \<open>The kernel takes a name up to its first NUL.\<close>

definition c_name :: "bytes \<Rightarrow> bytes" where
  "c_name n = takeWhile (\<lambda>b. b \<noteq> 0) n"

lemma c_name_padded: "0 \<notin> set n \<Longrightarrow> c_name (n @ replicate k 0) = n"
  by (auto simp: c_name_def takeWhile_append)

definition mode_is_regular :: "nat \<Rightarrow> bool" where
  "mode_is_regular m \<longleftrightarrow> of_nat m AND (0xF000 :: u32) = S_IFREG"

lemma mode_is_regular_body: "mode_is_regular (unat (body_mode b)) \<longleftrightarrow> is_payload b"
  by (cases b) (simp_all add: mode_is_regular_def S_IFREG_def S_IFDIR_def S_IFLNK_def
      S_IFIFO_def S_IFBLK_def S_IFCHR_def)

lemma early_walk:
  assumes "early_fits open_copy n es" and "n mod 4 = 0"
    and "\<forall>e \<in> set es. 0 \<notin> set (ce_name e) \<and> ce_name e \<noteq> TRAILER_NAME"
  shows "\<exists>ws. newc_walk n (early_bytes open_copy n es) = Some ws \<and>
    map (\<lambda>(m, _). m\<lparr>nm_name := c_name (nm_name m)\<rparr>) ws = map (member_of open_copy 1) es \<and>
    (\<forall>(m, start) \<in> set ws. mode_is_regular (nm_mode m) \<longrightarrow> start mod 16 = 0)"
  using assms
proof (induction es arbitrary: n)
  case (Cons e es)
  define k where "k = early_nuls e n"
  define l where "l = length (entry_bytes open_copy k e)"
  have l4: "(n + l) mod 4 = 0"
    using Cons.prems(2) length_entry_bytes_mod4 [of open_copy k e] l_def by presburger
  obtain ws where ws: "newc_walk (n + l) (early_bytes open_copy (n + l) es) = Some ws"
    "map (\<lambda>(m, _). m\<lparr>nm_name := c_name (nm_name m)\<rparr>) ws = map (member_of open_copy 1) es"
    "\<forall>(m, start) \<in> set ws. mode_is_regular (nm_mode m) \<longrightarrow> start mod 16 = 0"
    using Cons.IH [OF _ l4] Cons.prems by (auto simp: k_def l_def)
  have nul: "ce_name e @ replicate j 0 \<noteq> TRAILER_NAME" for j
  proof
    assume a: "ce_name e @ replicate j 0 = TRAILER_NAME"
    have "0 \<notin> set TRAILER_NAME"
      by (simp add: TRAILER_NAME_def ascii_def)
    with a have "j = 0"
      by (metis UnCI in_set_replicate set_append neq0_conv)
    with a Cons.prems show False by simp
  qed
  have w: "newc_walk n (entry_bytes open_copy k e @ rest) =
      map_option ((#) (member_of open_copy k e, n + data_start k e)) (newc_walk (n + l) rest)" for rest
    unfolding l_def by (rule newc_walk_entry)
      (use Cons.prems early_nuls_range [of e n] nul in \<open>simp_all add: k_def\<close>)
  have "mode_is_regular (nm_mode (member_of open_copy k e)) \<Longrightarrow> (n + data_start k e) mod 16 = 0"
    using early_nuls_aligned [OF _ Cons.prems(2)] by (simp add: member_of_def mode_is_regular_body k_def)
  moreover have "(member_of open_copy k e)\<lparr>nm_name := c_name (nm_name (member_of open_copy k e))\<rparr>
      = member_of open_copy 1 e"
    using Cons.prems(3) by (simp add: member_of_def c_name_padded)
  ultimately show ?case
    using ws w by (simp add: k_def [symmetric] l_def [symmetric])
qed simp


lemma archive_length_mod4:
  "length (concat (map (entry_bytes open_copy 1) es) @ trailer_bytes) mod 4 = 0"
proof (induction es)
  case Nil
  show ?case
    using length_entry_bytes_mod4 [of "\<lambda>_. Content []" 1 "\<lparr>ce_name = TRAILER_NAME, ce_body = Fifo\<rparr>"]
    by (simp add: trailer_bytes_def entry_bytes_def newc_bytes_def)
next
  case (Cons e es)
  then show ?case
    using length_entry_bytes_mod4 [of open_copy 1 e] by (simp add: mod_eq_0_iff_dvd)
qed

lemma early_fits_bound:
  "\<forall>e \<in> set es. length (ce_name e) + 16 < 2 ^ 32 \<and> entry_fits open_copy e \<Longrightarrow> early_fits open_copy n es"
proof (induction es arbitrary: n)
  case (Cons e es)
  then show ?case
    using early_nuls_range(2) [of e n] by simp
qed simp

section \<open>Properties\<close>

definition sample_entries :: "cpio_entry list" where
  "sample_entries =
     [\<lparr>ce_name = ascii ''dev'', ce_body = Directory\<rparr>,
      \<lparr>ce_name = ascii ''dev/null'', ce_body = Device False 1 3\<rparr>,
      \<lparr>ce_name = ascii ''init'', ce_body = File (ascii ''/src/init'') 3 True\<rparr>]"

definition sample_sources :: "path \<Rightarrow> unit source" where
  "sample_sources p = (if p = ascii ''/src/init'' then Content (ascii ''#!x'') else Open_error ())"

lemma sample_entries_ok:
  "\<forall>e \<in> set sample_entries. in_memory sample_sources e"
  "\<forall>e \<in> set sample_entries. length (ce_name e) + 1 < 2 ^ 32 \<and> entry_fits sample_sources e"
  "\<forall>e \<in> set sample_entries. 0 \<notin> set (ce_name e) \<and> ce_name e \<noteq> TRAILER_NAME"
  "early_fits sample_sources 0 sample_entries"
proof -
  show "\<forall>e \<in> set sample_entries. in_memory sample_sources e"
    by (simp add: sample_entries_def in_memory_def sample_sources_def ascii_def)
  show fits: "\<forall>e \<in> set sample_entries. length (ce_name e) + 1 < 2 ^ 32 \<and> entry_fits sample_sources e"
    by (simp add: sample_entries_def entry_fits_def sample_sources_def ascii_def newc_fits_def)
  show "\<forall>e \<in> set sample_entries. 0 \<notin> set (ce_name e) \<and> ce_name e \<noteq> TRAILER_NAME"
    by (simp add: sample_entries_def ascii_def TRAILER_NAME_def)
  have "\<forall>e \<in> set sample_entries. length (ce_name e) + 16 < 2 ^ 32"
    by (simp add: sample_entries_def ascii_def)
  with fits show "early_fits sample_sources 0 sample_entries"
    by (intro early_fits_bound) simp
qed

text \<open>C12. The newc archive that \<open>write_archive\<close> writes reads back, with the independent reader of
  the module's tests, as exactly the entries it was given, in their order: names, modes, device
  numbers and contents are kept, inode, owner, group and time are zero, nothing follows the
  trailer, and its length is a multiple of four.\<close>

theorem newc_roundtrip:
  assumes "\<forall>e \<in> set es. in_memory open_copy e"
    and "\<forall>e \<in> set es. ce_name e \<noteq> TRAILER_NAME"
    and "write_archive open_copy es [] = (Inr (), out)"
  shows "newc_parse out = Some (map (member_of open_copy 1) es) \<and> length out mod 4 = 0"
proof -
  from assms have "out = concat (map (entry_bytes open_copy 1) es) @ trailer_bytes"
    and "\<forall>e \<in> set es. length (ce_name e) + 1 < 2 ^ 32 \<and> entry_fits open_copy e"
    by (simp_all add: write_archive_Inr)
  with assms(2) newc_parse_entries [of es open_copy] archive_length_mod4 [of open_copy es]
  show ?thesis
    by simp
qed

theorem newc_roundtrip_witness:
  "newc_parse (snd (write_archive sample_sources sample_entries [])) =
     Some (map (member_of sample_sources 1) sample_entries)"
proof -
  obtain out where "write_archive sample_sources sample_entries [] = (Inr (), out)"
    using sample_entries_ok by (simp add: write_archive_Inr)
  then show ?thesis
    using newc_roundtrip [of sample_entries sample_sources out] sample_entries_ok by simp
qed

text \<open>\<open>write_archive\<close> succeeds exactly when every name, size and device number fits the 32-bit
  fields and every source file can be read and still has the size its entry records.\<close>

theorem archive_succeeds:
  assumes "\<forall>e \<in> set es. in_memory open_copy e"
  shows "fst (write_archive open_copy es w) = Inr () \<longleftrightarrow>
    (\<forall>e \<in> set es. length (ce_name e) + 1 < 2 ^ 32 \<and> entry_fits open_copy e)"
  using write_archive_Inr [OF assms, of w] by (cases "write_archive open_copy es w") auto

theorem archive_succeeds_witness:
  "fst (write_archive sample_sources sample_entries []) = Inr ()"
  using archive_succeeds [of sample_entries sample_sources "[]"] sample_entries_ok by simp

text \<open>In the early region the data of every regular file starts at a multiple of 16 bytes from
  the start of the region, and widening the name fields with NUL bytes changes nothing that a
  reader of C strings sees: the members are those of the entries, up to the one trailer.\<close>

theorem early_payloads_aligned:
  assumes "\<forall>e \<in> set es. in_memory open_copy e"
    and "\<forall>e \<in> set es. 0 \<notin> set (ce_name e) \<and> ce_name e \<noteq> TRAILER_NAME"
    and "write_early_archive open_copy es [] = (Inr (), out)"
  shows "\<exists>ws. newc_walk 0 out = Some ws \<and>
    map (\<lambda>(m, _). m\<lparr>nm_name := c_name (nm_name m)\<rparr>) ws = map (member_of open_copy 1) es \<and>
    (\<forall>(m, start) \<in> set ws. mode_is_regular (nm_mode m) \<longrightarrow> start mod 16 = 0)"
proof -
  from assms have "out = early_bytes open_copy 0 es" and "early_fits open_copy 0 es"
    using write_early_Inr [of es open_copy 0 0 "[]" out] by (simp_all add: write_early_archive_def)
  then show ?thesis
    using early_walk [of open_copy 0 es] assms(2) by simp
qed

theorem early_payloads_aligned_witness:
  "\<exists>ws. newc_walk 0 (snd (write_early_archive sample_sources sample_entries [])) = Some ws \<and>
    map (\<lambda>(m, _). m\<lparr>nm_name := c_name (nm_name m)\<rparr>) ws
      = map (member_of sample_sources 1) sample_entries \<and>
    (\<forall>(m, start) \<in> set ws. mode_is_regular (nm_mode m) \<longrightarrow> start mod 16 = 0)"
proof -
  obtain out where "write_early_archive sample_sources sample_entries [] = (Inr (), out)"
    using write_early_Inr [of sample_entries sample_sources 0 0 "[]"] sample_entries_ok
    by (simp add: write_early_archive_def)
  then show ?thesis
    using early_payloads_aligned [of sample_entries sample_sources out] sample_entries_ok by simp
qed

end
