(* ===== verification/Topo.thy ===== *)
theory Topo
  imports Main "HOL-Library.List_Lexorder"
begin

text \<open>
  Orders of a finite graph on \<open>{0..<n}\<close>: what the programs that sort topologically promise, and
  the facts about taking the least available node each time.
\<close>


section \<open>Greedy topological orders\<close>

text \<open>
  \<open>avail E n ord\<close>: the nodes below \<open>n\<close> not placed yet whose predecessors all are. A greedy order
  places the least of them each time.
\<close>

definition avail :: "(nat \<times> nat) set \<Rightarrow> nat \<Rightarrow> nat list \<Rightarrow> nat set" where
  "avail E n ord = {c. c < n \<and> c \<notin> set ord \<and> (\<forall>p. (p, c) \<in> E \<longrightarrow> p \<in> set ord)}"

definition greedy :: "(nat \<times> nat) set \<Rightarrow> nat \<Rightarrow> nat list \<Rightarrow> bool" where
  "greedy E n ord \<longleftrightarrow> (\<forall>i < length ord.
     avail E n (take i ord) \<noteq> {} \<and> ord ! i = Min (avail E n (take i ord)))"

definition topological :: "(nat \<times> nat) set \<Rightarrow> nat list \<Rightarrow> bool" where
  "topological E ord \<longleftrightarrow> distinct ord \<and>
     (\<forall>i < length ord. \<forall>p. (p, ord ! i) \<in> E \<longrightarrow> p \<in> set (take i ord))"

lemma finite_avail [simp]: "finite (avail E n ord)"
  by (rule finite_subset [of _ "{..<n}"]) (auto simp: avail_def)

lemma greedy_in: "greedy E n ord \<Longrightarrow> i < length ord \<Longrightarrow> ord ! i \<in> avail E n (take i ord)"
  by (auto simp: greedy_def intro: Min_in)

lemma greedy_snoc:
  assumes "greedy E n ord" and "avail E n ord \<noteq> {}"
  shows "greedy E n (ord @ [Min (avail E n ord)])"
  using assms by (auto simp: greedy_def nth_append less_Suc_eq)

lemma distinct_fresh: "(\<forall>i < length xs. xs ! i \<notin> set (take i xs)) \<Longrightarrow> distinct xs"
proof (induction xs rule: rev_induct)
  case (snoc x xs)
  have "\<forall>i < length xs. xs ! i \<notin> set (take i xs)"
    using snoc.prems by (auto simp: nth_append less_Suc_eq)
  moreover have "x \<notin> set xs"
    using snoc.prems [rule_format, of "length xs"] by simp
  ultimately show ?case
    using snoc.IH by simp
qed simp

lemma greedy_topological: "greedy E n ord \<Longrightarrow> topological E ord"
  unfolding topological_def using greedy_in [of E n ord]
  by (auto simp: avail_def intro!: distinct_fresh)

lemma topological_closed: "topological E ord \<Longrightarrow> c \<in> set ord \<Longrightarrow> (p, c) \<in> E \<Longrightarrow> p \<in> set ord"
  by (metis in_set_conv_nth in_set_takeD topological_def)

lemma greedy_subset: "greedy E n ord \<Longrightarrow> set ord \<subseteq> {0..<n}"
  using greedy_in [of E n ord] by (fastforce simp: avail_def in_set_conv_nth)

lemma greedy_length: "greedy E n ord \<Longrightarrow> length ord \<le> n"
  using greedy_subset [of E n ord] greedy_topological [of E n ord] card_mono [of "{0..<n}" "set ord"]
  by (simp add: topological_def distinct_card)

lemma greedy_complete: "greedy E n ord \<Longrightarrow> length ord = n \<Longrightarrow> set ord = {0..<n}"
  using greedy_subset [of E n ord] greedy_topological [of E n ord] card_subset_eq [of "{0..<n}" "set ord"]
  by (simp add: topological_def distinct_card)

lemma greedy_lex_least:
  assumes "greedy E n ord" and "length ord = n"
    and "topological E ys" and "set ys = {0..<n}"
  shows "ord \<le> ys"
proof (cases "ord = ys")
  case False
  have len: "length ys = n"
    using assms distinct_card [of ys] by (simp add: topological_def)
  define i where "i = (LEAST i. i < n \<and> ord ! i \<noteq> ys ! i)"
  have ex: "\<exists>i. i < n \<and> ord ! i \<noteq> ys ! i"
    using False assms(2) len by (metis nth_equalityI)
  have i: "i < n" "ord ! i \<noteq> ys ! i"
    using LeastI_ex [OF ex] by (simp_all add: i_def)
  have eq: "take i ord = take i ys"
    using not_less_Least [of _ "\<lambda>i. i < n \<and> ord ! i \<noteq> ys ! i"] i len assms(2)
    by (intro nth_take_lemma) (auto simp: i_def [symmetric])
  have "ys ! i < n" and "ys ! i \<notin> set (take i ys)"
    using assms(3,4) i len nth_mem [of i ys]
    by (auto simp: topological_def in_set_conv_nth nth_eq_iff_index_eq simp del: nth_mem)
  then have "ys ! i \<in> avail E n (take i ord)"
    using assms(3) i len by (simp add: avail_def eq topological_def)
  then have "ord ! i \<le> ys ! i"
    using assms(1,2) i by (simp add: greedy_def)
  then have "ord < ys"
    using i eq len assms(2) unfolding list_less_def lexord_take_index_conv
    by (intro disjI2 exI [of _ i]) simp
  then show ?thesis by simp
qed simp

lemma stuck_cycle:
  assumes "avail E n ord = {}" and "E \<subseteq> {0..<n} \<times> {0..<n}" and "\<exists>c<n. c \<notin> set ord"
  shows "\<not> acyclic E"
proof
  assume "acyclic E"
  moreover have "finite E"
    by (rule finite_subset [OF assms(2)]) simp
  ultimately have "wf E"
    by (simp add: finite_acyclic_wf)
  obtain c where "c \<in> {c. c < n \<and> c \<notin> set ord}"
    using assms(3) by blast
  with \<open>wf E\<close> obtain z where z: "z \<in> {c. c < n \<and> c \<notin> set ord}"
    and min: "\<And>y. (y, z) \<in> E \<Longrightarrow> y \<notin> {c. c < n \<and> c \<notin> set ord}"
    by (rule wfE_min) blast
  from z assms(1) obtain p where "(p, z) \<in> E" "p \<notin> set ord"
    by (auto simp: avail_def)
  with min assms(2) show False by auto
qed

lemma topological_acyclic:
  assumes "topological E ord" and "E \<subseteq> UNIV \<times> set ord"
  shows "acyclic E"
proof (rule acyclicI_order [where f = "\<lambda>x. length ord - (THE i. i < length ord \<and> ord ! i = x)"])
  fix p c assume e: "(p, c) \<in> E"
  have pos: "(THE i. i < length ord \<and> ord ! i = ord ! j) = j" if "j < length ord" for j
    using assms(1) that by (intro the_equality) (auto simp: topological_def nth_eq_iff_index_eq)
  from e assms(2) have "c \<in> set ord"
    by blast
  then obtain i where i: "i < length ord" "c = ord ! i"
    by (auto simp: in_set_conv_nth)
  with e assms(1) obtain j where j: "j < i" "p = ord ! j"
    by (fastforce simp: topological_def in_set_conv_nth)
  show "length ord - (THE i. i < length ord \<and> ord ! i = c)
      < length ord - (THE i. i < length ord \<and> ord ! i = p)"
    using i j pos [of i] pos [of j] by simp
qed

end
