(* ===== verification/Mkirf_Hooks.thy ===== *)
theory Mkirf_Hooks
  imports RustStd Topo "HOL-Library.Product_Lexorder" "HOL-Library.Multiset"
begin

text \<open>
  \<open>src/uu/mkirf/src/hooks.rs\<close>: the initramfs hooks, their metadata blocks, the order in which
  they run and the sequence files that record it. File names compare by their UTF-8 bytes.
  The directories the hooks are read from are a parameter.
\<close>

section \<open>Hooks\<close>

definition INITRAMFS_READY :: rust_str where "INITRAMFS_READY = lit ''initramfs-ready''"
definition SEQ_VERSION_LINE :: rust_str where "SEQ_VERSION_LINE = lit ''hookseq 1''"
definition SEQ_V2_VERSION_LINE :: rust_str where "SEQ_V2_VERSION_LINE = lit ''hookseq 2''"

definition HOOK_DIRS :: "rust_str list" where
  "HOOK_DIRS = [lit ''lcl/libexec/prelude/hooks.d'', lit ''usr/libexec/prelude/hooks.d'', lit ''hooks'']"

definition LEGACY_HOOK_DIR :: rust_str where "LEGACY_HOOK_DIR = lit ''hooks''"

record hook =
  hk_name :: rust_str
  hk_path :: rust_str
  hk_provides :: "rust_str list"
  hk_contributes :: "rust_str list"
  hk_requires :: "rust_str list"
  hk_after :: "rust_str list"
  hk_has_block :: bool

definition supplies :: "hook \<Rightarrow> rust_str list" where
  "supplies h = hk_provides h @ hk_contributes h"

definition consumes :: "hook \<Rightarrow> rust_str list" where
  "consumes h = hk_requires h @ hk_after h"

definition is_constrained :: "hook \<Rightarrow> bool" where
  "is_constrained h \<longleftrightarrow> supplies h \<noteq> [] \<or> consumes h \<noteq> []"

definition by_name :: "hook list \<Rightarrow> hook list" where
  "by_name hooks = sort_key (\<lambda>h. utf8 (hk_name h)) hooks"

section \<open>Metadata blocks\<close>

datatype block_error =
    Second_block
  | Not_a_comment nat
  | Never_closed
  | Expected_assignment nat
  | Unknown_key nat rust_str
  | Duplicate_key nat rust_str
  | Bad_array nat array_error
and array_error =
    Not_an_array rust_str
  | Empty_element
  | Not_a_string rust_str
  | Not_a_token rust_str

record parsed_block =
  pb_provides :: "rust_str list"
  pb_contributes :: "rust_str list"
  pb_requires :: "rust_str list"
  pb_after :: "rust_str list"
  pb_has_block :: bool

definition parsed_default :: parsed_block where
  "parsed_default = \<lparr>pb_provides = [], pb_contributes = [], pb_requires = [], pb_after = [],
     pb_has_block = False\<rparr>"

text \<open>Letters and digits, then also \<open>.\<close> (46), \<open>_\<close> (95) and \<open>-\<close> (45).\<close>

definition is_capability_token :: "rust_str \<Rightarrow> bool" where
  "is_capability_token s =
     (case s of
        [] \<Rightarrow> False
      | c # cs \<Rightarrow> is_ascii_alnum c \<and>
          list_all (\<lambda>c. is_ascii_alnum c \<or> c = 46 \<or> c = 95 \<or> c = 45) cs)"

definition array_element :: "rust_str \<Rightarrow> array_error + rust_str" where
  "array_element elem =
     (if elem = [] then Inl Empty_element
      else case Option.bind (strip_prefix [34] elem) (strip_suffix [34]) of
        None \<Rightarrow> Inl (Not_a_string elem)
      | Some value \<Rightarrow>
          if is_capability_token value then Inr value else Inl (Not_a_token value))"

fun array_elements :: "rust_str list \<Rightarrow> array_error + rust_str list" where
  "array_elements [] = Inr []"
| "array_elements (e # es) =
     result_bind (array_element e) (\<lambda>v. result_bind (array_elements es) (\<lambda>vs. Inr (v # vs)))"

definition parse_string_array :: "rust_str \<Rightarrow> array_error + rust_str list" where
  "parse_string_array s =
     (case Option.bind (strip_prefix [91] s) (strip_suffix [93]) of
        None \<Rightarrow> Inl (Not_an_array s)
      | Some t \<Rightarrow>
          let inner = trim t in
          if inner = [] then Inr []
          else
            let elems = map trim (split_on 44 inner);
                elems = (if last elems = [] then butlast elems else elems)
            in array_elements elems)"

text \<open>The four slots, each filled at most once.\<close>

record toml_slots =
  ts_provides :: "rust_str list option"
  ts_contributes :: "rust_str list option"
  ts_requires :: "rust_str list option"
  ts_after :: "rust_str list option"

definition no_slots :: toml_slots where
  "no_slots = \<lparr>ts_provides = None, ts_contributes = None, ts_requires = None, ts_after = None\<rparr>"

definition toml_slot ::
  "rust_str \<Rightarrow> ((toml_slots \<Rightarrow> rust_str list option) \<times>
     (rust_str list \<Rightarrow> toml_slots \<Rightarrow> toml_slots)) option" where
  "toml_slot key =
     (if key = lit ''provides'' then Some (ts_provides, \<lambda>v s. s\<lparr>ts_provides := Some v\<rparr>)
      else if key = lit ''contributes'' then Some (ts_contributes, \<lambda>v s. s\<lparr>ts_contributes := Some v\<rparr>)
      else if key = lit ''requires'' then Some (ts_requires, \<lambda>v s. s\<lparr>ts_requires := Some v\<rparr>)
      else if key = lit ''after'' then Some (ts_after, \<lambda>v s. s\<lparr>ts_after := Some v\<rparr>)
      else None)"

definition toml_line :: "nat \<Rightarrow> rust_str \<Rightarrow> toml_slots \<Rightarrow> block_error + toml_slots" where
  "toml_line lineno raw slots =
     (let line = trim raw in
      if line = [] \<or> hd line = 35 then Inr slots
      else case split_once 61 line of
        None \<Rightarrow> Inl (Expected_assignment lineno)
      | Some (key, value) \<Rightarrow>
          (case toml_slot (trim key) of
             None \<Rightarrow> Inl (Unknown_key lineno (trim key))
           | Some (get, fill) \<Rightarrow>
               if get slots \<noteq> None then Inl (Duplicate_key lineno (trim key))
               else case parse_string_array (trim value) of
                 Inl e \<Rightarrow> Inl (Bad_array lineno e)
               | Inr v \<Rightarrow> Inr (fill v slots)))"

fun toml_lines :: "(nat \<times> rust_str) list \<Rightarrow> toml_slots \<Rightarrow> block_error + toml_slots" where
  "toml_lines [] slots = Inr slots"
| "toml_lines ((n, raw) # content) slots =
     result_bind (toml_line n raw slots) (toml_lines content)"

definition unwrap_or_default :: "'a list option \<Rightarrow> 'a list" where
  "unwrap_or_default x = (case x of None \<Rightarrow> [] | Some v \<Rightarrow> v)"

definition parse_toml_subset :: "(nat \<times> rust_str) list \<Rightarrow> block_error + parsed_block" where
  "parse_toml_subset content =
     result_bind (toml_lines content no_slots) (\<lambda>s.
       Inr \<lparr>pb_provides = unwrap_or_default (ts_provides s),
         pb_contributes = unwrap_or_default (ts_contributes s),
         pb_requires = unwrap_or_default (ts_requires s),
         pb_after = unwrap_or_default (ts_after s), pb_has_block = False\<rparr>)"

definition FENCE_OPEN :: rust_str where "FENCE_OPEN = lit ''# /// hook''"
definition FENCE_CLOSE :: rust_str where "FENCE_CLOSE = lit ''# ///''"

text \<open>The lines of the block up to its closing fence; \<open>i\<close> is the index of the next line.\<close>

fun block_content :: "nat \<Rightarrow> rust_str list \<Rightarrow> block_error + (nat \<times> rust_str) list" where
  "block_content i [] = Inl Never_closed"
| "block_content i (line # ls) =
     (if trim_end line = FENCE_CLOSE then Inr []
      else case strip_prefix (lit ''# '') line of
        Some rest \<Rightarrow> result_bind (block_content (Suc i) ls) (\<lambda>c. Inr ((i + 1, rest) # c))
      | None \<Rightarrow>
          if trim_end line = lit ''#''
          then result_bind (block_content (Suc i) ls) (\<lambda>c. Inr ((i + 1, []) # c))
          else Inl (Not_a_comment (i + 1)))"

definition parse_block :: "rust_str \<Rightarrow> block_error + parsed_block" where
  "parse_block text =
     (let ls = lines text in
      case position (\<lambda>l. trim_end l = FENCE_OPEN) ls of
        None \<Rightarrow> Inr parsed_default
      | Some open_line \<Rightarrow>
          if list_ex (\<lambda>l. trim_end l = FENCE_OPEN) (drop (open_line + 1) ls) then Inl Second_block
          else
            result_bind (block_content (open_line + 1) (drop (open_line + 1) ls)) (\<lambda>content.
            result_bind (parse_toml_subset content) (\<lambda>p. Inr (p\<lparr>pb_has_block := True\<rparr>))))"

section \<open>Discovery\<close>

text \<open>
  One child of a hook directory: its file name, whether \<open>metadata\<close> calls it a regular file, and
  its text. \<open>'e\<close> is the type of I/O errors.
\<close>

record 'e dir_child =
  dc_name :: rust_str
  dc_is_file :: "'e + bool"
  dc_text :: "'e + rust_str"

datatype 'e discover_error =
    Cannot_list 'e
  | Cannot_stat rust_str 'e
  | Cannot_read rust_str 'e
  | Bad_block rust_str block_error

datatype hook_warning =
    Shadowed rust_str rust_str rust_str
  | In_legacy_dir rust_str
  | No_metadata rust_str

definition hook_of :: "rust_str \<Rightarrow> rust_str \<Rightarrow> parsed_block \<Rightarrow> hook" where
  "hook_of dest name p =
     \<lparr>hk_name = name, hk_path = lit ''/'' @ dest @ lit ''/'' @ name,
      hk_provides = pb_provides p, hk_contributes = pb_contributes p,
      hk_requires = pb_requires p, hk_after = pb_after p, hk_has_block = pb_has_block p\<rparr>"

fun discover_children ::
  "rust_str \<Rightarrow> ('e + 'e dir_child) list \<Rightarrow> hook list \<Rightarrow> 'e discover_error + hook list" where
  "discover_children dest [] hooks = Inr hooks"
| "discover_children dest (entry # rest) hooks =
     (case entry of
        Inl e \<Rightarrow> Inl (Cannot_list e)
      | Inr d \<Rightarrow>
          (case dc_is_file d of
             Inl e \<Rightarrow> Inl (Cannot_stat (dc_name d) e)
           | Inr False \<Rightarrow> discover_children dest rest hooks
           | Inr True \<Rightarrow>
               (case dc_text d of
                  Inl e \<Rightarrow> Inl (Cannot_read (dc_name d) e)
                | Inr text \<Rightarrow>
                    (case parse_block text of
                       Inl e \<Rightarrow> Inl (Bad_block (dc_name d) e)
                     | Inr p \<Rightarrow>
                         discover_children dest rest (hooks @ [hook_of dest (dc_name d) p])))))"

definition discover_in ::
  "(rust_str \<Rightarrow> 'e + ('e + 'e dir_child) list) \<Rightarrow> rust_str \<Rightarrow> 'e discover_error + hook list" where
  "discover_in read_dir dest =
     (case read_dir dest of
        Inl e \<Rightarrow> Inl (Cannot_list e)
      | Inr entries \<Rightarrow> result_bind (discover_children dest entries []) (\<lambda>hs. Inr (by_name hs)))"

text \<open>The hooks of one directory against those already found.\<close>

fun merge_dir ::
  "rust_str \<Rightarrow> hook list \<Rightarrow> hook list \<Rightarrow> hook_warning list \<Rightarrow> hook list \<times> hook_warning list" where
  "merge_dir dest [] hooks warnings = (hooks, warnings)"
| "merge_dir dest (h # hs) hooks warnings =
     (case find (\<lambda>w. hk_name w = hk_name h) hooks of
        Some winner \<Rightarrow>
          merge_dir dest hs hooks (warnings @ [Shadowed (hk_name h) (hk_path h) (hk_path winner)])
      | None \<Rightarrow>
          merge_dir dest hs (hooks @ [h])
            (if dest = LEGACY_HOOK_DIR then warnings @ [In_legacy_dir (hk_name h)] else warnings))"

fun discover_dirs ::
  "(rust_str \<Rightarrow> bool) \<Rightarrow> (rust_str \<Rightarrow> 'e + ('e + 'e dir_child) list) \<Rightarrow> rust_str list \<Rightarrow>
   hook list \<Rightarrow> hook_warning list \<Rightarrow> 'e discover_error + (hook list \<times> hook_warning list)" where
  "discover_dirs is_dir read_dir [] hooks warnings = Inr (hooks, warnings)"
| "discover_dirs is_dir read_dir (dest # dests) hooks warnings =
     (if \<not> is_dir dest then discover_dirs is_dir read_dir dests hooks warnings
      else result_bind (discover_in read_dir dest) (\<lambda>hs.
        let (hooks', warnings') = merge_dir dest hs hooks warnings
        in discover_dirs is_dir read_dir dests hooks' warnings'))"

definition discover_all ::
  "(rust_str \<Rightarrow> bool) \<Rightarrow> (rust_str \<Rightarrow> 'e + ('e + 'e dir_child) list) \<Rightarrow>
   'e discover_error + (hook list \<times> hook_warning list)" where
  "discover_all is_dir read_dir =
     result_bind (discover_dirs is_dir read_dir HOOK_DIRS [] [])
       (\<lambda>(hooks, warnings). Inr (by_name hooks, warnings))"

section \<open>Ordering\<close>

definition implicit_after :: "hook \<Rightarrow> hook" where
  "implicit_after h =
     (if \<not> is_constrained h \<or> INITRAMFS_READY \<in> set (supplies h) then h
      else if INITRAMFS_READY \<in> set (consumes h) then h
      else h\<lparr>hk_after := hk_after h @ [INITRAMFS_READY]\<rparr>)"

definition apply_implicit_ordering :: "hook list \<Rightarrow> hook list" where
  "apply_implicit_ordering hooks = map implicit_after hooks"

text \<open>Capability to the indices of the hooks that supply it, one entry per mention.\<close>

definition suppliers :: "hook list \<Rightarrow> rust_str \<Rightarrow> nat list option" where
  "suppliers hs =
     fold (\<lambda>(i, h). fold (\<lambda>cap m. m(cap \<mapsto> unwrap_or_default (m cap) @ [i])) (supplies h))
       (enumerate 0 hs) Map.empty"

text \<open>Supplier before consumer, as a set: the \<open>BTreeSet\<close> of the code.\<close>

definition edge_set :: "hook list \<Rightarrow> (nat \<times> nat) set" where
  "edge_set hs =
     (let sup = suppliers hs in
      set (concat (map (\<lambda>(c, h). concat (map (\<lambda>cap.
        map (\<lambda>p. (p, c)) (filter (\<lambda>p. p \<noteq> c) (unwrap_or_default (sup cap)))) (consumes h)))
        (enumerate 0 hs))))"

text \<open>Adjacency lists and indegrees, filled in the order the set iterates.\<close>

definition build_graph :: "nat \<Rightarrow> (nat \<times> nat) list \<Rightarrow> nat list list \<times> int list" where
  "build_graph n es =
     fold (\<lambda>(p, c) (edges, indegree).
         (edges[p := edges ! p @ [c]], indegree[c := indegree ! c + 1]))
       es (replicate n [], replicate n 0)"

text \<open>
  The successors of a node that was placed: each loses one from its indegree, and is ready when
  nothing is left. A counter below zero stands for the wrap-around of the code.
\<close>

fun relax :: "nat list \<Rightarrow> int list \<Rightarrow> nat set \<Rightarrow> int list \<times> nat set" where
  "relax [] indegree ready = (indegree, ready)"
| "relax (s # ss) indegree ready =
     (let indegree = indegree[s := indegree ! s - 1]
      in relax ss indegree (if indegree ! s = 0 then insert s ready else ready))"

partial_function (option) kahn_loop ::
  "nat list list \<Rightarrow> int list \<Rightarrow> nat set \<Rightarrow> nat list \<Rightarrow> nat list option" where
  "kahn_loop edges indegree ready order =
     (if ready = {} then Some order
      else
        let node = Min ready;
            (indegree', ready') = relax (edges ! node) indegree (ready - {node})
        in kahn_loop edges indegree' ready' (order @ [node]))"

declare kahn_loop.simps [code]

datatype resolve_error =
    Both_kinds rust_str "rust_str list" "rust_str list"
  | Unsupplied rust_str rust_str
  | Cycle "rust_str list"

text \<open>\<open>None\<close>: the loop does not end.\<close>

definition kahn_sort :: "hook list \<Rightarrow> (resolve_error + nat list) option" where
  "kahn_sort constrained =
     (let n = length constrained;
          (edges, indegree) = build_graph n (sorted_list_of_set (edge_set constrained));
          ready = set (filter (\<lambda>i. indegree ! i = 0) [0..<n])
      in map_option (\<lambda>order.
           if length order \<noteq> n
           then Inl (Cycle (map (\<lambda>i. hk_name (constrained ! i)) (filter (\<lambda>i. i \<notin> set order) [0..<n])))
           else Inr order) (kahn_loop edges indegree ready []))"

definition named_hooks :: "hook list \<Rightarrow> (hook \<Rightarrow> bool) \<Rightarrow> rust_str list" where
  "named_hooks hooks pred = sort_key utf8 (map hk_name (filter pred hooks))"

text \<open>A \<open>BTreeSet\<close> of strings, as the list it iterates.\<close>

definition btree_strs :: "rust_str list \<Rightarrow> rust_str list" where
  "btree_strs xs = sort_key utf8 (remdups xs)"

record resolved =
  rs_order :: "rust_str list"
  rs_warnings :: "hook_warning list"

definition resolve :: "hook list \<Rightarrow> (resolve_error + resolved) option" where
  "resolve hooks =
     (let sorted = by_name hooks;
          constrained = filter is_constrained sorted;
          unconstrained = filter (\<lambda>h. \<not> is_constrained h) sorted;
          provided = btree_strs (concat (map hk_provides hooks));
          contributed = btree_strs (concat (map hk_contributes hooks))
      in case filter (\<lambda>c. c \<in> set contributed) provided of
        cap # _ \<Rightarrow> Some (Inl (Both_kinds cap
          (named_hooks hooks (\<lambda>h. cap \<in> set (hk_provides h)))
          (named_hooks hooks (\<lambda>h. cap \<in> set (hk_contributes h)))))
      | [] \<Rightarrow>
        (case find (\<lambda>(h, req). req \<notin> set provided \<union> set contributed)
            (concat (map (\<lambda>h. map (Pair h) (hk_requires h)) constrained)) of
           Some (h, req) \<Rightarrow> Some (Inl (Unsupplied (hk_name h) req))
         | None \<Rightarrow> map_option (\<lambda>r. result_bind r (\<lambda>order.
             Inr \<lparr>rs_order = map (\<lambda>i. hk_path (constrained ! i)) order @ map hk_path unconstrained,
                  rs_warnings = map (\<lambda>h. No_metadata (hk_name h))
                    (filter (\<lambda>h. \<not> hk_has_block h) unconstrained)\<rparr>))
             (kahn_sort constrained)))"

section \<open>Sequence files\<close>

definition render_seq :: "rust_str list \<Rightarrow> bytes" where
  "render_seq order = utf8 (SEQ_VERSION_LINE @ [10] @ concat (map (\<lambda>p. p @ [10]) order))"

definition seq_line :: "rust_str \<Rightarrow> rust_str list \<Rightarrow> rust_str" where
  "seq_line key caps =
     (if caps = [] then [] else key @ concat (map (\<lambda>cap. 32 # cap) caps) @ [10])"

definition seq_stanza :: "(rust_str \<Rightarrow> hook option) \<Rightarrow> rust_str \<Rightarrow> rust_str" where
  "seq_stanza by_path path =
     lit ''hook '' @ path @ [10] @
     (case by_path path of
        None \<Rightarrow> []
      | Some h \<Rightarrow> seq_line (lit ''provides'') (hk_provides h)
          @ seq_line (lit ''contributes'') (hk_contributes h)
          @ seq_line (lit ''requires'') (hk_requires h)
          @ seq_line (lit ''after'') (hk_after h))"

text \<open>The map from paths to hooks keeps the last hook of a path.\<close>

definition by_path :: "hook list \<Rightarrow> rust_str \<Rightarrow> hook option" where
  "by_path hooks = map_of (rev (map (\<lambda>h. (hk_path h, h)) hooks))"

definition render_seq_v2 :: "hook list \<Rightarrow> rust_str list \<Rightarrow> bytes" where
  "render_seq_v2 hooks order =
     utf8 (SEQ_V2_VERSION_LINE @ [10] @ concat (map (seq_stanza (by_path hooks)) order))"


section \<open>The graph\<close>


lemma set_fold_supplier:
  "set (unwrap_or_default (fold (\<lambda>cap m. m(cap \<mapsto> unwrap_or_default (m cap) @ [i])) caps m cap)) =
   set (unwrap_or_default (m cap)) \<union> (if cap \<in> set caps then {i} else {})"
  by (induction caps arbitrary: m) (auto simp: unwrap_or_default_def)

lemma set_suppliers:
  "set (unwrap_or_default (suppliers hs cap)) = {i. i < length hs \<and> cap \<in> set (supplies (hs ! i))}"
proof -
  have "set (unwrap_or_default (fold (\<lambda>(i, h).
       fold (\<lambda>cap m. m(cap \<mapsto> unwrap_or_default (m cap) @ [i])) (supplies h)) ps m cap)) =
     set (unwrap_or_default (m cap)) \<union> {i. \<exists>h. (i, h) \<in> set ps \<and> cap \<in> set (supplies h)}" for ps m
    by (induction ps arbitrary: m) (auto simp: set_fold_supplier split: if_splits)
  from this [of "enumerate 0 hs" Map.empty] show ?thesis
    by (auto simp: suppliers_def unwrap_or_default_def in_set_enumerate_eq)
qed

text \<open>An edge: a hook supplies something that another consumes.\<close>

lemma edge_set_iff:
  "(p, c) \<in> edge_set hs \<longleftrightarrow> p < length hs \<and> c < length hs \<and> p \<noteq> c \<and>
     (\<exists>cap \<in> set (consumes (hs ! c)). cap \<in> set (supplies (hs ! p)))"
  (is "_ \<longleftrightarrow> ?R")
proof -
  have eq: "edge_set hs = (\<Union>x \<in> set (enumerate 0 hs). \<Union>cap \<in> set (consumes (snd x)).
      (\<lambda>p. (p, fst x)) ` {p \<in> set (unwrap_or_default (suppliers hs cap)). p \<noteq> fst x})"
    by (simp add: edge_set_def Let_def split_def)
  show ?thesis
  proof
    assume "(p, c) \<in> edge_set hs"
    then show ?R
      unfolding eq by (auto simp: set_suppliers in_set_enumerate_eq)
  next
    assume r: ?R
    then obtain cap where "cap \<in> set (consumes (hs ! c))" "cap \<in> set (supplies (hs ! p))"
      by blast
    with r show "(p, c) \<in> edge_set hs"
      unfolding eq by (intro UN_I [of "(c, hs ! c)"] UN_I [of cap])
        (auto simp: set_suppliers in_set_enumerate_eq)
  qed
qed

lemma edge_set_range: "edge_set hs \<subseteq> {0..<length hs} \<times> {0..<length hs}"
  by (auto simp: edge_set_iff)

lemma build_graph:
  assumes "distinct es" and "set es \<subseteq> {0..<n} \<times> {0..<n}"
    and "build_graph n es = (edges, indegree)"
  shows "length edges = n \<and> length indegree = n \<and>
    (\<forall>p<n. distinct (edges ! p) \<and> set (edges ! p) = {c. (p, c) \<in> set es}) \<and>
    (\<forall>c<n. indegree ! c = int (card {p. (p, c) \<in> set es}))"
  using assms
proof (induction es arbitrary: edges indegree rule: rev_induct)
  case Nil
  then show ?case by (auto simp: build_graph_def)
next
  case (snoc e es)
  obtain p c where e: "e = (p, c)" by (cases e)
  obtain edges' indegree' where b: "build_graph n es = (edges', indegree')"
    by (cases "build_graph n es") auto
  have pc: "p < n" "c < n" "(p, c) \<notin> set es"
    using snoc.prems e by auto
  have IH: "length edges' = n" "length indegree' = n"
    "\<forall>p<n. distinct (edges' ! p) \<and> set (edges' ! p) = {c. (p, c) \<in> set es}"
    "\<forall>c<n. indegree' ! c = int (card {p. (p, c) \<in> set es})"
    using snoc.IH [OF _ _ b] snoc.prems by auto
  have new: "edges = edges'[p := edges' ! p @ [c]]" "indegree = indegree'[c := indegree' ! c + 1]"
    using snoc.prems(3) b by (auto simp: build_graph_def e)
  have fin: "finite {q. (q, c) \<in> set es}"
    by (rule finite_subset [of _ "fst ` set es"]) force+
  have "{q. (q, c) \<in> set (es @ [e])} = insert p {q. (q, c) \<in> set es}"
    by (auto simp: e)
  then have "card {q. (q, c) \<in> set (es @ [e])} = Suc (card {q. (q, c) \<in> set es})"
    using pc fin by simp
  moreover have "d \<noteq> c \<Longrightarrow> {q. (q, d) \<in> set (es @ [e])} = {q. (q, d) \<in> set es}" for d
    by (auto simp: e)
  ultimately show ?case
    using IH pc by (auto simp: new nth_list_update e)
qed


lemma relax_eq:
  assumes "distinct ss" and "\<forall>s \<in> set ss. s < length indegree"
  shows "fst (relax ss indegree ready) =
      map (\<lambda>i. indegree ! i - (if i \<in> set ss then 1 else 0)) [0..<length indegree]
    \<and> snd (relax ss indegree ready) = ready \<union> {s \<in> set ss. indegree ! s = 1}"
  using assms
proof (induction ss arbitrary: indegree ready)
  case Nil
  then show ?case by (simp add: map_nth)
next
  case (Cons s ss)
  define ind where "ind = indegree[s := indegree ! s - 1]"
  have l: "length ind = length indegree" by (simp add: ind_def)
  have "relax (s # ss) indegree ready = relax ss ind (if ind ! s = 0 then insert s ready else ready)"
    by (simp add: ind_def Let_def)
  moreover have "fst (relax ss ind r) =
      map (\<lambda>i. indegree ! i - (if i \<in> set (s # ss) then 1 else 0)) [0..<length indegree]" for r
    using Cons by (auto simp: l ind_def nth_list_update intro!: map_cong)
  moreover have "snd (relax ss ind (if ind ! s = 0 then insert s ready else ready)) =
      ready \<union> {x \<in> set (s # ss). indegree ! x = 1}"
    using Cons by (auto simp: l) (auto simp: ind_def nth_list_update split: if_splits)
  ultimately show ?case by simp
qed

text \<open>What holds before every round of the loop.\<close>

definition kahn_inv ::
  "(nat \<times> nat) set \<Rightarrow> nat \<Rightarrow> nat list list \<Rightarrow> int list \<Rightarrow> nat set \<Rightarrow> nat list \<Rightarrow> bool" where
  "kahn_inv E n edges indegree ready order \<longleftrightarrow>
     E \<subseteq> {0..<n} \<times> {0..<n} \<and>
     (\<forall>p<n. distinct (edges ! p) \<and> set (edges ! p) = {c. (p, c) \<in> E}) \<and>
     length indegree = n \<and>
     (\<forall>c<n. indegree ! c = int (card {p. (p, c) \<in> E \<and> p \<notin> set order})) \<and>
     ready = avail E n order \<and> greedy E n order"

lemma kahn_inv_step:
  assumes inv: "kahn_inv E n edges indegree ready order" and "ready \<noteq> {}"
    and step: "relax (edges ! Min ready) indegree (ready - {Min ready}) = (indegree', ready')"
  shows "kahn_inv E n edges indegree' ready' (order @ [Min ready])"
proof -
  define m where "m = Min ready"
  have E: "E \<subseteq> {0..<n} \<times> {0..<n}" "finite E"
    using inv finite_subset [of E "{0..<n} \<times> {0..<n}"] by (auto simp: kahn_inv_def)
  have r: "ready = avail E n order" and g: "greedy E n order"
    and len: "length indegree = n"
    and ind: "\<And>c. c < n \<Longrightarrow> indegree ! c = int (card {p. (p, c) \<in> E \<and> p \<notin> set order})"
    using inv by (auto simp: kahn_inv_def)
  have m: "m \<in> avail E n order"
    using assms(2) r by (auto simp: m_def intro: Min_in)
  then have mn: "m < n" "m \<notin> set order"
    by (auto simp: avail_def)
  have succ: "distinct (edges ! m)" "set (edges ! m) = {c. (m, c) \<in> E}"
    using inv mn by (auto simp: kahn_inv_def)
  have fin: "finite {p. (p, c) \<in> E \<and> P p}" for c P
    by (rule finite_subset [of _ "fst ` E"]) (use E(2) in force)+
  have card': "card {p. (p, c) \<in> E \<and> p \<notin> set order} =
      card {p. (p, c) \<in> E \<and> p \<notin> set (order @ [m])} + (if (m, c) \<in> E then 1 else 0)" for c
  proof (cases "(m, c) \<in> E")
    case True
    then have "{p. (p, c) \<in> E \<and> p \<notin> set order} = insert m {p. (p, c) \<in> E \<and> p \<notin> set (order @ [m])}"
      using mn by auto
    then show ?thesis
      using True fin [of c "\<lambda>p. p \<notin> set (order @ [m])"] by simp
  next
    case False
    then have "{p. (p, c) \<in> E \<and> p \<notin> set order} = {p. (p, c) \<in> E \<and> p \<notin> set (order @ [m])}"
      by auto
    then show ?thesis using False by simp
  qed
  have i': "indegree' = map (\<lambda>i. indegree ! i - (if (m, i) \<in> E then 1 else 0)) [0..<n]"
    and r': "ready' = (ready - {m}) \<union> {s. (m, s) \<in> E \<and> indegree ! s = 1}"
    using relax_eq [of "edges ! m" indegree "ready - {m}"] step succ E(1) len
    by (force simp: m_def [symmetric])+
  have ind': "\<forall>c<n. indegree' ! c = int (card {p. (p, c) \<in> E \<and> p \<notin> set (order @ [m])})"
    using ind card' by (simp add: i')
  have none: "c < n \<Longrightarrow> indegree ! c - (if (m, c) \<in> E then 1 else 0) = 0 \<longleftrightarrow>
      (\<forall>p. (p, c) \<in> E \<longrightarrow> p \<in> set (order @ [m]))" for c
    using ind [of c] card' [of c] fin [of c "\<lambda>p. p \<notin> set (order @ [m])"] by auto
  have "ready' = avail E n (order @ [m])"
  proof (rule set_eqI)
    fix c
    show "c \<in> ready' \<longleftrightarrow> c \<in> avail E n (order @ [m])"
    proof (cases "(m, c) \<in> E")
      case True
      have "c < n" using True E by auto
      moreover have "c \<noteq> m"
        using True m by (auto simp: avail_def)
      moreover have "c \<notin> set order"
        using True mn topological_closed [OF greedy_topological [OF g]] by blast
      moreover have "c \<notin> ready"
        using True mn by (auto simp: r avail_def)
      ultimately show ?thesis
        using True none [of c] by (auto simp: r' avail_def)
    qed (auto simp: r' r avail_def)
  qed
  moreover have "greedy E n (order @ [m])"
    using greedy_snoc [OF g] assms(2) r by (simp add: m_def)
  moreover have "Min (avail E n order) = m"
    using r by (simp add: m_def)
  ultimately show ?thesis
    using inv ind' by (simp add: kahn_inv_def m_def [symmetric] i')
qed


lemma kahn_loop_ends:
  assumes "kahn_inv E n edges indegree ready order"
  shows "\<exists>ord. kahn_loop edges indegree ready order = Some ord \<and> greedy E n ord \<and> avail E n ord = {}"
  using assms
proof (induction "n - length order" arbitrary: indegree ready order rule: less_induct)
  case less
  have g: "greedy E n order" and r: "ready = avail E n order"
    using less.prems by (simp_all add: kahn_inv_def)
  show ?case
  proof (cases "ready = {}")
    case True
    then show ?thesis
      using g r by (subst kahn_loop.simps) simp
  next
    case False
    obtain indegree' ready' where rel:
      "relax (edges ! Min ready) indegree (ready - {Min ready}) = (indegree', ready')"
      by (cases "relax (edges ! Min ready) indegree (ready - {Min ready})") auto
    note inv' = kahn_inv_step [OF less.prems False rel]
    have "length (order @ [Min ready]) \<le> n"
      using inv' greedy_length [of E n "order @ [Min ready]"] by (simp add: kahn_inv_def)
    then have "n - length (order @ [Min ready]) < n - length order"
      by simp
    from less.hyps [OF this inv'] show ?thesis
      using False rel by (subst kahn_loop.simps) simp
  qed
qed

definition hook_cycle :: "hook list \<Rightarrow> nat list \<Rightarrow> resolve_error" where
  "hook_cycle hs ord =
     Cycle (map (\<lambda>i. hk_name (hs ! i)) (filter (\<lambda>i. i \<notin> set ord) [0..<length hs]))"

lemma kahn_sort_result:
  "\<exists>ord. greedy (edge_set hs) (length hs) ord \<and> avail (edge_set hs) (length hs) ord = {} \<and>
     kahn_sort hs = Some (if length ord = length hs then Inr ord else Inl (hook_cycle hs ord))"
proof -
  let ?E = "edge_set hs" and ?n = "length hs"
  obtain edges indegree where b: "build_graph ?n (sorted_list_of_set ?E) = (edges, indegree)"
    by (cases "build_graph ?n (sorted_list_of_set ?E)") auto
  have fin: "finite ?E"
    using edge_set_range by (rule finite_subset) simp
  have g: "length edges = ?n \<and> length indegree = ?n \<and>
    (\<forall>p<?n. distinct (edges ! p) \<and> set (edges ! p) = {c. (p, c) \<in> ?E}) \<and>
    (\<forall>c<?n. indegree ! c = int (card {p. (p, c) \<in> ?E}))"
    using build_graph [OF _ _ b] fin edge_set_range by simp
  have pf: "finite {p. (p, c) \<in> ?E}" for c
    by (rule finite_subset [of _ "fst ` ?E"]) (use fin in force)+
  have "set (filter (\<lambda>i. indegree ! i = 0) [0..<?n]) = avail ?E ?n []"
    using g pf by (auto simp: avail_def)
  then have "kahn_inv ?E ?n edges indegree (set (filter (\<lambda>i. indegree ! i = 0) [0..<?n])) []"
    using g edge_set_range by (simp add: kahn_inv_def greedy_def)
  from kahn_loop_ends [OF this] show ?thesis
    using b by (auto simp: kahn_sort_def Let_def hook_cycle_def)
qed


section \<open>What resolution promises\<close>

lemma set_by_name [simp]: "set (by_name hs) = set hs" and mset_by_name [simp]: "mset (by_name hs) = mset hs"
  by (simp_all add: by_name_def)

lemma set_btree_strs [simp]: "set (btree_strs xs) = set xs"
  by (simp add: btree_strs_def)

definition constrained_of :: "hook list \<Rightarrow> hook list" where
  "constrained_of hooks = filter is_constrained (by_name hooks)"

definition unconstrained_of :: "hook list \<Rightarrow> hook list" where
  "unconstrained_of hooks = filter (\<lambda>h. \<not> is_constrained h) (by_name hooks)"

text \<open>A capability that is both provided and contributed to; a requirement nobody supplies.\<close>

definition both_kinds :: "hook list \<Rightarrow> rust_str set" where
  "both_kinds hooks = (\<Union>h \<in> set hooks. set (hk_provides h)) \<inter> (\<Union>h \<in> set hooks. set (hk_contributes h))"

definition unsupplied :: "hook list \<Rightarrow> (hook \<times> rust_str) set" where
  "unsupplied hooks = {(h, req). h \<in> set hooks \<and> req \<in> set (hk_requires h) \<and>
     (\<forall>s \<in> set hooks. req \<notin> set (supplies s))}"

lemma requires_constrained: "req \<in> set (hk_requires h) \<Longrightarrow> is_constrained h"
  by (auto simp: is_constrained_def consumes_def)

lemma resolve_cases:
  obtains (both) cap where "cap \<in> both_kinds hooks"
      and "resolve hooks = Some (Inl (Both_kinds cap
          (named_hooks hooks (\<lambda>h. cap \<in> set (hk_provides h)))
          (named_hooks hooks (\<lambda>h. cap \<in> set (hk_contributes h)))))"
  | (missing) h req where "both_kinds hooks = {}" and "(h, req) \<in> unsupplied hooks"
      and "resolve hooks = Some (Inl (Unsupplied (hk_name h) req))"
  | (cycle) ord where "both_kinds hooks = {}" and "unsupplied hooks = {}"
      and "\<not> acyclic (edge_set (constrained_of hooks))"
      and "resolve hooks = Some (Inl (hook_cycle (constrained_of hooks) ord))"
  | (ok) ord where "both_kinds hooks = {}" and "unsupplied hooks = {}"
      and "greedy (edge_set (constrained_of hooks)) (length (constrained_of hooks)) ord"
      and "length ord = length (constrained_of hooks)"
      and "resolve hooks = Some (Inr \<lparr>rs_order = map (\<lambda>i. hk_path (constrained_of hooks ! i)) ord
              @ map hk_path (unconstrained_of hooks),
            rs_warnings = map (\<lambda>h. No_metadata (hk_name h))
              (filter (\<lambda>h. \<not> hk_has_block h) (unconstrained_of hooks))\<rparr>)"
proof -
  define provided contributed where "provided = btree_strs (concat (map hk_provides hooks))"
    and "contributed = btree_strs (concat (map hk_contributes hooks))"
  define pairs where "pairs = concat (map (\<lambda>h. map (Pair h) (hk_requires h)) (constrained_of hooks))"
  have both_iff: "cap \<in> both_kinds hooks \<longleftrightarrow> cap \<in> set (filter (\<lambda>c. c \<in> set contributed) provided)" for cap
    by (auto simp: both_kinds_def provided_def contributed_def)
  have sup: "req \<notin> set provided \<union> set contributed \<longleftrightarrow> (\<forall>s \<in> set hooks. req \<notin> set (supplies s))" for req
    by (auto simp: provided_def contributed_def supplies_def)
  have pairs: "(h, req) \<in> set pairs \<longleftrightarrow> h \<in> set hooks \<and> req \<in> set (hk_requires h)" for h req
    by (auto simp: pairs_def constrained_of_def dest: requires_constrained)
  have unsup: "unsupplied hooks = {p \<in> set pairs. snd p \<notin> set provided \<union> set contributed}"
    unfolding unsupplied_def using sup pairs by auto
  note def = resolve_def [of hooks, folded constrained_of_def unconstrained_of_def,
      folded provided_def contributed_def, unfolded Let_def, folded constrained_of_def
      unconstrained_of_def, folded pairs_def]
  show ?thesis
  proof (cases "filter (\<lambda>c. c \<in> set contributed) provided")
    case (Cons cap rest)
    then show ?thesis
      using both [of cap] both_iff [of cap] by (simp add: def)
  next
    case Nil
    then have none: "both_kinds hooks = {}"
      using both_iff by auto
    show ?thesis
    proof (cases "find (\<lambda>(h, req). req \<notin> set provided \<union> set contributed) pairs")
      case (Some p)
      obtain h req where p: "p = (h, req)" by (cases p)
      then have "(h, req) \<in> unsupplied hooks"
        using Some unsup by (auto simp: find_Some_iff in_set_conv_nth)
      then show ?thesis
        using missing [OF none] Nil Some p by (simp add: def)
    next
      case None
      then have u: "unsupplied hooks = {}"
        using unsup by (auto simp: find_None_iff)
      obtain ord where ord: "greedy (edge_set (constrained_of hooks)) (length (constrained_of hooks)) ord"
        "avail (edge_set (constrained_of hooks)) (length (constrained_of hooks)) ord = {}"
        and k: "kahn_sort (constrained_of hooks) = Some (if length ord = length (constrained_of hooks)
           then Inr ord else Inl (hook_cycle (constrained_of hooks) ord))"
        using kahn_sort_result by blast
      show ?thesis
      proof (cases "length ord = length (constrained_of hooks)")
        case True
        then show ?thesis
          using ok [OF none u ord(1)] Nil None k by (simp add: def)
      next
        case False
        then have "card (set ord) \<noteq> card {0..<length (constrained_of hooks)}"
          using greedy_topological [OF ord(1)] by (simp add: topological_def distinct_card)
        then have "\<exists>c<length (constrained_of hooks). c \<notin> set ord"
          using greedy_subset [OF ord(1)] by (metis atLeastLessThan_iff subsetI subset_antisym zero_le)
        then have "\<not> acyclic (edge_set (constrained_of hooks))"
          by (rule stuck_cycle [OF ord(2) edge_set_range])
        then show ?thesis
          using cycle [OF none u] Nil None k False by (simp add: def)
      qed
    qed
  qed
qed


text \<open>The hooks in the order they run.\<close>

definition run_order :: "hook list \<Rightarrow> nat list \<Rightarrow> hook list" where
  "run_order hooks ord = map ((!) (constrained_of hooks)) ord @ unconstrained_of hooks"

lemma mset_run_order:
  assumes "greedy E (length (constrained_of hooks)) ord" and "length ord = length (constrained_of hooks)"
  shows "mset (run_order hooks ord) = mset hooks"
proof -
  have "distinct ord" and "set ord = {0..<length (constrained_of hooks)}"
    using greedy_topological [OF assms(1)] greedy_complete [OF assms] by (simp_all add: topological_def)
  then have "mset ord = mset [0..<length (constrained_of hooks)]"
    using mset_set_set [of ord] by simp
  then have "mset (map ((!) (constrained_of hooks)) ord) = mset (constrained_of hooks)"
    by (metis map_nth mset_map)
  then show ?thesis
    by (simp add: run_order_def constrained_of_def unconstrained_of_def multiset_partition [symmetric])
qed

text \<open>Nothing that runs later supplies what an earlier hook waits for.\<close>

lemma run_order_supplies:
  assumes g: "greedy (edge_set (constrained_of hooks)) (length (constrained_of hooks)) ord"
    and l: "length ord = length (constrained_of hooks)"
    and ij: "i < j" "j < length (run_order hooks ord)"
    and cap: "cap \<in> set (consumes (run_order hooks ord ! i))"
  shows "cap \<notin> set (supplies (run_order hooks ord ! j))"
proof
  assume s: "cap \<in> set (supplies (run_order hooks ord ! j))"
  have top: "topological (edge_set (constrained_of hooks)) ord" and set: "set ord = {0..<length (constrained_of hooks)}"
    using greedy_topological [OF g] greedy_complete [OF g l] by simp_all
  have "j < length ord"
  proof (rule ccontr)
    assume j: "\<not> j < length ord"
    then have "run_order hooks ord ! j \<in> set (unconstrained_of hooks)"
      using ij by (auto simp: run_order_def nth_append)
    with s show False
      by (auto simp: unconstrained_of_def is_constrained_def)
  qed
  then have e: "run_order hooks ord ! j = constrained_of hooks ! (ord ! j)"
    "run_order hooks ord ! i = constrained_of hooks ! (ord ! i)"
    using ij by (simp_all add: run_order_def nth_append)
  have "(ord ! j, ord ! i) \<in> edge_set (constrained_of hooks)"
    unfolding edge_set_iff using ij \<open>j < length ord\<close> top set nth_mem [of i ord] nth_mem [of j ord] s cap e
    by (auto simp: topological_def nth_eq_iff_index_eq simp del: nth_mem)
  then have "ord ! j \<in> set (take i ord)"
    using top ij \<open>j < length ord\<close> by (simp add: topological_def)
  then show False
    using top ij \<open>j < length ord\<close> by (auto simp: topological_def in_set_conv_nth nth_eq_iff_index_eq)
qed

lemma run_order_constrained_first:
  assumes "greedy E (length (constrained_of hooks)) ord" and "length ord = length (constrained_of hooks)"
    and "i < j" and "j < length (run_order hooks ord)" and "is_constrained (run_order hooks ord ! j)"
  shows "is_constrained (run_order hooks ord ! i)"
proof -
  have "j < length ord"
    using assms nth_mem [of "j - length ord" "unconstrained_of hooks"]
    by (auto simp: run_order_def nth_append unconstrained_of_def simp del: nth_mem split: if_splits)
  then have "ord ! i < length (constrained_of hooks)"
    using greedy_subset [OF assms(1)] assms(3) nth_mem [of i ord] by force
  then have "constrained_of hooks ! (ord ! i) \<in> set (constrained_of hooks)"
    by (rule nth_mem)
  then show ?thesis
    using \<open>j < length ord\<close> assms(3) by (simp add: run_order_def nth_append constrained_of_def)
qed

definition valid_hook :: "hook \<Rightarrow> bool" where
  "valid_hook h \<longleftrightarrow> valid_str (hk_name h) \<and> valid_str (hk_path h) \<and>
     (\<forall>c \<in> set (supplies h) \<union> set (consumes h). valid_str c)"

lemma by_name_unique:
  assumes "mset hooks = mset hooks'" and "\<forall>h \<in> set hooks. valid_hook h" and "distinct (map hk_name hooks)"
  shows "by_name hooks = by_name hooks'"
  unfolding by_name_def
proof (rule sort_key_eq_sort_key)
  show "inj_on (\<lambda>h. utf8 (hk_name h)) (set hooks)"
  proof (rule inj_onI)
    fix x y assume "x \<in> set hooks" "y \<in> set hooks" "utf8 (hk_name x) = utf8 (hk_name y)"
    moreover from this assms(2) have "hk_name x = hk_name y"
      by (auto simp: valid_hook_def intro: utf8_inj)
    ultimately show "x = y"
      using assms(3) by (auto simp: distinct_map dest: inj_onD)
  qed
qed (rule assms(1))

lemma btree_strs_unique:
  assumes "set xs = set ys" and "\<forall>s \<in> set xs. valid_str s"
  shows "btree_strs xs = btree_strs ys"
  unfolding btree_strs_def
proof (rule sort_key_eq_sort_key)
  show "mset (remdups xs) = mset (remdups ys)"
    using assms(1) by (simp add: set_eq_iff_mset_remdups_eq [symmetric])
  show "inj_on utf8 (set (remdups xs))"
    using assms(2) by (intro utf8_inj_on) simp
qed

lemma named_hooks_unique:
  assumes "mset hooks = mset hooks'" and "\<forall>h \<in> set hooks. valid_hook h"
  shows "named_hooks hooks p = named_hooks hooks' p"
  unfolding named_hooks_def
proof (rule sort_key_eq_sort_key)
  show "mset (map hk_name (filter p hooks)) = mset (map hk_name (filter p hooks'))"
    using assms(1) by simp
  show "inj_on utf8 (set (map hk_name (filter p hooks)))"
    using assms(2) by (intro utf8_inj_on) (auto simp: valid_hook_def)
qed

lemma resolve_perm:
  assumes "mset hooks = mset hooks'" and "\<forall>h \<in> set hooks. valid_hook h" and "distinct (map hk_name hooks)"
  shows "resolve hooks = resolve hooks'"
proof -
  have s: "set hooks = set hooks'"
    using assms(1) by (metis set_mset_mset)
  have "btree_strs (concat (map hk_provides hooks)) = btree_strs (concat (map hk_provides hooks'))"
    "btree_strs (concat (map hk_contributes hooks)) = btree_strs (concat (map hk_contributes hooks'))"
    using assms(2) s by (auto intro!: btree_strs_unique simp: valid_hook_def supplies_def)
  then show ?thesis
    unfolding resolve_def by_name_unique [OF assms] named_hooks_unique [OF assms(1,2)] by simp
qed

section \<open>Properties of the order\<close>

definition sample_hook :: "string \<Rightarrow> string list \<Rightarrow> string list \<Rightarrow> string list \<Rightarrow> hook" where
  "sample_hook name contributes requires after =
     \<lparr>hk_name = lit name, hk_path = lit (''/hooks/'' @ name), hk_provides = [],
      hk_contributes = map lit contributes, hk_requires = map lit requires,
      hk_after = map lit after, hk_has_block = True\<rparr>"

definition sample_hooks :: "hook list" where
  "sample_hooks =
     [sample_hook ''z'' [''initramfs-ready''] [] [],
      sample_hook ''a'' [] [''net''] [],
      sample_hook ''m'' [''net''] [] []]"

lemma sample_resolved:
  "resolve (apply_implicit_ordering sample_hooks) = Some (Inr
     \<lparr>rs_order = map (\<lambda>s. lit (''/hooks/'' @ s)) [''z'', ''m'', ''a''], rs_warnings = []\<rparr>)"
  by code_simp

lemma resolve_run_order:
  assumes "resolve hooks = Some (Inr r)"
  obtains ord where "rs_order r = map hk_path (run_order hooks ord)"
    and "greedy (edge_set (constrained_of hooks)) (length (constrained_of hooks)) ord"
    and "length ord = length (constrained_of hooks)"
proof (cases hooks rule: resolve_cases)
  case (ok ord)
  show ?thesis
    by (rule that [OF _ ok(3,4)]) (use ok(5) assms in \<open>simp add: run_order_def\<close>)
qed (use assms in auto)

text \<open>C7. When \<open>resolve\<close> succeeds, its order runs every hook exactly once, never a hook before
  another that supplies a capability it waits for (by \<open>requires\<close> or \<open>after\<close>), and every hook that
  declares an ordering before those that declare none.\<close>

theorem resolve_order:
  assumes "resolve hooks = Some (Inr r)"
  shows "\<exists>ks. rs_order r = map hk_path ks \<and> mset ks = mset hooks \<and>
    (\<forall>i j. i < j \<longrightarrow> j < length ks \<longrightarrow>
       set (consumes (ks ! i)) \<inter> set (supplies (ks ! j)) = {} \<and>
       (is_constrained (ks ! j) \<longrightarrow> is_constrained (ks ! i)))"
proof -
  obtain ord where o: "rs_order r = map hk_path (run_order hooks ord)"
    "greedy (edge_set (constrained_of hooks)) (length (constrained_of hooks)) ord"
    "length ord = length (constrained_of hooks)"
    using resolve_run_order [OF assms] .
  show ?thesis
    using o mset_run_order [OF o(2,3)] run_order_supplies [OF o(2,3)]
      run_order_constrained_first [OF o(2,3)]
    by (intro exI [of _ "run_order hooks ord"]) blast
qed

theorem resolve_order_witness:
  "\<exists>ks. map (\<lambda>s. lit (''/hooks/'' @ s)) [''z'', ''m'', ''a''] = map hk_path ks \<and>
     mset ks = mset (apply_implicit_ordering sample_hooks)"
  using resolve_order [OF sample_resolved] by (simp only: resolved.simps) blast

text \<open>C15. \<open>resolve\<close> always returns, and it succeeds exactly when no capability is both provided and
  contributed to, every required capability is supplied by some hook, and the hooks with an
  ordering have no cycle of one supplying what the next waits for.\<close>

theorem resolve_succeeds:
  "resolve hooks \<noteq> None \<and>
   ((\<exists>r. resolve hooks = Some (Inr r)) \<longleftrightarrow>
      both_kinds hooks = {} \<and> unsupplied hooks = {} \<and> acyclic (edge_set (constrained_of hooks)))"
proof (cases hooks rule: resolve_cases)
  case (ok ord)
  have "acyclic (edge_set (constrained_of hooks))"
    using topological_acyclic [OF greedy_topological [OF ok(3)]] edge_set_range [of "constrained_of hooks"]
      greedy_complete [OF ok(3,4)] by auto
  with ok show ?thesis by simp
qed auto

text \<open>The order does not depend on the order in which the directories list their files: for
  hooks of distinct names, \<open>resolve\<close> gives the same result, errors included, on every permutation
  of the list.\<close>

theorem resolve_deterministic:
  assumes "mset hooks = mset hooks'" and "\<forall>h \<in> set hooks. valid_hook h"
    and "distinct (map hk_name hooks)"
  shows "resolve hooks = resolve hooks'"
  using assms by (rule resolve_perm)

theorem resolve_deterministic_witness:
  "resolve sample_hooks = resolve (rev sample_hooks)"
  by (rule resolve_deterministic)
    (simp_all add: sample_hooks_def sample_hook_def valid_hook_def valid_str_def supplies_def
      consumes_def lit_def is_scalar_def)

text \<open>\<open>kahn_sort\<close> breaks ties by name: its order is the least, in the lexicographic order of
  the indices of the name-sorted list, of all the orders that run suppliers before consumers.\<close>

theorem kahn_sort_least:
  assumes "kahn_sort hs = Some (Inr ord)"
  shows "topological (edge_set hs) ord \<and> set ord = {0..<length hs} \<and>
    (\<forall>ys. topological (edge_set hs) ys \<and> set ys = {0..<length hs} \<longrightarrow> ord \<le> ys)"
proof -
  obtain g: "greedy (edge_set hs) (length hs) ord" and l: "length ord = length hs"
    using kahn_sort_result [of hs] assms by (auto split: if_splits)
  show ?thesis
    using greedy_topological [OF g] greedy_complete [OF g l] greedy_lex_least [OF g l] by blast
qed

theorem kahn_sort_least_witness:
  "\<exists>ord. kahn_sort sample_hooks = Some (Inr ord) \<and> set ord = {0..<length sample_hooks}"
proof -
  have "kahn_sort sample_hooks = Some (Inr [0, 2, 1])"
    by code_simp
  from kahn_sort_least [OF this] this show ?thesis
    by blast
qed

lemma implicit_after_simps [simp]:
  "supplies (implicit_after h) = supplies h"
  "is_constrained (implicit_after h) = is_constrained h"
  "hk_path (implicit_after h) = hk_path h"
  by (auto simp: implicit_after_def supplies_def is_constrained_def consumes_def)

lemma implicit_after_waits:
  "is_constrained h \<Longrightarrow> INITRAMFS_READY \<notin> set (supplies h) \<Longrightarrow>
   INITRAMFS_READY \<in> set (consumes (implicit_after h))"
  by (auto simp: implicit_after_def consumes_def)

text \<open>C22. With the implicit ordering applied, the hooks that make up \<open>initramfs-ready\<close> run before
  all the others: no hook that does not supply it precedes one that does.\<close>

theorem ready_suppliers_first:
  assumes "resolve (apply_implicit_ordering hooks) = Some (Inr r)"
  shows "\<exists>ks. rs_order r = map hk_path ks \<and> mset ks = mset (apply_implicit_ordering hooks) \<and>
    (\<forall>i j. i < j \<and> j < length ks \<and> INITRAMFS_READY \<in> set (supplies (ks ! j)) \<longrightarrow>
       INITRAMFS_READY \<in> set (supplies (ks ! i)))"
proof -
  let ?hs = "apply_implicit_ordering hooks"
  obtain ord where o: "rs_order r = map hk_path (run_order ?hs ord)"
    "greedy (edge_set (constrained_of ?hs)) (length (constrained_of ?hs)) ord"
    "length ord = length (constrained_of ?hs)"
    using resolve_run_order [OF assms] .
  have m: "mset (run_order ?hs ord) = mset ?hs"
    by (rule mset_run_order [OF o(2,3)])
  have "INITRAMFS_READY \<in> set (supplies (run_order ?hs ord ! i))"
    if ij: "i < j" "j < length (run_order ?hs ord)"
      and s: "INITRAMFS_READY \<in> set (supplies (run_order ?hs ord ! j))" for i j
  proof (rule ccontr)
    assume n: "INITRAMFS_READY \<notin> set (supplies (run_order ?hs ord ! i))"
    have "run_order ?hs ord ! i \<in> set ?hs"
      using ij nth_mem [of i "run_order ?hs ord"] by (simp add: mset_eq_setD [OF m])
    then obtain h where h: "run_order ?hs ord ! i = implicit_after h"
      by (auto simp: apply_implicit_ordering_def)
    have "is_constrained (run_order ?hs ord ! j)"
      using s by (auto simp: is_constrained_def)
    then have "is_constrained h"
      using run_order_constrained_first [OF o(2,3) ij] h by simp
    with n h have "INITRAMFS_READY \<in> set (consumes (run_order ?hs ord ! i))"
      by (simp add: implicit_after_waits)
    from run_order_supplies [OF o(2,3) ij this] s show False by simp
  qed
  with o m show ?thesis by blast
qed

theorem ready_suppliers_first_witness:
  "\<exists>ks. map (\<lambda>s. lit (''/hooks/'' @ s)) [''z'', ''m'', ''a''] = map hk_path ks \<and>
    (\<forall>i j. i < j \<and> j < length ks \<and> INITRAMFS_READY \<in> set (supplies (ks ! j)) \<longrightarrow>
       INITRAMFS_READY \<in> set (supplies (ks ! i)))"
  using ready_suppliers_first [OF sample_resolved] by (simp only: resolved.simps) blast

section \<open>Capability names and discovery\<close>

definition hook_tokens :: "hook \<Rightarrow> bool" where
  "hook_tokens h \<longleftrightarrow> (\<forall>c \<in> set (supplies h) \<union> set (consumes h). is_capability_token c)"

lemma array_elements_tokens:
  "array_elements es = Inr vs \<Longrightarrow> list_all is_capability_token vs"
proof (induction es arbitrary: vs)
  case (Cons e es)
  then show ?case
    by (cases "array_element e"; cases "array_elements es")
      (auto simp: array_element_def Let_def split: if_splits option.splits)
qed simp

lemma parse_string_array_tokens:
  "parse_string_array s = Inr vs \<Longrightarrow> list_all is_capability_token vs"
  by (auto simp: parse_string_array_def Let_def split: option.splits if_splits
      dest: array_elements_tokens)

definition slots_tokens :: "toml_slots \<Rightarrow> bool" where
  "slots_tokens s \<longleftrightarrow> list_all is_capability_token (unwrap_or_default (ts_provides s)) \<and>
     list_all is_capability_token (unwrap_or_default (ts_contributes s)) \<and>
     list_all is_capability_token (unwrap_or_default (ts_requires s)) \<and>
     list_all is_capability_token (unwrap_or_default (ts_after s))"

lemma toml_slot_tokens:
  "toml_slot key = Some (get, fill) \<Longrightarrow> slots_tokens s \<Longrightarrow> list_all is_capability_token v \<Longrightarrow>
   slots_tokens (fill v s)"
  by (auto simp: toml_slot_def slots_tokens_def unwrap_or_default_def split: if_splits)

lemma toml_line_tokens:
  "toml_line n raw s = Inr s' \<Longrightarrow> slots_tokens s \<Longrightarrow> slots_tokens s'"
proof (cases "trim raw = [] \<or> hd (trim raw) = 35")
  case False
  assume a: "toml_line n raw s = Inr s'" "slots_tokens s"
  obtain key val where k: "split_once 61 (trim raw) = Some (key, val)"
    using a(1) False by (cases "split_once 61 (trim raw)") (auto simp: toml_line_def)
  obtain get fill where g: "toml_slot (trim key) = Some (get, fill)"
    using a(1) False k by (cases "toml_slot (trim key)") (auto simp: toml_line_def)
  obtain v where v: "parse_string_array (trim val) = Inr v"
    using a(1) False k g
    by (cases "parse_string_array (trim val)") (auto simp: toml_line_def split: if_splits)
  have "s' = fill v s"
    using a(1) False k g v by (simp add: toml_line_def split: if_splits)
  then show ?thesis
    using toml_slot_tokens [OF g a(2) parse_string_array_tokens [OF v]] by simp
qed (simp add: toml_line_def)

lemma toml_lines_tokens:
  "toml_lines content s = Inr s' \<Longrightarrow> slots_tokens s \<Longrightarrow> slots_tokens s'"
proof (induction content s rule: toml_lines.induct)
  case (2 n raw content slots)
  then show ?case
    by (cases "toml_line n raw slots") (auto dest: toml_line_tokens)
qed simp

lemma parse_block_tokens:
  assumes "parse_block text = Inr p"
  shows "hook_tokens (hook_of dest name p)"
proof -
  have t: "slots_tokens no_slots"
    by (simp add: slots_tokens_def no_slots_def unwrap_or_default_def)
  show ?thesis
  proof (cases "position (\<lambda>l. trim_end l = FENCE_OPEN) (lines text)")
    case None
    with assms show ?thesis
      by (auto simp: parse_block_def hook_tokens_def hook_of_def supplies_def consumes_def parsed_default_def)
  next
    case (Some k)
    obtain content s where "block_content (k + 1) (drop (k + 1) (lines text)) = Inr content"
      and s: "toml_lines content no_slots = Inr s"
      and p: "p = \<lparr>pb_provides = unwrap_or_default (ts_provides s),
         pb_contributes = unwrap_or_default (ts_contributes s),
         pb_requires = unwrap_or_default (ts_requires s),
         pb_after = unwrap_or_default (ts_after s), pb_has_block = True\<rparr>"
      using assms Some
      by (auto simp: parse_block_def parse_toml_subset_def result_bind_def Let_def
          split: sum.splits if_splits)
    then show ?thesis
      using toml_lines_tokens [OF s t]
      by (auto simp: hook_tokens_def hook_of_def supplies_def consumes_def slots_tokens_def list_all_iff)
  qed
qed

lemma discover_children_tokens:
  assumes "discover_children dest es hs = Inr hs'" and "\<forall>h \<in> set hs. hook_tokens h"
  shows "\<forall>h \<in> set hs'. hook_tokens h"
  using assms
proof (induction es arbitrary: hs)
  case (Cons e es)
  obtain d where d: "e = Inr d"
    using Cons.prems(1) by (cases e) auto
  obtain b where b: "dc_is_file d = Inr b"
    using Cons.prems(1) d by (cases "dc_is_file d") auto
  show ?case
  proof (cases b)
    case True
    obtain tx where t: "dc_text d = Inr tx"
      using Cons.prems(1) d b True by (cases "dc_text d") auto
    obtain p where p: "parse_block tx = Inr p"
      using Cons.prems(1) d b True t by (cases "parse_block tx") auto
    have "hook_tokens (hook_of dest (dc_name d) p)"
      using p by (rule parse_block_tokens)
    with Cons.prems(2) have "\<forall>h \<in> set (hs @ [hook_of dest (dc_name d) p]). hook_tokens h"
      by simp
    then show ?thesis
      using Cons.IH [of "hs @ [hook_of dest (dc_name d) p]"] Cons.prems(1) d b t p True by simp
  next
    case False
    then show ?thesis
      using Cons.IH [of hs] Cons.prems d b by simp
  qed
qed simp

lemma discover_in_tokens:
  assumes "discover_in read_dir dest = Inr hs" and "h \<in> set hs"
  shows "hook_tokens h"
proof -
  obtain es where es: "read_dir dest = Inr es"
    using assms(1) by (cases "read_dir dest") (auto simp: discover_in_def)
  obtain hs' where hs': "discover_children dest es [] = Inr hs'"
    using assms(1) es by (cases "discover_children dest es []") (auto simp: discover_in_def)
  have "set hs = set hs'"
    using assms(1) es hs' by (auto simp: discover_in_def)
  with assms(2) show ?thesis
    using discover_children_tokens [OF hs'] by simp
qed

text \<open>The hooks of one directory, none where it is no directory or cannot be read.\<close>

definition dir_hooks ::
  "(rust_str \<Rightarrow> bool) \<Rightarrow> (rust_str \<Rightarrow> 'e + ('e + 'e dir_child) list) \<Rightarrow> rust_str \<Rightarrow> hook list" where
  "dir_hooks is_dir read_dir dest =
     (if is_dir dest then case discover_in read_dir dest of Inr hs \<Rightarrow> hs | Inl _ \<Rightarrow> [] else [])"

lemma dir_hooks_tokens:
  assumes "h \<in> set (dir_hooks is_dir read_dir d)"
  shows "hook_tokens h"
proof (cases "is_dir d")
  case True
  show ?thesis
  proof (cases "discover_in read_dir d")
    case (Inr hs)
    then show ?thesis
      using assms discover_in_tokens [OF Inr, of h] True by (simp add: dir_hooks_def)
  qed (use assms True in \<open>simp add: dir_hooks_def\<close>)
qed (use assms in \<open>simp add: dir_hooks_def\<close>)

lemma find_name_None: "find (\<lambda>w. hk_name w = n) hooks = None \<longleftrightarrow> n \<notin> hk_name ` set hooks"
  by (auto simp: find_None_iff)

lemma merge_dir_eq:
  assumes "distinct (map hk_name hs)"
  shows "fst (merge_dir dest hs hooks ws) = hooks @ filter (\<lambda>h. hk_name h \<notin> hk_name ` set hooks) hs"
  using assms
proof (induction dest hs hooks ws rule: merge_dir.induct)
  case (2 dest h hs hooks ws)
  show ?case
  proof (cases "find (\<lambda>w. hk_name w = hk_name h) hooks")
    case None
    then have f: "hk_name h \<notin> hk_name ` set hooks"
      by (simp add: find_name_None)
    have "filter (\<lambda>x. hk_name x \<notin> hk_name ` set (hooks @ [h])) hs =
        filter (\<lambda>x. hk_name x \<notin> hk_name ` set hooks) hs"
      using 2(3) by (intro filter_cong) (auto simp: image_iff)
    then show ?thesis
      using 2(1) [OF None] 2(3) None f by simp
  next
    case (Some w)
    then have "hk_name h \<in> hk_name ` set hooks"
      using find_name_None [of "hk_name h" hooks] by auto
    then show ?thesis
      using 2 Some by simp
  qed
qed simp

text \<open>What precedence leaves: a hook stays unless a directory before its own has one of its name.\<close>

fun shadowing :: "(rust_str \<Rightarrow> hook list) \<Rightarrow> rust_str list \<Rightarrow> hook list \<Rightarrow> hook list" where
  "shadowing found [] hooks = hooks"
| "shadowing found (d # ds) hooks =
     shadowing found ds (hooks @ filter (\<lambda>h. hk_name h \<notin> hk_name ` set hooks) (found d))"

lemma discover_dirs_shadowing:
  assumes "discover_dirs is_dir read_dir ds hooks ws = Inr (hs, ws')"
    and "\<forall>d \<in> set ds. distinct (map hk_name (dir_hooks is_dir read_dir d))"
  shows "hs = shadowing (dir_hooks is_dir read_dir) ds hooks"
  using assms
proof (induction ds arbitrary: hooks ws)
  case (Cons d ds)
  show ?case
  proof (cases "is_dir d")
    case True
    then obtain dh where dh: "discover_in read_dir d = Inr dh"
      using Cons.prems by (cases "discover_in read_dir d") auto
    obtain hooks' ws'' where m: "merge_dir d dh hooks ws = (hooks', ws'')"
      by (cases "merge_dir d dh hooks ws") auto
    have "hooks' = hooks @ filter (\<lambda>h. hk_name h \<notin> hk_name ` set hooks) dh"
      using merge_dir_eq [of dh d hooks ws] m Cons.prems(2) True dh by (simp add: dir_hooks_def)
    then show ?thesis
      using Cons.IH [of hooks' ws''] Cons.prems True dh m by (simp add: dir_hooks_def)
  next
    case False
    then show ?thesis
      using Cons by (simp add: dir_hooks_def)
  qed
qed simp

lemma set_shadowing:
  "h \<in> set (shadowing found ds hooks) \<longleftrightarrow> h \<in> set hooks \<or>
     (hk_name h \<notin> hk_name ` set hooks \<and>
      (\<exists>i < length ds. h \<in> set (found (ds ! i)) \<and> (\<forall>j < i. hk_name h \<notin> hk_name ` set (found (ds ! j)))))"
proof (induction ds arbitrary: hooks)
  case (Cons d ds)
  show ?case
  proof (cases "hk_name h \<in> hk_name ` set hooks")
    case True
    then show ?thesis
      unfolding shadowing.simps Cons.IH by auto
  next
    case False
    have "(\<exists>i < length (d # ds). h \<in> set (found ((d # ds) ! i)) \<and>
        (\<forall>j < i. hk_name h \<notin> hk_name ` set (found ((d # ds) ! j)))) \<longleftrightarrow>
      h \<in> set (found d) \<or> (hk_name h \<notin> hk_name ` set (found d) \<and>
        (\<exists>i < length ds. h \<in> set (found (ds ! i)) \<and>
          (\<forall>j < i. hk_name h \<notin> hk_name ` set (found (ds ! j)))))"
      by (auto simp: Ex_less_Suc2 All_less_Suc2)
    moreover have "hk_name h \<in> hk_name ` set (hooks @ filter (\<lambda>h. hk_name h \<notin> hk_name ` set hooks) (found d))
        \<longleftrightarrow> hk_name h \<in> hk_name ` set (found d)"
      using False by (auto simp: image_iff) metis?
    ultimately show ?thesis
      unfolding shadowing.simps Cons.IH using False by auto
  qed
qed simp


lemma distinct_shadowing:
  assumes "\<forall>d \<in> set ds. distinct (map hk_name (found d))" and "distinct (map hk_name hooks)"
  shows "distinct (map hk_name (shadowing found ds hooks))"
  using assms
proof (induction ds arbitrary: hooks)
  case (Cons d ds)
  have "distinct (map hk_name (hooks @ filter (\<lambda>h. hk_name h \<notin> hk_name ` set hooks) (found d)))"
    using Cons.prems by (simp add: distinct_map_filter disjoint_iff) (metis (no_types, lifting) imageE mem_Collect_eq)
  with Cons show ?case by simp
qed simp

lemma discover_all_set:
  assumes "discover_all is_dir read_dir = Inr (hs, ws)"
    and "\<forall>d \<in> set HOOK_DIRS. distinct (map hk_name (dir_hooks is_dir read_dir d))"
  shows "mset hs = mset (shadowing (dir_hooks is_dir read_dir) HOOK_DIRS [])"
proof -
  obtain hs' ws' where d: "discover_dirs is_dir read_dir HOOK_DIRS [] [] = Inr (hs', ws')"
    using assms(1) by (cases "discover_dirs is_dir read_dir HOOK_DIRS [] []") (auto simp: discover_all_def)
  have "mset hs = mset hs'"
    using assms(1) d by (auto simp: discover_all_def)
  with discover_dirs_shadowing [OF d assms(2)] show ?thesis by simp
qed

text \<open>Discovery keeps one hook per file name: of the hooks of all the directories, exactly those
  whose name no directory of higher precedence has; and every capability any of them names is a
  bare token, so that no name can break a line of a sequence file.\<close>

theorem discover_precedence:
  assumes "discover_all is_dir read_dir = Inr (hs, ws)"
    and "\<forall>d \<in> set HOOK_DIRS. distinct (map hk_name (dir_hooks is_dir read_dir d))"
  shows "distinct (map hk_name hs) \<and> (\<forall>h \<in> set hs. hook_tokens h) \<and>
    set hs = {h. \<exists>i < length HOOK_DIRS. h \<in> set (dir_hooks is_dir read_dir (HOOK_DIRS ! i)) \<and>
      (\<forall>j < i. hk_name h \<notin> hk_name ` set (dir_hooks is_dir read_dir (HOOK_DIRS ! j)))}"
proof -
  let ?f = "dir_hooks is_dir read_dir"
  note m = discover_all_set [OF assms]
  have s: "set hs = set (shadowing ?f HOOK_DIRS [])"
    using m by (rule mset_eq_setD)
  have "distinct (map hk_name (shadowing ?f HOOK_DIRS []))"
    by (rule distinct_shadowing) (use assms(2) in simp_all)
  then have "distinct (map hk_name hs)"
    using m by (metis mset_eq_imp_distinct_iff mset_map)
  moreover have set: "h \<in> set hs \<longleftrightarrow> (\<exists>i < length HOOK_DIRS. h \<in> set (?f (HOOK_DIRS ! i)) \<and>
      (\<forall>j < i. hk_name h \<notin> hk_name ` set (?f (HOOK_DIRS ! j))))" for h
    using set_shadowing [of h ?f HOOK_DIRS "[]"] by (simp add: s)
  moreover have "hook_tokens h" if "h \<in> set hs" for h
    using that dir_hooks_tokens unfolding set by blast
  ultimately show ?thesis
    by (intro conjI ballI set_eqI) (assumption | simp add: set)+
qed

definition sample_read_dir :: "rust_str \<Rightarrow> unit + (unit + unit dir_child) list" where
  "sample_read_dir d =
     Inr [Inr \<lparr>dc_name = lit ''b'', dc_is_file = Inr True, dc_text = Inr []\<rparr>]"

lemma sample_discover_in:
  "discover_in sample_read_dir d = Inr [hook_of d (lit ''b'') parsed_default]"
  by (simp add: discover_in_def sample_read_dir_def parse_block_def lines_def by_name_def)

text \<open>Two directories with a file of the same name: the operator's wins, the other is reported.\<close>

theorem discover_precedence_witness:
  "\<exists>ws. discover_all (\<lambda>d. d \<noteq> LEGACY_HOOK_DIR) sample_read_dir =
      Inr ([hook_of (HOOK_DIRS ! 0) (lit ''b'') parsed_default], ws) \<and>
    hook_tokens (hook_of (HOOK_DIRS ! 0) (lit ''b'') parsed_default)"
proof -
  define isd where "isd = (\<lambda>d. d \<noteq> LEGACY_HOOK_DIR)"
  have ne: "lit ''lcl/libexec/prelude/hooks.d'' \<noteq> lit ''hooks''"
    "lit ''usr/libexec/prelude/hooks.d'' \<noteq> lit ''hooks''"
    by (simp_all add: lit_def)
  have "\<exists>ws. discover_all isd sample_read_dir =
      Inr ([hook_of (HOOK_DIRS ! 0) (lit ''b'') parsed_default], ws)"
    by (simp add: discover_all_def HOOK_DIRS_def isd_def LEGACY_HOOK_DIR_def sample_discover_in ne
        by_name_def hook_of_def)
  moreover have "\<forall>d \<in> set HOOK_DIRS. distinct (map hk_name (dir_hooks isd sample_read_dir d))"
    by (simp add: dir_hooks_def sample_discover_in)
  ultimately show ?thesis
    using discover_precedence [of isd sample_read_dir] unfolding isd_def [symmetric] by fastforce
qed

section \<open>Reading a sequence file back\<close>

text \<open>
  A reader of version 2: the lines after the marker; a \<open>hook\<close> line opens a stanza, the lines
  that follow it are a key and capabilities separated by blanks. The first component collects the
  declarations before the first stanza of the rest.
\<close>

type_synonym seq_decl = "rust_str \<times> rust_str list"

fun read_stanzas :: "rust_str list \<Rightarrow> (seq_decl list \<times> (rust_str \<times> seq_decl list) list)" where
  "read_stanzas [] = ([], [])"
| "read_stanzas (l # ls) =
     (let (decls, stanzas) = read_stanzas ls in
      case strip_prefix (lit ''hook '') l of
        Some path \<Rightarrow> ([], (path, decls) # stanzas)
      | None \<Rightarrow> (case split_on 32 l of key # caps \<Rightarrow> ((key, caps) # decls, stanzas)
                | [] \<Rightarrow> (decls, stanzas)))"

definition read_seq_v2 :: "rust_str \<Rightarrow> (rust_str \<times> seq_decl list) list option" where
  "read_seq_v2 t =
     (case lines t of
        [] \<Rightarrow> None
      | l # ls \<Rightarrow> if l = SEQ_V2_VERSION_LINE then Some (snd (read_stanzas ls)) else None)"

definition decls_of :: "hook \<Rightarrow> seq_decl list" where
  "decls_of h = filter (\<lambda>(_, caps). caps \<noteq> [])
     [(lit ''provides'', hk_provides h), (lit ''contributes'', hk_contributes h),
      (lit ''requires'', hk_requires h), (lit ''after'', hk_after h)]"

definition decl_line :: "seq_decl \<Rightarrow> rust_str" where
  "decl_line d = fst d @ concat (map (\<lambda>cap. 32 # cap) (snd d))"

lemma seq_stanza_lines:
  "seq_stanza m path = concat (map (\<lambda>l. l @ [10])
     ((lit ''hook '' @ path) # (case m path of None \<Rightarrow> [] | Some h \<Rightarrow> map decl_line (decls_of h))))"
  by (auto simp: seq_stanza_def seq_line_def decls_of_def decl_line_def split: option.splits)

lemma token_chars:
  "is_capability_token c \<Longrightarrow> x \<in> set c \<Longrightarrow> is_ascii_alnum x \<or> x = 46 \<or> x = 95 \<or> x = 45"
  by (cases c) (auto simp: is_capability_token_def list_all_iff)

lemma token_clean: "is_capability_token c \<Longrightarrow> 32 \<notin> set c \<and> 10 \<notin> set c \<and> 13 \<notin> set c"
  using token_chars [of c] by (fastforce simp: is_ascii_alnum_def)

lemma split_on_words:
  "\<forall>c \<in> set (w # ws). x \<notin> set c \<Longrightarrow> split_on x (w @ concat (map ((#) x) ws)) = w # ws"
proof (induction ws arbitrary: w)
  case Nil
  then show ?case by (simp add: split_on_no_sep)
next
  case (Cons v ws)
  then show ?case by (simp add: split_on_append_sep)
qed

lemma split_on_terminated:
  "\<forall>l \<in> set ls. x \<notin> set l \<Longrightarrow> split_on x (concat (map (\<lambda>l. l @ [x]) ls)) = ls @ [[]]"
  by (induction ls) (simp_all add: split_on_append_sep)

lemma lines_terminated:
  assumes "\<forall>l \<in> set ls. 10 \<notin> set l \<and> 13 \<notin> set l"
  shows "lines (concat (map (\<lambda>l. l @ [10]) ls)) = ls"
proof -
  have "strip_cr l = l" if "l \<in> set ls" for l
    using assms that by (cases l rule: rev_cases) (auto simp: strip_cr_def strip_suffix_def)
  then show ?thesis
    using assms by (simp add: lines_def Let_def split_on_terminated map_idI)
qed

lemma strip_prefix_append [simp]: "strip_prefix p (p @ s) = Some s"
  by (simp add: strip_prefix_def)

definition decl_keys :: "rust_str set" where
  "decl_keys = {lit ''provides'', lit ''contributes'', lit ''requires'', lit ''after''}"

lemma decl_line_not_hook:
  "k \<in> decl_keys \<Longrightarrow> strip_prefix (lit ''hook '') (decl_line (k, caps)) = None"
  by (auto simp: strip_prefix_def decl_line_def decl_keys_def lit_def)

lemma read_decl_line:
  assumes "k \<in> decl_keys" and "\<forall>c \<in> set caps. is_capability_token c"
  shows "read_stanzas (decl_line (k, caps) # ls) =
    ((k, caps) # fst (read_stanzas ls), snd (read_stanzas ls))"
proof -
  have "32 \<notin> set k"
    using assms(1) by (auto simp: decl_keys_def lit_def)
  then have "split_on 32 (decl_line (k, caps)) = k # caps"
    using split_on_words [of k caps 32] assms(2) token_clean by (simp add: decl_line_def)
  then show ?thesis
    by (simp add: decl_line_not_hook [OF assms(1)] split: prod.splits)
qed

lemma read_decl_lines:
  assumes "\<forall>(k, caps) \<in> set ds. k \<in> decl_keys \<and> (\<forall>c \<in> set caps. is_capability_token c)"
  shows "read_stanzas (map decl_line ds @ ls) = (ds @ fst (read_stanzas ls), snd (read_stanzas ls))"
  using assms by (induction ds) (auto simp: read_decl_line simp del: read_stanzas.simps)

lemma decls_of_clean:
  assumes "hook_tokens h"
  shows "\<forall>(k, caps) \<in> set (decls_of h). k \<in> decl_keys \<and> (\<forall>c \<in> set caps. is_capability_token c)"
  using assms by (auto simp: decls_of_def decl_keys_def hook_tokens_def supplies_def consumes_def)

lemma decl_line_clean:
  assumes "hook_tokens h" and "d \<in> set (decls_of h)"
  shows "10 \<notin> set (decl_line d) \<and> 13 \<notin> set (decl_line d)"
proof -
  have "fst d \<in> decl_keys" and "\<forall>c \<in> set (snd d). is_capability_token c"
    using decls_of_clean [OF assms(1)] assms(2) by auto
  moreover from this have "10 \<notin> set (fst d)" and "13 \<notin> set (fst d)"
    by (auto simp: decl_keys_def lit_def)
  ultimately show ?thesis
    using token_clean by (auto simp: decl_line_def)
qed

lemma by_path_Some:
  "distinct (map hk_path hooks) \<Longrightarrow> h \<in> set hooks \<Longrightarrow> by_path hooks (hk_path h) = Some h"
  unfolding by_path_def by (rule map_of_is_SomeI) (auto simp: rev_map [symmetric] o_def)

lemma read_all_stanzas:
  assumes "\<forall>h \<in> set ks. hook_tokens h \<and> m (hk_path h) = Some h"
  shows "read_stanzas (concat (map (\<lambda>h. (lit ''hook '' @ hk_path h) # map decl_line (decls_of h)) ks)) =
    ([], map (\<lambda>h. (hk_path h, decls_of h)) ks)"
  using assms
proof (induction ks)
  case (Cons h ks)
  then show ?case
    by (simp add: read_decl_lines [OF decls_of_clean] split: prod.splits)
qed simp

text \<open>A version-2 sequence file says what it was made of: read back, it is one stanza per hook in
  the resolved order, with that hook's path and exactly its non-empty declarations, for hooks of
  distinct paths without line ends whose capabilities are tokens.\<close>

theorem seq_v2_roundtrip:
  assumes "set ks \<subseteq> set hooks" and "distinct (map hk_path hooks)"
    and "\<forall>h \<in> set hooks. hook_tokens h \<and> 10 \<notin> set (hk_path h) \<and> 13 \<notin> set (hk_path h)"
  shows "\<exists>t. render_seq_v2 hooks (map hk_path ks) = utf8 t \<and>
    read_seq_v2 t = Some (map (\<lambda>h. (hk_path h, decls_of h)) ks)"
proof -
  define body where "body = concat (map (\<lambda>h. (lit ''hook '' @ hk_path h) # map decl_line (decls_of h)) ks)"
  define t where "t = concat (map (\<lambda>l. l @ [10]) (SEQ_V2_VERSION_LINE # body))"
  have m: "by_path hooks (hk_path h) = Some h" if "h \<in> set ks" for h
    using that assms by (intro by_path_Some) auto
  have "concat (map (seq_stanza (by_path hooks) \<circ> hk_path) ks) = concat (map (\<lambda>l. l @ [10]) body)"
    unfolding body_def using m by (induction ks) (simp_all add: seq_stanza_lines)
  then have r: "render_seq_v2 hooks (map hk_path ks) = utf8 t"
    by (simp add: render_seq_v2_def t_def)
  have "\<forall>l \<in> set (SEQ_V2_VERSION_LINE # body). 10 \<notin> set l \<and> 13 \<notin> set l"
    using assms decl_line_clean by (fastforce simp: body_def SEQ_V2_VERSION_LINE_def lit_def)
  then have "lines t = SEQ_V2_VERSION_LINE # body"
    unfolding t_def by (rule lines_terminated)
  moreover have "\<forall>h \<in> set ks. hook_tokens h \<and> by_path hooks (hk_path h) = Some h"
    using assms m by auto
  note read_all_stanzas [OF this]
  ultimately have "read_seq_v2 t = Some (map (\<lambda>h. (hk_path h, decls_of h)) ks)"
    by (simp add: read_seq_v2_def body_def)
  with r show ?thesis by blast
qed

theorem seq_v2_roundtrip_witness:
  "\<exists>t. render_seq_v2 sample_hooks (map hk_path (rev sample_hooks)) = utf8 t \<and>
    read_seq_v2 t = Some (map (\<lambda>h. (hk_path h, decls_of h)) (rev sample_hooks))"
  by (rule seq_v2_roundtrip)
    (simp_all add: sample_hooks_def sample_hook_def lit_def hook_tokens_def supplies_def consumes_def
      is_capability_token_def is_ascii_alnum_def)

end
