(* ===== verification/Mkirf_Build.thy ===== *)
theory Mkirf_Build
  imports Mkirf_Cpio Mkirf_Hooks
begin

text \<open>
  \<open>src/uu/mkirf/src/walk.rs\<close> and \<open>build.rs\<close>: walking a source tree into archive entries, adding
  the generated sequence files, merging the early segments and writing the image. The tree on
  disk is a value, in the order \<open>read_dir\<close> lists it; which paths the exclude globs match (the
  \<open>glob\<close> crate) and the compressor are parameters.
\<close>

section \<open>Walking a tree\<close>

text \<open>
  What \<open>symlink_metadata\<close> says of a child. \<open>Entry_error\<close> is a child whose listing fails,
  \<open>Stat_error\<close> one whose metadata cannot be read, \<open>Dir_error\<close> a directory that cannot be listed,
  \<open>Link_error\<close> a link that cannot be read.
\<close>

datatype node =
    Dir_node "(bytes \<times> node) list"
  | File_node u64 u32
  | Symlink_node bytes
  | Device_node bool u64
  | Fifo_node
  | Other_node
  | Entry_error
  | Stat_error
  | Dir_error
  | Link_error

datatype walk_error =
    Walk_io bytes
  | Unsupported_type bytes

definition dev_major :: "u64 \<Rightarrow> u64" where
  "dev_major dev = (drop_bit 8 dev AND 0xfff) OR (drop_bit 32 dev AND NOT 0xfff)"

definition dev_minor :: "u64 \<Rightarrow> u64" where
  "dev_minor dev = (dev AND 0xff) OR (drop_bit 12 dev AND NOT 0xff)"

text \<open>\<open>Path::join\<close> and \<open>strip_prefix(root)\<close>: the path of a child below the root.\<close>

definition child_path :: "bytes \<Rightarrow> bytes \<Rightarrow> bytes" where
  "child_path dir name = (if dir = [] then name else dir @ 47 # name)"

text \<open>The execute bits are \<open>0o111\<close>, 73.\<close>

fun node_body :: "bytes \<Rightarrow> bytes \<Rightarrow> node \<Rightarrow> body option" where
  "node_body root rel (Dir_node _) = Some Directory"
| "node_body root rel (Symlink_node target) = Some (Symlink target)"
| "node_body root rel (File_node sz mode) =
     Some (File (root @ 47 # rel) sz (mode AND 73 \<noteq> 0))"
| "node_body root rel (Device_node block rdev) =
     Some (Device block (dev_major rdev) (dev_minor rdev))"
| "node_body root rel Fifo_node = Some Fifo"
| "node_body root rel _ = None"

definition node_error :: "bytes \<Rightarrow> node \<Rightarrow> walk_error" where
  "node_error rel nd = (if nd = Other_node then Unsupported_type rel else Walk_io rel)"

text \<open>The loop over the children of a directory; \<open>out\<close> is the list the entries are pushed to.\<close>

function collect ::
  "(bytes \<Rightarrow> bool) \<Rightarrow> bytes \<Rightarrow> bytes \<Rightarrow> (bytes \<times> node) list \<Rightarrow> cpio_entry list \<Rightarrow>
   walk_error + cpio_entry list" where
  "collect excluded root dir [] out = Inr out"
| "collect excluded root dir ((name, nd) # rest) out =
     (let rel = child_path dir name in
      if nd = Entry_error then Inl (Walk_io dir)
      else if excluded rel then collect excluded root dir rest out
      else case node_body root rel nd of
        None \<Rightarrow> Inl (node_error rel nd)
      | Some b \<Rightarrow>
          (let pushed = out @ [\<lparr>ce_name = rel, ce_body = b\<rparr>] in
           case (case nd of
                   Dir_node children \<Rightarrow> collect excluded root rel children pushed
                 | _ \<Rightarrow> Inr pushed) of
             Inl e \<Rightarrow> Inl e
           | Inr out' \<Rightarrow> collect excluded root dir rest out'))"
  by pat_completeness auto
termination
  by (relation "measure (\<lambda>(_, _, _, cs, _). size_list (size_prod (\<lambda>_. 0) size) cs)") auto

definition walk :: "(bytes \<Rightarrow> bool) \<Rightarrow> bytes \<Rightarrow> (bytes \<times> node) list \<Rightarrow> walk_error + cpio_entry list" where
  "walk excluded root children =
     result_bind (collect excluded root [] children []) (\<lambda>es. Inr (sort_key ce_name es))"

section \<open>Early segments\<close>

definition EARLY_DIR :: bytes where "EARLY_DIR = ascii ''++''"

definition starts_with_early :: "bytes \<Rightarrow> bool" where
  "starts_with_early name \<longleftrightarrow> take 3 name = ascii ''++/''"

datatype build_error =
    Not_a_directory
  | Init_not_executable
  | Init_not_a_file
  | No_init
  | Reserved_exists bytes
  | Early_not_a_directory
  | Segment_not_a_directory bytes
  | Segment_conflict bytes
  | Build_io
  | Build_walk walk_error
  | Build_resolve resolve_error
  | Build_discover

text \<open>The fold over the sorted entries; \<open>out\<close> is what was kept so far.\<close>

fun dedup_loop :: "cpio_entry list \<Rightarrow> cpio_entry list \<Rightarrow> build_error + cpio_entry list" where
  "dedup_loop [] out = Inr out"
| "dedup_loop (e # es) out =
     (if out \<noteq> [] \<and> ce_name (last out) = ce_name e then
        (if ce_body (last out) = Directory \<and> ce_body e = Directory then dedup_loop es out
         else Inl (Segment_conflict (ce_name e)))
      else dedup_loop es (out @ [e]))"

definition dedup_segment_dirs :: "cpio_entry list \<Rightarrow> build_error + cpio_entry list" where
  "dedup_segment_dirs entries = dedup_loop entries []"

text \<open>
  The children of \<open>++\<close>, sorted by path, each walked with no excludes. \<open>None\<close>: there is no \<open>++\<close>.
\<close>

fun walk_segments :: "bytes \<Rightarrow> (bytes \<times> node) list \<Rightarrow> cpio_entry list \<Rightarrow> build_error + cpio_entry list" where
  "walk_segments segs [] entries = Inr entries"
| "walk_segments segs ((name, nd) # rest) entries =
     (case nd of
        Dir_node children \<Rightarrow>
          (case walk (\<lambda>_. False) (segs @ 47 # name) children of
             Inl e \<Rightarrow> Inl (Build_walk e)
           | Inr seg \<Rightarrow> walk_segments segs rest (entries @ seg))
      | Dir_error \<Rightarrow> Inl (Build_walk (Walk_io []))
      | Stat_error \<Rightarrow> Inl Build_io
      | _ \<Rightarrow> Inl (Segment_not_a_directory name))"

definition collect_early :: "bytes \<Rightarrow> node option \<Rightarrow> build_error + cpio_entry list" where
  "collect_early src segs =
     (case segs of
        None \<Rightarrow> Inr []
      | Some Stat_error \<Rightarrow> Inr []
      | Some Dir_error \<Rightarrow> Inl Build_io
      | Some (Dir_node children) \<Rightarrow>
          if list_ex (\<lambda>(_, nd). nd = Entry_error) children then Inl Build_io
          else result_bind (walk_segments (src @ ascii ''/++'') (sort_key fst children) [])
            (\<lambda>entries. dedup_segment_dirs (sort_key ce_name entries))
      | Some _ \<Rightarrow> Inl Early_not_a_directory)"

section \<open>The main archive\<close>

definition SEQ_DIR :: bytes where "SEQ_DIR = ascii ''system/prelude''"

text \<open>One ancestor after the other; \<open>prefix\<close> is the path so far.\<close>

fun add_ancestors :: "bytes list \<Rightarrow> bytes \<Rightarrow> cpio_entry list \<Rightarrow> cpio_entry list" where
  "add_ancestors [] prefix entries = entries"
| "add_ancestors (c # cs) prefix entries =
     (let name = (if prefix \<noteq> [] then prefix @ [47] else prefix) @ c
      in add_ancestors cs name
           (if list_ex (\<lambda>e. ce_name e = name) entries then entries
            else entries @ [\<lparr>ce_name = name, ce_body = Directory\<rparr>]))"

definition add_missing_ancestors :: "cpio_entry list \<Rightarrow> bytes \<Rightarrow> cpio_entry list" where
  "add_missing_ancestors entries dir = add_ancestors (split_on 47 dir) [] entries"

definition seq_name :: "string \<Rightarrow> bytes" where
  "seq_name version = SEQ_DIR @ ascii ''/hooks.seq.'' @ ascii version"

text \<open>The generated manifests, one entry per format version.\<close>

definition seq_entries :: "hook list \<Rightarrow> rust_str list \<Rightarrow> cpio_entry list" where
  "seq_entries hooks order =
     [\<lparr>ce_name = seq_name ''1'', ce_body = Inline (render_seq order) False\<rparr>,
      \<lparr>ce_name = seq_name ''2'', ce_body = Inline (render_seq_v2 hooks order) False\<rparr>]"

text \<open>Everything \<open>run\<close> does to the walked entries before the archive is written.\<close>

definition keep_entry :: "cpio_entry \<Rightarrow> bool" where
  "keep_entry e \<longleftrightarrow> ce_name e \<noteq> EARLY_DIR \<and> \<not> starts_with_early (ce_name e)"

definition main_entries :: "cpio_entry list \<Rightarrow> hook list \<Rightarrow> rust_str list \<Rightarrow> cpio_entry list" where
  "main_entries walked hooks order =
     sort_key ce_name
       (add_missing_ancestors (filter keep_entry walked @ seq_entries hooks order) SEQ_DIR)"

text \<open>
  The layout check: what \<open>fs::metadata\<close> gives for \<open>init\<close> (regular file or not, and its mode) and
  which paths of the source exist.
\<close>

definition validate_layout :: "(bool \<times> u32) option \<Rightarrow> (bytes \<Rightarrow> bool) \<Rightarrow> build_error + unit" where
  "validate_layout init present =
     (case init of
        Some (True, mode) \<Rightarrow>
          if mode AND 73 = 0 then Inl Init_not_executable
          else (case find present [ascii ''hooks.seq'', seq_name ''1'', seq_name ''2''] of
                  Some r \<Rightarrow> Inl (Reserved_exists r)
                | None \<Rightarrow> Inr ())
      | Some (False, _) \<Rightarrow> Inl Init_not_a_file
      | None \<Rightarrow> Inl No_init)"

definition resolve_hooks ::
  "(rust_str \<Rightarrow> bool) \<Rightarrow> (rust_str \<Rightarrow> 'e + ('e + 'e dir_child) list) \<Rightarrow>
   (build_error + (hook list \<times> rust_str list)) option" where
  "resolve_hooks is_dir read_dir =
     (case discover_all is_dir read_dir of
        Inl _ \<Rightarrow> Some (Inl Build_discover)
      | Inr (hooks, _) \<Rightarrow>
          if hooks = [] then Some (Inr ([], []))
          else
            let hooks = apply_implicit_ordering hooks
            in map_option (\<lambda>r. case r of
                 Inl e \<Rightarrow> Inl (Build_resolve e)
               | Inr res \<Rightarrow> Inr (hooks, rs_order res)) (resolve hooks))"

text \<open>
  The image: the early region uncompressed, then the compressed archive. A failed archive leaves
  an unfinished image; \<open>run\<close> removes it.
\<close>

definition write_image ::
  "(path \<Rightarrow> 'k source) \<Rightarrow> (bytes \<Rightarrow> bytes) \<Rightarrow> cpio_entry list \<Rightarrow> cpio_entry list \<Rightarrow>
   ('k, unit) cpio_op" where
  "write_image open_copy compress early main =
     op_bind (if early = [] then op_return () else write_early_archive open_copy early) (\<lambda>_ w.
       case write_archive open_copy main [] of
         (Inl e, part) \<Rightarrow> (Inl e, w)
       | (Inr _, m) \<Rightarrow> (Inr (), w @ compress m))"

definition temp_path :: "bytes \<Rightarrow> bytes \<Rightarrow> bytes" where
  "temp_path out pid = out @ ascii ''.mkirf-tmp-'' @ pid"

text \<open>
  The last step of \<open>run\<close>, on the files of the output directory: write the staging file, remove it
  when that failed, else rename it onto the output (which may fail and leave it).
\<close>

definition publish ::
  "(path \<Rightarrow> 'k source) \<Rightarrow> (bytes \<Rightarrow> bytes) \<Rightarrow> bool \<Rightarrow> bytes \<Rightarrow> bytes \<Rightarrow>
   cpio_entry list \<Rightarrow> cpio_entry list \<Rightarrow> (bytes \<Rightarrow> bytes option) \<Rightarrow>
   (build_error + unit) \<times> (bytes \<Rightarrow> bytes option)" where
  "publish open_copy compress rename_ok pid out early main files =
     (let tmp = temp_path out pid in
      case write_image open_copy compress early main [] of
        (Inl _, part) \<Rightarrow> (Inl Build_io, (files(tmp \<mapsto> part))(tmp := None))
      | (Inr _, img) \<Rightarrow>
          let files = files(tmp \<mapsto> img) in
          if rename_ok then (Inr (), (files(out := files tmp))(tmp := None))
          else (Inl Build_io, files))"

section \<open>What the walk finds\<close>

text \<open>
  \<open>reached\<close>: a path below \<open>dir\<close> and its node, when neither it nor a directory above it is excluded.
\<close>

inductive reached ::
  "(bytes \<Rightarrow> bool) \<Rightarrow> bytes \<Rightarrow> (bytes \<times> node) list \<Rightarrow> bytes \<Rightarrow> node \<Rightarrow> bool"
  for excluded :: "bytes \<Rightarrow> bool" where
  here: "(name, nd) \<in> set cs \<Longrightarrow> \<not> excluded (child_path dir name) \<Longrightarrow>
    reached excluded dir cs (child_path dir name) nd"
| below: "(name, Dir_node ds) \<in> set cs \<Longrightarrow> \<not> excluded (child_path dir name) \<Longrightarrow>
    reached excluded (child_path dir name) ds rel nd \<Longrightarrow> reached excluded dir cs rel nd"

lemma reached_iff: "reached excluded dir cs rel nd \<longleftrightarrow>
    (\<exists>name. (name, nd) \<in> set cs \<and> \<not> excluded (child_path dir name) \<and> rel = child_path dir name) \<or>
    (\<exists>name ds. (name, Dir_node ds) \<in> set cs \<and> \<not> excluded (child_path dir name) \<and>
       reached excluded (child_path dir name) ds rel nd)"
  by (subst reached.simps) blast

lemma reached_Nil [simp]: "\<not> reached excluded dir [] rel nd"
  by (subst reached_iff) simp

lemma reached_Cons: "reached excluded dir ((name, x) # cs) rel nd \<longleftrightarrow>
   (\<not> excluded (child_path dir name) \<and> ((rel = child_path dir name \<and> nd = x) \<or>
      (\<exists>ds. x = Dir_node ds \<and> reached excluded (child_path dir name) ds rel nd)))
   \<or> reached excluded dir cs rel nd"
  unfolding reached_iff [of excluded dir "(name, x) # cs"] reached_iff [of excluded dir cs] by auto

definition tree_entries ::
  "(bytes \<Rightarrow> bool) \<Rightarrow> bytes \<Rightarrow> bytes \<Rightarrow> (bytes \<times> node) list \<Rightarrow> cpio_entry set" where
  "tree_entries excluded root dir cs =
     {e. \<exists>nd. reached excluded dir cs (ce_name e) nd \<and> node_body root (ce_name e) nd = Some (ce_body e)}"

lemma tree_entries_Nil [simp]: "tree_entries excluded root dir [] = {}"
  by (simp add: tree_entries_def)

lemma tree_entries_Cons:
  "tree_entries excluded root dir ((name, nd) # cs) =
     (if excluded (child_path dir name) then {}
      else (case node_body root (child_path dir name) nd of
              None \<Rightarrow> {} | Some b \<Rightarrow> {\<lparr>ce_name = child_path dir name, ce_body = b\<rparr>})
        \<union> (case nd of Dir_node ds \<Rightarrow> tree_entries excluded root (child_path dir name) ds | _ \<Rightarrow> {}))
     \<union> tree_entries excluded root dir cs"
  by (auto simp: tree_entries_def reached_Cons split: option.splits node.splits)

text \<open>Names a file system can have: non-empty, without a slash, distinct in a directory.\<close>

fun tree_names_ok :: "node \<Rightarrow> bool" where
  "tree_names_ok (Dir_node cs) \<longleftrightarrow> distinct (map fst cs) \<and>
     (\<forall>(name, nd) \<in> set cs. name \<noteq> [] \<and> 47 \<notin> set name \<and> tree_names_ok nd)"
| "tree_names_ok _ \<longleftrightarrow> True"

definition below_path :: "bytes \<Rightarrow> bytes \<Rightarrow> bool" where
  "below_path p q \<longleftrightarrow> q = p \<or> (\<exists>r. q = p @ 47 # r)"

lemma below_child: "name \<noteq> [] \<Longrightarrow> below_path (child_path dir name) q \<Longrightarrow> dir \<noteq> [] \<Longrightarrow> below_path dir q"
  by (auto simp: below_path_def child_path_def)

lemma slash_split:
  assumes "(47 :: u8) \<notin> set a" and "47 \<notin> set b" and "a @ 47 # x = b @ 47 # y"
  shows "a = b"
proof -
  have "takeWhile (\<lambda>c. c \<noteq> (47 :: u8)) (p @ 47 # z) = p" if "47 \<notin> set p" for p z
    using that by (subst takeWhile_append2) auto
  from this [OF assms(1), of x] this [OF assms(2), of y] assms(3) show ?thesis
    by simp
qed

lemma below_unique:
  "47 \<notin> set a \<Longrightarrow> 47 \<notin> set b \<Longrightarrow> below_path a q \<Longrightarrow> below_path b q \<Longrightarrow> a = b"
  unfolding below_path_def using slash_split [of a b] by fastforce

lemma below_child_unique:
  assumes "47 \<notin> set a" and "47 \<notin> set b"
    and "below_path (child_path dir a) q" and "below_path (child_path dir b) q"
  shows "a = b"
proof (cases "dir = []")
  case True
  then show ?thesis
    using assms by (simp add: child_path_def below_unique)
next
  case False
  have strip: "\<exists>q'. q = dir @ 47 # q' \<and> below_path c q'" if "below_path (child_path dir c) q" for c
    using that False by (auto simp: child_path_def below_path_def)
  obtain q' where "q = dir @ 47 # q'" "below_path a q'"
    using strip [OF assms(3)] by blast
  moreover from this strip [OF assms(4)] have "below_path b q'"
    by auto
  ultimately show ?thesis
    using assms(1,2) below_unique by blast
qed

lemma child_path_nonempty: "name \<noteq> [] \<Longrightarrow> child_path dir name \<noteq> []"
  by (simp add: child_path_def)

lemma below_child_trans:
  "child_path dir name \<noteq> [] \<Longrightarrow> below_path (child_path (child_path dir name) n) q \<Longrightarrow>
   below_path (child_path dir name) q"
  by (auto simp: below_path_def child_path_def)

lemma reached_below:
  assumes "reached excluded dir cs rel nd" and "tree_names_ok (Dir_node cs)"
  shows "\<exists>(name, x) \<in> set cs. below_path (child_path dir name) rel"
  using assms
proof induction
  case (here name nd cs dir)
  then show ?case
    by (intro bexI [of _ "(name, nd)"]) (auto simp: below_path_def)
next
  case (below name ds cs dir rel nd)
  then have ok: "tree_names_ok (Dir_node ds)" "name \<noteq> []"
    by fastforce+
  then obtain n x where "(n, x) \<in> set ds" "below_path (child_path (child_path dir name) n) rel"
    using below.IH by blast
  then have "below_path (child_path dir name) rel"
    using below_child_trans child_path_nonempty [OF ok(2)] by blast
  then show ?case
    using below.hyps(1) by blast
qed

text \<open>The directory a path lies in is reached as a directory.\<close>

lemma reached_parent:
  assumes "reached excluded dir cs rel nd" and "tree_names_ok (Dir_node cs)"
    and "rel = p @ 47 # n" and "47 \<notin> set n"
  shows "p = dir \<or> (\<exists>ds. reached excluded dir cs p (Dir_node ds))"
  using assms
proof induction
  case (here name nd cs dir)
  then have name: "47 \<notin> set name" by fastforce
  show ?case
  proof (cases "dir = []")
    case True
    with here name show ?thesis by (auto simp: child_path_def)
  next
    case False
    have "rev (p @ 47 # n) = rev (dir @ 47 # name)"
      using here.prems(2) False by (simp add: child_path_def)
    then have "rev n @ 47 # rev p = rev name @ 47 # rev dir"
      by simp
    then show ?thesis
      using slash_split [of "rev n" "rev name"] name here.prems(3) by auto
  qed
next
  case (below name ds cs dir rel nd)
  have ok: "tree_names_ok (Dir_node ds)"
    using below by fastforce
  from below.IH [OF ok below.prems(2,3)] show ?case
    using below.hyps reached.here [of name "Dir_node ds"] reached.below [of name ds] by blast
qed

lemma reached_not_excluded: "reached excluded dir cs rel nd \<Longrightarrow> \<not> excluded rel"
  by (induction rule: reached.induct) auto

section \<open>What collect returns\<close>

lemma entries_below:
  assumes "e \<in> tree_entries excluded root dir cs" and "tree_names_ok (Dir_node cs)"
  obtains n x where "(n, x) \<in> set cs" and "n \<noteq> []" and "47 \<notin> set n"
    and "below_path (child_path dir n) (ce_name e)"
proof -
  obtain nd where "reached excluded dir cs (ce_name e) nd"
    using assms(1) by (auto simp: tree_entries_def)
  then obtain n x where n: "(n, x) \<in> set cs" "below_path (child_path dir n) (ce_name e)"
    using reached_below [OF _ assms(2)] by blast
  with assms(2) have "n \<noteq> []" and "47 \<notin> set n"
    by (simp, blast)+
  then show thesis
    using that n by blast
qed

lemma below_child_proper:
  "dir \<noteq> [] \<Longrightarrow> below_path (child_path dir n) q \<Longrightarrow> below_path dir q \<and> q \<noteq> dir"
  by (auto simp: below_path_def child_path_def)

lemma collect_spec:
  assumes "collect excluded root dir cs out = Inr out'" and "tree_names_ok (Dir_node cs)"
  shows "\<exists>es. out' = out @ es \<and> set es = tree_entries excluded root dir cs \<and> distinct (map ce_name es)"
  using assms
proof (induction excluded root dir cs out arbitrary: out' rule: collect.induct)
  case (1 excluded root dir out)
  then show ?case by simp
next
  case (2 excluded root dir name nd rest out)
  define rel where "rel = child_path dir name"
  have names: "name \<noteq> []" "47 \<notin> set name" "tree_names_ok nd" "name \<notin> fst ` set rest"
    and rest_ok: "tree_names_ok (Dir_node rest)"
    using 2(5) by (simp_all del: image_iff)
  have ne: "nd \<noteq> Entry_error"
    using 2(4) by auto
  show ?case
  proof (cases "excluded rel")
    case True
    then show ?thesis
      using 2(1) [OF rel_def ne True _ rest_ok] 2(4) ne by (simp add: tree_entries_Cons rel_def)
  next
    case False
    obtain b where b: "node_body root rel nd = Some b"
      using 2(4) ne False by (cases "node_body root rel nd") (auto simp: rel_def)
    define pushed where "pushed = out @ [\<lparr>ce_name = rel, ce_body = b\<rparr>]"
    define ds where "ds = (case nd of Dir_node ds \<Rightarrow> ds | _ \<Rightarrow> [])"
    define sub where "sub = (case nd of Dir_node ds \<Rightarrow> collect excluded root rel ds pushed | _ \<Rightarrow> Inr pushed)"
    obtain out1 where out1: "sub = Inr out1" and rest: "collect excluded root dir rest out1 = Inr out'"
      using 2(4) ne False b by (cases sub) (simp_all add: rel_def [symmetric] pushed_def [symmetric] sub_def [symmetric])
    have t: "tree_entries excluded root dir ((name, nd) # rest) =
        insert \<lparr>ce_name = rel, ce_body = b\<rparr> (tree_entries excluded root rel ds)
          \<union> tree_entries excluded root dir rest"
      using False b by (auto simp: tree_entries_Cons rel_def [symmetric] ds_def split: node.splits)
    have "\<exists>es. out1 = pushed @ es \<and> set es = tree_entries excluded root rel ds \<and> distinct (map ce_name es)"
    proof (cases "\<exists>ds. nd = Dir_node ds")
      case True
      then obtain ds' where nd: "nd = Dir_node ds'" by blast
      show ?thesis
        using 2(2) [OF rel_def ne False b pushed_def nd, of out1] out1 names(3) by (simp add: sub_def nd ds_def)
    next
      case False
      then show ?thesis
        using out1 by (auto simp: sub_def ds_def split: node.splits)
    qed
    then obtain es1 where es1: "out1 = pushed @ es1" "set es1 = tree_entries excluded root rel ds"
      "distinct (map ce_name es1)"
      by blast
    obtain es2 where es2: "out' = out1 @ es2" "set es2 = tree_entries excluded root dir rest"
      "distinct (map ce_name es2)"
      using 2(3) [OF rel_def ne False b pushed_def] out1 rest rest_ok unfolding sub_def by blast
    have ds_ok: "tree_names_ok (Dir_node ds)"
      using names(3) by (cases nd) (simp_all add: ds_def)
    have rel: "rel \<noteq> []"
      using names(1) by (simp add: rel_def child_path_nonempty)
    have below1: "below_path rel (ce_name e) \<and> ce_name e \<noteq> rel" if "e \<in> set es1" for e
      using that unfolding es1(2) by (rule entries_below [OF _ ds_ok]) (use below_child_proper [OF rel] in blast)
    have apart: "\<not> below_path rel (ce_name e)" if e: "e \<in> set es2" for e
    proof -
      obtain n x where n: "(n, x) \<in> set rest" "47 \<notin> set n" "below_path (child_path dir n) (ce_name e)"
        using e unfolding es2(2) by (rule entries_below [OF _ rest_ok])
      then have "n \<noteq> name"
        using names(4) by force
      then show ?thesis
        using below_child_unique [OF n(2) names(2) n(3)] by (auto simp: rel_def)
    qed
    have "below_path rel rel"
      by (simp add: below_path_def)
    then have "distinct (map ce_name (\<lparr>ce_name = rel, ce_body = b\<rparr> # es1 @ es2))"
      using es1(3) es2(3) below1 apart by (simp add: disjoint_iff image_iff) metis
    then show ?thesis
      using es1 es2 t by (intro exI [of _ "\<lparr>ce_name = rel, ce_body = b\<rparr> # es1 @ es2"])
        (simp add: pushed_def)
  qed
qed

lemma walk_ok:
  assumes "walk excluded root children = Inr es" and "tree_names_ok (Dir_node children)"
  shows "set es = tree_entries excluded root [] children \<and> sorted_wrt (<) (map ce_name es) \<and>
    (\<forall>i < length es. \<forall>p n. p \<noteq> [] \<and> ce_name (es ! i) = p @ 47 # n \<and> 47 \<notin> set n \<longrightarrow>
       (\<exists>j < i. es ! j = \<lparr>ce_name = p, ce_body = Directory\<rparr>))"
proof -
  obtain es' where c: "collect excluded root [] children [] = Inr es'" and es: "es = sort_key ce_name es'"
    using assms(1) by (cases "collect excluded root [] children []") (auto simp: walk_def)
  have set': "set es' = tree_entries excluded root [] children" and d: "distinct (map ce_name es')"
    using collect_spec [OF c assms(2)] by auto
  have set: "set es = tree_entries excluded root [] children"
    using es set' by simp
  have "distinct (map ce_name es)"
    using d unfolding es by (metis mset_eq_imp_distinct_iff mset_map mset_sort)
  then have ord: "sorted_wrt (<) (map ce_name es)"
    by (simp add: es strict_sorted_iff)
  have par: "\<exists>j < i. es ! j = \<lparr>ce_name = p, ce_body = Directory\<rparr>"
    if i: "i < length es" and p: "p \<noteq> []" and e: "ce_name (es ! i) = p @ 47 # n" and n: "47 \<notin> set n" for i p n
  proof -
    have "es ! i \<in> tree_entries excluded root [] children"
      using i set nth_mem by blast
    then obtain nd where "reached excluded [] children (ce_name (es ! i)) nd"
      by (auto simp: tree_entries_def)
    from reached_parent [OF this assms(2) e n] p obtain ds
      where "reached excluded [] children p (Dir_node ds)"
      by auto
    then have "\<lparr>ce_name = p, ce_body = Directory\<rparr> \<in> set es"
      unfolding set tree_entries_def by (auto intro!: exI [of _ "Dir_node ds"])
    then obtain j where j: "j < length es" "es ! j = \<lparr>ce_name = p, ce_body = Directory\<rparr>"
      by (auto simp: in_set_conv_nth)
    have "\<not> i \<le> j"
    proof
      assume "i \<le> j"
      then have "ce_name (es ! i) \<le> ce_name (es ! j)"
        using ord i j(1) by (cases "i = j") (auto simp: sorted_wrt_iff_nth_less intro: less_imp_le)
      then have "ce_name (es ! i) \<le> p"
        using j by simp
      moreover have "p < p @ 47 # n"
        by (simp add: list_less_def lexord_append_rightI)
      ultimately show False
        using e by simp
    qed
    with j show ?thesis by (intro exI [of _ j]) simp
  qed
  with set ord show ?thesis by blast
qed


text \<open>C25. The walk of a tree gives an entry for exactly the paths that are neither excluded nor below
  an excluded directory, in strictly increasing byte order of their names, each after the entry of
  the directory it lies in. The order in which directories list their children has no influence.\<close>

theorem walk_entries:
  assumes "walk excluded root children = Inr es" and "tree_names_ok (Dir_node children)"
  shows "set es = tree_entries excluded root [] children \<and> sorted_wrt (<) (map ce_name es) \<and>
    (\<forall>i < length es. \<forall>p n. p \<noteq> [] \<and> ce_name (es ! i) = p @ 47 # n \<and> 47 \<notin> set n \<longrightarrow>
       (\<exists>j < i. es ! j = \<lparr>ce_name = p, ce_body = Directory\<rparr>))"
  using assms by (rule walk_ok)

definition sample_tree :: "(bytes \<times> node) list" where
  "sample_tree = [(ascii ''usr'', Dir_node [(ascii ''x'', Fifo_node)]), (ascii ''init'', File_node 3 493)]"

theorem walk_entries_witness:
  "\<exists>es. walk (\<lambda>_. False) [] sample_tree = Inr es \<and> sorted_wrt (<) (map ce_name es)"
proof -
  have "tree_names_ok (Dir_node sample_tree)"
    by (simp add: sample_tree_def ascii_def)
  moreover have "\<exists>es. walk (\<lambda>_. False) [] sample_tree = Inr es"
    by (simp add: walk_def sample_tree_def Let_def)
  ultimately show ?thesis
    using walk_entries by blast
qed

section \<open>Device numbers\<close>

text \<open>How glibc puts a device number together.\<close>

definition makedev :: "u64 \<Rightarrow> u64 \<Rightarrow> u64" where
  "makedev major minor = push_bit 8 (major AND 0xfff) OR push_bit 32 (major AND NOT 0xfff)
     OR (minor AND 0xff) OR push_bit 12 (minor AND NOT 0xff)"

text \<open>\<open>dev_major\<close> and \<open>dev_minor\<close> lose nothing of a device number: put together the way the C
  library does they give it back.\<close>

theorem device_number_roundtrip: "makedev (dev_major dev) (dev_minor dev) = dev"
proof (rule bit_eqI)
  fix n assume n: "possible_bit TYPE(u64) n"
  have masks: "(0xfff :: u64) = mask 12" "(0xff :: u64) = mask 8"
    by (simp_all add: mask_eq_exp_minus_1)
  have major: "bit (dev_major dev) k \<longleftrightarrow> k < 12 \<and> bit dev (k + 8) \<or> 12 \<le> k \<and> bit dev (k + 32)" for k
    using bit_imp_le_length [of dev "k + 8"] bit_imp_le_length [of dev "k + 32"]
    by (auto simp: dev_major_def masks bit_or_iff bit_and_iff bit_not_iff bit_drop_bit_eq bit_mask_iff ac_simps)
  have minor: "bit (dev_minor dev) k \<longleftrightarrow> k < 8 \<and> bit dev k \<or> 8 \<le> k \<and> bit dev (k + 12)" for k
    using bit_imp_le_length [of dev k] bit_imp_le_length [of dev "k + 12"]
    by (auto simp: dev_minor_def masks bit_or_iff bit_and_iff bit_not_iff bit_drop_bit_eq bit_mask_iff ac_simps)
  have "bit (makedev a b) n \<longleftrightarrow> (8 \<le> n \<and> n - 8 < 12 \<and> bit a (n - 8)) \<or> (32 \<le> n \<and> 12 \<le> n - 32 \<and> bit a (n - 32))
      \<or> (n < 8 \<and> bit b n) \<or> (12 \<le> n \<and> 8 \<le> n - 12 \<and> bit b (n - 12))" for a b
    using n by (auto simp: makedev_def masks bit_or_iff bit_and_iff bit_not_iff bit_push_bit_iff bit_mask_iff)
  note mk = this
  consider "n < 8" | "8 \<le> n" "n < 20" | "20 \<le> n" "n < 44" | "44 \<le> n"
    by linarith
  then show "bit (makedev (dev_major dev) (dev_minor dev)) n = bit dev n"
    unfolding mk major minor by cases (simp_all add: less_diff_conv2 le_diff_conv2, auto)
qed

section \<open>Merging the early segments\<close>

text \<open>Two entries agree on a name only when both are directories.\<close>

definition mergeable :: "cpio_entry list \<Rightarrow> bool" where
  "mergeable es \<longleftrightarrow> sorted_wrt (\<lambda>d e. ce_name d = ce_name e \<longrightarrow>
     ce_body d = Directory \<and> ce_body e = Directory) es"

lemma mergeable_Cons: "mergeable (e # es) \<longleftrightarrow>
    (\<forall>d \<in> set es. ce_name e = ce_name d \<longrightarrow> ce_body e = Directory \<and> ce_body d = Directory) \<and> mergeable es"
  by (simp add: mergeable_def)

lemma mergeable_dedup_Cons:
  assumes "sorted (map ce_name (d # e # es))"
  shows "mergeable (d # e # es) \<longleftrightarrow>
    (ce_name d = ce_name e \<longrightarrow> ce_body d = Directory \<and> ce_body e = Directory) \<and> mergeable (e # es)"
  using assms unfolding mergeable_Cons [of d] by (fastforce simp: mergeable_Cons)

lemma dedup_loop_spec:
  assumes "sorted (map ce_name (out @ es))" and "sorted_wrt (<) (map ce_name out)"
  shows "case dedup_loop es out of
      Inl e \<Rightarrow> \<not> mergeable (drop (length out - 1) out @ es)
    | Inr out' \<Rightarrow> mergeable (drop (length out - 1) out @ es) \<and> set out' = set out \<union> set es \<and>
        sorted_wrt (<) (map ce_name out')"
  using assms
proof (induction es arbitrary: out)
  case Nil
  have "mergeable (drop (length out - 1) out)"
    by (cases out rule: rev_cases) (auto simp: mergeable_def)
  with Nil show ?case by simp
next
  case (Cons e es)
  show ?case
  proof (cases out rule: rev_cases)
    case Nil
    then show ?thesis
      using Cons.IH [of "[e]"] Cons.prems by (auto split: sum.splits)
  next
    case (snoc init d)
    have s: "sorted (map ce_name (d # e # es))"
      using Cons.prems snoc by (auto simp: sorted_append)
    show ?thesis
    proof (cases "ce_name d = ce_name e")
      case True
      show ?thesis
      proof (cases "ce_body d = Directory \<and> ce_body e = Directory")
        case True
        with \<open>ce_name d = ce_name e\<close> have "e = d"
          by (cases d; cases e) simp
        then show ?thesis
          using Cons.IH [of out] Cons.prems snoc True mergeable_dedup_Cons [OF s]
          by (auto simp: sorted_append split: sum.splits)
      next
        case False
        then show ?thesis
          using \<open>ce_name d = ce_name e\<close> snoc mergeable_dedup_Cons [OF s] by auto
      qed
    next
      case False
      then have "ce_name d < ce_name e"
        using s by (simp add: order.strict_iff_order)
      moreover have "x < ce_name d \<or> x = ce_name d" if "x \<in> set (map ce_name out)" for x
        using that Cons.prems(2) snoc by (auto simp: sorted_wrt_append)
      ultimately have "sorted_wrt (<) (map ce_name (out @ [e]))"
        using Cons.prems(2) by (force simp: sorted_wrt_append)
      then show ?thesis
        using Cons.IH [of "out @ [e]"] Cons.prems snoc False mergeable_dedup_Cons [OF s]
        by (auto simp: sorted_append split: sum.splits)
    qed
  qed
qed


text \<open>Merging the early segments: of the sorted entries it keeps each name once, drops nothing
  but repeated directories, and fails exactly when two entries of one name are not both
  directories.\<close>

theorem segments_merge:
  assumes "sorted (map ce_name es)"
  shows "case dedup_segment_dirs es of
      Inl _ \<Rightarrow> \<not> mergeable es
    | Inr out \<Rightarrow> mergeable es \<and> set out = set es \<and> sorted_wrt (<) (map ce_name out)"
  using dedup_loop_spec [of "[]" es] assms by (simp add: dedup_segment_dirs_def split: sum.splits)

theorem segments_merge_witness:
  "\<exists>out. dedup_segment_dirs [\<lparr>ce_name = ascii ''k'', ce_body = Directory\<rparr>,
      \<lparr>ce_name = ascii ''k'', ce_body = Directory\<rparr>] = Inr out \<and>
    set out = {\<lparr>ce_name = ascii ''k'', ce_body = Directory\<rparr>}"
  using segments_merge [of "[\<lparr>ce_name = ascii ''k'', ce_body = Directory\<rparr>,
      \<lparr>ce_name = ascii ''k'', ce_body = Directory\<rparr>]"]
  by (simp add: dedup_segment_dirs_def)

section \<open>The main archive\<close>

lemma last_slash_unique:
  assumes "a @ 47 # x = b @ 47 # y" and "(47 :: u8) \<notin> set x" and "47 \<notin> set y"
  shows "a = b \<and> x = y"
proof -
  have "rev x @ 47 # rev a = rev y @ 47 # rev b"
    using arg_cong [OF assms(1), of rev] by simp
  with assms(2,3) slash_split [of "rev x" "rev y"] have "rev x = rev y"
    by (metis set_rev)
  with assms(1) show ?thesis by simp
qed

definition has_parents :: "cpio_entry list \<Rightarrow> bool" where
  "has_parents es \<longleftrightarrow> (\<forall>e \<in> set es. \<forall>p n. p \<noteq> [] \<and> ce_name e = p @ 47 # n \<and> 47 \<notin> set n \<longrightarrow>
     p \<in> ce_name ` set es)"

definition SYSTEM_DIR :: bytes where "SYSTEM_DIR = ascii ''system''"

lemma seq_dir_split: "SEQ_DIR = SYSTEM_DIR @ 47 # ascii ''prelude''" "47 \<notin> set SYSTEM_DIR"
    "47 \<notin> set (ascii ''prelude'')" "SYSTEM_DIR \<noteq> []" "split_on 47 SEQ_DIR = [SYSTEM_DIR, ascii ''prelude'']"
  by (simp_all add: SEQ_DIR_def SYSTEM_DIR_def ascii_def)

lemma seq_name_split: "seq_name v = SEQ_DIR @ 47 # ascii ''hooks.seq.'' @ ascii v"
  by (simp add: seq_name_def ascii_def)

lemma add_missing_eq: "add_missing_ancestors es SEQ_DIR =
    (let es1 = (if SYSTEM_DIR \<in> ce_name ` set es then es else es @ [\<lparr>ce_name = SYSTEM_DIR, ce_body = Directory\<rparr>])
     in if SEQ_DIR \<in> ce_name ` set es1 then es1 else es1 @ [\<lparr>ce_name = SEQ_DIR, ce_body = Directory\<rparr>])"
proof -
  have "list_ex (\<lambda>e. ce_name e = n) xs \<longleftrightarrow> n \<in> ce_name ` set xs" for n and xs :: "cpio_entry list"
    by (auto simp: list_ex_iff)
  then show ?thesis
    by (simp add: add_missing_ancestors_def seq_dir_split(4,5) Let_def seq_dir_split(1) [symmetric])
qed

lemma seq_dir_not_system: "SEQ_DIR \<noteq> SYSTEM_DIR"
  by (simp add: seq_dir_split(1))

lemma add_missing_set: "set (add_missing_ancestors es SEQ_DIR) = set es \<union>
    (\<lambda>n. \<lparr>ce_name = n, ce_body = Directory\<rparr>) ` ({SYSTEM_DIR, SEQ_DIR} - ce_name ` set es)"
  using seq_dir_not_system by (auto simp: add_missing_eq Let_def)

lemma add_missing_distinct:
  "distinct (map ce_name es) \<Longrightarrow> distinct (map ce_name (add_missing_ancestors es SEQ_DIR))"
  using seq_dir_not_system by (auto simp: add_missing_eq Let_def)

lemma early_prefix: "starts_with_early p \<Longrightarrow> starts_with_early (p @ q)"
proof -
  assume p: "starts_with_early p"
  then have "length (take 3 p) = 3"
    by (simp add: starts_with_early_def ascii_def)
  then have "3 \<le> length p" by simp
  with p show ?thesis
    by (simp add: starts_with_early_def)
qed

lemma early_dir_prefix: "starts_with_early (EARLY_DIR @ 47 # q)"
  by (simp add: starts_with_early_def EARLY_DIR_def ascii_def)

lemma filter_keep_parents:
  assumes "has_parents walked" and "e \<in> set walked" and "keep_entry e"
    and "p \<noteq> []" and "ce_name e = p @ 47 # n" and "47 \<notin> set n"
  shows "p \<in> ce_name ` set (filter keep_entry walked)"
proof -
  obtain d where d: "d \<in> set walked" "ce_name d = p"
    using assms by (auto simp: has_parents_def)
  have "keep_entry d"
  proof (rule ccontr)
    assume "\<not> keep_entry d"
    then have "p = EARLY_DIR \<or> starts_with_early p"
      by (simp add: keep_entry_def d)
    then have "starts_with_early (ce_name e)"
      unfolding assms(5) using early_prefix early_dir_prefix by blast
    with assms(3) show False
      by (simp add: keep_entry_def)
  qed
  with d show ?thesis by force
qed


lemma distinct_map_sort_key: "distinct (map f (sort_key f xs)) \<longleftrightarrow> distinct (map f xs)"
  by (metis mset_eq_imp_distinct_iff mset_map mset_sort)

lemma seq_entries_names: "ce_name ` set (seq_entries hooks order) = {seq_name ''1'', seq_name ''2''}"
    "distinct (map ce_name (seq_entries hooks order))"
  by (simp_all add: seq_entries_def seq_name_def ascii_def)

lemma seq_entry_name:
  "e \<in> set (seq_entries hooks order) \<Longrightarrow> ce_name e = seq_name ''1'' \<or> ce_name e = seq_name ''2''"
  by (auto simp: seq_entries_def)

lemma keep_system: "ce_name e \<in> {SYSTEM_DIR, SEQ_DIR} \<Longrightarrow> keep_entry e"
  by (auto simp: keep_entry_def SYSTEM_DIR_def SEQ_DIR_def EARLY_DIR_def starts_with_early_def ascii_def)

lemma seq_name_not_dir: "seq_name v \<notin> {SYSTEM_DIR, SEQ_DIR}"
  by (auto simp: seq_name_split seq_dir_split(1))

lemma main_entries_set: "set (main_entries walked hooks order) =
    {e \<in> set walked. keep_entry e} \<union> set (seq_entries hooks order) \<union>
    (\<lambda>n. \<lparr>ce_name = n, ce_body = Directory\<rparr>) ` ({SYSTEM_DIR, SEQ_DIR} - ce_name ` set walked)"
proof -
  have "{SYSTEM_DIR, SEQ_DIR} \<inter> ce_name ` set (filter keep_entry walked) =
      {SYSTEM_DIR, SEQ_DIR} \<inter> ce_name ` set walked"
    using keep_system by auto
  then have "{SYSTEM_DIR, SEQ_DIR} - ce_name ` set (filter keep_entry walked @ seq_entries hooks order)
    = {SYSTEM_DIR, SEQ_DIR} - ce_name ` set walked"
    using seq_name_not_dir [of "''1''"] seq_name_not_dir [of "''2''"]
    by (simp add: image_Un seq_entries_names) blast
  then show ?thesis
    unfolding main_entries_def set_sort add_missing_set by simp
qed

lemma main_entries_distinct:
  assumes "distinct (map ce_name walked)" and "seq_name ''1'' \<notin> ce_name ` set walked"
    and "seq_name ''2'' \<notin> ce_name ` set walked"
  shows "sorted_wrt (<) (map ce_name (main_entries walked hooks order))"
proof -
  have "ce_name ` set (filter keep_entry walked) \<inter> ce_name ` set (seq_entries hooks order) = {}"
    using assms(2,3) by (auto simp: seq_entries_names)
  then have "distinct (map ce_name (filter keep_entry walked @ seq_entries hooks order))"
    using assms(1) seq_entries_names by (simp add: distinct_map_filter)
  then have "distinct (map ce_name (main_entries walked hooks order))"
    unfolding main_entries_def distinct_map_sort_key by (rule add_missing_distinct)
  then show ?thesis
    by (simp add: main_entries_def strict_sorted_iff)
qed

text \<open>The generated entries lie in the generated directories.\<close>

lemma generated_parent:
  assumes "ce_name e \<in> {seq_name ''1'', seq_name ''2'', SYSTEM_DIR, SEQ_DIR}"
    and "p \<noteq> []" "ce_name e = p @ 47 # n" "47 \<notin> set n"
  shows "p \<in> {SYSTEM_DIR, SEQ_DIR}"
proof -
  have seq: "p = SEQ_DIR" if v: "ce_name e = seq_name v" "v \<in> {''1'', ''2''}" for v
  proof -
    have "p @ 47 # n = SEQ_DIR @ 47 # ascii ''hooks.seq.'' @ ascii v"
      using assms(3) v(1) by (simp add: seq_name_split)
    moreover have "47 \<notin> set (ascii ''hooks.seq.'' @ ascii v)"
      using v(2) by (auto simp: ascii_def)
    ultimately show ?thesis using last_slash_unique [of p n SEQ_DIR] assms(4) by blast
  qed
  consider "ce_name e = seq_name ''1'' \<or> ce_name e = seq_name ''2''" | "ce_name e = SYSTEM_DIR" | "ce_name e = SEQ_DIR"
    using assms(1) by blast
  then show ?thesis
  proof cases
    case 1
    then show ?thesis using seq by blast
  next
    case 2
    then have "47 \<in> set SYSTEM_DIR" using assms(3) by (metis in_set_conv_decomp)
    then show ?thesis using seq_dir_split(2) by simp
  next
    case 3
    then have "p = SYSTEM_DIR" using last_slash_unique [of p n SYSTEM_DIR] assms(3,4) seq_dir_split by auto
    then show ?thesis by simp
  qed
qed

lemma main_entries_parents:
  assumes "has_parents walked"
  shows "has_parents (main_entries walked hooks order)"
  unfolding has_parents_def
proof (intro ballI allI impI)
  fix e p n
  assume e: "e \<in> set (main_entries walked hooks order)"
    and p: "p \<noteq> [] \<and> ce_name e = p @ 47 # n \<and> 47 \<notin> set n"
  have anc: "q \<in> ce_name ` set (main_entries walked hooks order)" if q: "q \<in> {SYSTEM_DIR, SEQ_DIR}" for q
  proof (cases "q \<in> ce_name ` set walked")
    case True
    then obtain d where d: "d \<in> set walked" "ce_name d = q"
      by blast
    then have "keep_entry d"
      using q by (intro keep_system) simp
    with d have "d \<in> set (main_entries walked hooks order)"
      unfolding main_entries_set by simp
    with d(2) show ?thesis by blast
  next
    case False
    with q have "\<lparr>ce_name = q, ce_body = Directory\<rparr> \<in> set (main_entries walked hooks order)"
      unfolding main_entries_set by blast
    then show ?thesis
      by (metis cpio_entry.select_convs(1) imageI)
  qed
  show "p \<in> ce_name ` set (main_entries walked hooks order)"
  proof (cases "e \<in> set walked \<and> keep_entry e")
    case True
    then have "p \<in> ce_name ` set (filter keep_entry walked)"
      using p filter_keep_parents [OF assms] by blast
    then show ?thesis
      unfolding main_entries_set by auto
  next
    case False
    then have "e \<in> set (seq_entries hooks order) \<or> ce_name e \<in> {SYSTEM_DIR, SEQ_DIR}"
      using e unfolding main_entries_set by auto
    then have "ce_name e \<in> {seq_name ''1'', seq_name ''2'', SYSTEM_DIR, SEQ_DIR}" using seq_entry_name by blast
    then show ?thesis using generated_parent p anc by blast
  qed
qed

lemma sorted_parent_earlier:
  assumes "sorted_wrt (<) (map ce_name es)" and "has_parents es" and "i < length es"
    and "p \<noteq> []" and "ce_name (es ! i) = p @ 47 # n" and "47 \<notin> set n"
  shows "\<exists>j < i. ce_name (es ! j) = p"
proof -
  have "es ! i \<in> set es"
    using assms(3) by simp
  then have "p \<in> ce_name ` set es"
    using assms(2,4,5,6) unfolding has_parents_def by blast
  then obtain j where j: "j < length es" "ce_name (es ! j) = p"
    by (auto simp: in_set_conv_nth)
  have "\<not> i \<le> j"
  proof
    assume "i \<le> j"
    then have "ce_name (es ! i) \<le> ce_name (es ! j)"
      using assms(1) j(1) by (cases "i = j") (auto simp: sorted_wrt_iff_nth_less intro: less_imp_le)
    moreover have "p < p @ 47 # n"
      by (simp add: list_less_def lexord_append_rightI)
    ultimately show False
      using j assms(5) by simp
  qed
  with j show ?thesis by (intro exI [of _ j]) simp
qed

lemma inter_parts:
  "(\<And>e. e \<in> A \<Longrightarrow> e \<notin> S) \<Longrightarrow> (\<And>e. e \<in> A \<Longrightarrow> e \<notin> N) \<Longrightarrow> A \<inter> ({e \<in> A. k e} \<union> S \<union> N) = {e \<in> A. k e}"
  by blast

lemma main_parent_kind:
  assumes "\<And>e p n. e \<in> set walked \<Longrightarrow> p \<noteq> [] \<Longrightarrow> ce_name e = p @ 47 # n \<Longrightarrow> 47 \<notin> set n \<Longrightarrow>
      \<lparr>ce_name = p, ce_body = Directory\<rparr> \<in> set walked"
    and "distinct (map ce_name walked)" "seq_name ''1'' \<notin> ce_name ` set walked" "seq_name ''2'' \<notin> ce_name ` set walked"
    and "d \<in> set (main_entries walked hooks order)" "e \<in> set (main_entries walked hooks order)"
    and "p \<noteq> []" "ce_name e = p @ 47 # n" "47 \<notin> set n" "ce_name d = p"
  shows "d = \<lparr>ce_name = p, ce_body = Directory\<rparr> \<or> p \<in> {SYSTEM_DIR, SEQ_DIR} \<and> d \<in> set walked"
proof (cases "e \<in> set walked")
  case True
  then have w: "\<lparr>ce_name = p, ce_body = Directory\<rparr> \<in> set walked" using assms(1,7-9) by blast
  then have "p \<in> ce_name ` set walked" by force
  then have "p \<noteq> seq_name ''1''" "p \<noteq> seq_name ''2''" using assms(3,4) by blast+
  moreover have "p \<notin> ce_name ` set (seq_entries hooks order)"
    unfolding seq_entries_names using calculation by simp
  ultimately have "d \<in> set walked \<or> ce_body d = Directory"
    using assms(5,10) unfolding main_entries_set by auto
  moreover have "d = \<lparr>ce_name = p, ce_body = Directory\<rparr>" if "d \<in> set walked"
    using assms(2,10) that w by (metis cpio_entry.select_convs(1) distinct_map inj_onD)
  ultimately show ?thesis using assms(10) by (cases d) auto
next
  case False
  then have "e \<in> set (seq_entries hooks order) \<or> ce_name e \<in> {SYSTEM_DIR, SEQ_DIR}"
    using assms(6) unfolding main_entries_set by auto
  then have "ce_name e \<in> {seq_name ''1'', seq_name ''2'', SYSTEM_DIR, SEQ_DIR}" using seq_entry_name by blast
  from generated_parent [OF this assms(7-9)] have p: "p \<in> {SYSTEM_DIR, SEQ_DIR}" .
  then have "d \<notin> set (seq_entries hooks order)"
    using assms(10) seq_entry_name seq_name_not_dir by metis
  then have "d \<in> set walked \<or> ce_body d = Directory" using assms(5) unfolding main_entries_set by auto
  then show ?thesis using p assms(10) by (cases d) auto
qed

text \<open>C24. The archive of a walked tree, as \<open>run\<close> assembles it: both sequence files are in it and
  carry the rendered order, nothing of the reserved \<open>++\<close> tree is, every other walked entry is; the
  names strictly increase, and the directory that a path lies in comes before it, as a directory, with one
  exception: where the source tree has something else than a directory at \<open>system\<close> or \<open>system/prelude\<close>, that
  is what the generated files are put below.\<close>

theorem main_archive:
  assumes "walk excluded root children = Inr walked" and "tree_names_ok (Dir_node children)"
    and "seq_name ''1'' \<notin> ce_name ` set walked" and "seq_name ''2'' \<notin> ce_name ` set walked"
  shows "let es = main_entries walked hooks order in
    set (seq_entries hooks order) \<subseteq> set es \<and>
    set walked \<inter> set es = {e \<in> set walked. keep_entry e} \<and>
    sorted_wrt (<) (map ce_name es) \<and>
    (\<forall>i < length es. \<forall>p n. p \<noteq> [] \<and> ce_name (es ! i) = p @ 47 # n \<and> 47 \<notin> set n \<longrightarrow>
       (\<exists>j < i. es ! j = \<lparr>ce_name = p, ce_body = Directory\<rparr>
          \<or> p \<in> {SYSTEM_DIR, SEQ_DIR} \<and> ce_name (es ! j) = p \<and> es ! j \<in> set walked \<and> ce_body (es ! j) \<noteq> Directory))"
proof -
  let ?es = "main_entries walked hooks order"
  have w: "sorted_wrt (<) (map ce_name walked)" and par: "\<And>i p n. i < length walked \<Longrightarrow> p \<noteq> [] \<Longrightarrow>
      ce_name (walked ! i) = p @ 47 # n \<Longrightarrow> 47 \<notin> set n \<Longrightarrow>
      \<exists>j < i. walked ! j = \<lparr>ce_name = p, ce_body = Directory\<rparr>"
    using walk_ok [OF assms(1,2)] by blast+
  have dirs: "\<lparr>ce_name = p, ce_body = Directory\<rparr> \<in> set walked"
    if e: "e \<in> set walked" "p \<noteq> []" "ce_name e = p @ 47 # n" "47 \<notin> set n" for e p n
  proof -
    obtain i where i: "i < length walked" "walked ! i = e" using e(1) by (auto simp: in_set_conv_nth)
    then obtain j where "j < i" "walked ! j = \<lparr>ce_name = p, ce_body = Directory\<rparr>" using par [of i p n] e by blast
    with i(1) show ?thesis by (metis less_trans nth_mem)
  qed
  have hp: "has_parents walked"
    unfolding has_parents_def using dirs by (metis cpio_entry.select_convs(1) image_eqI)
  have d: "distinct (map ce_name walked)"
    using w by (simp add: strict_sorted_iff)
  note sorted = main_entries_distinct [OF d assms(3,4)]
  have "set walked \<inter> set ?es = {e \<in> set walked. keep_entry e}"
  proof -
    have "e \<notin> set (seq_entries hooks order)" if "e \<in> set walked" for e
      using that assms(3,4) by (metis imageI seq_entry_name)
    moreover have "e \<notin> (\<lambda>n. \<lparr>ce_name = n, ce_body = Directory\<rparr>) ` ({SYSTEM_DIR, SEQ_DIR} - ce_name ` set walked)"
      if "e \<in> set walked" for e
      using that by (metis (no_types, lifting) DiffE cpio_entry.select_convs(1) imageE imageI)
    ultimately show ?thesis
      unfolding main_entries_set by (rule inter_parts)
  qed
  moreover have "set (seq_entries hooks order) \<subseteq> set ?es"
    unfolding main_entries_set by blast
  moreover have "\<exists>j < i. ?es ! j = \<lparr>ce_name = p, ce_body = Directory\<rparr>
      \<or> p \<in> {SYSTEM_DIR, SEQ_DIR} \<and> ce_name (?es ! j) = p \<and> ?es ! j \<in> set walked \<and> ce_body (?es ! j) \<noteq> Directory"
    if i: "i < length ?es" and p: "p \<noteq> []" "ce_name (?es ! i) = p @ 47 # n" "47 \<notin> set n" for i p n
  proof -
    obtain j where j: "j < i" "ce_name (?es ! j) = p"
      using sorted_parent_earlier [OF sorted main_entries_parents [OF hp] i p] by blast
    have "?es ! j = \<lparr>ce_name = p, ce_body = Directory\<rparr> \<or> p \<in> {SYSTEM_DIR, SEQ_DIR} \<and> ?es ! j \<in> set walked"
      by (rule main_parent_kind [where hooks = hooks and order = order, OF dirs d assms(3,4) _ _ p j(2)]) (use i j in auto)
    with j show ?thesis by (cases "ce_body (?es ! j)") (auto intro!: exI [of _ j])
  qed
  ultimately show ?thesis
    unfolding Let_def using sorted by blast
qed

theorem main_archive_witness:
  "\<exists>walked. walk (\<lambda>_. False) [] sample_tree = Inr walked \<and>
    (let es = main_entries walked [] [] in set (seq_entries [] []) \<subseteq> set es \<and> sorted_wrt (<) (map ce_name es))"
proof -
  have t: "tree_names_ok (Dir_node sample_tree)"
    by (simp add: sample_tree_def ascii_def)
  obtain walked where w: "walk (\<lambda>_. False) [] sample_tree = Inr walked"
    and n: "ce_name ` set walked = {ascii ''usr'', ascii ''usr/x'', ascii ''init''}"
    by (simp add: walk_def sample_tree_def Let_def child_path_def ascii_def insert_commute)
  have "seq_name v \<notin> ce_name ` set walked" for v
    unfolding n by (simp add: seq_name_def SEQ_DIR_def ascii_def)
  from main_archive [OF w t this this, of "[]" "[]"] w show ?thesis by (auto simp: Let_def)
qed

text \<open>The exception: in a tree with a regular file \<open>system\<close> the generated files have no directory to be in.\<close>

lemma generated_below_file:
  "let es = main_entries [\<lparr>ce_name = SYSTEM_DIR, ce_body = File [] 0 False\<rparr>] [] [] in
     \<lparr>ce_name = SYSTEM_DIR, ce_body = Directory\<rparr> \<notin> set es \<and> \<lparr>ce_name = SEQ_DIR, ce_body = Directory\<rparr> \<in> set es"
  unfolding main_entries_set Let_def
  by (auto simp: seq_entries_def SYSTEM_DIR_def SEQ_DIR_def ascii_def)

section \<open>Publishing the image\<close>

text \<open>The image is published all or nothing: when writing it fails the output file is what it was
  and the staging file is gone; on success the output is the uncompressed early region followed by
  the compressed archive, and no staging file is left; no other file changes either way.\<close>

theorem publish_atomic:
  assumes "publish open_copy compress rename_ok pid out early main files = (r, files')"
    and "pid \<noteq> []"
  shows "(r \<noteq> Inr () \<longrightarrow> files' out = files out) \<and>
    (r = Inr () \<longrightarrow> (\<exists>img. write_image open_copy compress early main [] = (Inr (), img) \<and>
       files' out = Some img \<and> files' (temp_path out pid) = None)) \<and>
    (\<forall>f. f \<noteq> out \<and> f \<noteq> temp_path out pid \<longrightarrow> files' f = files f)"
proof -
  have ne: "temp_path out pid \<noteq> out"
    by (simp add: temp_path_def ascii_def)
  obtain r0 w where w: "write_image open_copy compress early main [] = (r0, w)"
    by (cases "write_image open_copy compress early main []") auto
  show ?thesis
  proof (cases r0)
    case (Inl e)
    then show ?thesis
      using assms(1) ne w by (auto simp: publish_def Let_def)
  next
    case (Inr u)
    then show ?thesis
      using assms(1) ne w by (cases rename_ok) (auto simp: publish_def Let_def)
  qed
qed

lemma write_image_empty:
  "write_image open_copy compress [] [] [] = (Inr (), compress trailer_bytes)"
  by (simp add: write_image_def write_archive_def op_bind_def)

theorem publish_atomic_witness:
  "snd (publish sample_sources (\<lambda>b. b) False (ascii ''7'') (ascii ''o'') [] [] (\<lambda>_. None)) (ascii ''o'') = None"
proof -
  have p: "publish sample_sources (\<lambda>b. b) False (ascii ''7'') (ascii ''o'') [] [] (\<lambda>_. None) =
      (Inl Build_io, [temp_path (ascii ''o'') (ascii ''7'') \<mapsto> trailer_bytes])"
    by (simp add: publish_def write_image_empty Let_def)
  show ?thesis
    using publish_atomic [OF p] p by (simp add: ascii_def)
qed

end
