(* ===== verification/Mount_Error.thy ===== *)
theory Mount_Error
  imports RustStd
begin

text \<open>
  \<open>src/uu/mount/src/error.rs\<close>: OS errors with the kernel's explanation, the failures of a mount
  operation, and the exit codes they map to. Message texts are the ones of the code.
\<close>

section \<open>OS errors\<close>

text \<open>
  An \<open>io::Error\<close> is a raw OS error, a custom error that wraps an \<open>AnnotatedOsError\<close>, or a
  custom error of another kind.
\<close>

record annotated_os_error =
  ann_code :: int
  ann_detail :: rust_str

datatype io_error = RawOs int | CustomOs annotated_os_error | CustomOther rust_str

fun raw_os_error :: "io_error \<Rightarrow> int option" where
  "raw_os_error (RawOs c) = Some c"
| "raw_os_error (CustomOs _) = None"
| "raw_os_error (CustomOther _) = None"

definition annotate :: "io_error \<Rightarrow> rust_str \<Rightarrow> io_error" where
  "annotate source detail =
     (case raw_os_error source of
        Some code \<Rightarrow> CustomOs \<lparr>ann_code = code, ann_detail = detail\<rparr>
      | None \<Rightarrow> source)"

definition os_code :: "io_error \<Rightarrow> int option" where
  "os_code e =
     (case raw_os_error e of
        Some c \<Rightarrow> Some c
      | None \<Rightarrow> (case e of CustomOs a \<Rightarrow> Some (ann_code a) | _ \<Rightarrow> None))"

lemma os_code_annotate [simp]: "os_code (annotate e d) = os_code e"
  by (cases e) (simp_all add: annotate_def os_code_def)

definition EPERM :: int where "EPERM = 1"
definition EACCES :: int where "EACCES = 13"
definition EROFS :: int where "EROFS = 30"
definition EOPNOTSUPP :: int where "EOPNOTSUPP = 95"

lemmas errno_defs = EPERM_def EACCES_def EROFS_def EOPNOTSUPP_def

section \<open>Failures of an operation\<close>

datatype mount_error =
    Usage rust_str
  | Permission rust_str io_error
  | Unimplemented rust_str
  | MountFailed rust_str io_error
  | System rust_str
  | Helper rust_str
  | Bug rust_str
  | Interrupted
  | Partial rust_str
  | NotMounted rust_str

fun exit_code :: "mount_error \<Rightarrow> int" where
  "exit_code (Usage _) = 1"
| "exit_code (Permission _ _) = 1"
| "exit_code (Unimplemented _) = 1"
| "exit_code (System _) = 2"
| "exit_code (Bug _) = 4"
| "exit_code Interrupted = 8"
| "exit_code (MountFailed _ _) = 32"
| "exit_code (NotMounted _) = 32"
| "exit_code (Partial _) = 64"
| "exit_code (Helper _) = 126"

definition from_syscall :: "rust_str \<Rightarrow> io_error \<Rightarrow> mount_error" where
  "from_syscall stage source =
     (if os_code source = Some EPERM \<or> os_code source = Some EACCES
      then Permission stage source else MountFailed stage source)"

text \<open>\<open>map_err\<close>, which leaves a success alone.\<close>

definition map_err :: "('e \<Rightarrow> 'f) \<Rightarrow> 'e + 'a \<Rightarrow> 'f + 'a" where
  "map_err f r = (case r of Inl e \<Rightarrow> Inl (f e) | Inr x \<Rightarrow> Inr x)"

lemma map_err_simps [simp]: "map_err f (Inl e) = Inl (f e)" "map_err f (Inr x) = Inr x"
  by (simp_all add: map_err_def)

lemma from_syscall_annotate_exit:
  "exit_code (from_syscall stage (annotate e d)) = exit_code (from_syscall stage e)"
  by (simp add: from_syscall_def)

end
