(* ===== verification/Mount_Options.thy ===== *)
theory Mount_Options
  imports Mount_Error
begin

text \<open>
  \<open>src/uu/mount/src/options.rs\<close>: the tokenizer of the \<open>-o\<close> language, the partition of its
  tokens into the categories of the specification, and the small value parsers. Keys and values
  are bytes; an option name is the lossy text of its key.
\<close>

section \<open>Data\<close>

definition MOUNT_ATTR_RDONLY :: u64 where "MOUNT_ATTR_RDONLY = 0x1"
definition MOUNT_ATTR_NOSUID :: u64 where "MOUNT_ATTR_NOSUID = 0x2"
definition MOUNT_ATTR_NODEV :: u64 where "MOUNT_ATTR_NODEV = 0x4"
definition MOUNT_ATTR_NOEXEC :: u64 where "MOUNT_ATTR_NOEXEC = 0x8"
definition MOUNT_ATTR__ATIME :: u64 where "MOUNT_ATTR__ATIME = 0x70"
definition MOUNT_ATTR_NODIRATIME :: u64 where "MOUNT_ATTR_NODIRATIME = 0x80"
definition MOUNT_ATTR_NOSYMFOLLOW :: u64 where "MOUNT_ATTR_NOSYMFOLLOW = 0x200000"
definition ATIME_RELATIME :: u64 where "ATIME_RELATIME = 0"
definition ATIME_NOATIME :: u64 where "ATIME_NOATIME = 0x10"
definition ATIME_STRICTATIME :: u64 where "ATIME_STRICTATIME = 0x20"

lemmas attr_defs = MOUNT_ATTR_RDONLY_def MOUNT_ATTR_NOSUID_def MOUNT_ATTR_NODEV_def
  MOUNT_ATTR_NOEXEC_def MOUNT_ATTR_NODIRATIME_def MOUNT_ATTR_NOSYMFOLLOW_def
lemmas atime_defs = MOUNT_ATTR__ATIME_def ATIME_RELATIME_def ATIME_NOATIME_def ATIME_STRICTATIME_def

datatype sb_flag = Synchronous | Dirsync | Lazytime | IVersion | Silent

datatype prop_kind = Shared | Slave | Private | Unbindable

record prop_change =
  pc_kind :: prop_kind
  pc_recursive :: bool

datatype policy_kind = DenyMissing | SynthEphemeral | SynthPersist

datatype loop_request = LoopAuto | LoopDevice bytes

datatype ro_scope = ScopeVfs | ScopeFs | ScopeRecursive

type_synonym token = "bytes \<times> bytes option"

record parsed_options =
  attr_set :: u64
  attr_clr :: u64
  recursive_attr :: bool
  sb_rdonly :: "bool option"
  sb_flags :: "(sb_flag \<times> bool) list"
  fs_params :: "token list"
  meta_bind :: bool
  meta_rbind :: bool
  meta_move :: bool
  meta_remount :: bool
  loop_req :: "loop_request option"
  loop_offset :: "u64 option"
  loop_sizelimit :: "u64 option"
  propagation :: "prop_change list"
  policy :: "policy_kind option"
  mkdir :: "u32 option"
  subdir :: "bytes option"
  noloop :: bool
  auto_fstypes :: "bytes option"
  nocanon_source :: bool
  nocanon_target :: bool
  opt_notes :: "rust_str list"
  explicit_rw :: bool
  explicit_ro :: bool
  atime_mode :: "u64 option"

definition options_default :: parsed_options where
  "options_default =
     \<lparr>attr_set = 0, attr_clr = 0, recursive_attr = False, sb_rdonly = None, sb_flags = [],
      fs_params = [], meta_bind = False, meta_rbind = False, meta_move = False,
      meta_remount = False, loop_req = None, loop_offset = None, loop_sizelimit = None,
      propagation = [], policy = None, mkdir = None, subdir = None, noloop = False,
      auto_fstypes = None, nocanon_source = False, nocanon_target = False, opt_notes = [],
      explicit_rw = False, explicit_ro = False, atime_mode = None\<rparr>"

section \<open>Tokenizer\<close>

definition is_ascii_ws :: "u8 \<Rightarrow> bool" where
  "is_ascii_ws b \<longleftrightarrow> b \<in> {9, 10, 12, 13, 32}"

definition trim_bytes :: "bytes \<Rightarrow> bytes" where
  "trim_bytes b =
     (let start = (case position (\<lambda>c. \<not> is_ascii_ws c) b of Some i \<Rightarrow> i | None \<Rightarrow> length b);
          end' = (case position (\<lambda>c. \<not> is_ascii_ws c) (rev b) of
                    Some i \<Rightarrow> length b - i | None \<Rightarrow> start)
      in subslice start end' b)"

definition push_token :: "token list \<Rightarrow> bytes \<Rightarrow> token list" where
  "push_token out tok =
     (let tok = trim_bytes tok in
      if tok = [] then out
      else (case position (\<lambda>b. b = 0x3D) tok of
              Some i \<Rightarrow> out @ [(take i tok, Some (drop (i + 1) tok))]
            | None \<Rightarrow> out @ [(tok, None)]))"

fun tokenize_loop :: "token list \<Rightarrow> bytes \<Rightarrow> bool \<Rightarrow> bytes \<Rightarrow> token list" where
  "tokenize_loop out cur in_quotes [] = push_token out cur"
| "tokenize_loop out cur in_quotes (b # bs) =
     (if b = 0x22 then tokenize_loop out cur (\<not> in_quotes) bs
      else if b = 0x2C \<and> \<not> in_quotes then tokenize_loop (push_token out cur) [] in_quotes bs
      else tokenize_loop out (cur @ [b]) in_quotes bs)"

definition tokenize :: "bytes \<Rightarrow> token list" where
  "tokenize spec = tokenize_loop [] [] False spec"

section \<open>Values\<close>

definition parse_policy :: "bytes \<Rightarrow> mount_error + policy_kind" where
  "parse_policy v =
     (if v = ascii ''deny-missing'' then Inr DenyMissing
      else if v = ascii ''synth-ephemeral'' then Inr SynthEphemeral
      else if v = ascii ''synth-persist'' then Inr SynthPersist
      else if v = ascii ''unmanaged'' then Inl (Usage (lit ''policy=unmanaged is not user-settable''))
      else Inl (Usage (lit ''unknown mount policy: '' @ from_utf8_lossy v
        @ lit '' (expected deny-missing|synth-ephemeral|synth-persist)'')))"

definition size_units :: "(rust_str \<times> u64) list" where
  "size_units =
     [(lit ''KiB'', push_bit 10 1), (lit ''MiB'', push_bit 20 1), (lit ''GiB'', push_bit 30 1),
      (lit ''TiB'', push_bit 40 1), (lit ''KB'', 1000), (lit ''MB'', 1000000),
      (lit ''GB'', 1000000000), (lit ''TB'', 1000000000000), (lit ''K'', push_bit 10 1),
      (lit ''M'', push_bit 20 1), (lit ''G'', push_bit 30 1), (lit ''T'', push_bit 40 1)]"

fun split_units :: "(rust_str \<times> u64) list \<Rightarrow> rust_str \<Rightarrow> rust_str \<times> u64" where
  "split_units [] s = (s, 1)"
| "split_units ((suf, mult) # us) s =
     (case strip_suffix suf s of
        Some stripped \<Rightarrow> (trim stripped, mult)
      | None \<Rightarrow> split_units us s)"

definition split_suffix :: "rust_str \<Rightarrow> rust_str \<times> u64" where
  "split_suffix s = split_units size_units s"

definition parse_u64 :: "rust_str \<Rightarrow> bytes option \<Rightarrow> mount_error + u64" where
  "parse_u64 name value =
     result_bind (ok_or (Usage (name @ lit ''= requires a value'')) value) (\<lambda>v.
     result_bind (ok_or (Usage (name @ lit '': not a number'')) (from_utf8 v)) (\<lambda>s.
     let s = trim s; (num, mult) = split_suffix s in
     result_bind (ok_or (Usage (name @ lit '': not a number: '' @ s))
        (parse_uint 10 (2 ^ 64 - 1) num)) (\<lambda>base.
     ok_or (Usage (name @ lit '': value overflow: '' @ s)) (checked_mul (of_nat base) mult))))"

text \<open>\<open>trim_start_matches\<close> with a text: every leading occurrence goes.\<close>

function trim_start_matches :: "'a list \<Rightarrow> 'a list \<Rightarrow> 'a list" where
  "trim_start_matches p s =
     (if p = [] then s
      else (case strip_prefix p s of Some r \<Rightarrow> trim_start_matches p r | None \<Rightarrow> s))"
  by pat_completeness auto
termination
  by (relation "measure (\<lambda>(p, s). length s)")
    (auto simp: strip_prefix_def split: if_splits, metis diff_less length_0_conv
       length_greater_0_conv take_Nil)

declare trim_start_matches.simps [simp del]

definition parse_mode :: "bytes option \<Rightarrow> mount_error + u32" where
  "parse_mode value =
     (case value of
        None \<Rightarrow> Inr 0x1ED
      | Some v \<Rightarrow>
          result_bind (ok_or (Usage (lit ''mkdir mode: not a number'')) (from_utf8 v)) (\<lambda>s.
          result_bind (ok_or (Usage (lit ''mkdir mode: invalid octal: '' @ s))
             (parse_uint 8 (2 ^ 32 - 1) (trim (trim_start_matches (lit ''0o'') s)))) (\<lambda>n.
          Inr (of_nat n))))"

section \<open>Applying a token\<close>

definition set_or_clr :: "u64 \<Rightarrow> bool \<Rightarrow> parsed_options \<Rightarrow> parsed_options" where
  "set_or_clr b on o' =
     (if on then o'\<lparr>attr_set := attr_set o' OR b, attr_clr := attr_clr o' AND NOT b\<rparr>
      else o'\<lparr>attr_clr := attr_clr o' OR b, attr_set := attr_set o' AND NOT b\<rparr>)"

definition parse_scope :: "bytes option \<Rightarrow> mount_error + ro_scope" where
  "parse_scope value =
     (case value of
        None \<Rightarrow> Inr ScopeVfs
      | Some v \<Rightarrow>
          if v = ascii ''vfs'' then Inr ScopeVfs
          else if v = ascii ''fs'' then Inr ScopeFs
          else if v = ascii ''recursive'' then Inr ScopeRecursive
          else Inl (Usage (lit ''invalid read-only scope: '' @ from_utf8_lossy v)))"

definition apply_ro_rw :: "bool \<Rightarrow> bytes option \<Rightarrow> parsed_options \<Rightarrow> mount_error + parsed_options" where
  "apply_ro_rw ro value o' =
     result_bind (parse_scope value) (\<lambda>scope.
       Inr (case scope of
              ScopeFs \<Rightarrow> o'\<lparr>sb_rdonly := Some ro\<rparr>
            | ScopeRecursive \<Rightarrow> set_or_clr MOUNT_ATTR_RDONLY ro (o'\<lparr>recursive_attr := True\<rparr>)
            | ScopeVfs \<Rightarrow> set_or_clr MOUNT_ATTR_RDONLY ro o'))"

definition try_attr :: "rust_str \<Rightarrow> parsed_options \<Rightarrow> parsed_options option" where
  "try_attr name o' =
     (if name = lit ''nosuid'' then Some (set_or_clr MOUNT_ATTR_NOSUID True o')
      else if name = lit ''suid'' then Some (set_or_clr MOUNT_ATTR_NOSUID False o')
      else if name = lit ''nodev'' then Some (set_or_clr MOUNT_ATTR_NODEV True o')
      else if name = lit ''dev'' then Some (set_or_clr MOUNT_ATTR_NODEV False o')
      else if name = lit ''noexec'' then Some (set_or_clr MOUNT_ATTR_NOEXEC True o')
      else if name = lit ''exec'' then Some (set_or_clr MOUNT_ATTR_NOEXEC False o')
      else if name = lit ''nodiratime'' then Some (set_or_clr MOUNT_ATTR_NODIRATIME True o')
      else if name = lit ''diratime'' then Some (set_or_clr MOUNT_ATTR_NODIRATIME False o')
      else if name = lit ''nosymfollow'' then Some (set_or_clr MOUNT_ATTR_NOSYMFOLLOW True o')
      else if name = lit ''noatime'' then Some (o'\<lparr>atime_mode := Some ATIME_NOATIME\<rparr>)
      else if name = lit ''atime'' then Some (o'\<lparr>atime_mode := Some ATIME_RELATIME\<rparr>)
      else if name = lit ''relatime'' then Some (o'\<lparr>atime_mode := Some ATIME_RELATIME\<rparr>)
      else if name = lit ''norelatime'' then Some (o'\<lparr>atime_mode := Some ATIME_STRICTATIME\<rparr>)
      else if name = lit ''strictatime'' then Some (o'\<lparr>atime_mode := Some ATIME_STRICTATIME\<rparr>)
      else if name = lit ''nostrictatime'' then Some (o'\<lparr>atime_mode := Some ATIME_RELATIME\<rparr>)
      else None)"

definition sb_flag_of :: "rust_str \<Rightarrow> (sb_flag \<times> bool) option" where
  "sb_flag_of name =
     (if name = lit ''sync'' then Some (Synchronous, True)
      else if name = lit ''async'' then Some (Synchronous, False)
      else if name = lit ''dirsync'' then Some (Dirsync, True)
      else if name = lit ''lazytime'' then Some (Lazytime, True)
      else if name = lit ''nolazytime'' then Some (Lazytime, False)
      else if name = lit ''iversion'' then Some (IVersion, True)
      else if name = lit ''noiversion'' then Some (IVersion, False)
      else if name = lit ''silent'' then Some (Silent, True)
      else if name = lit ''loud'' then Some (Silent, False)
      else None)"

definition try_sb_flag :: "rust_str \<Rightarrow> parsed_options \<Rightarrow> parsed_options option" where
  "try_sb_flag name o' =
     (if name = lit ''mand'' \<or> name = lit ''nomand''
      then Some (o'\<lparr>opt_notes := opt_notes o' @ [lit ''option '' @ [39] @ name @ [39]
        @ lit '' is obsolete (removed from the kernel) '' @ [0x2014] @ lit '' ignored'']\<rparr>)
      else map_option (\<lambda>f. o'\<lparr>sb_flags := sb_flags o' @ [f]\<rparr>) (sb_flag_of name))"

definition prop_base :: "rust_str \<Rightarrow> prop_kind option" where
  "prop_base base =
     (if base = lit ''shared'' then Some Shared
      else if base = lit ''slave'' then Some Slave
      else if base = lit ''private'' then Some Private
      else if base = lit ''unbindable'' then Some Unbindable
      else None)"

definition prop_of :: "rust_str \<Rightarrow> prop_change option" where
  "prop_of name =
     (let recursive = name \<in> {lit ''rshared'', lit ''rslave'', lit ''rprivate'', lit ''runbindable''};
          base = (if recursive then drop 1 name else name)
      in map_option (\<lambda>k. \<lparr>pc_kind = k, pc_recursive = recursive\<rparr>) (prop_base base))"

definition try_userspace ::
  "rust_str \<Rightarrow> bytes option \<Rightarrow> parsed_options \<Rightarrow> mount_error + parsed_options option" where
  "try_userspace name value o' =
     (if name = lit ''bind'' then Inr (Some (o'\<lparr>meta_bind := True\<rparr>))
      else if name = lit ''rbind'' then Inr (Some (o'\<lparr>meta_rbind := True\<rparr>))
      else if name = lit ''move'' then Inr (Some (o'\<lparr>meta_move := True\<rparr>))
      else if name = lit ''remount'' then Inr (Some (o'\<lparr>meta_remount := True\<rparr>))
      else if name = lit ''loop'' then
        Inr (Some (o'\<lparr>loop_req := Some (case value of
           Some dev \<Rightarrow> LoopDevice dev | None \<Rightarrow> LoopAuto)\<rparr>))
      else if name = lit ''offset'' then
        result_bind (parse_u64 name value) (\<lambda>n. Inr (Some (o'\<lparr>loop_offset := Some n\<rparr>)))
      else if name = lit ''sizelimit'' then
        result_bind (parse_u64 name value) (\<lambda>n. Inr (Some (o'\<lparr>loop_sizelimit := Some n\<rparr>)))
      else Inr (map_option (\<lambda>p. o'\<lparr>propagation := propagation o' @ [p]\<rparr>) (prop_of name)))"

definition apply_xmount ::
  "rust_str \<Rightarrow> bytes option \<Rightarrow> parsed_options \<Rightarrow> mount_error + parsed_options" where
  "apply_xmount rest value o' =
     (if rest = lit ''mkdir'' then
        result_bind (parse_mode value) (\<lambda>m. Inr (o'\<lparr>mkdir := Some m\<rparr>))
      else if rest = lit ''subdir'' then
        result_bind (ok_or (Usage (lit ''X-mount.subdir requires a directory'')) value) (\<lambda>v.
          Inr (o'\<lparr>subdir := Some v\<rparr>))
      else if rest = lit ''noloop'' then Inr (o'\<lparr>noloop := True\<rparr>)
      else if rest = lit ''auto-fstypes'' then
        result_bind (ok_or (Usage (lit ''X-mount.auto-fstypes requires a list'')) value) (\<lambda>v.
          Inr (o'\<lparr>auto_fstypes := Some v\<rparr>))
      else if rest = lit ''nocanonicalize'' then
        (case value of
           None \<Rightarrow> Inr (o'\<lparr>nocanon_source := True, nocanon_target := True\<rparr>)
         | Some v \<Rightarrow>
             if v = ascii ''source'' then Inr (o'\<lparr>nocanon_source := True\<rparr>)
             else if v = ascii ''target'' then Inr (o'\<lparr>nocanon_target := True\<rparr>)
             else Inl (Usage (lit ''X-mount.nocanonicalize: expected '' @ [39] @ lit ''source''
               @ [39] @ lit '' or '' @ [39] @ lit ''target'' @ [39] @ lit '', got '' @ from_utf8_lossy v)))
      else if rest = lit ''idmap'' then
        Inl (Usage (lit ''X-mount.idmap is not supported on peios '' @ [0x2014]
          @ lit '' add a SID/ACE to the security descriptor instead''))
      else if rest \<in> {lit ''owner'', lit ''group'', lit ''mode''} then
        Inl (Usage (lit ''X-mount.'' @ rest @ lit '' is not supported on peios '' @ [0x2014]
          @ lit '' ownership is SID/SD-based, not POSIX uid/gid/mode''))
      else Inl (Usage (lit ''unknown X-mount option: X-mount.'' @ rest)))"

text \<open>
  Everything of \<open>apply_one\<close> after the test for \<open>defaults\<close>, in the order the categories are
  tried; the tokens \<open>defaults\<close> stands for are replayed through it.
\<close>

definition apply_plain :: "bytes \<Rightarrow> bytes option \<Rightarrow> parsed_options \<Rightarrow> mount_error + parsed_options" where
  "apply_plain key value o' =
     (let name = from_utf8_lossy key in
      if name = lit ''ro'' \<or> name = lit ''rw'' then apply_ro_rw (name = lit ''ro'') value o'
      else (case try_attr name o' of Some o'' \<Rightarrow> Inr o'' | None \<Rightarrow>
           (case try_sb_flag name o' of Some o'' \<Rightarrow> Inr o'' | None \<Rightarrow>
            result_bind (try_userspace name value o') (\<lambda>handled.
            case handled of Some o'' \<Rightarrow> Inr o'' | None \<Rightarrow>
              if name = lit ''policy'' then
                result_bind (ok_or (Usage (lit ''policy= requires a value'')) value) (\<lambda>v.
                result_bind (parse_policy v) (\<lambda>k. Inr (o'\<lparr>policy := Some k\<rparr>)))
              else (case strip_prefix (lit ''X-mount.'') name of
                      Some rest \<Rightarrow> apply_xmount rest value o'
                    | None \<Rightarrow> Inr (o'\<lparr>fs_params := fs_params o' @ [(key, value)]\<rparr>))))))"

definition default_tokens :: "token list" where
  "default_tokens =
     [(ascii ''rw'', None), (ascii ''suid'', None), (ascii ''dev'', None), (ascii ''exec'', None),
      (ascii ''async'', None)]"

fun apply_all ::
  "(bytes \<Rightarrow> bytes option \<Rightarrow> parsed_options \<Rightarrow> mount_error + parsed_options) \<Rightarrow> token list
    \<Rightarrow> parsed_options \<Rightarrow> mount_error + parsed_options" where
  "apply_all f [] o' = Inr o'"
| "apply_all f ((key, value) # ts) o' = result_bind (f key value o') (apply_all f ts)"

definition apply_one :: "bytes \<Rightarrow> bytes option \<Rightarrow> parsed_options \<Rightarrow> mount_error + parsed_options" where
  "apply_one key value o' =
     (if from_utf8_lossy key = lit ''defaults'' then apply_all apply_plain default_tokens o'
      else apply_plain key value o')"

definition apply_tokens :: "token list \<Rightarrow> parsed_options \<Rightarrow> mount_error + parsed_options" where
  "apply_tokens tokens o' = apply_all apply_one tokens o'"

definition finish_atime :: "parsed_options \<Rightarrow> parsed_options" where
  "finish_atime o' =
     (case atime_mode o' of
        Some mode \<Rightarrow> o'\<lparr>attr_clr := attr_clr o' OR MOUNT_ATTR__ATIME,
           attr_set := (attr_set o' AND NOT MOUNT_ATTR__ATIME) OR mode\<rparr>
      | None \<Rightarrow> o')"

definition parse_options :: "bytes \<Rightarrow> mount_error + parsed_options" where
  "parse_options spec =
     (let tokens = tokenize spec;
          out = options_default\<lparr>
            explicit_rw := (\<exists>(k, _) \<in> set tokens. k = ascii ''rw''),
            explicit_ro := (\<exists>(k, _) \<in> set tokens. k = ascii ''ro'')\<rparr>
      in result_bind (apply_tokens tokens out) (\<lambda>o'. Inr (finish_atime o')))"

definition fsmount_attr_flags :: "parsed_options \<Rightarrow> u32" where
  "fsmount_attr_flags o' = ucast (attr_set o')"

definition touches_superblock :: "parsed_options \<Rightarrow> bool" where
  "touches_superblock o' \<longleftrightarrow> sb_flags o' \<noteq> [] \<or> sb_rdonly o' \<noteq> None \<or> fs_params o' \<noteq> []"

section \<open>The categories as a table\<close>

text \<open>
  The classification of the specification, written as one table of option_words: what each option
  name means. Any other name is a functional \<open>X-mount.\<close> option or is passed to the filesystem.
\<close>

datatype category =
    CatReadOnly bool
  | CatAttr nat bool
  | CatAtime u64
  | CatSuperblock sb_flag bool
  | CatObsolete
  | CatBind
  | CatRbind
  | CatMove
  | CatRemount
  | CatLoop
  | CatOffset
  | CatSizelimit
  | CatPropagation prop_kind bool
  | CatPolicy
  | CatXmount rust_str
  | CatOpaque

definition option_words :: "(string \<times> category) list" where
  "option_words =
     [(''ro'', CatReadOnly True), (''rw'', CatReadOnly False),
      (''nosuid'', CatAttr 1 True), (''suid'', CatAttr 1 False),
      (''nodev'', CatAttr 2 True), (''dev'', CatAttr 2 False),
      (''noexec'', CatAttr 3 True), (''exec'', CatAttr 3 False),
      (''nodiratime'', CatAttr 7 True), (''diratime'', CatAttr 7 False),
      (''nosymfollow'', CatAttr 21 True),
      (''noatime'', CatAtime ATIME_NOATIME), (''atime'', CatAtime ATIME_RELATIME),
      (''relatime'', CatAtime ATIME_RELATIME), (''norelatime'', CatAtime ATIME_STRICTATIME),
      (''strictatime'', CatAtime ATIME_STRICTATIME), (''nostrictatime'', CatAtime ATIME_RELATIME),
      (''sync'', CatSuperblock Synchronous True), (''async'', CatSuperblock Synchronous False),
      (''dirsync'', CatSuperblock Dirsync True), (''lazytime'', CatSuperblock Lazytime True),
      (''nolazytime'', CatSuperblock Lazytime False), (''iversion'', CatSuperblock IVersion True),
      (''noiversion'', CatSuperblock IVersion False), (''silent'', CatSuperblock Silent True),
      (''loud'', CatSuperblock Silent False), (''mand'', CatObsolete), (''nomand'', CatObsolete),
      (''bind'', CatBind), (''rbind'', CatRbind), (''move'', CatMove), (''remount'', CatRemount),
      (''loop'', CatLoop), (''offset'', CatOffset), (''sizelimit'', CatSizelimit),
      (''shared'', CatPropagation Shared False), (''slave'', CatPropagation Slave False),
      (''private'', CatPropagation Private False), (''unbindable'', CatPropagation Unbindable False),
      (''rshared'', CatPropagation Shared True), (''rslave'', CatPropagation Slave True),
      (''rprivate'', CatPropagation Private True), (''runbindable'', CatPropagation Unbindable True),
      (''policy'', CatPolicy)]"

definition keyword_table :: "(rust_str \<times> category) list" where
  "keyword_table = map (\<lambda>(n, c). (lit n, c)) option_words"

definition category :: "rust_str \<Rightarrow> category" where
  "category name =
     (case map_of keyword_table name of
        Some c \<Rightarrow> c
      | None \<Rightarrow> (case strip_prefix (lit ''X-mount.'') name of
                  Some rest \<Rightarrow> CatXmount rest | None \<Rightarrow> CatOpaque))"

fun apply_category ::
  "category \<Rightarrow> bytes \<Rightarrow> bytes option \<Rightarrow> parsed_options \<Rightarrow> mount_error + parsed_options" where
  "apply_category (CatReadOnly ro) key value o' = apply_ro_rw ro value o'"
| "apply_category (CatAttr k on) key value o' = Inr (set_or_clr (2 ^ k) on o')"
| "apply_category (CatAtime m) key value o' = Inr (o'\<lparr>atime_mode := Some m\<rparr>)"
| "apply_category (CatSuperblock f on) key value o' = Inr (o'\<lparr>sb_flags := sb_flags o' @ [(f, on)]\<rparr>)"
| "apply_category CatObsolete key value o' =
     Inr (o'\<lparr>opt_notes := opt_notes o' @ [lit ''option '' @ [39] @ from_utf8_lossy key @ [39]
        @ lit '' is obsolete (removed from the kernel) '' @ [0x2014] @ lit '' ignored'']\<rparr>)"
| "apply_category CatBind key value o' = Inr (o'\<lparr>meta_bind := True\<rparr>)"
| "apply_category CatRbind key value o' = Inr (o'\<lparr>meta_rbind := True\<rparr>)"
| "apply_category CatMove key value o' = Inr (o'\<lparr>meta_move := True\<rparr>)"
| "apply_category CatRemount key value o' = Inr (o'\<lparr>meta_remount := True\<rparr>)"
| "apply_category CatLoop key value o' =
     Inr (o'\<lparr>loop_req := Some (case value of Some dev \<Rightarrow> LoopDevice dev | None \<Rightarrow> LoopAuto)\<rparr>)"
| "apply_category CatOffset key value o' =
     result_bind (parse_u64 (from_utf8_lossy key) value) (\<lambda>n. Inr (o'\<lparr>loop_offset := Some n\<rparr>))"
| "apply_category CatSizelimit key value o' =
     result_bind (parse_u64 (from_utf8_lossy key) value) (\<lambda>n. Inr (o'\<lparr>loop_sizelimit := Some n\<rparr>))"
| "apply_category (CatPropagation k r) key value o' =
     Inr (o'\<lparr>propagation := propagation o' @ [\<lparr>pc_kind = k, pc_recursive = r\<rparr>]\<rparr>)"
| "apply_category CatPolicy key value o' =
     result_bind (ok_or (Usage (lit ''policy= requires a value'')) value) (\<lambda>v.
     result_bind (parse_policy v) (\<lambda>k. Inr (o'\<lparr>policy := Some k\<rparr>)))"
| "apply_category (CatXmount rest) key value o' = apply_xmount rest value o'"
| "apply_category CatOpaque key value o' = Inr (o'\<lparr>fs_params := fs_params o' @ [(key, value)]\<rparr>)"

lemma lit_inj [simp]: "lit s = lit t \<longleftrightarrow> s = t"
  by (simp add: lit_def inj_map_eq_map inj_def)

lemma lit_drop: "drop n (lit s) = lit (drop n s)"
  by (simp add: lit_def drop_map)

lemma attr_bits:
  "MOUNT_ATTR_RDONLY = 2 ^ 0" "MOUNT_ATTR_NOSUID = 2 ^ 1" "MOUNT_ATTR_NODEV = 2 ^ 2"
  "MOUNT_ATTR_NOEXEC = 2 ^ 3" "MOUNT_ATTR_NODIRATIME = 2 ^ 7" "MOUNT_ATTR_NOSYMFOLLOW = 2 ^ 21"
  by (simp_all add: attr_defs)

lemma result_bind_assoc [simp]:
  "result_bind (result_bind r f) g = result_bind r (\<lambda>x. result_bind (f x) g)"
  by (cases r) simp_all

lemma apply_plain_keyword:
  assumes "from_utf8_lossy key = lit n" and "(n, c) \<in> set option_words"
  shows "apply_plain key value o' = apply_category c key value o'"
  using assms(2) unfolding option_words_def list.set
  by (elim insertE emptyE)
    (simp_all add: apply_plain_def assms(1) Let_def try_attr_def try_sb_flag_def sb_flag_of_def
      try_userspace_def prop_of_def prop_base_def attr_bits lit_drop)

lemma apply_plain_other:
  assumes "from_utf8_lossy key \<notin> lit ` fst ` set option_words"
  shows "apply_plain key value o' =
    (case strip_prefix (lit ''X-mount.'') (from_utf8_lossy key) of
       Some rest \<Rightarrow> apply_xmount rest value o'
     | None \<Rightarrow> Inr (o'\<lparr>fs_params := fs_params o' @ [(key, value)]\<rparr>))"
  using assms
  unfolding option_words_def list.set image_insert image_empty fst_conv
  by (simp add: apply_plain_def Let_def try_attr_def try_sb_flag_def sb_flag_of_def
      try_userspace_def prop_of_def prop_base_def)

lemma keyword_table_Some: "map_of keyword_table name = Some c \<Longrightarrow> \<exists>n. name = lit n \<and> (n, c) \<in> set option_words"
  by (auto simp: keyword_table_def dest!: map_of_SomeD)

lemma keyword_table_None: "map_of keyword_table name = None \<Longrightarrow> name \<notin> lit ` fst ` set option_words"
  by (auto simp: keyword_table_def map_of_eq_None_iff image_iff split_def)

lemma apply_plain_category:
  "apply_plain key value o' = apply_category (category (from_utf8_lossy key)) key value o'"
proof (cases "map_of keyword_table (from_utf8_lossy key)")
  case None
  then show ?thesis
    using apply_plain_other [OF keyword_table_None [OF None]]
    by (simp add: category_def split: option.splits)
next
  case (Some c)
  then obtain n where "from_utf8_lossy key = lit n" "(n, c) \<in> set option_words"
    using keyword_table_Some by blast
  with Some show ?thesis
    using apply_plain_keyword by (simp add: category_def)
qed

section \<open>What the parsed options are\<close>

text \<open>The tokens with every \<open>defaults\<close> replaced by what it stands for, and their categories.\<close>

definition expanded :: "token list \<Rightarrow> token list" where
  "expanded ts = concat (map (\<lambda>t.
     if from_utf8_lossy (fst t) = lit ''defaults'' then default_tokens else [t]) ts)"

definition token_category :: "token \<Rightarrow> category" where
  "token_category t = category (from_utf8_lossy (fst t))"

definition apply_token :: "token \<Rightarrow> parsed_options \<Rightarrow> mount_error + parsed_options" where
  "apply_token t = apply_category (token_category t) (fst t) (snd t)"

lemma apply_all_append:
  "apply_all f (ts @ us) o' = result_bind (apply_all f ts o') (apply_all f us)"
proof (induction ts arbitrary: o')
  case (Cons t ts)
  then show ?case by (cases t) (simp, metis)
qed simp

fun apply_expanded :: "token list \<Rightarrow> parsed_options \<Rightarrow> mount_error + parsed_options" where
  "apply_expanded [] o' = Inr o'"
| "apply_expanded (t # ts) o' = result_bind (apply_token t o') (apply_expanded ts)"

lemma apply_all_plain: "apply_all apply_plain ts o' = apply_expanded ts o'"
proof (induction ts arbitrary: o')
  case (Cons t ts)
  then show ?case
    by (cases t) (auto simp: apply_token_def token_category_def apply_plain_category
        result_bind_def split: sum.splits)
qed simp

lemma apply_all_plain_fun: "apply_all apply_plain ts = apply_expanded ts"
  by (rule ext) (rule apply_all_plain)

lemma result_bind_Inr_right [simp]: "result_bind r Inr = r"
  by (cases r) simp_all

lemma result_bind_Inr_fun [simp]: "result_bind r (\<lambda>x. Inr x) = r"
  by (cases r) simp_all

lemma apply_expanded_append:
  "apply_expanded (ts @ us) o' = result_bind (apply_expanded ts o') (apply_expanded us)"
  using apply_all_append [of apply_plain] by (simp add: apply_all_plain_fun)

lemma apply_tokens_expanded: "apply_tokens ts o' = apply_expanded (expanded ts) o'"
proof -
  have one: "apply_one k v o' = apply_expanded
      (if from_utf8_lossy k = lit ''defaults'' then default_tokens else [(k, v)]) o'" for k v o'
    by (cases "apply_token (k, v) o'")
      (auto simp: apply_one_def apply_all_plain apply_token_def token_category_def apply_plain_category)
  have "apply_all apply_one ts o' = apply_expanded (expanded ts) o'" for o'
  proof (induction ts arbitrary: o')
    case (Cons t ts)
    then show ?case
      by (cases t) (simp add: expanded_def apply_expanded_append one fun_eq_iff result_bind_def
          split: sum.splits)
  qed (simp add: expanded_def)
  then show ?thesis by (simp add: apply_tokens_def)
qed

text \<open>What a token adds to each list of the result.\<close>

definition attr_effect :: "token \<Rightarrow> (nat \<times> bool) list" where
  "attr_effect t =
     (case token_category t of
        CatReadOnly ro \<Rightarrow> if snd t = Some (ascii ''fs'') then [] else [(0, ro)]
      | CatAttr k on \<Rightarrow> [(k, on)]
      | _ \<Rightarrow> [])"

definition sb_effect :: "token \<Rightarrow> (sb_flag \<times> bool) list" where
  "sb_effect t = (case token_category t of CatSuperblock f on \<Rightarrow> [(f, on)] | _ \<Rightarrow> [])"

definition prop_effect :: "token \<Rightarrow> prop_change list" where
  "prop_effect t = (case token_category t of
     CatPropagation k r \<Rightarrow> [\<lparr>pc_kind = k, pc_recursive = r\<rparr>] | _ \<Rightarrow> [])"

definition atime_effect :: "token \<Rightarrow> u64 list" where
  "atime_effect t = (case token_category t of CatAtime m \<Rightarrow> [m] | _ \<Rightarrow> [])"

definition sb_rdonly_effect :: "token \<Rightarrow> bool list" where
  "sb_rdonly_effect t = (case token_category t of
     CatReadOnly ro \<Rightarrow> if snd t = Some (ascii ''fs'') then [ro] else [] | _ \<Rightarrow> [])"

definition collected :: "(token \<Rightarrow> 'a list) \<Rightarrow> token list \<Rightarrow> 'a list" where
  "collected f ts = concat (map f ts)"

definition last_of :: "'a list \<Rightarrow> 'a option" where
  "last_of xs = (if xs = [] then None else Some (last xs))"

definition last_effect :: "nat \<Rightarrow> (nat \<times> bool) list \<Rightarrow> bool option" where
  "last_effect n es = map_of (rev es) n"

lemma collected_simps [simp]:
  "collected f [] = []" "collected f (ts @ [t]) = collected f ts @ f t"
  by (simp_all add: collected_def)

lemma last_of_simps [simp]: "last_of [] = None" "last_of (xs @ [x]) = Some x"
  by (simp_all add: last_of_def)

lemma last_effect_simps [simp]:
  "last_effect n [] = None"
  "last_effect n (es @ [(k, b)]) = (if n = k then Some b else last_effect n es)"
  by (auto simp: last_effect_def)

text \<open>One token at a time: what \<open>set_or_clr\<close> does to each bit.\<close>

lemma bit_exp_u64: "k < 64 \<Longrightarrow> bit (2 ^ k :: u64) n \<longleftrightarrow> n = k"
  by (auto simp: bit_exp_iff)

lemma set_or_clr_bits:
  assumes "k < 64"
  shows "bit (attr_set (set_or_clr (2 ^ k) on o')) n \<longleftrightarrow> (if n = k then on else bit (attr_set o') n)"
    and "bit (attr_clr (set_or_clr (2 ^ k) on o')) n \<longleftrightarrow> (if n = k then \<not> on else bit (attr_clr o') n)"
  using assms bit_imp_le_length [of "attr_set o'" n] bit_imp_le_length [of "attr_clr o'" n]
  by (auto simp: set_or_clr_def bit_or_iff bit_and_iff bit_not_iff bit_exp_u64)

lemma set_or_clr_other [simp]:
  "atime_mode (set_or_clr b on o') = atime_mode o'" "fs_params (set_or_clr b on o') = fs_params o'"
  "sb_flags (set_or_clr b on o') = sb_flags o'" "propagation (set_or_clr b on o') = propagation o'"
  "meta_bind (set_or_clr b on o') = meta_bind o'" "meta_rbind (set_or_clr b on o') = meta_rbind o'"
  "meta_move (set_or_clr b on o') = meta_move o'" "meta_remount (set_or_clr b on o') = meta_remount o'"
  "explicit_rw (set_or_clr b on o') = explicit_rw o'" "sb_rdonly (set_or_clr b on o') = sb_rdonly o'"
  by (simp_all add: set_or_clr_def)

text \<open>The masks after some effects: each bit is set or cleared by its last one, if it has any.\<close>

definition masks_ok :: "(nat \<times> bool) list \<Rightarrow> parsed_options \<Rightarrow> bool" where
  "masks_ok es o' \<longleftrightarrow> (\<forall>n. (bit (attr_set o') n \<longleftrightarrow> last_effect n es = Some True)
     \<and> (bit (attr_clr o') n \<longleftrightarrow> last_effect n es = Some False))"

lemma masks_ok_set_or_clr:
  "masks_ok es o' \<Longrightarrow> k < 64 \<Longrightarrow> masks_ok (es @ [(k, on)]) (set_or_clr (2 ^ k) on o')"
  by (simp only: masks_ok_def set_or_clr_bits last_effect_simps) simp

lemma masks_ok_cong:
  "attr_set p = attr_set q \<Longrightarrow> attr_clr p = attr_clr q \<Longrightarrow> masks_ok es p = masks_ok es q"
  by (simp add: masks_ok_def)

lemma masks_ok_updates [simp]:
  "masks_ok es (o'\<lparr>fs_params := a\<rparr>) = masks_ok es o'" "masks_ok es (o'\<lparr>atime_mode := b\<rparr>) = masks_ok es o'"
  "masks_ok es (o'\<lparr>sb_flags := c\<rparr>) = masks_ok es o'" "masks_ok es (o'\<lparr>propagation := d\<rparr>) = masks_ok es o'"
  "masks_ok es (o'\<lparr>meta_bind := e\<rparr>) = masks_ok es o'" "masks_ok es (o'\<lparr>meta_rbind := e\<rparr>) = masks_ok es o'"
  "masks_ok es (o'\<lparr>meta_move := e\<rparr>) = masks_ok es o'" "masks_ok es (o'\<lparr>meta_remount := e\<rparr>) = masks_ok es o'"
  "masks_ok es (o'\<lparr>sb_rdonly := f\<rparr>) = masks_ok es o'" "masks_ok es (o'\<lparr>recursive_attr := e\<rparr>) = masks_ok es o'"
  by (simp_all add: masks_ok_def)

text \<open>The state of the parser after a list of tokens.\<close>

definition options_of :: "token list \<Rightarrow> parsed_options \<Rightarrow> bool" where
  "options_of ts o' \<longleftrightarrow>
     masks_ok (collected attr_effect ts) o'
     \<and> atime_mode o' = last_of (collected atime_effect ts)
     \<and> sb_rdonly o' = last_of (collected sb_rdonly_effect ts)
     \<and> sb_flags o' = collected sb_effect ts
     \<and> propagation o' = collected prop_effect ts
     \<and> fs_params o' = filter (\<lambda>t. token_category t = CatOpaque) ts
     \<and> (meta_bind o' \<longleftrightarrow> CatBind \<in> token_category ` set ts)
     \<and> (meta_rbind o' \<longleftrightarrow> CatRbind \<in> token_category ` set ts)
     \<and> (meta_move o' \<longleftrightarrow> CatMove \<in> token_category ` set ts)
     \<and> (meta_remount o' \<longleftrightarrow> CatRemount \<in> token_category ` set ts)"

lemmas effect_defs = attr_effect_def sb_effect_def prop_effect_def atime_effect_def sb_rdonly_effect_def

definition same_core :: "parsed_options \<Rightarrow> parsed_options \<Rightarrow> bool" where
  "same_core p o' \<longleftrightarrow> attr_set p = attr_set o' \<and> attr_clr p = attr_clr o' \<and> atime_mode p = atime_mode o'
     \<and> sb_rdonly p = sb_rdonly o' \<and> sb_flags p = sb_flags o' \<and> propagation p = propagation o'
     \<and> fs_params p = fs_params o' \<and> meta_bind p = meta_bind o' \<and> meta_rbind p = meta_rbind o'
     \<and> meta_move p = meta_move o' \<and> meta_remount p = meta_remount o'
     \<and> explicit_rw p = explicit_rw o' \<and> explicit_ro p = explicit_ro o'"

lemma apply_xmount_core: "apply_xmount rest v o' = Inr p \<Longrightarrow> same_core p o'"
  by (auto simp: apply_xmount_def same_core_def result_bind_def split: if_splits option.splits sum.splits)

lemma options_of_core:
  "same_core p o' \<Longrightarrow> options_of ts p = options_of ts o'"
  by (simp add: options_of_def same_core_def masks_ok_def)

lemma category_attr_bound: "category name = CatAttr k on \<Longrightarrow> k < 64"
proof -
  assume "category name = CatAttr k on"
  then have "map_of keyword_table name = Some (CatAttr k on)"
    by (auto simp: category_def split: option.splits)
  then obtain n where "(n, CatAttr k on) \<in> set option_words"
    using keyword_table_Some by blast
  then show ?thesis by (simp add: option_words_def) auto
qed

lemma options_of_quiet:
  assumes "options_of ts o'" and "same_core p o'"
    and "attr_effect t = []" "atime_effect t = []" "sb_rdonly_effect t = []" "sb_effect t = []"
      "prop_effect t = []" "token_category t \<notin> {CatOpaque, CatBind, CatRbind, CatMove, CatRemount}"
  shows "options_of (ts @ [t]) p"
  using assms by (simp add: options_of_core [symmetric]) (auto simp: options_of_def)

lemma apply_ro_rw_cases:
  assumes "apply_ro_rw ro v o' = Inr p"
  obtains "v = Some (ascii ''fs'')" "p = o'\<lparr>sb_rdonly := Some ro\<rparr>"
  | "v \<noteq> Some (ascii ''fs'')" "p = set_or_clr MOUNT_ATTR_RDONLY ro o'"
  | "v \<noteq> Some (ascii ''fs'')" "p = set_or_clr MOUNT_ATTR_RDONLY ro (o'\<lparr>recursive_attr := True\<rparr>)"
  using assms
  by (auto simp: apply_ro_rw_def parse_scope_def ascii_def split: option.splits if_splits)


lemma apply_token_quiet:
  assumes "apply_token t o' = Inr p"
    and "token_category t \<in> {CatObsolete, CatLoop, CatOffset, CatSizelimit, CatPolicy}
      \<or> (\<exists>r. token_category t = CatXmount r)"
  shows "same_core p o'"
  using assms
  by (auto simp: apply_token_def apply_xmount_core result_bind_def split: sum.splits)
    (auto simp: same_core_def)

lemma options_of_step:
  assumes o': "options_of ts o'" and t: "apply_token t o' = Inr p"
  shows "options_of (ts @ [t]) p"
proof (cases "token_category t")
  case (CatReadOnly ro)
  note O = o' [unfolded options_of_def]
  from CatReadOnly have "apply_ro_rw ro (snd t) o' = Inr p"
    using t by (simp add: apply_token_def)
  then show ?thesis
  proof (cases rule: apply_ro_rw_cases)
    case 1
    with O CatReadOnly show ?thesis by (simp add: options_of_def effect_defs)
  next
    case 2
    then show ?thesis
      using O CatReadOnly masks_ok_set_or_clr [of "collected attr_effect ts" o' 0 ro]
      by (simp add: options_of_def effect_defs attr_bits)
  next
    case 3
    then show ?thesis
      using O CatReadOnly
        masks_ok_set_or_clr [of "collected attr_effect ts" "o'\<lparr>recursive_attr := True\<rparr>" 0 ro]
      by (simp add: options_of_def effect_defs attr_bits)
  qed
next
  case (CatAttr k on)
  moreover have "k < 64"
    using CatAttr category_attr_bound by (simp add: token_category_def)
  moreover have "p = set_or_clr (2 ^ k) on o'"
    using t CatAttr by (simp add: apply_token_def)
  ultimately show ?thesis
    using o' [unfolded options_of_def] masks_ok_set_or_clr [of "collected attr_effect ts" o' k on]
    by (simp add: options_of_def effect_defs)
next
  case CatOpaque
  then have "p = o'\<lparr>fs_params := fs_params o' @ [t]\<rparr>"
    using t by (simp add: apply_token_def)
  with o' [unfolded options_of_def] CatOpaque show ?thesis
    by (simp add: options_of_def effect_defs)
next
  case (CatAtime m)
  then have "p = o'\<lparr>atime_mode := Some m\<rparr>"
    using t by (simp add: apply_token_def)
  with o' [unfolded options_of_def] CatAtime show ?thesis
    by (simp add: options_of_def effect_defs)
next
  case (CatSuperblock f on)
  then have "p = o'\<lparr>sb_flags := sb_flags o' @ [(f, on)]\<rparr>"
    using t by (simp add: apply_token_def)
  with o' [unfolded options_of_def] CatSuperblock show ?thesis
    by (simp add: options_of_def effect_defs)
next
  case CatBind
  then have "p = o'\<lparr>meta_bind := True\<rparr>"
    using t by (simp add: apply_token_def)
  with o' [unfolded options_of_def] CatBind show ?thesis
    by (simp add: options_of_def effect_defs)
next
  case CatRbind
  then have "p = o'\<lparr>meta_rbind := True\<rparr>"
    using t by (simp add: apply_token_def)
  with o' [unfolded options_of_def] CatRbind show ?thesis
    by (simp add: options_of_def effect_defs)
next
  case CatMove
  then have "p = o'\<lparr>meta_move := True\<rparr>"
    using t by (simp add: apply_token_def)
  with o' [unfolded options_of_def] CatMove show ?thesis
    by (simp add: options_of_def effect_defs)
next
  case CatRemount
  then have "p = o'\<lparr>meta_remount := True\<rparr>"
    using t by (simp add: apply_token_def)
  with o' [unfolded options_of_def] CatRemount show ?thesis
    by (simp add: options_of_def effect_defs)
next
  case (CatPropagation k r)
  then have "p = o'\<lparr>propagation := propagation o' @ [\<lparr>pc_kind = k, pc_recursive = r\<rparr>]\<rparr>"
    using t by (simp add: apply_token_def)
  with o' [unfolded options_of_def] CatPropagation show ?thesis
    by (simp add: options_of_def effect_defs)
next
  case CatObsolete
  then show ?thesis
    using options_of_quiet [OF o' apply_token_quiet [OF t]] by (simp add: effect_defs)
next
  case CatLoop
  then show ?thesis
    using options_of_quiet [OF o' apply_token_quiet [OF t]] by (simp add: effect_defs)
next
  case CatOffset
  then show ?thesis
    using options_of_quiet [OF o' apply_token_quiet [OF t]] by (simp add: effect_defs)
next
  case CatSizelimit
  then show ?thesis
    using options_of_quiet [OF o' apply_token_quiet [OF t]] by (simp add: effect_defs)
next
  case CatPolicy
  then show ?thesis
    using options_of_quiet [OF o' apply_token_quiet [OF t]] by (simp add: effect_defs)
next
  case (CatXmount r)
  then show ?thesis
    using options_of_quiet [OF o' apply_token_quiet [OF t]] by (simp add: effect_defs)
qed

lemma options_of_default [simp]: "options_of [] (options_default\<lparr>explicit_rw := a, explicit_ro := b\<rparr>)"
  by (simp add: options_of_def options_default_def masks_ok_def)

lemma options_of_apply:
  "options_of ts o' \<Longrightarrow> apply_expanded us o' = Inr p \<Longrightarrow> options_of (ts @ us) p"
proof (induction us arbitrary: ts o')
  case (Cons u us)
  from Cons.prems(2) obtain q where "apply_token u o' = Inr q" "apply_expanded us q = Inr p"
    by (auto simp: result_bind_def split: sum.splits)
  with Cons.IH [of "ts @ [u]" q] options_of_step [OF Cons.prems(1)] show ?case by simp
qed simp

text \<open>The failure of a token does not depend on the tokens before it.\<close>

definition token_error :: "token \<Rightarrow> mount_error option" where
  "token_error t = (case apply_token t options_default of Inl e \<Rightarrow> Some e | Inr _ \<Rightarrow> None)"

lemma apply_xmount_error: "apply_xmount rest v p = Inl e \<longleftrightarrow> apply_xmount rest v q = Inl e"
  by (simp add: apply_xmount_def result_bind_def split: option.splits sum.splits)

lemma apply_token_error: "apply_token t p = Inl e \<longleftrightarrow> apply_token t q = Inl e"
  using apply_xmount_error [of _ "snd t" p e q]
  by (cases "token_category t")
    (auto simp: apply_token_def apply_ro_rw_def result_bind_def split: sum.splits)

lemma token_error_iff: "token_error t = Some e \<longleftrightarrow> apply_token t o' = Inl e"
  using apply_token_error [of t o' e options_default]
  by (auto simp: token_error_def split: sum.splits)

lemma apply_expanded_error:
  "apply_expanded ts o' = Inl e \<longleftrightarrow> last_of (rev (List.map_filter token_error ts)) = Some e"
proof (induction ts arbitrary: o')
  case Nil
  then show ?case by (simp add: List.map_filter_def last_of_def)
next
  case (Cons t ts)
  show ?case
  proof (cases "apply_token t o'")
    case (Inl e')
    then have "token_error t = Some e'" using token_error_iff [of t e' o'] by simp
    with Inl show ?thesis by (simp add: last_of_def)
  next
    case (Inr p)
    then have "token_error t = None"
      using token_error_iff [of t _ o'] by (cases "token_error t") auto
    with Inr Cons show ?thesis by simp
  qed
qed

lemma category_attr_bits: "category name = CatAttr k on \<Longrightarrow> k \<notin> {4, 5, 6}"
proof -
  assume "category name = CatAttr k on"
  then have "map_of keyword_table name = Some (CatAttr k on)"
    by (auto simp: category_def split: option.splits)
  then obtain n where "(n, CatAttr k on) \<in> set option_words"
    using keyword_table_Some by blast
  then show ?thesis by (simp add: option_words_def) auto
qed

lemma category_atime: "category name = CatAtime m \<Longrightarrow> m \<in> {ATIME_RELATIME, ATIME_NOATIME, ATIME_STRICTATIME}"
proof -
  assume "category name = CatAtime m"
  then have "map_of keyword_table name = Some (CatAtime m)"
    by (auto simp: category_def split: option.splits)
  then obtain n where "(n, CatAtime m) \<in> set option_words"
    using keyword_table_Some by blast
  then show ?thesis by (simp add: option_words_def) auto
qed

lemma attr_effect_bits: "(k, on) \<in> set (attr_effect t) \<Longrightarrow> k \<notin> {4, 5, 6}"
  using category_attr_bits [of "from_utf8_lossy (fst t)"]
  by (auto simp: attr_effect_def token_category_def split: category.splits if_splits)

lemma last_effect_None: "(\<forall>b. (n, b) \<notin> set es) \<Longrightarrow> last_effect n es = None"
  by (auto simp: last_effect_def map_of_eq_None_iff)

lemma last_effect_atime: "n \<in> {4, 5, 6} \<Longrightarrow> last_effect n (collected attr_effect ts) = None"
  using attr_effect_bits by (intro last_effect_None) (fastforce simp: collected_def)

lemma last_of_collected_atime:
  "last_of (collected atime_effect ts) = Some m \<Longrightarrow> m \<in> {ATIME_RELATIME, ATIME_NOATIME, ATIME_STRICTATIME}"
proof -
  assume "last_of (collected atime_effect ts) = Some m"
  then have "m \<in> set (collected atime_effect ts)"
    by (auto simp: last_of_def split: if_splits)
  then obtain t where "token_category t = CatAtime m"
    by (auto simp: collected_def atime_effect_def split: category.splits)
  then show ?thesis using category_atime by (simp add: token_category_def)
qed

lemma bit_atime_mask: "bit MOUNT_ATTR__ATIME n \<longleftrightarrow> n \<in> {4, 5, 6}"
proof -
  have m: "MOUNT_ATTR__ATIME = 2 ^ 4 OR 2 ^ 5 OR (2 ^ 6 :: u64)"
    by (simp add: MOUNT_ATTR__ATIME_def)
  show ?thesis
    unfolding m bit_or_iff
    using bit_exp_u64 [of 4 n] bit_exp_u64 [of 5 n] bit_exp_u64 [of 6 n] by simp
qed

lemma atime_mode_bits: "m \<in> {ATIME_RELATIME, ATIME_NOATIME, ATIME_STRICTATIME} \<Longrightarrow> bit m n \<Longrightarrow> n \<in> {4, 5, 6}"
proof -
  assume "m \<in> {ATIME_RELATIME, ATIME_NOATIME, ATIME_STRICTATIME}" "bit m n"
  moreover have "bit ATIME_NOATIME n \<longleftrightarrow> n = 4" "bit ATIME_STRICTATIME n \<longleftrightarrow> n = 5"
    using bit_exp_u64 [of 4 n] bit_exp_u64 [of 5 n] by (simp_all add: atime_defs)
  moreover have "\<not> bit ATIME_RELATIME n"
    by (simp add: ATIME_RELATIME_def)
  ultimately show ?thesis by auto
qed

text \<open>The masks of the result: the last token that names an attribute decides it.\<close>

definition attr_masks :: "token list \<Rightarrow> parsed_options \<Rightarrow> bool" where
  "attr_masks ts o' \<longleftrightarrow>
     (\<forall>n. n \<notin> {4, 5, 6} \<longrightarrow>
        (bit (attr_set o') n \<longleftrightarrow> last_effect n (collected attr_effect ts) = Some True)
        \<and> (bit (attr_clr o') n \<longleftrightarrow> last_effect n (collected attr_effect ts) = Some False))
     \<and> (case last_of (collected atime_effect ts) of
          None \<Rightarrow> attr_set o' AND MOUNT_ATTR__ATIME = 0 \<and> attr_clr o' AND MOUNT_ATTR__ATIME = 0
        | Some m \<Rightarrow> attr_set o' AND MOUNT_ATTR__ATIME = m
            \<and> attr_clr o' AND MOUNT_ATTR__ATIME = MOUNT_ATTR__ATIME)"

lemma finish_atime_masks:
  assumes "options_of ts o'"
  shows "attr_masks ts (finish_atime o')"
proof (cases "last_of (collected atime_effect ts)")
  case None
  with assms have f: "finish_atime o' = o'"
    by (simp add: finish_atime_def options_of_def)
  have m: "masks_ok (collected attr_effect ts) o'"
    using assms by (simp add: options_of_def)
  have "attr_set o' AND MOUNT_ATTR__ATIME = 0" "attr_clr o' AND MOUNT_ATTR__ATIME = 0"
    using m last_effect_atime [of _ ts]
    by (intro bit_eqI; fastforce simp: bit_and_iff bit_atime_mask masks_ok_def)+
  with None m f show ?thesis by (simp add: attr_masks_def masks_ok_def)
next
  case (Some m)
  have f: "attr_set (finish_atime o') = (attr_set o' AND NOT MOUNT_ATTR__ATIME) OR m"
    "attr_clr (finish_atime o') = attr_clr o' OR MOUNT_ATTR__ATIME"
    using assms Some by (simp_all add: finish_atime_def options_of_def)
  have m: "masks_ok (collected attr_effect ts) o'"
    using assms by (simp add: options_of_def)
  have a: "bit m n \<Longrightarrow> n \<in> {4, 5, 6}" for n
    using atime_mode_bits last_of_collected_atime [OF Some] by blast
  have "attr_set (finish_atime o') AND MOUNT_ATTR__ATIME = m"
    unfolding f using a by (intro bit_eqI) (auto simp: bit_simps bit_atime_mask)
  moreover have "attr_clr (finish_atime o') AND MOUNT_ATTR__ATIME = MOUNT_ATTR__ATIME"
    unfolding f by (intro bit_eqI) (auto simp: bit_simps bit_atime_mask)
  moreover have "bit (attr_set (finish_atime o')) n \<longleftrightarrow> bit (attr_set o') n"
    "bit (attr_clr (finish_atime o')) n \<longleftrightarrow> bit (attr_clr o') n" if "n \<notin> {4, 5, 6}" for n
    unfolding f using that a [of n] bit_imp_le_length [of "attr_set o'" n]
    by (auto simp: bit_simps bit_atime_mask)
  ultimately show ?thesis
    using m Some by (simp add: attr_masks_def masks_ok_def)
qed

lemma set_or_clr_explicit [simp]: "explicit_ro (set_or_clr b on o') = explicit_ro o'"
  by (simp add: set_or_clr_def)

lemma apply_token_explicit:
  assumes "apply_token t o' = Inr p"
  shows "explicit_rw p = explicit_rw o' \<and> explicit_ro p = explicit_ro o'"
proof (cases "token_category t")
  case (CatReadOnly ro)
  then have "apply_ro_rw ro (snd t) o' = Inr p"
    using assms by (simp add: apply_token_def)
  then show ?thesis by (cases rule: apply_ro_rw_cases) (simp_all add: set_or_clr_def)
next
  case (CatXmount r)
  then show ?thesis
    using assms apply_xmount_core by (fastforce simp: apply_token_def same_core_def)
qed (use assms in \<open>auto simp: apply_token_def result_bind_def split: sum.splits\<close>)

lemma apply_expanded_explicit:
  "apply_expanded ts o' = Inr p \<Longrightarrow> explicit_rw p = explicit_rw o' \<and> explicit_ro p = explicit_ro o'"
proof (induction ts arbitrary: o')
  case (Cons t ts)
  then show ?case
    using apply_token_explicit by (fastforce simp: result_bind_def split: sum.splits)
qed simp

lemma finish_atime_other [simp]:
  "fs_params (finish_atime o') = fs_params o'" "sb_flags (finish_atime o') = sb_flags o'"
  "sb_rdonly (finish_atime o') = sb_rdonly o'" "propagation (finish_atime o') = propagation o'"
  "meta_bind (finish_atime o') = meta_bind o'" "meta_rbind (finish_atime o') = meta_rbind o'"
  "meta_move (finish_atime o') = meta_move o'" "meta_remount (finish_atime o') = meta_remount o'"
  "explicit_rw (finish_atime o') = explicit_rw o'" "explicit_ro (finish_atime o') = explicit_ro o'"
  by (simp_all add: finish_atime_def split: option.splits)

lemma parse_options_cases:
  obtains e where "parse_options spec = Inl e"
      "last_of (rev (List.map_filter token_error (expanded (tokenize spec)))) = Some e"
  | o' where "parse_options spec = Inr (finish_atime o')" "options_of (expanded (tokenize spec)) o'"
      "List.map_filter token_error (expanded (tokenize spec)) = []"
      "explicit_rw o' = (\<exists>(k, _) \<in> set (tokenize spec). k = ascii ''rw'')"
      "explicit_ro o' = (\<exists>(k, _) \<in> set (tokenize spec). k = ascii ''ro'')"
proof -
  define out where "out = options_default\<lparr>
            explicit_rw := (\<exists>(k, _) \<in> set (tokenize spec). k = ascii ''rw''),
            explicit_ro := (\<exists>(k, _) \<in> set (tokenize spec). k = ascii ''ro'')\<rparr>"
  have p: "parse_options spec = result_bind (apply_expanded (expanded (tokenize spec)) out)
      (\<lambda>o'. Inr (finish_atime o'))"
    by (simp add: parse_options_def out_def Let_def apply_tokens_expanded)
  show thesis
  proof (cases "apply_expanded (expanded (tokenize spec)) out")
    case (Inl e)
    then have "parse_options spec = Inl e"
      using p by simp
    moreover have "last_of (rev (List.map_filter token_error (expanded (tokenize spec)))) = Some e"
      using Inl apply_expanded_error [of "expanded (tokenize spec)" out e] by simp
    ultimately show thesis using that(1) by blast
  next
    case (Inr q)
    have "options_of (expanded (tokenize spec)) q"
      using options_of_apply [OF options_of_default Inr [unfolded out_def]] by simp
    moreover have "last_of (rev (List.map_filter token_error (expanded (tokenize spec)))) = None"
      using apply_expanded_error [of "expanded (tokenize spec)" out] Inr
      by (metis Inl_Inr_False not_None_eq)
    moreover have "explicit_rw q = explicit_rw out \<and> explicit_ro q = explicit_ro out"
      using Inr apply_expanded_explicit by blast
    ultimately show thesis
      using that(2) [of q] p Inr by (simp add: last_of_def out_def split: if_splits)
  qed
qed

lemma attr_masks_disjoint:
  assumes "attr_masks ts o'"
  shows "attr_set o' AND attr_clr o' AND NOT MOUNT_ATTR__ATIME = 0"
proof (rule bit_eqI)
  fix n assume "possible_bit TYPE(64 word) n"
  show "bit (attr_set o' AND attr_clr o' AND NOT MOUNT_ATTR__ATIME) n \<longleftrightarrow> bit (0 :: u64) n"
    using assms by (cases "n \<in> {4, 5, 6}") (auto simp: bit_simps bit_atime_mask attr_masks_def)
qed

text \<open>C20. Meaning of an option string: it is refused with the error of its first bad token, if
  it has one. Otherwise every per-mount attribute is set or cleared by the last token that names
  it (a \<open>defaults\<close> counting as what it stands for) and untouched if none does, the access-time
  mode is the last one given, no attribute but that mode is both set and cleared, the superblock
  flags, propagation changes and filesystem parameters are those of the tokens in their order,
  the parameters unchanged, and a structural operation is selected when its word occurs.\<close>

theorem parse_options_meaning:
  "let ts = expanded (tokenize spec);
       bad = List.map_filter token_error ts
   in (case parse_options spec of
         Inl e \<Rightarrow> bad \<noteq> [] \<and> hd bad = e
       | Inr o' \<Rightarrow>
           bad = []
           \<and> attr_masks ts o'
           \<and> attr_set o' AND attr_clr o' AND NOT MOUNT_ATTR__ATIME = 0
           \<and> sb_rdonly o' = last_of (collected sb_rdonly_effect ts)
           \<and> sb_flags o' = collected sb_effect ts
           \<and> propagation o' = collected prop_effect ts
           \<and> fs_params o' = filter (\<lambda>t. token_category t = CatOpaque) ts
           \<and> (meta_bind o' \<longleftrightarrow> CatBind \<in> token_category ` set ts)
           \<and> (meta_rbind o' \<longleftrightarrow> CatRbind \<in> token_category ` set ts)
           \<and> (meta_move o' \<longleftrightarrow> CatMove \<in> token_category ` set ts)
           \<and> (meta_remount o' \<longleftrightarrow> CatRemount \<in> token_category ` set ts)
           \<and> (explicit_rw o' \<longleftrightarrow> ascii ''rw'' \<in> fst ` set (tokenize spec))
           \<and> (explicit_ro o' \<longleftrightarrow> ascii ''ro'' \<in> fst ` set (tokenize spec)))"
proof (cases rule: parse_options_cases [of spec])
  case (1 e)
  then show ?thesis by (auto simp: last_of_def last_rev split: if_splits)
next
  case (2 o')
  have e: "(\<exists>(k, _) \<in> set ts. k = x) \<longleftrightarrow> x \<in> fst ` set ts" for ts :: "token list" and x
    by force
  have m: "attr_masks (expanded (tokenize spec)) (finish_atime o')"
    using finish_atime_masks [OF 2(2)] .
  show ?thesis
    using 2(2) unfolding options_of_def
    by (simp add: 2(1,3-5) m attr_masks_disjoint [OF m] e)
qed

section \<open>The tokenizer read back\<close>

text \<open>How a list of tokens is written: a value in double quotes, commas between.\<close>

fun render_token :: "token \<Rightarrow> bytes" where
  "render_token (k, None) = k"
| "render_token (k, Some v) = k @ [0x3D, 0x22] @ v @ [0x22]"

definition render_tokens :: "token list \<Rightarrow> bytes" where
  "render_tokens ts = concat (map (\<lambda>t. render_token t @ [0x2C]) ts)"

text \<open>Names that the syntax can carry, and values that hold no quote and do not end in white space.\<close>

definition plain_key :: "bytes \<Rightarrow> bool" where
  "plain_key k \<longleftrightarrow> k \<noteq> [] \<and> set k \<inter> {0x22, 0x2C, 0x3D} = {} \<and> \<not> is_ascii_ws (hd k) \<and> \<not> is_ascii_ws (last k)"

definition plain_token :: "token \<Rightarrow> bool" where
  "plain_token t \<longleftrightarrow> plain_key (fst t)
     \<and> (case snd t of None \<Rightarrow> True
        | Some v \<Rightarrow> 0x22 \<notin> set v \<and> (v = [] \<or> \<not> is_ascii_ws (last v)))"

fun unquoted :: "token \<Rightarrow> bytes" where
  "unquoted (k, None) = k"
| "unquoted (k, Some v) = k @ 0x3D # v"

lemma position_hd: "s \<noteq> [] \<Longrightarrow> p (hd s) \<Longrightarrow> position p s = Some 0"
  by (cases s) simp_all

lemma position_append: "\<forall>x \<in> set s. \<not> p x \<Longrightarrow> p y \<Longrightarrow> position p (s @ y # t) = Some (length s)"
  by (induction s) simp_all

lemma trim_bytes_id: "s \<noteq> [] \<Longrightarrow> \<not> is_ascii_ws (hd s) \<Longrightarrow> \<not> is_ascii_ws (last s) \<Longrightarrow> trim_bytes s = s"
  by (simp add: trim_bytes_def position_hd hd_rev subslice_full)

lemma push_token_unquoted:
  assumes "plain_token t"
  shows "push_token out (unquoted t) = out @ [t]"
proof (cases t)
  case (Pair k v)
  show ?thesis
  proof (cases v)
    case None
    then have "trim_bytes k = k" "k \<noteq> []" "\<forall>b \<in> set k. b \<noteq> 0x3D"
      using assms Pair by (auto simp: plain_token_def plain_key_def trim_bytes_id)
    then show ?thesis
      using Pair None by (simp add: push_token_def position_None [THEN iffD2])
  next
    case (Some w)
    have "trim_bytes (k @ 0x3D # w) = k @ 0x3D # w"
      using assms Pair Some
      by (intro trim_bytes_id) (auto simp: plain_token_def plain_key_def is_ascii_ws_def)
    moreover have "position (\<lambda>b. b = 0x3D) (k @ 0x3D # w) = Some (length k)"
      using assms Pair by (intro position_append) (auto simp: plain_token_def plain_key_def)
    ultimately show ?thesis
      using Pair Some by (simp add: push_token_def)
  qed
qed

lemma tokenize_plain:
  "set xs \<inter> {0x22, 0x2C} = {} \<Longrightarrow>
     tokenize_loop out cur False (xs @ bs) = tokenize_loop out (cur @ xs) False bs"
  by (induction xs arbitrary: cur) auto

lemma tokenize_quoted:
  "0x22 \<notin> set xs \<Longrightarrow> tokenize_loop out cur True (xs @ bs) = tokenize_loop out (cur @ xs) True bs"
  by (induction xs arbitrary: cur) auto

lemma tokenize_one:
  assumes "plain_token t"
  shows "tokenize_loop out [] False (render_token t @ 0x2C # bs) = tokenize_loop (out @ [t]) [] False bs"
proof (cases t)
  case (Pair k v)
  then have k: "set k \<inter> {0x22, 0x2C} = {}"
    using assms by (auto simp: plain_token_def plain_key_def)
  show ?thesis
    using push_token_unquoted [OF assms, of out] Pair assms
    by (cases v) (simp_all add: tokenize_plain [OF k] tokenize_quoted plain_token_def)
qed

text \<open>The tokenizer reads back what was written: tokens with plain names and with values that
  may hold commas, equals signs and any other byte but a double quote are recovered in order.\<close>

theorem tokenize_roundtrip:
  assumes "\<forall>t \<in> set ts. plain_token t"
  shows "tokenize (render_tokens ts) = ts"
proof -
  have "tokenize_loop out [] False (render_tokens ts) = out @ ts" for out
    using assms
  proof (induction ts arbitrary: out)
    case Nil
    then show ?case by (simp add: render_tokens_def push_token_def trim_bytes_def subslice_def)
  next
    case (Cons t ts)
    then show ?case by (simp add: render_tokens_def tokenize_one)
  qed
  from this [of "[]"] show ?thesis by (simp add: tokenize_def)
qed

theorem tokenize_roundtrip_witness:
  "tokenize (render_tokens [(ascii ''upperdir'', Some (ascii ''/a,b=c'')), (ascii ''ro'', None)])
     = [(ascii ''upperdir'', Some (ascii ''/a,b=c'')), (ascii ''ro'', None)]"
proof -
  have "\<forall>t \<in> set [(ascii ''upperdir'', Some (ascii ''/a,b=c'')), (ascii ''ro'', None)]. plain_token t"
    by (simp add: plain_token_def plain_key_def ascii_def is_ascii_ws_def)
  then show ?thesis by (rule tokenize_roundtrip)
qed

end
