(* ===== verification/Mount_Request.thy ===== *)
theory Mount_Request
  imports Mount_Options
begin

text \<open>
  \<open>src/uu/mount/src/verb.rs\<close>, \<open>request.rs\<close> and the client-side check of \<open>policy.rs\<close>: the
  structural verb, the operands, and the request built from the command line. The matches of the
  argument parser (the crate \<open>clap\<close>) are a record with one field per option; the SDDL parser of
  the crate \<open>peios\<close> is a pair of functions, the parser and the test for an owner.
\<close>

section \<open>Verbs\<close>

datatype verb = New | Bind bool | Move | Beneath | Remount

record verb_flags =
  vf_bind :: bool
  vf_rbind :: bool
  vf_move :: bool
  vf_beneath :: bool

definition chosen_verbs :: "verb_flags \<Rightarrow> parsed_options \<Rightarrow> verb list" where
  "chosen_verbs flags o' =
     (if vf_bind flags \<or> meta_bind o' then [Bind False] else [])
     @ (if vf_rbind flags \<or> meta_rbind o' then [Bind True] else [])
     @ (if vf_move flags \<or> meta_move o' then [Move] else [])
     @ (if vf_beneath flags then [Beneath] else [])
     @ (if meta_remount o' then [Remount] else [])"

definition resolve_verb :: "verb_flags \<Rightarrow> parsed_options \<Rightarrow> mount_error + verb" where
  "resolve_verb flags o' =
     (case chosen_verbs flags o' of
        [] \<Rightarrow> Inr New
      | [Bind _, Bind _] \<Rightarrow> Inr (Bind True)
      | [one] \<Rightarrow> Inr one
      | _ \<Rightarrow> Inl (Usage (lit
          ''the bind/rbind, move, beneath and remount verbs are mutually exclusive'')))"

definition verb_takes_lone_target :: "verb \<Rightarrow> bool" where
  "verb_takes_lone_target v \<longleftrightarrow> v = Remount"

section \<open>Operands\<close>

record operands =
  op_source :: "bytes option"
  op_target :: bytes

definition missing_target :: mount_error where
  "missing_target = Usage (lit ''a target is required'')"

definition resolve_operands ::
  "verb \<Rightarrow> bytes list \<Rightarrow> bytes option \<Rightarrow> bytes option \<Rightarrow> bool \<Rightarrow> mount_error + operands" where
  "resolve_operands v positionals src_flag tgt_flag propagation_only =
     (let lone_target = verb_takes_lone_target v \<or> propagation_only in
      case (src_flag, tgt_flag) of
        (Some s, Some t) \<Rightarrow> Inr \<lparr>op_source = Some s, op_target = t\<rparr>
      | (Some s, None) \<Rightarrow>
          (case positionals of
             [] \<Rightarrow> Inl missing_target
           | t # _ \<Rightarrow> Inr \<lparr>op_source = Some s, op_target = t\<rparr>)
      | (None, Some t) \<Rightarrow>
          Inr \<lparr>op_source = (case positionals of [] \<Rightarrow> None | s # _ \<Rightarrow> Some s), op_target = t\<rparr>
      | (None, None) \<Rightarrow>
          (case positionals of
             [] \<Rightarrow> Inl missing_target
           | [target] \<Rightarrow>
               if lone_target then Inr \<lparr>op_source = None, op_target = target\<rparr>
               else Inl (Usage (lit ''a single operand cannot be resolved without /etc/fstab; ''
                 @ lit ''supply both SOURCE and TARGET, or use --source/--target''))
           | [source, target] \<Rightarrow> Inr \<lparr>op_source = Some source, op_target = target\<rparr>
           | _ \<Rightarrow> Inl (Usage (lit ''too many operands''))))"

section \<open>The request\<close>

record list_request =
  lr_type_filter :: "bytes option"
  lr_show_labels :: bool

record mount_request =
  rq_verb :: verb
  rq_source :: "bytes option"
  rq_target :: bytes
  rq_fstype :: "bytes option"
  rq_options :: parsed_options
  rq_propagation :: "prop_change list"
  no_canonicalize_source :: bool
  no_canonicalize_target :: bool
  rq_mkdir :: "u32 option"
  exclusive :: bool
  onlyonce :: bool
  internal_only :: bool
  namespace :: "bytes option"
  synth_sddl :: "bytes option"
  target_prefix :: "bytes option"
  fake :: bool
  verbose :: u8

datatype action = ListAction list_request | MountAction mount_request

text \<open>
  The matches: each field is what \<open>get_one\<close>, \<open>get_many\<close>, \<open>get_flag\<close> or \<open>get_count\<close> returns
  for that option; \<open>m_make kind recursive\<close> is the flag \<open>--make-[r]kind\<close>.
\<close>

record arg_matches =
  m_options :: "bytes list"
  m_read_only :: bool
  m_read_write :: bool
  m_bind :: bool
  m_rbind :: bool
  m_move :: bool
  m_beneath :: bool
  m_make :: "prop_kind \<Rightarrow> bool \<Rightarrow> bool"
  m_operands :: "bytes list"
  m_source :: "bytes option"
  m_target :: "bytes option"
  m_label :: "bytes option"
  m_uuid :: "bytes option"
  m_type :: "bytes option"
  m_target_prefix :: "bytes option"
  m_synth_sddl :: "bytes option"
  m_namespace :: "bytes option"
  m_mkdir :: "rust_str option"
  m_show_labels :: bool
  m_no_canonicalize :: bool
  m_exclusive :: bool
  m_onlyonce :: bool
  m_internal_only :: bool
  m_fake :: bool
  m_verbose :: u8

definition push_opt :: "bytes \<Rightarrow> bytes \<Rightarrow> bytes" where
  "push_opt buf opt = (if buf \<noteq> [] then buf @ [0x2C] else buf) @ opt"

definition raw_options :: "arg_matches \<Rightarrow> bytes" where
  "raw_options m =
     (let raw = foldl (\<lambda>raw v. (if raw \<noteq> [] then raw @ [0x2C] else raw) @ v) [] (m_options m);
          raw = (if m_read_only m then push_opt raw (ascii ''ro'') else raw)
      in if m_read_write m then push_opt raw (ascii ''rw'') else raw)"

definition make_order :: "(prop_kind \<times> bool) list" where
  "make_order =
     [(Shared, False), (Slave, False), (Private, False), (Unbindable, False),
      (Shared, True), (Slave, True), (Private, True), (Unbindable, True)]"

definition collect_propagation :: "arg_matches \<Rightarrow> parsed_options \<Rightarrow> prop_change list" where
  "collect_propagation m o' =
     propagation o' @ map (\<lambda>(k, r). \<lparr>pc_kind = k, pc_recursive = r\<rparr>)
       (filter (\<lambda>(k, r). m_make m k r) make_order)"

definition mkdir_mode :: "arg_matches \<Rightarrow> u32 option" where
  "mkdir_mode m =
     (case m_mkdir m of
        None \<Rightarrow> None
      | Some s \<Rightarrow>
          Some (case parse_uint 8 (2 ^ 32 - 1) (trim_start_matches (lit ''0o'') s) of
                  Some n \<Rightarrow> of_nat n | None \<Rightarrow> 0x1ED))"

definition tag_source :: "arg_matches \<Rightarrow> bytes option" where
  "tag_source m =
     (case m_label m of
        Some label \<Rightarrow> Some (ascii ''LABEL='' @ label)
      | None \<Rightarrow> (case m_uuid m of
                  Some uuid \<Rightarrow> Some (ascii ''UUID='' @ uuid)
                | None \<Rightarrow> None))"

definition join_path :: "bytes \<Rightarrow> bytes \<Rightarrow> bytes" where
  "join_path prefix rest =
     (if strip_suffix [0x2F] prefix \<noteq> None then prefix else prefix @ [0x2F])
     @ (case strip_prefix [0x2F] rest of Some r \<Rightarrow> r | None \<Rightarrow> rest)"

text \<open>\<open>parse_template\<close> and \<open>validate_synth_sddl\<close> of \<open>policy.rs\<close>.\<close>

definition parse_template ::
  "(rust_str \<Rightarrow> rust_str + 'sd) \<Rightarrow> ('sd \<Rightarrow> bool) \<Rightarrow> bytes option \<Rightarrow> mount_error + 'sd option" where
  "parse_template sddl has_owner text' =
     (case text' of
        None \<Rightarrow> Inr None
      | Some bs \<Rightarrow>
          result_bind (ok_or (Usage (lit ''--synth-sddl must be valid SDDL text'')) (from_utf8 bs)) (\<lambda>t.
          result_bind (map_err (\<lambda>e. Usage (lit ''invalid --synth-sddl: '' @ e)) (sddl t)) (\<lambda>sd.
          if has_owner sd then Inr (Some sd)
          else Inl (Usage (lit ''--synth-sddl must include an owner (e.g. O:SY)'')))))"

definition validate_synth_sddl ::
  "(rust_str \<Rightarrow> rust_str + 'sd) \<Rightarrow> ('sd \<Rightarrow> bool) \<Rightarrow> bytes option \<Rightarrow> mount_error + unit" where
  "validate_synth_sddl sddl has_owner text' =
     result_bind (parse_template sddl has_owner text') (\<lambda>_. Inr ())"

definition validate ::
  "(rust_str \<Rightarrow> rust_str + 'sd) \<Rightarrow> ('sd \<Rightarrow> bool) \<Rightarrow> mount_request \<Rightarrow> mount_error + unit" where
  "validate sddl has_owner req =
     (if policy (rq_options req) \<noteq> None \<and> rq_verb req \<noteq> New then
        Inl (Usage (lit ''policy= is only valid on a new mount (not with bind/move/beneath/remount)''))
      else if synth_sddl req \<noteq> None
          \<and> policy (rq_options req) \<notin> {Some SynthEphemeral, Some SynthPersist} then
        Inl (Usage (lit ''--synth-sddl requires -o policy=synth-ephemeral or synth-persist''))
      else validate_synth_sddl sddl has_owner (synth_sddl req))"

definition not_auto :: "bytes option \<Rightarrow> bytes option" where
  "not_auto t = (if t = Some (ascii ''auto'') then None else t)"

definition build ::
  "(rust_str \<Rightarrow> rust_str + 'sd) \<Rightarrow> ('sd \<Rightarrow> bool) \<Rightarrow> arg_matches \<Rightarrow> mount_error + action" where
  "build sddl has_owner m =
     result_bind (parse_options (raw_options m)) (\<lambda>options.
     result_bind (resolve_verb \<lparr>vf_bind = m_bind m, vf_rbind = m_rbind m, vf_move = m_move m,
        vf_beneath = m_beneath m\<rparr> options) (\<lambda>v.
     let props = collect_propagation m options;
         positionals = m_operands m;
         src_flag = (case tag_source m of Some s \<Rightarrow> Some s | None \<Rightarrow> m_source m);
         tgt_flag = m_target m in
     if positionals = [] \<and> src_flag = None \<and> tgt_flag = None \<and> v = New \<and> props = [] then
       Inr (ListAction \<lparr>lr_type_filter = not_auto (m_type m), lr_show_labels = m_show_labels m\<rparr>)
     else
       let propagation_only = (props \<noteq> [] \<and> v = New) in
       result_bind (resolve_operands v positionals src_flag tgt_flag propagation_only) (\<lambda>ops.
       let target = (case m_target_prefix m of
             Some prefix \<Rightarrow> join_path prefix (op_target ops) | None \<Rightarrow> op_target ops);
           req = \<lparr>rq_verb = v, rq_source = op_source ops, rq_target = target,
             rq_fstype = not_auto (m_type m), rq_options = options, rq_propagation = props,
             no_canonicalize_source = (m_no_canonicalize m \<or> nocanon_source options),
             no_canonicalize_target = (m_no_canonicalize m \<or> nocanon_target options),
             rq_mkdir = (case mkdir_mode m of Some d \<Rightarrow> Some d | None \<Rightarrow> mkdir options),
             exclusive = m_exclusive m, onlyonce = m_onlyonce m, internal_only = m_internal_only m,
             namespace = m_namespace m, synth_sddl = m_synth_sddl m,
             target_prefix = m_target_prefix m, fake = m_fake m, verbose = m_verbose m\<rparr>
       in result_bind (validate sddl has_owner req) (\<lambda>_. Inr (MountAction req)))))"

section \<open>Mutual exclusion of the verbs\<close>

text \<open>The structural operations asked for, a bind and a recursive bind being one.\<close>

definition wanted_verbs :: "verb_flags \<Rightarrow> parsed_options \<Rightarrow> verb list" where
  "wanted_verbs flags o' =
     (let b = vf_bind flags \<or> meta_bind o'; r = vf_rbind flags \<or> meta_rbind o' in
      map snd (filter fst [(b \<or> r, Bind r), (vf_move flags \<or> meta_move o', Move),
        (vf_beneath flags, Beneath), (meta_remount o', Remount)]))"

lemma resolve_verb_wanted:
  "resolve_verb flags o' =
     (case wanted_verbs flags o' of
        [] \<Rightarrow> Inr New
      | [v] \<Rightarrow> Inr v
      | _ \<Rightarrow> Inl (Usage (lit
          ''the bind/rbind, move, beneath and remount verbs are mutually exclusive'')))"
  unfolding resolve_verb_def chosen_verbs_def wanted_verbs_def Let_def
  by (cases "vf_bind flags \<or> meta_bind o'"; cases "vf_rbind flags \<or> meta_rbind o'";
      cases "vf_move flags \<or> meta_move o'"; cases "vf_beneath flags"; cases "meta_remount o'"; simp)

section \<open>What a built request satisfies\<close>

lemma validate_ok:
  "validate sddl has_owner req = Inr u \<longleftrightarrow>
     (policy (rq_options req) \<noteq> None \<longrightarrow> rq_verb req = New)
     \<and> (\<forall>bs. synth_sddl req = Some bs \<longrightarrow>
          policy (rq_options req) \<in> {Some SynthEphemeral, Some SynthPersist}
          \<and> (\<exists>t sd. from_utf8 bs = Some t \<and> sddl t = Inr sd \<and> has_owner sd))"
  by (cases "synth_sddl req")
    (auto simp: validate_def validate_synth_sddl_def parse_template_def result_bind_def ok_or_def
      map_err_def split: option.splits sum.splits if_splits)

lemma build_mount_cases:
  assumes "build sddl has_owner m = Inr (MountAction r)"
  obtains o' ops where "parse_options (raw_options m) = Inr o'"
    "resolve_verb \<lparr>vf_bind = m_bind m, vf_rbind = m_rbind m, vf_move = m_move m,
        vf_beneath = m_beneath m\<rparr> o' = Inr (rq_verb r)"
    "rq_options r = o'" "rq_propagation r = collect_propagation m o'"
    "resolve_operands (rq_verb r) (m_operands m)
       (case tag_source m of Some s \<Rightarrow> Some s | None \<Rightarrow> m_source m) (m_target m)
       (rq_propagation r \<noteq> [] \<and> rq_verb r = New) = Inr ops"
    "rq_source r = op_source ops"
    "rq_target r = (case m_target_prefix m of
             Some prefix \<Rightarrow> join_path prefix (op_target ops) | None \<Rightarrow> op_target ops)"
    "validate sddl has_owner r = Inr ()" "fake r = m_fake m" "rq_fstype r = not_auto (m_type m)"
    "synth_sddl r = m_synth_sddl m" "exclusive r = m_exclusive m"
  using assms
  by (auto simp: build_def result_bind_def Let_def split: sum.splits if_splits)

lemma resolve_operands_source:
  assumes "resolve_operands v ps src tgt p = Inr ops" and "op_source ops = None"
  shows "(v = Remount \<or> p) \<and> length ps = 1 \<or> (tgt \<noteq> None \<and> ps = [])"
  using assms
  by (auto simp: resolve_operands_def verb_takes_lone_target_def Let_def
      split: option.splits list.splits if_splits)

lemma resolve_operands_no_target: "resolve_operands v [] src None p = Inl missing_target"
  by (simp add: resolve_operands_def split: option.splits)


text \<open>Whatever the command line is refused for is a usage error.\<close>

definition usage_errors :: "mount_error + 'a \<Rightarrow> bool" where
  "usage_errors r \<longleftrightarrow> (case r of Inl e \<Rightarrow> (\<exists>msg. e = Usage msg) | Inr _ \<Rightarrow> True)"

lemma usage_errors_simps [simp]:
  "usage_errors (Inr x)" "usage_errors (Inl (Usage msg))"
  "usage_errors (ok_or (Usage msg) y)" "usage_errors (map_err (\<lambda>e. Usage (h e)) z)"
  by (auto simp: usage_errors_def map_err_def ok_or_def split: option.splits sum.splits)

lemma usage_errors_bind:
  "usage_errors r \<Longrightarrow> (\<And>x. r = Inr x \<Longrightarrow> usage_errors (f x)) \<Longrightarrow> usage_errors (result_bind r f)"
  by (cases r) (simp_all add: usage_errors_def)

lemma usage_errors_values:
  "usage_errors (parse_scope v)" "usage_errors (parse_policy b)" "usage_errors (parse_mode v)"
  "usage_errors (parse_u64 n v)"
  by (auto simp: parse_scope_def parse_policy_def parse_mode_def parse_u64_def Let_def split_def
      split: option.splits intro!: usage_errors_bind)

lemma usage_errors_token: "usage_errors (apply_token t o')"
  by (cases "token_category t")
    (auto simp: apply_token_def apply_ro_rw_def apply_xmount_def split: option.splits
      intro!: usage_errors_bind usage_errors_values)

lemma usage_errors_options: "usage_errors (parse_options spec)"
proof -
  have "usage_errors (apply_expanded ts o')" for ts o'
    by (induction ts arbitrary: o') (auto intro!: usage_errors_bind usage_errors_token)
  then show ?thesis
    by (auto simp: parse_options_def apply_tokens_expanded Let_def intro!: usage_errors_bind)
qed

lemma usage_errors_build: "usage_errors (build sddl has_owner m)"
proof -
  have "usage_errors (resolve_verb f o')" for f o'
    by (auto simp: resolve_verb_wanted split: list.splits)
  moreover have "usage_errors (resolve_operands v ps s t p)" for v ps s t p
    by (auto simp: resolve_operands_def missing_target_def Let_def split: option.splits list.splits)
  moreover have "usage_errors (validate sddl has_owner r)" for r
    by (auto simp: validate_def validate_synth_sddl_def parse_template_def split: option.splits
        intro!: usage_errors_bind)
  ultimately show ?thesis
    unfolding build_def Let_def
    by (auto intro!: usage_errors_bind usage_errors_options)
qed

lemma build_list_cases:
  assumes "build sddl has_owner m = Inr (ListAction l)"
  shows "m_operands m = [] \<and> m_source m = None \<and> m_target m = None \<and> m_label m = None \<and> m_uuid m = None
    \<and> (\<exists>o'. parse_options (raw_options m) = Inr o' \<and> collect_propagation m o' = []
         \<and> wanted_verbs \<lparr>vf_bind = m_bind m, vf_rbind = m_rbind m, vf_move = m_move m,
              vf_beneath = m_beneath m\<rparr> o' = [])
    \<and> l = \<lparr>lr_type_filter = not_auto (m_type m), lr_show_labels = m_show_labels m\<rparr>"
proof -
  have New: "wanted_verbs f o' = []" if "resolve_verb f o' = Inr New" for f o'
    using that by (auto simp: resolve_verb_wanted wanted_verbs_def Let_def split: list.splits if_splits)
  show ?thesis
    using assms
    by (auto simp: build_def result_bind_def Let_def tag_source_def New
        split: sum.splits if_splits option.splits)
qed

lemma build_mount_ok:
  assumes "build sddl has_owner m = Inr (MountAction r)"
  shows "wanted_verbs \<lparr>vf_bind = m_bind m, vf_rbind = m_rbind m, vf_move = m_move m,
            vf_beneath = m_beneath m\<rparr> (rq_options r) = (if rq_verb r = New then [] else [rq_verb r])
    \<and> (policy (rq_options r) \<noteq> None \<longrightarrow> rq_verb r = New)
    \<and> (\<forall>bs. synth_sddl r = Some bs \<longrightarrow> policy (rq_options r) \<in> {Some SynthEphemeral, Some SynthPersist}
          \<and> (\<exists>t sd. from_utf8 bs = Some t \<and> sddl t = Inr sd \<and> has_owner sd))
    \<and> rq_propagation r = propagation (rq_options r)
          @ [\<lparr>pc_kind = k, pc_recursive = c\<rparr>. c \<leftarrow> [False, True],
               k \<leftarrow> [Shared, Slave, Private, Unbindable], m_make m k c]
    \<and> (rq_source r = None \<longrightarrow>
          (rq_verb r = Remount \<or> (rq_propagation r \<noteq> [] \<and> rq_verb r = New)) \<and> length (m_operands m) = 1
          \<or> m_target m \<noteq> None \<and> m_operands m = [])"
proof -
  obtain o' ops where b: "resolve_verb \<lparr>vf_bind = m_bind m, vf_rbind = m_rbind m, vf_move = m_move m,
        vf_beneath = m_beneath m\<rparr> o' = Inr (rq_verb r)"
    "rq_options r = o'" "rq_propagation r = collect_propagation m o'"
    "resolve_operands (rq_verb r) (m_operands m)
       (case tag_source m of Some s \<Rightarrow> Some s | None \<Rightarrow> m_source m) (m_target m)
       (rq_propagation r \<noteq> [] \<and> rq_verb r = New) = Inr ops"
    "rq_source r = op_source ops" "validate sddl has_owner r = Inr ()"
    by (rule build_mount_cases [OF assms])
  have "wanted_verbs \<lparr>vf_bind = m_bind m, vf_rbind = m_rbind m, vf_move = m_move m,
            vf_beneath = m_beneath m\<rparr> (rq_options r) = (if rq_verb r = New then [] else [rq_verb r])"
    using b(1,2) by (auto simp: resolve_verb_wanted wanted_verbs_def Let_def split: list.splits if_splits)
  moreover have "rq_propagation r = propagation (rq_options r)
          @ [\<lparr>pc_kind = k, pc_recursive = c\<rparr>. c \<leftarrow> [False, True],
               k \<leftarrow> [Shared, Slave, Private, Unbindable], m_make m k c]"
    using b(2,3) by (simp add: collect_propagation_def make_order_def)
  ultimately show ?thesis
    using b(6) resolve_operands_source [OF b(4)] b(5) by (simp add: validate_ok)
qed

section \<open>The request asked for\<close>

text \<open>
  The option text: the \<open>-o\<close> arguments in order, then \<open>ro\<close> and \<open>rw\<close> for the flags, joined by commas; empty
  ones at the front leave no comma.
\<close>

definition asked_options :: "arg_matches \<Rightarrow> bytes" where
  "asked_options m =
     join_with [0x2C] (dropWhile (\<lambda>o'. o' = [])
       (m_options m @ (if m_read_only m then [ascii ''ro''] else []) @ (if m_read_write m then [ascii ''rw''] else [])))"

lemma push_opt_simps: "push_opt [] v = v" "raw \<noteq> [] \<Longrightarrow> push_opt raw v = raw @ 0x2C # v"
  by (simp_all add: push_opt_def)

lemma fold_options: "raw \<noteq> [] \<Longrightarrow> foldl push_opt raw vs = join_with [0x2C] (raw # vs)"
proof (induction vs arbitrary: raw)
  case (Cons v vs)
  then have "foldl push_opt raw (v # vs) = join_with [0x2C] ((raw @ 0x2C # v) # vs)"
    by (simp add: push_opt_simps)
  then show ?case by (cases vs) simp_all
qed simp

lemma raw_options_asked: "raw_options m = asked_options m"
proof -
  have fold: "foldl push_opt [] vs = join_with [0x2C] (dropWhile (\<lambda>o'. o' = []) vs)" for vs
    by (induction vs) (simp_all add: push_opt_simps fold_options)
  have "(\<lambda>raw v. (if raw \<noteq> [] then raw @ [0x2C] else raw) @ v) = push_opt"
    by (intro ext) (simp add: push_opt_def)
  then have "raw_options m = foldl push_opt []
      (m_options m @ (if m_read_only m then [ascii ''ro''] else []) @ (if m_read_write m then [ascii ''rw''] else []))"
    by (simp add: raw_options_def Let_def)
  then show ?thesis by (simp only: fold asked_options_def)
qed

text \<open>
  The source named by an option; the source and the target that the command line names: an option wins over
  the operands, and of two operands without options the first is the source.
\<close>

definition named_source :: "arg_matches \<Rightarrow> bytes option" where
  "named_source m =
     (case (m_label m, m_uuid m) of
        (Some l, _) \<Rightarrow> Some (ascii ''LABEL='' @ l)
      | (None, Some u) \<Rightarrow> Some (ascii ''UUID='' @ u)
      | (None, None) \<Rightarrow> m_source m)"

definition asked_source :: "arg_matches \<Rightarrow> bytes option" where
  "asked_source m =
     (if named_source m \<noteq> None then named_source m
      else if m_target m \<noteq> None \<and> m_operands m \<noteq> [] \<or> length (m_operands m) = 2 then Some (m_operands m ! 0)
      else None)"

definition asked_target :: "arg_matches \<Rightarrow> bytes" where
  "asked_target m =
     (let t = (case m_target m of Some t \<Rightarrow> t
               | None \<Rightarrow> m_operands m ! (if named_source m = None \<and> length (m_operands m) = 2 then 1 else 0))
      in case m_target_prefix m of
           None \<Rightarrow> t
         | Some p \<Rightarrow> (if p \<noteq> [] \<and> last p = 0x2F then p else p @ [0x2F])
             @ (if t \<noteq> [] \<and> hd t = 0x2F then tl t else t))"

lemma tag_source_named: "(case tag_source m of Some s \<Rightarrow> Some s | None \<Rightarrow> m_source m) = named_source m"
  by (simp add: tag_source_def named_source_def split: option.split)

lemma join_path_slash:
  "join_path p t = (if p \<noteq> [] \<and> last p = 0x2F then p else p @ [0x2F]) @ (if t \<noteq> [] \<and> hd t = 0x2F then tl t else t)"
proof -
  have "strip_suffix [0x2F] p \<noteq> None \<longleftrightarrow> p \<noteq> [] \<and> last p = 0x2F"
    by (cases p rule: rev_cases) (auto simp: strip_suffix_def)
  moreover have "(case strip_prefix [0x2F] t of Some r \<Rightarrow> r | None \<Rightarrow> t) = (if t \<noteq> [] \<and> hd t = 0x2F then tl t else t)"
    by (cases t) (auto simp: strip_prefix_def)
  ultimately show ?thesis by (simp add: join_path_def)
qed

lemma resolve_operands_asked:
  assumes "resolve_operands v (m_operands m) (named_source m) (m_target m) p = Inr ops"
  shows "op_source ops = asked_source m"
    "(case m_target_prefix m of Some prefix \<Rightarrow> join_path prefix (op_target ops) | None \<Rightarrow> op_target ops) = asked_target m"
proof -
  have ops: "op_source ops = asked_source m \<and> op_target ops = (case m_target m of Some t \<Rightarrow> t
      | None \<Rightarrow> m_operands m ! (if named_source m = None \<and> length (m_operands m) = 2 then 1 else 0))"
    using assms
    by (auto simp: resolve_operands_def asked_source_def Let_def split: option.splits list.splits if_splits)
  then show "op_source ops = asked_source m" by blast
  show "(case m_target_prefix m of Some prefix \<Rightarrow> join_path prefix (op_target ops) | None \<Rightarrow> op_target ops) = asked_target m"
    by (simp only: asked_target_def join_path_slash Let_def ops)
qed

text \<open>The remaining fields: an option of the command line each, some of them also given by the option text.\<close>

definition rest_as_asked :: "arg_matches \<Rightarrow> mount_request \<Rightarrow> bool" where
  "rest_as_asked m r \<longleftrightarrow>
     rq_fstype r = (if m_type m = Some (ascii ''auto'') then None else m_type m)
     \<and> rq_mkdir r =
         (case m_mkdir m of
            None \<Rightarrow> mkdir (rq_options r)
          | Some mode \<Rightarrow> Some (case parse_uint 8 (2 ^ 32 - 1) (trim_start_matches (lit ''0o'') mode) of
              Some n \<Rightarrow> of_nat n | None \<Rightarrow> 0x1ED))
     \<and> no_canonicalize_source r = (m_no_canonicalize m \<or> nocanon_source (rq_options r))
     \<and> no_canonicalize_target r = (m_no_canonicalize m \<or> nocanon_target (rq_options r))
     \<and> exclusive r = m_exclusive m \<and> onlyonce r = m_onlyonce m \<and> internal_only r = m_internal_only m
     \<and> namespace r = m_namespace m \<and> synth_sddl r = m_synth_sddl m \<and> target_prefix r = m_target_prefix m
     \<and> fake r = m_fake m \<and> verbose r = m_verbose m"

lemma mkdir_asked:
  "(case mkdir_mode m of Some d \<Rightarrow> Some d | None \<Rightarrow> x) =
     (case m_mkdir m of None \<Rightarrow> x
      | Some mode \<Rightarrow> Some (case parse_uint 8 (2 ^ 32 - 1) (trim_start_matches (lit ''0o'') mode) of
          Some n \<Rightarrow> of_nat n | None \<Rightarrow> 0x1ED))"
  by (simp add: mkdir_mode_def split: option.split)

lemma build_rest:
  assumes "build sddl has_owner m = Inr (MountAction r)"
  shows "rest_as_asked m r"
  using assms
  by (auto simp: build_def result_bind_def Let_def rest_as_asked_def not_auto_def mkdir_asked
      split: sum.splits if_splits cong: option.case_cong)

lemma build_mount_asked:
  assumes "build sddl has_owner m = Inr (MountAction r)"
  shows "parse_options (asked_options m) = Inr (rq_options r) \<and> rq_source r = asked_source m
    \<and> rq_target r = asked_target m \<and> rest_as_asked m r"
proof -
  obtain o' ops where b: "parse_options (raw_options m) = Inr o'" "rq_options r = o'"
    "resolve_operands (rq_verb r) (m_operands m)
       (case tag_source m of Some s \<Rightarrow> Some s | None \<Rightarrow> m_source m) (m_target m)
       (rq_propagation r \<noteq> [] \<and> rq_verb r = New) = Inr ops"
    "rq_source r = op_source ops"
    "rq_target r = (case m_target_prefix m of
             Some prefix \<Rightarrow> join_path prefix (op_target ops) | None \<Rightarrow> op_target ops)"
    by (rule build_mount_cases [OF assms])
  show ?thesis
    using b(1,2,4,5) resolve_operands_asked [OF b(3) [unfolded tag_source_named]] build_rest [OF assms]
    by (simp add: raw_options_asked)
qed

text \<open>C28. What the command line builds: a refusal is a usage error, with exit code 1. The listing is
  chosen by commands with no operand, no source, no target, no verb and no propagation
  change, with the filter and the flag asked for. A request has the options that the option text means, the source and the target
  named, and every other field as asked for. Its verb is the single structural operation asked for, or a new
  mount if none is; a policy is set on new mounts only and a template only with a synthesizing policy,
  after it was parsed and found to name an owner; the propagation changes are those of the
  options followed by those of the flags; and the source is missing only for a lone target that a
  remount or a propagation change takes, or when the target was given explicitly.\<close>

theorem build_request:
  "case build sddl has_owner m of
     Inl e \<Rightarrow> exit_code e = 1
   | Inr (ListAction l) \<Rightarrow>
       m_operands m = [] \<and> m_source m = None \<and> m_target m = None \<and> m_label m = None \<and> m_uuid m = None
       \<and> (\<exists>o'. parse_options (asked_options m) = Inr o' \<and> collect_propagation m o' = []
            \<and> wanted_verbs \<lparr>vf_bind = m_bind m, vf_rbind = m_rbind m, vf_move = m_move m,
                 vf_beneath = m_beneath m\<rparr> o' = [])
       \<and> lr_type_filter l = (if m_type m = Some (ascii ''auto'') then None else m_type m)
       \<and> lr_show_labels l = m_show_labels m
   | Inr (MountAction r) \<Rightarrow>
       parse_options (asked_options m) = Inr (rq_options r)
       \<and> rq_source r = asked_source m \<and> rq_target r = asked_target m \<and> rest_as_asked m r
       \<and> wanted_verbs \<lparr>vf_bind = m_bind m, vf_rbind = m_rbind m, vf_move = m_move m,
            vf_beneath = m_beneath m\<rparr> (rq_options r) = (if rq_verb r = New then [] else [rq_verb r])
       \<and> (policy (rq_options r) \<noteq> None \<longrightarrow> rq_verb r = New)
       \<and> (\<forall>bs. synth_sddl r = Some bs \<longrightarrow> policy (rq_options r) \<in> {Some SynthEphemeral, Some SynthPersist}
             \<and> (\<exists>t sd. from_utf8 bs = Some t \<and> sddl t = Inr sd \<and> has_owner sd))
       \<and> rq_propagation r = propagation (rq_options r)
             @ [\<lparr>pc_kind = k, pc_recursive = c\<rparr>. c \<leftarrow> [False, True],
                  k \<leftarrow> [Shared, Slave, Private, Unbindable], m_make m k c]
       \<and> (rq_source r = None \<longrightarrow>
             (rq_verb r = Remount \<or> (rq_propagation r \<noteq> [] \<and> rq_verb r = New)) \<and> length (m_operands m) = 1
             \<or> m_target m \<noteq> None \<and> m_operands m = [])"
proof (cases "build sddl has_owner m")
  case (Inl e)
  then show ?thesis
    using usage_errors_build [of sddl has_owner m] by (auto simp: usage_errors_def)
next
  case (Inr a)
  then show ?thesis
  proof (cases a)
    case (ListAction l)
    then show ?thesis
      using build_list_cases [OF Inr [unfolded ListAction]]
      unfolding Inr ListAction sum.case action.case raw_options_asked by (simp add: not_auto_def)
  next
    case (MountAction r)
    show ?thesis
      unfolding Inr MountAction sum.case action.case
      using build_mount_asked [OF Inr [unfolded MountAction]] build_mount_ok [OF Inr [unfolded MountAction]]
      by blast
  qed
qed

definition sample_matches :: arg_matches where
  "sample_matches =
     \<lparr>m_options = [ascii ''policy=synth-persist'', ascii ''nosuid''], m_read_only = True,
      m_read_write = False, m_bind = False, m_rbind = False, m_move = False, m_beneath = False,
      m_make = (\<lambda>k r. k = Private \<and> \<not> r), m_operands = [ascii ''/dev/sda1'', ascii ''/mnt''],
      m_source = None, m_target = None, m_label = None, m_uuid = None, m_type = None,
      m_target_prefix = Some (ascii ''/root''), m_synth_sddl = Some (ascii ''O:SY''),
      m_namespace = None, m_mkdir = None, m_show_labels = False, m_no_canonicalize = False,
      m_exclusive = False, m_onlyonce = False, m_internal_only = False, m_fake = False,
      m_verbose = 0\<rparr>"

lemma sample_build:
  "case build (\<lambda>t. Inr t) (\<lambda>sd. sd \<noteq> []) sample_matches of
     Inr (MountAction r) \<Rightarrow> policy (rq_options r) = Some SynthPersist \<and> rq_target r = ascii ''/root/mnt''
   | _ \<Rightarrow> False"
    by code_simp

theorem build_request_witness:
  "\<exists>r. build (\<lambda>t. Inr t) (\<lambda>sd. sd \<noteq> []) sample_matches = Inr (MountAction r)
     \<and> policy (rq_options r) = Some SynthPersist \<and> rq_verb r = New
     \<and> rq_source r = Some (ascii ''/dev/sda1'') \<and> rq_target r = ascii ''/root/mnt''
     \<and> parse_options (ascii ''policy=synth-persist,nosuid,ro'') = Inr (rq_options r)"
proof -
  obtain r where "build (\<lambda>t. Inr t) (\<lambda>sd. sd \<noteq> []) sample_matches = Inr (MountAction r)"
    and "policy (rq_options r) = Some SynthPersist"
    using sample_build by (auto split: sum.splits action.splits)
  moreover have "asked_source sample_matches = Some (ascii ''/dev/sda1'')" "asked_target sample_matches = ascii ''/root/mnt''"
    "asked_options sample_matches = ascii ''policy=synth-persist,nosuid,ro''"
    by code_simp+
  ultimately show ?thesis
    using build_request [where sddl = "\<lambda>t. Inr t" and has_owner = "\<lambda>sd. sd \<noteq> []"
        and m = sample_matches] by auto
qed

end
