(* ===== verification/Mount_Info.thy ===== *)
theory Mount_Info
  imports Mount_Request "HOL-Library.Sublist"
begin

text \<open>
  \<open>src/uu/mount/src/mountinfo.rs\<close> and \<open>listing.rs\<close>: the parser of \<open>/proc/self/mountinfo\<close>, the
  queries on its entries, and the lines of the list mode. What is read from the system (the two
  snapshots of the file, \<open>/sys/block\<close>, symbolic links, the label of a device) is an argument.
\<close>

section \<open>Entries\<close>

record mount_entry =
  me_id :: int
  me_parent_id :: int
  me_major :: u32
  me_minor :: u32
  me_root :: bytes
  me_mount_point :: bytes
  me_vfs_opts :: bytes
  me_optional :: "bytes list"
  me_fstype :: bytes
  me_source :: bytes
  me_super_opts :: bytes

definition is_bind :: "mount_entry \<Rightarrow> bool" where
  "is_bind e \<longleftrightarrow> me_root e \<noteq> ascii ''/''"

definition is_shared :: "mount_entry \<Rightarrow> bool" where
  "is_shared e \<longleftrightarrow> (\<exists>f \<in> set (me_optional e). strip_prefix (ascii ''shared:'') f \<noteq> None)"

section \<open>Parsing\<close>

definition ascii_int :: "bytes \<Rightarrow> int option" where
  "ascii_int b = Option.bind (from_utf8 b) (parse_sint 10 (2 ^ 31 - 1))"

definition ascii_uint :: "bytes \<Rightarrow> u32 option" where
  "ascii_uint b = map_option of_nat (Option.bind (from_utf8 b) (parse_uint 10 (2 ^ 32 - 1)))"

definition is_octal :: "u8 \<Rightarrow> bool" where
  "is_octal b \<longleftrightarrow> 0x30 \<le> b \<and> b \<le> 0x37"

text \<open>The value of an escape is computed in eight bits.\<close>

fun unmangle :: "bytes \<Rightarrow> bytes" where
  "unmangle [] = []"
| "unmangle (b # s) =
     (case s of
        d0 # d1 # d2 # r \<Rightarrow>
          if b = 0x5C \<and> is_octal d0 \<and> is_octal d1 \<and> is_octal d2
          then ((d0 - 0x30) * 64 + (d1 - 0x30) * 8 + (d2 - 0x30)) # unmangle r
          else b # unmangle s
      | _ \<Rightarrow> b # unmangle s)"

text \<open>
  One line: \<open>Some None\<close> is a line that is skipped, \<open>None\<close> the panic of the slice of the optional
  fields when the separator stands among the first six fields.
\<close>

definition device_numbers :: "bytes \<Rightarrow> (u32 \<times> u32) option" where
  "device_numbers mm =
     Option.bind (position (\<lambda>b. b = 0x3A) mm) (\<lambda>i.
     Option.bind (ascii_uint (take i mm)) (\<lambda>major.
     Option.bind (ascii_uint (drop (i + 1) mm)) (\<lambda>minor. Some (major, minor))))"

definition parse_line :: "bytes \<Rightarrow> mount_entry option option" where
  "parse_line line =
     (let fields = filter (\<lambda>f. f \<noteq> []) (split_on 0x20 line) in
      if length fields < 10 then Some None
      else (case (ascii_int (fields ! 0), ascii_int (fields ! 1), device_numbers (fields ! 2)) of
        (Some eid, Some parent_id, Some (major, minor)) \<Rightarrow>
          let root = unmangle (fields ! 3); mount_point = unmangle (fields ! 4);
              vfs_opts = fields ! 5 in
          (case position (\<lambda>f. f = ascii ''-'') fields of
             None \<Rightarrow> Some None
           | Some sep \<Rightarrow>
               if sep < 6 then None
               else
                 let optional = subslice 6 sep fields; post = drop (sep + 1) fields in
                 if length post < 3 then Some None
                 else Some (Some \<lparr>me_id = eid, me_parent_id = parent_id, me_major = major,
                   me_minor = minor, me_root = root, me_mount_point = mount_point,
                   me_vfs_opts = vfs_opts, me_optional = optional, me_fstype = post ! 0,
                   me_source = unmangle (post ! 1), me_super_opts = post ! 2\<rparr>))
      | _ \<Rightarrow> Some None))"

fun parse_lines :: "bytes list \<Rightarrow> mount_entry list option" where
  "parse_lines [] = Some []"
| "parse_lines (l # ls) =
     (case parse_line l of
        None \<Rightarrow> None
      | Some None \<Rightarrow> parse_lines ls
      | Some (Some e) \<Rightarrow> map_option (\<lambda>es. e # es) (parse_lines ls))"

definition mountinfo_parse :: "bytes \<Rightarrow> mount_entry list option" where
  "mountinfo_parse data = parse_lines (filter (\<lambda>l. l \<noteq> []) (split_on 0x0A data))"

definition looks_torn :: "mount_entry list \<Rightarrow> bool" where
  "looks_torn entries =
     (let ids = set (map me_id entries) in
      1 < length (filter (\<lambda>e. me_parent_id e \<notin> ids) entries))"

text \<open>\<open>read\<close>, on the results of its two reads of the file; the second is used only when it is made.\<close>

definition mountinfo_read ::
  "io_error + bytes \<Rightarrow> io_error + bytes \<Rightarrow> (io_error + mount_entry list) option" where
  "mountinfo_read read1 read2 =
     (case read1 of
        Inl e \<Rightarrow> Some (Inl e)
      | Inr data \<Rightarrow>
          Option.bind (mountinfo_parse data) (\<lambda>first.
          if looks_torn first then
            (case read2 of
               Inl e \<Rightarrow> Some (Inl e)
             | Inr data2 \<Rightarrow> map_option Inr (mountinfo_parse data2))
          else Some (Inr first)))"

definition at_mountpoint :: "mount_entry list \<Rightarrow> bytes \<Rightarrow> mount_entry option" where
  "at_mountpoint entries mount_point = find (\<lambda>e. me_mount_point e = mount_point) (rev entries)"

definition by_source :: "mount_entry list \<Rightarrow> bytes \<Rightarrow> mount_entry list" where
  "by_source entries source = filter (\<lambda>e. me_source e = source) entries"

section \<open>Listing\<close>

record type_filter =
  tf_types :: "bytes list"
  tf_negate :: bool

definition type_filter_parse :: "bytes \<Rightarrow> type_filter" where
  "type_filter_parse spec =
     (let (negate, body) = (case strip_prefix (ascii ''no'') spec of
            Some rest \<Rightarrow> (True, rest) | None \<Rightarrow> (False, spec))
      in \<lparr>tf_types = filter (\<lambda>t. t \<noteq> []) (split_on 0x2C body), tf_negate = negate\<rparr>)"

definition type_filter_matches :: "type_filter \<Rightarrow> bytes \<Rightarrow> bool" where
  "type_filter_matches f fstype \<longleftrightarrow> (fstype \<in> set (tf_types f)) \<noteq> tf_negate f"

definition sanitize_mountpoint :: "bytes \<Rightarrow> bytes" where
  "sanitize_mountpoint mp = map (\<lambda>b. if b < 0x20 \<or> b = 0x7F then 0x3F else b) mp"

definition is_rorw :: "bytes \<Rightarrow> bool" where
  "is_rorw t \<longleftrightarrow> t = ascii ''ro'' \<or> t = ascii ''rw''"

definition merge_tokens :: "bytes list \<Rightarrow> bytes list \<Rightarrow> bytes list" where
  "merge_tokens vfs sb =
     (let have_rorw = (case vfs of [] \<Rightarrow> False | t # _ \<Rightarrow> is_rorw t) in
      foldl (\<lambda>toks t. if have_rorw \<and> is_rorw t then toks
         else if t \<notin> set toks then toks @ [t] else toks) vfs sb)"

definition merge_options :: "bytes \<Rightarrow> bytes \<Rightarrow> bytes" where
  "merge_options vfs sb =
     join_with [0x2C] (merge_tokens (filter (\<lambda>t. t \<noteq> []) (split_on 0x2C vfs))
        (filter (\<lambda>t. t \<noteq> []) (split_on 0x2C sb)))"

definition is_ascii_digit :: "u8 \<Rightarrow> bool" where
  "is_ascii_digit b \<longleftrightarrow> 0x30 \<le> b \<and> b \<le> 0x39"

definition strip_newline :: "bytes \<Rightarrow> bytes" where
  "strip_newline data = (case strip_suffix [0x0A] data of Some t \<Rightarrow> t | None \<Rightarrow> data)"

text \<open>
  \<open>read_file\<close> gives the contents of a file by the text of its path, \<open>realpath\<close> the canonical form
  of a path; either is \<open>None\<close> when the call fails.
\<close>

definition pretty_source :: "(rust_str \<Rightarrow> bytes option) \<Rightarrow> (bytes \<Rightarrow> bytes option) \<Rightarrow> bytes \<Rightarrow> bytes" where
  "pretty_source read_file realpath source =
     (let resolved = (if strip_prefix (ascii ''/'') source \<noteq> None
            then (case realpath source of Some p \<Rightarrow> p | None \<Rightarrow> source) else source) in
      case strip_prefix (ascii ''/dev/'') source of
        None \<Rightarrow> resolved
      | Some n \<Rightarrow>
          let loop_file =
              (if strip_prefix (ascii ''loop'') n \<noteq> None \<and> list_all is_ascii_digit (drop 4 n)
                  \<and> 4 < length n
               then Option.bind (read_file (lit ''/sys/block/'' @ from_utf8_lossy n
                  @ lit ''/loop/backing_file'')) (\<lambda>data.
                  let trimmed = strip_newline data in if trimmed \<noteq> [] then Some trimmed else None)
               else None);
              dm_name =
              (if strip_prefix (ascii ''dm-'') n \<noteq> None \<and> list_all is_ascii_digit (drop 3 n)
                  \<and> 3 < length n
               then Option.bind (read_file (lit ''/sys/block/'' @ from_utf8_lossy n
                  @ lit ''/dm/name'')) (\<lambda>data.
                  let name = strip_newline data in
                  if name \<noteq> [] then Some (ascii ''/dev/mapper/'' @ name) else None)
               else None)
          in (case loop_file of Some out \<Rightarrow> out | None \<Rightarrow>
              (case dm_name of Some out \<Rightarrow> out | None \<Rightarrow> resolved)))"

definition list_render ::
  "(bytes \<Rightarrow> bytes) \<Rightarrow> (bytes \<Rightarrow> bytes option) \<Rightarrow> mount_entry \<Rightarrow> bool \<Rightarrow> bytes" where
  "list_render pretty device_label e show_labels =
     pretty (me_source e) @ ascii '' on '' @ sanitize_mountpoint (me_mount_point e)
     @ ascii '' type '' @ me_fstype e @ ascii '' ('' @ merge_options (me_vfs_opts e) (me_super_opts e)
     @ ascii '')''
     @ (if show_labels then
          (case device_label (me_source e) of
             Some label \<Rightarrow> ascii '' ['' @ label @ ascii '']'' | None \<Rightarrow> [])
        else [])"

text \<open>\<open>run\<close>: the lines written when no write fails.\<close>

definition list_run ::
  "(bytes \<Rightarrow> bytes) \<Rightarrow> (bytes \<Rightarrow> bytes option) \<Rightarrow> list_request \<Rightarrow> mount_entry list \<Rightarrow> bytes" where
  "list_run pretty device_label req entries =
     (let filter' = map_option type_filter_parse (lr_type_filter req);
          shown = filter (\<lambda>e. case filter' of
            Some f \<Rightarrow> type_filter_matches f (me_fstype e) | None \<Rightarrow> True) entries
      in concat (map (\<lambda>e. list_render pretty device_label e (lr_show_labels req) @ [0x0A]) shown))"

section \<open>Escapes\<close>

text \<open>How the kernel writes a path: the bytes of \<open>esc\<close> as a backslash and three octal digits.\<close>

definition octal_escape :: "u8 \<Rightarrow> bytes" where
  "octal_escape b = (let n = unat b in
     [0x5C, of_nat (0x30 + n div 64), of_nat (0x30 + n div 8 mod 8), of_nat (0x30 + n mod 8)])"

definition mangle :: "u8 set \<Rightarrow> bytes \<Rightarrow> bytes" where
  "mangle esc s = concat (map (\<lambda>b. if b \<in> esc then octal_escape b else [b]) s)"

lemma octal_digit: "d < 8 \<Longrightarrow> is_octal (of_nat (0x30 + d))"
proof -
  assume "d < 8"
  then have "unat (of_nat (0x30 + d) :: u8) = 0x30 + d"
    by (intro unat_of_nat_u8) simp
  with \<open>d < 8\<close> show ?thesis
    by (simp add: is_octal_def word_le_nat_alt del: of_nat_add)
qed

lemma octal_value: "(n :: nat) div 64 * 64 + n div 8 mod 8 * 8 + n mod 8 = n"
proof -
  have "n div 64 = n div 8 div 8"
    using div_mult2_eq [of n 8 8] by simp
  then show ?thesis
    using div_mult_mod_eq [of n 8] div_mult_mod_eq [of "n div 8" 8] by linarith
qed

lemma unmangle_escape: "unmangle (octal_escape b @ r) = b # unmangle r"
proof -
  define n where "n = unat b"
  have n: "n < 256" using unsigned_less [of b, where ?'a = nat] by (simp add: n_def)
  have o: "is_octal (of_nat (0x30 + n div 64))" "is_octal (of_nat (0x30 + n div 8 mod 8))"
    "is_octal (of_nat (0x30 + n mod 8))"
    using n by (intro octal_digit; simp add: less_mult_imp_div_less)+
  have "(of_nat (0x30 + n div 64) - 0x30) * 64 + (of_nat (0x30 + n div 8 mod 8) - 0x30) * 8
      + (of_nat (0x30 + n mod 8) - 0x30) = (of_nat (n div 64 * 64 + n div 8 mod 8 * 8 + n mod 8) :: u8)"
    by simp
  also have "\<dots> = b" by (simp only: octal_value) (simp add: n_def)
  finally show ?thesis
    using o by (simp add: octal_escape_def n_def [symmetric] Let_def)
qed

lemma unmangle_plain: "b \<noteq> 0x5C \<Longrightarrow> unmangle (b # r) = b # unmangle r"
  by (simp split: list.splits)

lemma unmangle_mangle: "0x5C \<in> esc \<Longrightarrow> unmangle (mangle esc s) = s"
proof (induction s)
  case (Cons b s)
  then have "b \<notin> esc \<Longrightarrow> b \<noteq> 0x5C" by auto
  with Cons show ?case
    by (simp add: mangle_def unmangle_escape unmangle_plain del: unmangle.simps(2))
qed (simp add: mangle_def)

lemma octal_escape_ws: "c \<in> set (octal_escape b) \<Longrightarrow> c = 0x5C \<or> is_octal c"
proof -
  assume c: "c \<in> set (octal_escape b)"
  have n: "unat b < 256" using unsigned_less [of b, where ?'a = nat] by simp
  have "is_octal (of_nat (0x30 + unat b div 64))" "is_octal (of_nat (0x30 + unat b div 8 mod 8))"
    "is_octal (of_nat (0x30 + unat b mod 8))"
    using n by (intro octal_digit; simp add: less_mult_imp_div_less)+
  with c show ?thesis by (auto simp: octal_escape_def Let_def)
qed

lemma mangle_clean: "c \<in> set (mangle esc s) \<Longrightarrow> c \<notin> {0x20, 0x0A} \<or> c \<notin> esc"
proof -
  assume "c \<in> set (mangle esc s)"
  then obtain b where b: "b \<in> set s" "c \<in> set (if b \<in> esc then octal_escape b else [b])"
    by (auto simp: mangle_def)
  then show ?thesis
    using octal_escape_ws [of c b] by (auto simp: is_octal_def word_le_nat_alt split: if_splits)
qed

lemma mangle_Nil [simp]: "mangle esc s = [] \<longleftrightarrow> s = []"
  by (induction s) (auto simp: mangle_def octal_escape_def Let_def)


section \<open>The file read back\<close>

definition dec_bytes :: "rust_str \<Rightarrow> bytes" where
  "dec_bytes s = map of_nat s"

definition entry_fields :: "u8 set \<Rightarrow> mount_entry \<Rightarrow> bytes list" where
  "entry_fields esc e =
     [dec_bytes (fmt_int (me_id e)), dec_bytes (fmt_int (me_parent_id e)),
      dec_bytes (fmt_dec (unat (me_major e))) @ [0x3A] @ dec_bytes (fmt_dec (unat (me_minor e))),
      mangle esc (me_root e), mangle esc (me_mount_point e), me_vfs_opts e]
     @ me_optional e @ [ascii ''-'', me_fstype e, mangle esc (me_source e), me_super_opts e]"

definition render_entry :: "u8 set \<Rightarrow> mount_entry \<Rightarrow> bytes" where
  "render_entry esc e = join_with [0x20] (entry_fields esc e)"

definition render_mountinfo :: "u8 set \<Rightarrow> mount_entry list \<Rightarrow> bytes" where
  "render_mountinfo esc es = concat (map (\<lambda>e. render_entry esc e @ [0x0A]) es)"

text \<open>The entries the kernel can write: 32-bit identifiers, and fields it does not escape are words.\<close>

definition word_field :: "bytes \<Rightarrow> bool" where
  "word_field f \<longleftrightarrow> f \<noteq> [] \<and> f \<noteq> ascii ''-'' \<and> set f \<inter> {0x20, 0x0A} = {}"

definition entry_wf :: "mount_entry \<Rightarrow> bool" where
  "entry_wf e \<longleftrightarrow>
     (\<forall>i \<in> {me_id e, me_parent_id e}. - (2 ^ 31) \<le> i \<and> i < 2 ^ 31)
     \<and> (\<forall>p \<in> {me_root e, me_mount_point e}. p \<noteq> [] \<and> hd p = 0x2F)
     \<and> me_source e \<noteq> [] \<and> word_field (me_vfs_opts e) \<and> (\<forall>f \<in> set (me_optional e). word_field f)
     \<and> word_field (me_fstype e) \<and> word_field (me_super_opts e)"

lemma dec_bytes_ascii:
  assumes "\<forall>c \<in> set s. 45 \<le> c \<and> c < 0x3A"
  shows "from_utf8 (dec_bytes s) = Some s" and "\<forall>b \<in> set (dec_bytes s). b \<notin> {0x20, 0x0A, 0x3A}"
proof -
  have u: "unat (of_nat c :: u8) = c" if "c \<in> set s" for c
    using assms that by (intro unat_of_nat_u8) auto
  then have "map unat (dec_bytes s) = s"
    by (simp add: dec_bytes_def o_def map_idI)
  moreover have "\<forall>b \<in> set (dec_bytes s). unat b < 0x80"
    using u assms by (fastforce simp: dec_bytes_def)
  ultimately show "from_utf8 (dec_bytes s) = Some s"
    using from_utf8_ascii by simp
  show "\<forall>b \<in> set (dec_bytes s). b \<notin> {0x20, 0x0A, 0x3A}"
  proof
    fix b assume "b \<in> set (dec_bytes s)"
    then obtain c where c: "c \<in> set s" "b = of_nat c" by (auto simp: dec_bytes_def)
    then have "45 \<le> unat b" "unat b < 0x3A" using u assms by auto
    then show "b \<notin> {0x20, 0x0A, 0x3A}" by auto
  qed
qed

lemma fmt_dec_range: "\<forall>c \<in> set (fmt_dec n). 45 \<le> c \<and> c < 0x3A"
  using fmt_dec_digits by fastforce

lemma fmt_int_range: "\<forall>c \<in> set (fmt_int i). 45 \<le> c \<and> c < 0x3A"
  using fmt_dec_range [of "nat i"] fmt_dec_range [of "nat (- i)"] by (auto simp: fmt_int_def)

lemma ascii_int_fmt: "- (2 ^ 31) \<le> i \<Longrightarrow> i < 2 ^ 31 \<Longrightarrow> ascii_int (dec_bytes (fmt_int i)) = Some i"
  using parse_sint_fmt_int [of "2 ^ 31 - 1" i]
  by (simp add: ascii_int_def dec_bytes_ascii(1) [OF fmt_int_range])

lemma ascii_uint_fmt: "ascii_uint (dec_bytes (fmt_dec (unat w))) = Some w"
  using parse_uint_fmt_dec [of "unat w" "2 ^ 32 - 1"] unsigned_less [of w, where ?'a = nat]
  by (simp add: ascii_uint_def dec_bytes_ascii(1) [OF fmt_dec_range])

lemma device_numbers_fmt:
  "device_numbers (dec_bytes (fmt_dec (unat a)) @ [0x3A] @ dec_bytes (fmt_dec (unat b))) = Some (a, b)"
proof -
  have "position (\<lambda>b. b = 0x3A) (dec_bytes (fmt_dec (unat a)) @ 0x3A # dec_bytes (fmt_dec (unat b)))
      = Some (length (dec_bytes (fmt_dec (unat a))))"
    using dec_bytes_ascii(2) [OF fmt_dec_range, of "unat a"] by (intro position_append) auto
  then show ?thesis by (simp add: device_numbers_def ascii_uint_fmt)
qed


lemma dec_bytes_Nil [simp]: "dec_bytes s = [] \<longleftrightarrow> s = []"
  by (simp add: dec_bytes_def)

lemma fmt_int_field: "dec_bytes (fmt_int i) \<notin> {[], ascii ''-''}"
proof -
  have "fmt_int i \<noteq> []" "fmt_int i \<noteq> [45]"
    using fmt_dec_digits [of 45 "nat i"] by (auto simp: fmt_int_def)
  moreover have "dec_bytes (fmt_int i) = ascii ''-'' \<Longrightarrow> from_utf8 (ascii ''-'') = Some (fmt_int i)"
    using dec_bytes_ascii(1) [OF fmt_int_range, of i] by simp
  moreover have "from_utf8 (ascii ''-'') = Some [45]"
    by (simp add: from_utf8_ascii ascii_def)
  ultimately show ?thesis by auto
qed

lemma mangle_path: "p \<noteq> [] \<Longrightarrow> hd p = 0x2F \<Longrightarrow> mangle esc p \<notin> {[], ascii ''-''}"
  by (cases p) (auto simp: mangle_def octal_escape_def Let_def ascii_def)

lemma entry_fields_words:
  assumes "entry_wf e" and esc: "{0x20, 0x0A, 0x5C} \<subseteq> esc" and "f \<in> set (entry_fields esc e)"
  shows "f \<noteq> [] \<and> set f \<inter> {0x20, 0x0A} = {}"
proof -
  have m: "set (mangle esc s) \<inter> {0x20, 0x0A} = {}" for s
    using mangle_clean [of _ esc s] esc by auto
  have d: "set (dec_bytes (fmt_int i)) \<inter> {0x20, 0x0A} = {}" "set (dec_bytes (fmt_dec n)) \<inter> {0x20, 0x0A} = {}"
    for i n
    using dec_bytes_ascii(2) [OF fmt_int_range, of i] dec_bytes_ascii(2) [OF fmt_dec_range, of n] by auto
  have "\<forall>p \<in> {me_root e, me_mount_point e, me_source e}. mangle esc p \<noteq> []"
    using assms(1) by (auto simp: entry_wf_def)
  then show ?thesis
    using assms(1,3) m [of "me_root e"] m [of "me_mount_point e"] m [of "me_source e"] fmt_int_field d
    by (auto simp: entry_fields_def entry_wf_def word_field_def ascii_def)
qed

lemma parse_line_render:
  assumes wf: "entry_wf e" and esc: "{0x20, 0x0A, 0x5C} \<subseteq> esc"
  shows "parse_line (render_entry esc e) = Some (Some e)"
proof -
  have f: "filter (\<lambda>f. f \<noteq> []) (split_on 0x20 (render_entry esc e)) = entry_fields esc e"
  proof -
    have "split_on 0x20 (render_entry esc e) = entry_fields esc e"
      unfolding render_entry_def
      using entry_fields_words [OF wf esc] by (intro split_on_join) (auto simp: entry_fields_def)
    then show ?thesis
      using entry_fields_words [OF wf esc] by (simp add: filter_id_conv)
  qed
  have ids: "ascii_int (dec_bytes (fmt_int (me_id e))) = Some (me_id e)"
    "ascii_int (dec_bytes (fmt_int (me_parent_id e))) = Some (me_parent_id e)"
    using wf by (auto simp: entry_wf_def intro!: ascii_int_fmt)
  define pre where "pre = [dec_bytes (fmt_int (me_id e)), dec_bytes (fmt_int (me_parent_id e)),
      dec_bytes (fmt_dec (unat (me_major e))) @ [0x3A] @ dec_bytes (fmt_dec (unat (me_minor e))),
      mangle esc (me_root e), mangle esc (me_mount_point e), me_vfs_opts e]"
  define post where "post = [me_fstype e, mangle esc (me_source e), me_super_opts e]"
  have e: "entry_fields esc e = (pre @ me_optional e) @ ascii ''-'' # post"
    by (simp add: entry_fields_def pre_def post_def)
  have mm: "dec_bytes (fmt_dec a) @ 0x3A # r \<noteq> ascii ''-''" for a r
    by (cases "fmt_dec a") (auto simp: dec_bytes_def ascii_def)
  then have "\<forall>f \<in> set (pre @ me_optional e). f \<noteq> ascii ''-''"
    using fmt_int_field mangle_path [of "me_root e" esc] mangle_path [of "me_mount_point e" esc] wf
    by (auto simp: pre_def entry_wf_def word_field_def)
  then have pos: "position (\<lambda>f. f = ascii ''-'') (entry_fields esc e) = Some (length (pre @ me_optional e))"
    unfolding e by (intro position_append) auto
  have post: "drop (length (pre @ me_optional e) + 1) (entry_fields esc e) = post"
    "subslice 6 (length (pre @ me_optional e)) (entry_fields esc e) = me_optional e"
    by (simp_all add: e pre_def subslice_def)
  have len: "length pre = 6" "length post = 3" "10 \<le> length (entry_fields esc e)"
    by (simp_all add: pre_def post_def e)
  have nth: "entry_fields esc e ! 0 = dec_bytes (fmt_int (me_id e))"
    "entry_fields esc e ! 1 = dec_bytes (fmt_int (me_parent_id e))"
    "entry_fields esc e ! 2 = dec_bytes (fmt_dec (unat (me_major e))) @ [0x3A]
       @ dec_bytes (fmt_dec (unat (me_minor e)))"
    "entry_fields esc e ! 3 = mangle esc (me_root e)"
    "entry_fields esc e ! 4 = mangle esc (me_mount_point e)" "entry_fields esc e ! 5 = me_vfs_opts e"
    by (simp_all add: entry_fields_def)
  have "parse_line (render_entry esc e) =
    Some (Some \<lparr>me_id = me_id e, me_parent_id = me_parent_id e, me_major = me_major e,
       me_minor = me_minor e, me_root = unmangle (mangle esc (me_root e)),
       me_mount_point = unmangle (mangle esc (me_mount_point e)),
       me_vfs_opts = me_vfs_opts e, me_optional = me_optional e, me_fstype = post ! 0,
       me_source = unmangle (post ! 1), me_super_opts = post ! 2\<rparr>)"
    unfolding parse_line_def Let_def f nth ids device_numbers_fmt option.case prod.case pos post
    using len by simp
  then show ?thesis
    using esc by (simp add: post_def unmangle_mangle)
qed

text \<open>C30. The table of mounts read back: what the kernel writes for a list of mounts, with spaces,
  line feeds and backslashes (and any other bytes) of paths escaped, parses to that list; the
  parser neither skips a line nor panics.\<close>

theorem mountinfo_roundtrip:
  assumes "\<forall>e \<in> set es. entry_wf e" and "{0x20, 0x0A, 0x5C} \<subseteq> esc"
  shows "mountinfo_parse (render_mountinfo esc es) = Some es"
proof -
  have r: "0x0A \<notin> set (render_entry esc e)" "render_entry esc e \<noteq> []" if "e \<in> set es" for e
  proof -
    have j: "set (join_with [0x20 :: u8] fs) \<subseteq> insert 0x20 (\<Union>(set ` set fs))" for fs
      by (induction "[0x20 :: u8]" fs rule: join_with.induct) auto
    show "0x0A \<notin> set (render_entry esc e)"
      using j [of "entry_fields esc e"] entry_fields_words [of e esc] assms that
      by (force simp: render_entry_def)
    show "render_entry esc e \<noteq> []"
      by (auto simp: render_entry_def entry_fields_def)
  qed
  have "filter (\<lambda>l. l \<noteq> []) (split_on 0x0A (render_mountinfo esc es)) = map (render_entry esc) es"
    using r by (induction es) (simp_all add: render_mountinfo_def split_on_append_sep)
  moreover have "parse_lines (map (render_entry esc) es) = Some es"
    using assms(1) by (induction es) (simp_all add: parse_line_render [OF _ assms(2)])
  ultimately show ?thesis by (simp add: mountinfo_parse_def)
qed

theorem mountinfo_roundtrip_witness:
  "mountinfo_parse (render_mountinfo {0x20, 0x09, 0x0A, 0x5C}
     [\<lparr>me_id = 36, me_parent_id = -1, me_major = 98, me_minor = 0, me_root = ascii ''/'',
       me_mount_point = ascii ''/mnt/a b'', me_vfs_opts = ascii ''rw,noatime'',
       me_optional = [ascii ''shared:1''], me_fstype = ascii ''ext3'',
       me_source = ascii ''/dev/root'', me_super_opts = ascii ''rw''\<rparr>]) =
   Some [\<lparr>me_id = 36, me_parent_id = -1, me_major = 98, me_minor = 0, me_root = ascii ''/'',
       me_mount_point = ascii ''/mnt/a b'', me_vfs_opts = ascii ''rw,noatime'',
       me_optional = [ascii ''shared:1''], me_fstype = ascii ''ext3'',
       me_source = ascii ''/dev/root'', me_super_opts = ascii ''rw''\<rparr>]"
  by (rule mountinfo_roundtrip) (simp_all add: entry_wf_def word_field_def ascii_def)

text \<open>Outside that range the slice of the optional fields can panic.\<close>

lemma parse_line_panics:
  "parse_line (ascii ''1 2 3:4 - / rw a b c d e'') = None"
  by (simp add: parse_line_def ascii_def device_numbers_def ascii_int_def ascii_uint_def
      from_utf8_ascii parse_sint_def parse_uint_def to_digit_def)

section \<open>The listed line\<close>

lemma merge_fold:
  assumes "distinct toks" and "h \<longrightarrow> (\<exists>t \<in> set toks. is_rorw t)"
  shows "let ts = foldl (\<lambda>toks t. if h \<and> is_rorw t then toks
            else if t \<notin> set toks then toks @ [t] else toks) toks sb
     in distinct ts \<and> prefix toks ts \<and> set ts = set toks \<union> {t \<in> set sb. \<not> (h \<and> is_rorw t)}"
  using assms
proof (induction sb arbitrary: toks)
  case (Cons t sb)
  define toks' where "toks' = (if h \<and> is_rorw t then toks
      else if t \<notin> set toks then toks @ [t] else toks)"
  have p: "distinct toks'" "prefix toks toks'" "set toks' = set toks \<union> {x. x = t \<and> \<not> (h \<and> is_rorw t)}"
    using Cons.prems by (auto simp: toks'_def)
  then have "h \<longrightarrow> (\<exists>t \<in> set toks'. is_rorw t)"
    using Cons.prems by auto
  from Cons.IH [OF p(1) this] p show ?case
    by (auto simp: Let_def toks'_def [symmetric] intro: prefix_order.trans)
qed simp


lemma filter_nonempty_id: "[] \<notin> set fs \<Longrightarrow> filter (\<lambda>f. f \<noteq> []) fs = fs"
  by (simp add: filter_id_conv) metis

lemma tokens_of_join:
  assumes "\<forall>f \<in> set fs. f \<noteq> [] \<and> c \<notin> set f"
  shows "filter (\<lambda>f. f \<noteq> []) (split_on c (join_with [c] fs)) = fs"
  using assms by (cases "fs = []") (simp, simp add: split_on_join filter_id_conv)

lemma sanitize_clean: "b \<in> set (sanitize_mountpoint mp) \<Longrightarrow> 0x20 \<le> b \<and> b \<noteq> 0x7F"
  by (auto simp: sanitize_mountpoint_def not_less split: if_splits)

lemma sanitize_length: "length (sanitize_mountpoint mp) = length mp"
  by (simp add: sanitize_mountpoint_def)

text \<open>A listed mount shows each option once: the options of the merged field are those of the
  mount, in their order, followed by those of the superblock that are new, without a second
  ro or rw when the mount's field begins with one; and the mount point shown has no control
  character and the length of the real one.\<close>

theorem listing_options:
  assumes "distinct (filter (\<lambda>t. t \<noteq> []) (split_on 0x2C vfs))"
  shows "let v = filter (\<lambda>t. t \<noteq> []) (split_on 0x2C vfs); s = filter (\<lambda>t. t \<noteq> []) (split_on 0x2C sb);
             ts = filter (\<lambda>t. t \<noteq> []) (split_on 0x2C (merge_options vfs sb))
         in distinct ts \<and> prefix v ts
            \<and> set ts = set v \<union> {t \<in> set s. \<not> (v \<noteq> [] \<and> is_rorw (hd v) \<and> is_rorw t)}
            \<and> (\<forall>b \<in> set (sanitize_mountpoint mp). 0x20 \<le> b \<and> b \<noteq> 0x7F)
            \<and> length (sanitize_mountpoint mp) = length mp"
proof -
  define v s h where "v = filter (\<lambda>t. t \<noteq> []) (split_on 0x2C vfs)"
    and "s = filter (\<lambda>t. t \<noteq> []) (split_on 0x2C sb)" and "h \<longleftrightarrow> v \<noteq> [] \<and> is_rorw (hd v)"
  have h: "h \<longrightarrow> (\<exists>t \<in> set v. is_rorw t)"
    by (auto simp: h_def)
  have "merge_tokens v s = foldl (\<lambda>toks t. if h \<and> is_rorw t then toks
      else if t \<notin> set toks then toks @ [t] else toks) v s"
    by (cases v) (simp_all add: merge_tokens_def h_def)
  then have m: "distinct (merge_tokens v s)" "prefix v (merge_tokens v s)"
    "set (merge_tokens v s) = set v \<union> {t \<in> set s. \<not> (h \<and> is_rorw t)}"
    using merge_fold [OF _ h, of s] assms by (simp_all add: v_def Let_def)
  have "filter (\<lambda>t. t \<noteq> []) (split_on 0x2C (merge_options vfs sb)) = merge_tokens v s"
    unfolding merge_options_def v_def [symmetric] s_def [symmetric]
    using m(3) split_on_fields [of _ "0x2C :: u8"] by (intro tokens_of_join) (auto simp: v_def s_def)
  then show ?thesis
    using m sanitize_clean [of _ mp]
    unfolding v_def [symmetric] s_def [symmetric] Let_def
    by (simp add: h_def sanitize_length)
qed

theorem listing_options_witness:
  "set (filter (\<lambda>t. t \<noteq> []) (split_on 0x2C (merge_options (ascii ''rw,nosuid'') (ascii ''rw,size=4k'')))) =
     {ascii ''rw'', ascii ''nosuid'', ascii ''size=4k''}"
proof -
  have "distinct (filter (\<lambda>t. t \<noteq> []) (split_on 0x2C (ascii ''rw,nosuid'')))"
    by code_simp
  from listing_options [OF this, of "ascii ''rw,size=4k''" "[]"]
  have "set (filter (\<lambda>t. t \<noteq> []) (split_on 0x2C (merge_options (ascii ''rw,nosuid'') (ascii ''rw,size=4k'')))) =
     set (filter (\<lambda>t. t \<noteq> []) (split_on 0x2C (ascii ''rw,nosuid'')))
     \<union> {t \<in> set (filter (\<lambda>t. t \<noteq> []) (split_on 0x2C (ascii ''rw,size=4k''))).
         \<not> (filter (\<lambda>t. t \<noteq> []) (split_on 0x2C (ascii ''rw,nosuid'')) \<noteq> []
            \<and> is_rorw (hd (filter (\<lambda>t. t \<noteq> []) (split_on 0x2C (ascii ''rw,nosuid'')))) \<and> is_rorw t)}"
    unfolding Let_def by blast
  also have "\<dots> = {ascii ''rw'', ascii ''nosuid'', ascii ''size=4k''}"
    by (auto simp: ascii_def is_rorw_def)
  finally show ?thesis .
qed

end
