(* ===== verification/Mount_Sys.thy ===== *)
theory Mount_Sys
  imports Mount_Info
begin

text \<open>
  \<open>src/uu/mount/src/sys.rs\<close> and \<open>namespace.rs\<close>: the system calls of the mount interface. The
  kernel is an argument: a function from a call and a world to the result and the next world.
  The state an operation runs on is the world together with the trace of calls made so far and
  their results, which is what the safety properties are about; a trace is judged by a monitor,
  and triples over monitors compose along the operations.
\<close>

section \<open>Calls\<close>

record mount_attr =
  ma_set :: u64
  ma_clr :: u64
  ma_propagation :: u64
  ma_userns_fd :: u64

record 'sd mount_policy =
  mp_kind :: policy_kind
  mp_flags :: u32
  mp_generation :: u64
  mp_template :: "'sd option"

datatype 'sd syscall =
    SysFsopen bytes u32
  | SysFsconfig int u32 "bytes option" "bytes option"
  | SysFsmount int u32 u32
  | SysMoveMount int bytes int bytes u32
  | SysOpenTree int bytes u32
  | SysFspick int bytes u32
  | SysMountSetattr int bytes u32 mount_attr
  | SysSetPolicy int "'sd mount_policy"
  | SysDup int
  | SysClose int
  | SysOpen bytes bool
  | SysSetns int u32
  | SysIoctl int u64 "u64 list"
  | SysMkdirAll bytes
  | SysUmount2 bytes int

text \<open>
  What the program sees of the system: the calls, the log of a configuration context (the results
  of the successive reads, each for a buffer size, until one returns nothing), path resolution, file attributes, the mount table (its first and its second read), and the answers of
  the \<open>libblkid\<close> binding.
\<close>

datatype blkid_error = OpenFailed | Ambiguous | NoSignature | ProbeFailed | SpecUnresolved
  | Unavailable | MissingSymbol rust_str | NulByte

record loop_sysfs =
  ls_name :: bytes
  ls_backing :: "bytes option"
  ls_offset :: "bytes option"
  ls_sizelimit :: "bytes option"

record ('w, 'sd) sys_env =
  se_call :: "'sd syscall \<Rightarrow> 'w \<Rightarrow> (io_error + int) \<times> 'w"
  se_log :: "int \<Rightarrow> 'w \<Rightarrow> (nat \<Rightarrow> io_error + bytes) list"
  se_realpath :: "bytes \<Rightarrow> 'w \<Rightarrow> bytes option"
  se_regular :: "bytes \<Rightarrow> 'w \<Rightarrow> bool"
  se_readonly :: "int \<Rightarrow> 'w \<Rightarrow> bool"
  se_mountinfo :: "nat \<Rightarrow> 'w \<Rightarrow> io_error + bytes"
  se_loops :: "'w \<Rightarrow> loop_sysfs list option"
  se_backing :: "rust_str \<Rightarrow> 'w \<Rightarrow> bytes option"
  se_evaluate_spec :: "bytes \<Rightarrow> 'w \<Rightarrow> blkid_error + bytes"
  se_probe :: "bytes \<Rightarrow> 'w \<Rightarrow> blkid_error + bytes option"

type_synonym 'sd event = "'sd syscall \<times> (io_error + int)"

record ('w, 'sd) sys_state =
  world :: 'w
  trace :: "'sd event list"

text \<open>A failure of an operation is an error value or a panic.\<close>

datatype failure = Failed mount_error | Panicked

type_synonym ('w, 'sd, 'a) io_op = "(('w, 'sd) sys_state, io_error, 'a) op"
type_synonym ('w, 'sd, 'a) flow_op = "(('w, 'sd) sys_state, failure, 'a) op"

definition sys_call :: "('w, 'sd) sys_env \<Rightarrow> 'sd syscall \<Rightarrow> ('w, 'sd, int) io_op" where
  "sys_call E c s =
     (case se_call E c (world s) of
        (r, w) \<Rightarrow> (r, \<lparr>world = w, trace = trace s @ [(c, r)]\<rparr>))"

definition op_map_err :: "('e \<Rightarrow> 'f) \<Rightarrow> ('s, 'e, 'a) op \<Rightarrow> ('s, 'f, 'a) op" where
  "op_map_err f m s = (case m s of (r, t) \<Rightarrow> (map_err f r, t))"

definition op_lift :: "'e + 'a \<Rightarrow> ('s, 'e, 'a) op" where
  "op_lift r s = (r, s)"

definition op_gets :: "('s \<Rightarrow> 'a) \<Rightarrow> ('s, 'e, 'a) op" where
  "op_gets f s = (Inr (f s), s)"

definition op_ignore :: "('s, 'e, 'a) op \<Rightarrow> ('s, 'f, unit) op" where
  "op_ignore m s = (case m s of (_, t) \<Rightarrow> (Inr (), t))"

definition op_catch :: "('s, 'e, 'a) op \<Rightarrow> ('e \<Rightarrow> ('s, 'f, 'a) op) \<Rightarrow> ('s, 'f, 'a) op" where
  "op_catch m h s = (case m s of (Inr x, t) \<Rightarrow> (Inr x, t) | (Inl e, t) \<Rightarrow> h e t)"

text \<open>An owned descriptor: closed when it goes out of scope, on every path.\<close>

definition with_fd ::
  "('w, 'sd) sys_env \<Rightarrow> ('w, 'sd, int) flow_op \<Rightarrow> (int \<Rightarrow> ('w, 'sd, 'a) flow_op) \<Rightarrow> ('w, 'sd, 'a) flow_op" where
  "with_fd E m body s =
     (case m s of
        (Inl e, t) \<Rightarrow> (Inl e, t)
      | (Inr fd, t) \<Rightarrow> (case body fd t of (r, u) \<Rightarrow> (r, snd (sys_call E (SysClose fd) u))))"

section \<open>The wrappers\<close>

definition FSOPEN_CLOEXEC :: u32 where "FSOPEN_CLOEXEC = 1"
definition FSMOUNT_CLOEXEC :: u32 where "FSMOUNT_CLOEXEC = 1"
definition FSPICK_CLOEXEC :: u32 where "FSPICK_CLOEXEC = 1"
definition SET_FLAG :: u32 where "SET_FLAG = 0"
definition SET_STRING :: u32 where "SET_STRING = 1"
definition CMD_CREATE :: u32 where "CMD_CREATE = 6"
definition CMD_RECONFIGURE :: u32 where "CMD_RECONFIGURE = 7"
definition CMD_CREATE_EXCL :: u32 where "CMD_CREATE_EXCL = 8"
definition AT_RECURSIVE :: u32 where "AT_RECURSIVE = 0x8000"
definition AT_EMPTY_PATH :: u32 where "AT_EMPTY_PATH = 0x1000"
definition AT_FDCWD :: int where "AT_FDCWD = -100"
definition OPEN_TREE_CLONE :: u32 where "OPEN_TREE_CLONE = 1"
definition OPEN_TREE_CLOEXEC :: u32 where "OPEN_TREE_CLOEXEC = 0x80000"
definition MOVE_MOUNT_F_EMPTY_PATH :: u32 where "MOVE_MOUNT_F_EMPTY_PATH = 4"
definition MOVE_MOUNT_BENEATH :: u32 where "MOVE_MOUNT_BENEATH = 0x200"
definition CLONE_NEWNS :: u32 where "CLONE_NEWNS = 0x20000"
definition MS_SHARED :: u64 where "MS_SHARED = 0x100000"
definition MS_SLAVE :: u64 where "MS_SLAVE = 0x80000"
definition MS_PRIVATE :: u64 where "MS_PRIVATE = 0x40000"
definition MS_UNBINDABLE :: u64 where "MS_UNBINDABLE = 0x20000"

definition check :: "('s, 'e, int) op \<Rightarrow> ('s, 'e, unit) op" where
  "check m = op_bind m (\<lambda>_. op_return ())"

definition fsopen :: "('w, 'sd) sys_env \<Rightarrow> bytes \<Rightarrow> u32 \<Rightarrow> ('w, 'sd, int) io_op" where
  "fsopen E fstype flags = sys_call E (SysFsopen fstype flags)"

definition fsconfig_set_string ::
  "('w, 'sd) sys_env \<Rightarrow> int \<Rightarrow> bytes \<Rightarrow> bytes \<Rightarrow> ('w, 'sd, unit) io_op" where
  "fsconfig_set_string E fs_fd key v = check (sys_call E (SysFsconfig fs_fd SET_STRING (Some key) (Some v)))"

definition fsconfig_set_flag :: "('w, 'sd) sys_env \<Rightarrow> int \<Rightarrow> bytes \<Rightarrow> ('w, 'sd, unit) io_op" where
  "fsconfig_set_flag E fs_fd key = check (sys_call E (SysFsconfig fs_fd SET_FLAG (Some key) None))"

definition fsconfig_cmd :: "('w, 'sd) sys_env \<Rightarrow> int \<Rightarrow> u32 \<Rightarrow> ('w, 'sd, unit) io_op" where
  "fsconfig_cmd E fs_fd cmd = check (sys_call E (SysFsconfig fs_fd cmd None None))"

definition fsmount :: "('w, 'sd) sys_env \<Rightarrow> int \<Rightarrow> u32 \<Rightarrow> u32 \<Rightarrow> ('w, 'sd, int) io_op" where
  "fsmount E fs_fd flags attr_flags = sys_call E (SysFsmount fs_fd flags attr_flags)"

definition move_mount_raw ::
  "('w, 'sd) sys_env \<Rightarrow> int \<Rightarrow> bytes \<Rightarrow> int \<Rightarrow> bytes \<Rightarrow> u32 \<Rightarrow> ('w, 'sd, unit) io_op" where
  "move_mount_raw E from_dfd from_path to_dfd to_path flags =
     check (sys_call E (SysMoveMount from_dfd from_path to_dfd to_path flags))"

definition move_mount_attach ::
  "('w, 'sd) sys_env \<Rightarrow> int \<Rightarrow> bytes \<Rightarrow> u32 \<Rightarrow> ('w, 'sd, unit) io_op" where
  "move_mount_attach E from_fd target extra_flags =
     move_mount_raw E from_fd [] AT_FDCWD target (MOVE_MOUNT_F_EMPTY_PATH OR extra_flags)"

definition move_mount_path ::
  "('w, 'sd) sys_env \<Rightarrow> bytes \<Rightarrow> bytes \<Rightarrow> u32 \<Rightarrow> ('w, 'sd, unit) io_op" where
  "move_mount_path E from_path target flags = move_mount_raw E AT_FDCWD from_path AT_FDCWD target flags"

definition open_tree :: "('w, 'sd) sys_env \<Rightarrow> int \<Rightarrow> bytes \<Rightarrow> u32 \<Rightarrow> ('w, 'sd, int) io_op" where
  "open_tree E dfd path flags = sys_call E (SysOpenTree dfd path flags)"

definition fspick :: "('w, 'sd) sys_env \<Rightarrow> int \<Rightarrow> bytes \<Rightarrow> u32 \<Rightarrow> ('w, 'sd, int) io_op" where
  "fspick E dfd path flags = sys_call E (SysFspick dfd path flags)"

definition mount_setattr ::
  "('w, 'sd) sys_env \<Rightarrow> int \<Rightarrow> bytes \<Rightarrow> u32 \<Rightarrow> mount_attr \<Rightarrow> ('w, 'sd, unit) io_op" where
  "mount_setattr E dfd path flags attr = check (sys_call E (SysMountSetattr dfd path flags attr))"

definition MNT_FORCE :: int where "MNT_FORCE = 1"
definition MNT_DETACH :: int where "MNT_DETACH = 2"
definition UMOUNT_NOFOLLOW :: int where "UMOUNT_NOFOLLOW = 8"

definition umount2 :: "('w, 'sd) sys_env \<Rightarrow> bytes \<Rightarrow> int \<Rightarrow> ('w, 'sd, unit) io_op" where
  "umount2 E target flags = check (sys_call E (SysUmount2 target flags))"

text \<open>
  The message log of a configuration context. A message that does not fit is consumed by the
  failed read; the buffer doubles, up to a mebibyte, for those that follow.
\<close>

definition EMSGSIZE :: int where "EMSGSIZE = 90"

fun drain_loop :: "nat \<Rightarrow> (nat \<Rightarrow> io_error + bytes) list \<Rightarrow> rust_str list" where
  "drain_loop cap [] = []"
| "drain_loop cap (rd # rds) =
     (case rd cap of
        Inr [] \<Rightarrow> []
      | Inr bs \<Rightarrow> trim_end (from_utf8_lossy bs) # drain_loop cap rds
      | Inl err \<Rightarrow>
          if raw_os_error err = Some EMSGSIZE then drain_loop (min (cap * 2) (2 ^ 20)) rds else [])"

definition drain_fs_log :: "(nat \<Rightarrow> io_error + bytes) list \<Rightarrow> rust_str list" where
  "drain_fs_log rds = drain_loop 4096 rds"

text \<open>\<open>map_err(MountError::at(stage))\<close> and \<open>map_err\<close> into another error.\<close>

definition at_stage :: "string \<Rightarrow> ('w, 'sd, 'a) io_op \<Rightarrow> ('w, 'sd, 'a) flow_op" where
  "at_stage stage m = op_map_err (\<lambda>e. Failed (from_syscall (lit stage) e)) m"

definition fail_with :: "mount_error \<Rightarrow> ('w, 'sd, 'a) flow_op" where
  "fail_with e = op_fail (Failed e)"

definition lift_result :: "mount_error + 'a \<Rightarrow> ('w, 'sd, 'a) flow_op" where
  "lift_result r = op_lift (map_err Failed r)"

section \<open>Namespaces\<close>

definition ns_path :: "bytes \<Rightarrow> bytes" where
  "ns_path ns =
     (if ns \<noteq> [] \<and> list_all is_ascii_digit ns then ascii ''/proc/'' @ ns @ ascii ''/ns/mnt''
      else if strip_prefix (ascii ''/'') ns \<noteq> None then ns
      else ascii ''/run/mnt/namespaces/'' @ ns)"

definition ns_enter :: "('w, 'sd) sys_env \<Rightarrow> bytes \<Rightarrow> ('w, 'sd, unit) flow_op" where
  "ns_enter E ns =
     with_fd E (at_stage ''open namespace'' (sys_call E (SysOpen (ns_path ns) False))) (\<lambda>f.
       at_stage ''setns'' (check (sys_call E (SysSetns f CLONE_NEWNS))))"

section \<open>Monitors\<close>

text \<open>
  A monitor reads a trace call by call and stops at the first one it does not allow. A triple says
  that from monitor states where \<open>P\<close> holds the calls an operation makes are allowed, and what
  holds after them.
\<close>

fun run_monitor :: "('m \<Rightarrow> 'e \<Rightarrow> 'm option) \<Rightarrow> 'm \<Rightarrow> 'e list \<Rightarrow> 'm option" where
  "run_monitor step m [] = Some m"
| "run_monitor step m (e # es) = Option.bind (step m e) (\<lambda>m'. run_monitor step m' es)"

lemma run_monitor_append:
  "run_monitor step m (xs @ ys) = Option.bind (run_monitor step m xs) (\<lambda>m'. run_monitor step m' ys)"
  by (induction xs arbitrary: m) (simp_all add: bind_assoc)

definition triple ::
  "('m \<Rightarrow> 'sd event \<Rightarrow> 'm option) \<Rightarrow> ('m \<Rightarrow> bool) \<Rightarrow> (('w, 'sd) sys_state, 'e, 'a) op
    \<Rightarrow> ('e + 'a \<Rightarrow> 'm \<Rightarrow> bool) \<Rightarrow> bool" where
  "triple step P f Q \<longleftrightarrow>
     (\<forall>s r t m. f s = (r, t) \<longrightarrow> P m \<longrightarrow>
        (\<exists>tr m'. trace t = trace s @ tr \<and> run_monitor step m tr = Some m' \<and> Q r m'))"

lemma tripleI:
  "(\<And>s r t m. f s = (r, t) \<Longrightarrow> P m \<Longrightarrow>
      \<exists>tr m'. trace t = trace s @ tr \<and> run_monitor step m tr = Some m' \<and> Q r m') \<Longrightarrow> triple step P f Q"
  by (simp add: triple_def)

lemma tripleD:
  "triple step P f Q \<Longrightarrow> f s = (r, t) \<Longrightarrow> P m \<Longrightarrow>
     \<exists>tr m'. trace t = trace s @ tr \<and> run_monitor step m tr = Some m' \<and> Q r m'"
  by (simp add: triple_def)

lemma triple_conseq:
  "triple step P f Q \<Longrightarrow> (\<And>m. P' m \<Longrightarrow> P m) \<Longrightarrow> (\<And>r m. Q r m \<Longrightarrow> Q' r m) \<Longrightarrow> triple step P' f Q'"
  unfolding triple_def by blast

lemma triple_return: "(\<And>m. P m \<Longrightarrow> Q (Inr x) m) \<Longrightarrow> triple step P (op_return x) Q"
  by (rule tripleI) auto

lemma triple_fail: "(\<And>m. P m \<Longrightarrow> Q (Inl e) m) \<Longrightarrow> triple step P (op_fail e) Q"
  by (rule tripleI) auto

lemma triple_lift: "(\<And>m. P m \<Longrightarrow> Q r m) \<Longrightarrow> triple step P (op_lift r) Q"
  by (rule tripleI) (auto simp: op_lift_def)

lemma triple_gets: "(\<And>m x. P m \<Longrightarrow> Q (Inr x) m) \<Longrightarrow> triple step P (op_gets f) Q"
  by (rule tripleI) (auto simp: op_gets_def)

lemma triple_bind:
  assumes "triple step P f R" and "\<And>x. triple step (R (Inr x)) (g x) Q"
    and "\<And>e m. R (Inl e) m \<Longrightarrow> Q (Inl e) m"
  shows "triple step P (op_bind f g) Q"
proof (rule tripleI)
  fix s r t m
  assume run: "op_bind f g s = (r, t)" and "P m"
  obtain r1 t1 where f: "f s = (r1, t1)" by fastforce
  obtain tr1 m1 where one: "trace t1 = trace s @ tr1" "run_monitor step m tr1 = Some m1" "R r1 m1"
    using tripleD [OF assms(1) f \<open>P m\<close>] by blast
  show "\<exists>tr m'. trace t = trace s @ tr \<and> run_monitor step m tr = Some m' \<and> Q r m'"
  proof (cases r1)
    case (Inl e)
    then show ?thesis using run f one assms(3) by (auto simp: op_bind_def)
  next
    case (Inr x)
    then have "g x t1 = (r, t)" using run f by (simp add: op_bind_def)
    from tripleD [OF assms(2) this] one Inr obtain tr2 m2
      where "trace t = trace t1 @ tr2" "run_monitor step m1 tr2 = Some m2" "Q r m2" by blast
    with one show ?thesis by (auto simp: run_monitor_append intro!: exI [of _ "tr1 @ tr2"])
  qed
qed

lemma triple_map_err:
  "triple step P f (\<lambda>r. Q (map_err h r)) \<Longrightarrow> triple step P (op_map_err h f) Q"
  unfolding triple_def op_map_err_def by (fastforce split: prod.splits)

lemma triple_ignore:
  "triple step P f (\<lambda>_. Q (Inr ())) \<Longrightarrow> triple step P (op_ignore f) Q"
  unfolding triple_def op_ignore_def by (fastforce split: prod.splits)

lemma triple_call:
  assumes "\<And>r m. P m \<Longrightarrow> \<exists>m'. step m (c, r) = Some m' \<and> Q r m'"
  shows "triple step P (sys_call E c) Q"
proof (rule tripleI)
  fix s r t m
  assume "sys_call E c s = (r, t)" and "P m"
  then have "trace t = trace s @ [(c, r)]" by (auto simp: sys_call_def split: prod.splits)
  with assms [OF \<open>P m\<close>, of r] show "\<exists>tr m'. trace t = trace s @ tr \<and> run_monitor step m tr = Some m' \<and> Q r m'"
    by (auto intro!: exI [of _ "[(c, r)]"])
qed

lemma triple_catch:
  assumes "triple step P f R" and "\<And>e. triple step (R (Inl e)) (h e) Q"
    and "\<And>x m. R (Inr x) m \<Longrightarrow> Q (Inr x) m"
  shows "triple step P (op_catch f h) Q"
proof (rule tripleI)
  fix s r t m
  assume run: "op_catch f h s = (r, t)" and "P m"
  obtain r1 t1 where f: "f s = (r1, t1)" by fastforce
  obtain tr1 m1 where one: "trace t1 = trace s @ tr1" "run_monitor step m tr1 = Some m1" "R r1 m1"
    using tripleD [OF assms(1) f \<open>P m\<close>] by blast
  show "\<exists>tr m'. trace t = trace s @ tr \<and> run_monitor step m tr = Some m' \<and> Q r m'"
  proof (cases r1)
    case (Inr x)
    then show ?thesis using run f one assms(3) by (auto simp: op_catch_def)
  next
    case (Inl e)
    then have "h e t1 = (r, t)" using run f by (simp add: op_catch_def)
    from tripleD [OF assms(2) this] one Inl obtain tr2 m2
      where "trace t = trace t1 @ tr2" "run_monitor step m1 tr2 = Some m2" "Q r m2" by blast
    with one show ?thesis by (auto simp: run_monitor_append intro!: exI [of _ "tr1 @ tr2"])
  qed
qed

lemma triple_with_fd:
  assumes "triple step P f R" and "\<And>fd. triple step (R (Inr fd)) (body fd) (S fd)"
    and "\<And>e m. R (Inl e) m \<Longrightarrow> Q (Inl e) m"
    and "\<And>fd r r' m. S fd r m \<Longrightarrow> \<exists>m'. step m (SysClose fd, r') = Some m' \<and> Q r m'"
  shows "triple step P (with_fd E f body) Q"
proof (rule tripleI)
  fix s r t m
  assume run: "with_fd E f body s = (r, t)" and "P m"
  obtain r1 t1 where f: "f s = (r1, t1)" by fastforce
  obtain tr1 m1 where one: "trace t1 = trace s @ tr1" "run_monitor step m tr1 = Some m1" "R r1 m1"
    using tripleD [OF assms(1) f \<open>P m\<close>] by blast
  show "\<exists>tr m'. trace t = trace s @ tr \<and> run_monitor step m tr = Some m' \<and> Q r m'"
  proof (cases r1)
    case (Inl e)
    then show ?thesis using run f one assms(3) by (auto simp: with_fd_def)
  next
    case (Inr fd)
    obtain r2 t2 where b: "body fd t1 = (r2, t2)" by fastforce
    obtain tr2 m2 where two: "trace t2 = trace t1 @ tr2" "run_monitor step m1 tr2 = Some m2" "S fd r2 m2"
      using tripleD [OF assms(2) b, of m1] one Inr by blast
    obtain r3 where "r = r2" "trace t = trace t2 @ [(SysClose fd, r3)]"
      using run f Inr b by (auto simp: with_fd_def sys_call_def split: prod.splits)
    moreover obtain m3 where "step m2 (SysClose fd, r3) = Some m3" "Q r2 m3"
      using assms(4) [OF two(3)] by blast
    ultimately show ?thesis
      using one two by (auto simp: run_monitor_append intro!: exI [of _ "tr1 @ tr2 @ [(SysClose fd, r3)]"])
  qed
qed

lemma triple_check:
  "triple step P f (\<lambda>r. Q (case r of Inl e \<Rightarrow> Inl e | Inr _ \<Rightarrow> Inr ())) \<Longrightarrow> triple step P (check f) Q"
  unfolding check_def by (erule triple_bind) (auto intro: triple_return)

lemma triple_stage:
  "triple step P f (\<lambda>r. Q (map_err (\<lambda>e. Failed (from_syscall (lit stage) e)) r)) \<Longrightarrow>
     triple step P (at_stage stage f) Q"
  unfolding at_stage_def by (rule triple_map_err)

lemma triple_fail_with: "(\<And>m. P m \<Longrightarrow> Q (Inl (Failed e)) m) \<Longrightarrow> triple step P (fail_with e) Q"
  unfolding fail_with_def by (rule triple_fail)

lemma triple_lift_result: "(\<And>m. P m \<Longrightarrow> Q (map_err Failed r) m) \<Longrightarrow> triple step P (lift_result r) Q"
  unfolding lift_result_def by (rule triple_lift)

end
