(* ===== verification/Mount_Loop.thy ===== *)
theory Mount_Loop
  imports Mount_Sys
begin

text \<open>
  \<open>src/uu/mount/src/loopdev.rs\<close> and \<open>blkid.rs\<close>: the loop device a mount needs, from the decision to
  the guard that detaches it when the mount fails, and the sources and types \<open>libblkid\<close> finds.
  Narration on standard error is not modelled.
\<close>

section \<open>Loop devices\<close>

definition LOOP_SET_FD :: u64 where "LOOP_SET_FD = 0x4C00"
definition LOOP_CLR_FD :: u64 where "LOOP_CLR_FD = 0x4C01"
definition LOOP_SET_STATUS64 :: u64 where "LOOP_SET_STATUS64 = 0x4C04"
definition LOOP_CONFIGURE :: u64 where "LOOP_CONFIGURE = 0x4C0A"
definition LOOP_CTL_GET_FREE :: u64 where "LOOP_CTL_GET_FREE = 0x4C82"
definition LO_FLAGS_READ_ONLY :: u32 where "LO_FLAGS_READ_ONLY = 1"
definition LO_FLAGS_AUTOCLEAR :: u32 where "LO_FLAGS_AUTOCLEAR = 4"
definition MAX_GET_FREE_RETRIES :: nat where "MAX_GET_FREE_RETRIES = 16"

definition ENOTTY :: int where "ENOTTY = 25"
definition EINVAL :: int where "EINVAL = 22"
definition EBUSY :: int where "EBUSY = 16"

record loop_guard =
  lg_device :: bytes
  lg_handle :: "int option"
  lg_armed :: bool

text \<open>The fields of \<open>LoopInfo64\<close> that the program sets.\<close>

record loop_info =
  lo_offset :: u64
  lo_sizelimit :: u64
  lo_flags :: u32
  lo_file_name :: bytes

definition info_args :: "int \<Rightarrow> loop_info \<Rightarrow> u64 list" where
  "info_args backing i =
     [of_int backing, lo_offset i, lo_sizelimit i, ucast (lo_flags i)] @ map ucast (lo_file_name i)"

definition read_trimmed :: "bytes option \<Rightarrow> bytes option" where
  "read_trimmed data = map_option strip_newline data"

definition trimmed_number :: "bytes option \<Rightarrow> u64" where
  "trimmed_number data =
     (case Option.bind (read_trimmed data) (\<lambda>s. Option.bind (from_utf8 s) (\<lambda>t.
         parse_uint 10 (2 ^ 64 - 1) (trim t))) of Some n \<Rightarrow> of_nat n | None \<Rightarrow> 0)"

definition loop_backs :: "('w, 'sd) sys_env \<Rightarrow> 'w \<Rightarrow> bytes \<Rightarrow> u64 \<Rightarrow> u64 \<Rightarrow> loop_sysfs \<Rightarrow> bool" where
  "loop_backs E w want offset sizelimit l \<longleftrightarrow>
     strip_prefix (ascii ''loop'') (ls_name l) \<noteq> None \<and> 4 < length (ls_name l)
     \<and> (case read_trimmed (ls_backing l) of
          None \<Rightarrow> False
        | Some backing \<Rightarrow> se_realpath E backing w = Some want)
     \<and> trimmed_number (ls_offset l) = offset \<and> trimmed_number (ls_sizelimit l) = sizelimit"

definition find_existing ::
  "('w, 'sd) sys_env \<Rightarrow> bytes \<Rightarrow> u64 \<Rightarrow> u64 \<Rightarrow> 'w \<Rightarrow> bytes option" where
  "find_existing E source offset sizelimit w =
     Option.bind (se_realpath E source w) (\<lambda>want.
     Option.bind (se_loops E w) (\<lambda>blocks.
     map_option (\<lambda>l. ascii ''/dev/'' @ ls_name l)
       (find (loop_backs E w want offset sizelimit) blocks)))"

definition decide :: "('w, 'sd) sys_env \<Rightarrow> bytes \<Rightarrow> parsed_options \<Rightarrow> 'w \<Rightarrow> bool" where
  "decide E source opts w =
     (if loop_req opts \<noteq> None \<or> loop_offset opts \<noteq> None \<or> loop_sizelimit opts \<noteq> None then True
      else if noloop opts then False
      else se_regular E source w)"

definition attach_legacy ::
  "('w, 'sd) sys_env \<Rightarrow> int \<Rightarrow> int \<Rightarrow> loop_info \<Rightarrow> ('w, 'sd, unit) flow_op" where
  "attach_legacy E loopdev backing info =
     op_bind (at_stage ''LOOP_SET_FD'' (sys_call E (SysIoctl loopdev LOOP_SET_FD [of_int backing]))) (\<lambda>_.
     op_catch (check (sys_call E (SysIoctl loopdev LOOP_SET_STATUS64 (info_args backing info)))) (\<lambda>err.
     op_bind (op_ignore (sys_call E (SysIoctl loopdev LOOP_CLR_FD []))) (\<lambda>_.
     fail_with (from_syscall (lit ''LOOP_SET_STATUS64'') err))))"

definition configure_loop ::
  "('w, 'sd) sys_env \<Rightarrow> int \<Rightarrow> int \<Rightarrow> loop_info \<Rightarrow> ('w, 'sd, unit) flow_op" where
  "configure_loop E loopdev backing info =
     op_catch (check (sys_call E (SysIoctl loopdev LOOP_CONFIGURE (info_args backing info)))) (\<lambda>err.
       if raw_os_error err \<in> {Some ENOTTY, Some EINVAL} then attach_legacy E loopdev backing info
       else fail_with (from_syscall (lit ''LOOP_CONFIGURE'') err))"

text \<open>Opening for reading and writing, or only for reading when that fails.\<close>

definition open_backing :: "('w, 'sd) sys_env \<Rightarrow> bytes \<Rightarrow> ('w, 'sd, int) io_op" where
  "open_backing E source =
     op_catch (sys_call E (SysOpen source True)) (\<lambda>_. sys_call E (SysOpen source False))"

text \<open>A descriptor that is closed only when the rest fails: on success the guard owns it.\<close>

definition with_fd_moved ::
  "('w, 'sd) sys_env \<Rightarrow> ('w, 'sd, int) flow_op \<Rightarrow> (int \<Rightarrow> ('w, 'sd, 'a) flow_op) \<Rightarrow> ('w, 'sd, 'a) flow_op" where
  "with_fd_moved E m body s =
     (case m s of
        (Inl e, t) \<Rightarrow> (Inl e, t)
      | (Inr fd, t) \<Rightarrow>
          (case body fd t of
             (Inr x, u) \<Rightarrow> (Inr x, u)
           | (Inl e, u) \<Rightarrow> (Inl e, snd (sys_call E (SysClose fd) u))))"

definition loop_info_of :: "bool \<Rightarrow> bytes \<Rightarrow> u64 \<Rightarrow> u64 \<Rightarrow> loop_info" where
  "loop_info_of read_only source offset sizelimit =
     \<lparr>lo_offset = offset, lo_sizelimit = sizelimit,
      lo_flags = LO_FLAGS_AUTOCLEAR OR (if read_only then LO_FLAGS_READ_ONLY else 0),
      lo_file_name = (let name_len = min (length source) 63 in
        take name_len source @ replicate (64 - name_len) 0)\<rparr>"

definition attach ::
  "('w, 'sd) sys_env \<Rightarrow> bytes \<Rightarrow> bytes \<Rightarrow> u64 \<Rightarrow> u64 \<Rightarrow> ('w, 'sd, loop_guard option) flow_op" where
  "attach E device source offset sizelimit =
     with_fd E (at_stage ''open backing file'' (open_backing E source)) (\<lambda>backing.
     op_bind (op_gets (\<lambda>s. se_readonly E backing (world s))) (\<lambda>read_only.
     with_fd_moved E (at_stage ''open loop device'' (sys_call E (SysOpen device True))) (\<lambda>loopdev.
     op_bind (configure_loop E loopdev backing (loop_info_of read_only source offset sizelimit)) (\<lambda>_.
     op_return (Some \<lparr>lg_device = device, lg_handle = Some loopdev, lg_armed = True\<rparr>)))))"

fun attach_auto_loop ::
  "('w, 'sd) sys_env \<Rightarrow> int \<Rightarrow> bytes \<Rightarrow> u64 \<Rightarrow> u64 \<Rightarrow> nat \<Rightarrow> mount_error option
    \<Rightarrow> ('w, 'sd, loop_guard option) flow_op" where
  "attach_auto_loop E control source offset sizelimit 0 last_err =
     fail_with (case last_err of Some e \<Rightarrow> e | None \<Rightarrow> System (lit ''no free loop device''))"
| "attach_auto_loop E control source offset sizelimit (Suc k) last_err =
     op_bind (at_stage ''LOOP_CTL_GET_FREE'' (sys_call E (SysIoctl control LOOP_CTL_GET_FREE []))) (\<lambda>n.
     op_catch (attach E (ascii ''/dev/loop'' @ dec_bytes (fmt_int n)) source offset sizelimit) (\<lambda>e.
       case e of
         Failed (MountFailed stage err) \<Rightarrow>
           if raw_os_error err = Some EBUSY then
             attach_auto_loop E control source offset sizelimit k
               (Some (MountFailed (lit ''LOOP_CONFIGURE'') err))
           else op_fail e
       | _ \<Rightarrow> op_fail e))"

definition attach_auto ::
  "('w, 'sd) sys_env \<Rightarrow> (io_error \<Rightarrow> rust_str) \<Rightarrow> bytes \<Rightarrow> u64 \<Rightarrow> u64 \<Rightarrow> ('w, 'sd, loop_guard option) flow_op" where
  "attach_auto E show_err source offset sizelimit =
     with_fd E (op_map_err (\<lambda>e. Failed (System (lit ''opening /dev/loop-control: '' @ show_err e)))
         (sys_call E (SysOpen (ascii ''/dev/loop-control'') False))) (\<lambda>control.
       attach_auto_loop E control source offset sizelimit MAX_GET_FREE_RETRIES None)"

definition maybe_setup ::
  "('w, 'sd) sys_env \<Rightarrow> (io_error \<Rightarrow> rust_str) \<Rightarrow> bool \<Rightarrow> bytes \<Rightarrow> parsed_options
    \<Rightarrow> ('w, 'sd, loop_guard option) flow_op" where
  "maybe_setup E show_err dry source opts =
     op_bind (op_gets world) (\<lambda>w.
     if \<not> decide E source opts w then op_return None
     else if (loop_offset opts \<noteq> None \<or> loop_sizelimit opts \<noteq> None) \<and> \<not> se_regular E source w then
       fail_with (Usage (lit
         ''offset=/sizelimit= require a regular-file source (they are loop options)''))
     else
       let offset = (case loop_offset opts of Some n \<Rightarrow> n | None \<Rightarrow> 0);
           sizelimit = (case loop_sizelimit opts of Some n \<Rightarrow> n | None \<Rightarrow> 0)
       in (case find_existing E source offset sizelimit w of
             Some dev \<Rightarrow>
               if dry then op_return None
               else op_return (Some \<lparr>lg_device = dev, lg_handle = None, lg_armed = False\<rparr>)
           | None \<Rightarrow>
               if dry then op_return None
               else (case loop_req opts of
                       Some (LoopDevice dev) \<Rightarrow> attach E dev source offset sizelimit
                     | _ \<Rightarrow> attach_auto E show_err source offset sizelimit)))"

text \<open>The drop of the guard: an armed one detaches the device; its handle is closed.\<close>

definition drop_guard :: "('w, 'sd) sys_env \<Rightarrow> bool \<Rightarrow> loop_guard option \<Rightarrow> ('w, 'sd, unit) flow_op" where
  "drop_guard E disarmed guard =
     (case guard of
        None \<Rightarrow> op_return ()
      | Some g \<Rightarrow>
          (case lg_handle g of
             None \<Rightarrow> op_return ()
           | Some h \<Rightarrow>
               op_bind (if lg_armed g \<and> \<not> disarmed then op_ignore (sys_call E (SysIoctl h LOOP_CLR_FD []))
                        else op_return ()) (\<lambda>_. op_ignore (sys_call E (SysClose h)))))"

text \<open>\<open>detach_verified\<close>: clears a device that still backs a file.\<close>

definition detach_verified :: "('w, 'sd) sys_env \<Rightarrow> bytes \<Rightarrow> ('w, 'sd, unit) flow_op" where
  "detach_verified E device =
     op_bind (op_gets (\<lambda>s. read_trimmed (se_backing E (last (split_on 0x2F (from_utf8_lossy device))) (world s)))) (\<lambda>b.
     if b = None then op_return ()
     else
       with_fd E (at_stage ''open loop device'' (sys_call E (SysOpen device True))) (\<lambda>f.
         at_stage ''LOOP_CLR_FD'' (check (sys_call E (SysIoctl f LOOP_CLR_FD [])))))"

text \<open>The scope of the guard: \<open>body\<close> says with its result whether the guard was disarmed.\<close>

definition with_guard ::
  "('w, 'sd) sys_env \<Rightarrow> ('w, 'sd, loop_guard option) flow_op \<Rightarrow> (loop_guard option \<Rightarrow> ('w, 'sd, bool) flow_op)
    \<Rightarrow> ('w, 'sd, unit) flow_op" where
  "with_guard E m body =
     op_bind m (\<lambda>guard.
     op_bind (op_catch (body guard) (\<lambda>e. op_bind (drop_guard E False guard) (\<lambda>_. op_fail e))) (\<lambda>disarmed.
     drop_guard E disarmed guard))"

section \<open>Sources and types\<close>

definition TAG_PREFIXES :: "bytes list" where
  "TAG_PREFIXES =
     [ascii ''UUID='', ascii ''LABEL='', ascii ''PARTUUID='', ascii ''PARTLABEL='']"

definition resolve_spec :: "('w, 'sd) sys_env \<Rightarrow> bytes \<Rightarrow> 'w \<Rightarrow> blkid_error + bytes" where
  "resolve_spec E raw w =
     (if \<not> (\<exists>p \<in> set TAG_PREFIXES. strip_prefix p raw \<noteq> None) then Inr raw
      else se_evaluate_spec E raw w)"

fun blkid_message :: "blkid_error \<Rightarrow> rust_str" where
  "blkid_message Unavailable = lit ''libblkid.so.1 is not available''"
| "blkid_message (MissingSymbol s) = lit ''libblkid is missing symbol '' @ s"
| "blkid_message OpenFailed = lit ''cannot open for probing''"
| "blkid_message Ambiguous = lit ''ambiguous: multiple filesystem signatures''"
| "blkid_message NoSignature = lit ''no filesystem signature found''"
| "blkid_message SpecUnresolved = lit ''cannot find a device matching the spec''"
| "blkid_message ProbeFailed = lit ''probe failed''"
| "blkid_message NulByte = lit ''argument contains a NUL byte''"

fun library_err :: "blkid_error \<Rightarrow> rust_str \<Rightarrow> mount_error" where
  "library_err Unavailable why = System (lit ''libblkid.so.1 is not available ('' @ why @ lit '')'')"
| "library_err (MissingSymbol s) why = Bug (lit ''libblkid is missing symbol '' @ s)"
| "library_err NulByte why = Usage (lit ''argument contains a NUL byte'')"
| "library_err other why = MountFailed (lit ''blkid'') (CustomOther (blkid_message other))"

definition probe_err :: "bytes \<Rightarrow> rust_str \<Rightarrow> mount_error" where
  "probe_err device msg =
     MountFailed (lit ''probe'') (CustomOther (from_utf8_lossy device @ lit '': '' @ msg))"

definition map_probe_error :: "bytes \<Rightarrow> blkid_error \<Rightarrow> mount_error" where
  "map_probe_error device e =
     (case e of
        OpenFailed \<Rightarrow> probe_err device (lit ''cannot open for probing'')
      | Ambiguous \<Rightarrow> probe_err device (lit ''ambiguous: multiple filesystem signatures'')
      | NoSignature \<Rightarrow> probe_err device (lit ''no filesystem signature found'')
      | ProbeFailed \<Rightarrow> probe_err device (lit ''probe failed'')
      | other \<Rightarrow> library_err other (lit ''required for tag/auto''))"

definition map_resolve_error :: "bytes \<Rightarrow> blkid_error \<Rightarrow> mount_error" where
  "map_resolve_error raw e =
     (case e of
        SpecUnresolved \<Rightarrow> MountFailed (lit ''blkid'')
          (CustomOther (lit ''cannot find device for '' @ from_utf8_lossy raw))
      | other \<Rightarrow> library_err other (lit ''required for tag/auto''))"

definition resolve_source :: "('w, 'sd) sys_env \<Rightarrow> bytes \<Rightarrow> 'w \<Rightarrow> mount_error + bytes" where
  "resolve_source E raw w = map_err (map_resolve_error raw) (resolve_spec E raw w)"

definition probe_type :: "('w, 'sd) sys_env \<Rightarrow> bytes \<Rightarrow> bytes option \<Rightarrow> 'w \<Rightarrow> mount_error + bytes" where
  "probe_type E device allowed w =
     result_bind (map_err (map_probe_error device) (se_probe E device w)) (\<lambda>info.
     result_bind (ok_or (probe_err device (lit ''no filesystem type found'')) info) (\<lambda>fstype.
     case allowed of
       Some list \<Rightarrow>
         if fstype \<notin> set (split_on 0x2C list) then
           Inl (MountFailed (lit ''probe'') (CustomOther (lit ''probed type '' @ [39]
             @ from_utf8_lossy fstype @ [39] @ lit '' is not in X-mount.auto-fstypes'')))
         else Inr fstype
     | None \<Rightarrow> Inr fstype))"

end
