(* ===== verification/Mount_Flow.thy ===== *)
theory Mount_Flow
  imports Mount_Loop "HOL-Library.Multiset"
begin

text \<open>
  \<open>src/uu/mount/src/flow.rs\<close> and the policy step of \<open>policy.rs\<close>: the executors of the verbs, as
  operations on the world and its trace of system calls. \<open>show_err\<close> is the text of an OS error.
  Narration on standard error is not modelled. The properties say what no kernel can make these
  operations do: attach a mount before its policy is set, touch a superblock from a bind, leave a
  descriptor open.
\<close>

section \<open>Helpers\<close>

definition cstr :: "bytes \<Rightarrow> mount_error + bytes" where
  "cstr s = (if 0 \<in> set s then Inl (Usage (lit ''argument contains a NUL byte'')) else Inr s)"

fun sb_flag_key :: "sb_flag \<Rightarrow> bool \<Rightarrow> bytes" where
  "sb_flag_key Synchronous on = (if on then ascii ''sync'' else ascii ''async'')"
| "sb_flag_key Dirsync _ = ascii ''dirsync''"
| "sb_flag_key Lazytime on = (if on then ascii ''lazytime'' else ascii ''nolazytime'')"
| "sb_flag_key IVersion on = (if on then ascii ''iversion'' else ascii ''noiversion'')"
| "sb_flag_key Silent on = (if on then ascii ''silent'' else ascii ''loud'')"

definition reject_swap :: "bytes \<Rightarrow> mount_error + unit" where
  "reject_swap fstype =
     (if fstype = ascii ''swap'' then
        Inl (Usage ([39] @ lit ''swap'' @ [39] @ lit '' is not a mountable filesystem '' @ [0x2014]
          @ lit '' use swapon/swapoff''))
      else Inr ())"

definition with_log :: "('w, 'sd) sys_env \<Rightarrow> string \<Rightarrow> int \<Rightarrow> ('w, 'sd, 'a) io_op \<Rightarrow> ('w, 'sd, 'a) flow_op" where
  "with_log E stage fs_fd m s =
     (case m s of
        (Inr x, t) \<Rightarrow> (Inr x, t)
      | (Inl source, t) \<Rightarrow>
          let msgs = drain_fs_log (se_log E fs_fd (world t));
              errors = List.map_filter (strip_prefix (lit ''e '')) msgs
          in (Inl (Failed (if errors = [] then from_syscall (lit stage) source
                else from_syscall (lit stage) (annotate source (join_with (lit ''; '') errors)))), t))"

definition set_string :: "('w, 'sd) sys_env \<Rightarrow> int \<Rightarrow> bytes \<Rightarrow> bytes \<Rightarrow> ('w, 'sd, unit) flow_op" where
  "set_string E fs_fd key v =
     op_bind (lift_result (cstr key)) (\<lambda>k.
     op_bind (lift_result (cstr v)) (\<lambda>v.
     with_log E ''fsconfig'' fs_fd (fsconfig_set_string E fs_fd k v)))"

definition set_flag :: "('w, 'sd) sys_env \<Rightarrow> int \<Rightarrow> bytes \<Rightarrow> ('w, 'sd, unit) flow_op" where
  "set_flag E fs_fd key =
     op_bind (lift_result (cstr key)) (\<lambda>k.
     with_log E ''fsconfig'' fs_fd (fsconfig_set_flag E fs_fd k))"

fun op_for :: "('x \<Rightarrow> ('s, 'e, unit) op) \<Rightarrow> 'x list \<Rightarrow> ('s, 'e, unit) op" where
  "op_for f [] = op_return ()"
| "op_for f (x # xs) = op_bind (f x) (\<lambda>_. op_for f xs)"

definition canonicalize ::
  "('w, 'sd) sys_env \<Rightarrow> bytes \<Rightarrow> bool \<Rightarrow> u32 option \<Rightarrow> ('w, 'sd, bytes) flow_op" where
  "canonicalize E path no_canon make_dir =
     op_bind (case make_dir of
        Some _ \<Rightarrow> op_ignore (sys_call E (SysMkdirAll path))
      | None \<Rightarrow> op_return ()) (\<lambda>_.
     if no_canon then op_return path
     else op_gets (\<lambda>s. case se_realpath E path (world s) of Some real \<Rightarrow> real | None \<Rightarrow> path))"

definition enter_ns :: "('w, 'sd) sys_env \<Rightarrow> mount_request \<Rightarrow> ('w, 'sd, unit) flow_op" where
  "enter_ns E req =
     (case namespace req of
        Some ns \<Rightarrow> if \<not> fake req then ns_enter E ns else op_return ()
      | None \<Rightarrow> op_return ())"

definition move_mount_flags :: "mount_request \<Rightarrow> u32" where
  "move_mount_flags req = 0"

definition should_retry_ro :: "parsed_options \<Rightarrow> mount_error \<Rightarrow> bool" where
  "should_retry_ro opts e =
     (if explicit_rw opts \<or> sb_rdonly opts = Some True then False
      else (case e of
              MountFailed _ source \<Rightarrow> os_code source \<in> {Some EROFS, Some EACCES}
            | Permission _ source \<Rightarrow> os_code source \<in> {Some EROFS, Some EACCES}
            | _ \<Rightarrow> False))"

section \<open>The policy step\<close>

definition translate :: "io_error \<Rightarrow> mount_error" where
  "translate e =
     (let io = RawOs (case raw_os_error e of Some c \<Rightarrow> c | None \<Rightarrow> 0) in
      if raw_os_error e = Some EOPNOTSUPP then MountFailed (lit ''set_mount_policy'') (CustomOther
         (lit ''filesystem type does not support mount policies (it is unmanaged)''))
      else if raw_os_error e = Some EPERM then
         Permission (lit ''set_mount_policy (requires SeTcbPrivilege)'') io
      else from_syscall (lit ''set_mount_policy'') io)"

definition apply_set_before_attach ::
  "('w, 'sd) sys_env \<Rightarrow> (rust_str \<Rightarrow> rust_str + 'sd) \<Rightarrow> ('sd \<Rightarrow> bool) \<Rightarrow> int \<Rightarrow> policy_kind option
    \<Rightarrow> bytes option \<Rightarrow> ('w, 'sd, unit) flow_op" where
  "apply_set_before_attach E sddl has_owner detached pol text' =
     (case pol of
        None \<Rightarrow> op_return ()
      | Some kind \<Rightarrow>
          op_bind (lift_result (parse_template sddl has_owner text')) (\<lambda>template.
          with_fd E (at_stage ''dup'' (sys_call E (SysDup detached))) (\<lambda>file.
          op_map_err (\<lambda>e. Failed (translate e)) (check (sys_call E (SysSetPolicy file
            \<lparr>mp_kind = kind, mp_flags = 0, mp_generation = 0, mp_template = template\<rparr>))))))"

section \<open>New mounts\<close>

definition set_params :: "('w, 'sd) sys_env \<Rightarrow> int \<Rightarrow> token list \<Rightarrow> ('w, 'sd, unit) flow_op" where
  "set_params E fs_fd = op_for (\<lambda>(key, v).
     case v of Some x \<Rightarrow> set_string E fs_fd key x | None \<Rightarrow> set_flag E fs_fd key)"

definition set_sb_flags :: "('w, 'sd) sys_env \<Rightarrow> int \<Rightarrow> (sb_flag \<times> bool) list \<Rightarrow> ('w, 'sd, unit) flow_op" where
  "set_sb_flags E fs_fd = op_for (\<lambda>(flag, on). set_flag E fs_fd (sb_flag_key flag on))"

definition build_new_fsmount ::
  "('w, 'sd) sys_env \<Rightarrow> mount_request \<Rightarrow> bytes \<Rightarrow> bytes \<Rightarrow> bool \<Rightarrow> ('w, 'sd, int) flow_op" where
  "build_new_fsmount E req device fstype force_ro =
     (let o' = rq_options req in
      op_bind (lift_result (cstr fstype)) (\<lambda>fst'.
      with_fd E (at_stage ''fsopen'' (fsopen E fst' FSOPEN_CLOEXEC)) (\<lambda>fs_fd.
      op_bind (if device \<noteq> ascii ''none'' then set_string E fs_fd (ascii ''source'') device
               else op_return ()) (\<lambda>_.
      op_bind (set_sb_flags E fs_fd (sb_flags o')) (\<lambda>_.
      op_bind (if sb_rdonly o' = Some True \<or> force_ro then set_flag E fs_fd (ascii ''ro'')
               else op_return ()) (\<lambda>_.
      op_bind (set_params E fs_fd (fs_params o')) (\<lambda>_.
      op_bind (with_log E ''fsconfig(create)'' fs_fd
        (fsconfig_cmd E fs_fd (if exclusive req then CMD_CREATE_EXCL else CMD_CREATE))) (\<lambda>_.
      at_stage ''fsmount'' (fsmount E fs_fd FSMOUNT_CLOEXEC
        (fsmount_attr_flags o' OR (if force_ro then ucast MOUNT_ATTR_RDONLY else 0)))))))))))"

definition attach_new_mount ::
  "('w, 'sd) sys_env \<Rightarrow> (rust_str \<Rightarrow> rust_str + 'sd) \<Rightarrow> ('sd \<Rightarrow> bool) \<Rightarrow> mount_request \<Rightarrow> int \<Rightarrow> bytes
    \<Rightarrow> ('w, 'sd, unit) flow_op" where
  "attach_new_mount E sddl has_owner req detached target =
     op_bind (apply_set_before_attach E sddl has_owner detached (policy (rq_options req)) (synth_sddl req)) (\<lambda>_.
     op_bind (enter_ns E req) (\<lambda>_.
     op_bind (lift_result (cstr target)) (\<lambda>tgt.
     case subdir (rq_options req) of
       Some dir \<Rightarrow>
         op_bind (lift_result (cstr (case strip_prefix (ascii ''/'') dir of Some r \<Rightarrow> r | None \<Rightarrow> dir))) (\<lambda>rel.
         with_fd E (at_stage ''open_tree(subdir)''
             (open_tree E detached rel (OPEN_TREE_CLONE OR OPEN_TREE_CLOEXEC))) (\<lambda>clone.
         at_stage ''move_mount'' (move_mount_attach E clone tgt (move_mount_flags req))))
     | None \<Rightarrow> at_stage ''move_mount'' (move_mount_attach E detached tgt (move_mount_flags req)))))"

definition attempt ::
  "('w, 'sd) sys_env \<Rightarrow> (rust_str \<Rightarrow> rust_str + 'sd) \<Rightarrow> ('sd \<Rightarrow> bool) \<Rightarrow> mount_request \<Rightarrow> bytes \<Rightarrow> bytes
    \<Rightarrow> bytes \<Rightarrow> bool \<Rightarrow> ('w, 'sd, unit) flow_op" where
  "attempt E sddl has_owner req device fstype target force_ro =
     with_fd E (build_new_fsmount E req device fstype force_ro) (\<lambda>detached.
       attach_new_mount E sddl has_owner req detached target)"

definition mount_attempts ::
  "('w, 'sd) sys_env \<Rightarrow> (rust_str \<Rightarrow> rust_str + 'sd) \<Rightarrow> ('sd \<Rightarrow> bool) \<Rightarrow> mount_request \<Rightarrow> bytes \<Rightarrow> bytes
    \<Rightarrow> bytes \<Rightarrow> ('w, 'sd, unit) flow_op" where
  "mount_attempts E sddl has_owner req device fstype target =
     op_catch (attempt E sddl has_owner req device fstype target False) (\<lambda>e.
       case e of
         Failed err \<Rightarrow>
           if should_retry_ro (rq_options req) err
           then attempt E sddl has_owner req device fstype target True
           else op_fail e
       | Panicked \<Rightarrow> op_fail e)"

definition choose_fstype ::
  "('w, 'sd) sys_env \<Rightarrow> mount_request \<Rightarrow> bytes \<Rightarrow> 'w \<Rightarrow> mount_error + bytes" where
  "choose_fstype E req resolved w =
     (case rq_fstype req of
        Some t \<Rightarrow> Inr t
      | None \<Rightarrow>
          if resolved = ascii ''none'' \<or> strip_prefix (ascii ''/'') resolved = None then
            Inl (Usage (lit ''a filesystem type is required (-t) for the source '' @ [39]
              @ from_utf8_lossy resolved @ [39] @ lit '' (it cannot be probed)''))
          else probe_type E resolved (auto_fstypes (rq_options req)) w)"

definition exec_new ::
  "('w, 'sd) sys_env \<Rightarrow> (io_error \<Rightarrow> rust_str) \<Rightarrow> (rust_str \<Rightarrow> rust_str + 'sd) \<Rightarrow> ('sd \<Rightarrow> bool)
    \<Rightarrow> mount_request \<Rightarrow> bytes \<Rightarrow> ('w, 'sd, unit) flow_op" where
  "exec_new E show_err sddl has_owner req target =
     op_bind (op_gets world) (\<lambda>w.
     op_bind (lift_result (ok_or (Usage (lit ''a source is required for a new mount'')) (rq_source req))) (\<lambda>raw_source.
     op_bind (lift_result (resolve_source E raw_source w)) (\<lambda>resolved.
     op_bind (lift_result (choose_fstype E req resolved w)) (\<lambda>fstype.
     op_bind (lift_result (reject_swap fstype)) (\<lambda>_.
     with_guard E (maybe_setup E show_err (fake req) resolved (rq_options req)) (\<lambda>guard.
       let device = (case guard of Some l \<Rightarrow> lg_device l | None \<Rightarrow> resolved) in
       if fake req then op_return False
       else op_bind (mount_attempts E sddl has_owner req device fstype target) (\<lambda>_. op_return True)))))))"

section \<open>Bind and move\<close>

definition mount_attr_of :: "u64 \<Rightarrow> u64 \<Rightarrow> u64 \<Rightarrow> mount_attr" where
  "mount_attr_of a_set a_clr prop = \<lparr>ma_set = a_set, ma_clr = a_clr, ma_propagation = prop, ma_userns_fd = 0\<rparr>"

definition exec_bind ::
  "('w, 'sd) sys_env \<Rightarrow> mount_request \<Rightarrow> bytes \<Rightarrow> bool \<Rightarrow> ('w, 'sd, unit) flow_op" where
  "exec_bind E req target recursive =
     (let o' = rq_options req in
      if touches_superblock o' then
        fail_with (Usage (lit ''superblock options (fs params / sync / ro=fs / '' @ [0x2026]
          @ lit '') are not valid on a bind; only per-mount VFS attrs are''))
      else
        op_bind (lift_result (ok_or (Usage (lit ''a source is required for a bind'')) (rq_source req))) (\<lambda>source.
        op_bind (canonicalize E source (no_canonicalize_source req) None) (\<lambda>source.
        if fake req then op_return ()
        else
          op_bind (lift_result (cstr source)) (\<lambda>src.
          let flags = OPEN_TREE_CLONE OR OPEN_TREE_CLOEXEC OR (if recursive then AT_RECURSIVE else 0) in
          with_fd E (at_stage ''open_tree'' (open_tree E AT_FDCWD src flags)) (\<lambda>clone.
          op_bind (if attr_set o' \<noteq> 0 \<or> attr_clr o' \<noteq> 0 then
              at_stage ''mount_setattr'' (mount_setattr E clone []
                (AT_EMPTY_PATH OR (if recursive_attr o' then AT_RECURSIVE else 0))
                (mount_attr_of (attr_set o') (attr_clr o') 0))
            else op_return ()) (\<lambda>_.
          op_bind (enter_ns E req) (\<lambda>_.
          op_bind (lift_result (cstr target)) (\<lambda>tgt.
          at_stage ''move_mount'' (move_mount_attach E clone tgt (move_mount_flags req))))))))))"

definition exec_move ::
  "('w, 'sd) sys_env \<Rightarrow> mount_request \<Rightarrow> bytes \<Rightarrow> u32 \<Rightarrow> ('w, 'sd, unit) flow_op" where
  "exec_move E req target flags =
     op_bind (lift_result (ok_or (Usage (lit ''a source mount is required for move'')) (rq_source req))) (\<lambda>source.
     op_bind (canonicalize E source (no_canonicalize_source req) None) (\<lambda>source.
     if fake req then op_return ()
     else
       op_bind (enter_ns E req) (\<lambda>_.
       op_bind (lift_result (cstr source)) (\<lambda>src.
       op_bind (lift_result (cstr target)) (\<lambda>tgt.
       at_stage ''move_mount'' (move_mount_path E src tgt flags))))))"

section \<open>Remount\<close>

definition shares_superblock :: "('w, 'sd) sys_env \<Rightarrow> bytes \<Rightarrow> ('w, 'sd, bool) flow_op" where
  "shares_superblock E target s =
     (case mountinfo_read (se_mountinfo E 0 (world s)) (se_mountinfo E 1 (world s)) of
        None \<Rightarrow> (Inl Panicked, s)
      | Some (Inl _) \<Rightarrow> (Inr False, s)
      | Some (Inr entries) \<Rightarrow>
          (Inr (case at_mountpoint entries target of Some e \<Rightarrow> is_bind e | None \<Rightarrow> False), s))"

definition reconfigure :: "('w, 'sd) sys_env \<Rightarrow> parsed_options \<Rightarrow> bytes \<Rightarrow> ('w, 'sd, unit) flow_op" where
  "reconfigure E o' target =
     op_bind (lift_result (cstr target)) (\<lambda>tgt.
     with_fd E (at_stage ''fspick'' (fspick E AT_FDCWD tgt FSPICK_CLOEXEC)) (\<lambda>fs_fd.
     op_bind (set_sb_flags E fs_fd (sb_flags o')) (\<lambda>_.
     op_bind (case sb_rdonly o' of
        Some ro \<Rightarrow> set_flag E fs_fd (if ro then ascii ''ro'' else ascii ''rw'')
      | None \<Rightarrow> op_return ()) (\<lambda>_.
     op_bind (set_params E fs_fd (fs_params o')) (\<lambda>_.
     with_log E ''fsconfig(reconfigure)'' fs_fd (fsconfig_cmd E fs_fd CMD_RECONFIGURE))))))"

definition exec_remount :: "('w, 'sd) sys_env \<Rightarrow> mount_request \<Rightarrow> bytes \<Rightarrow> ('w, 'sd, unit) flow_op" where
  "exec_remount E req target =
     (let o' = rq_options req in
      op_bind (enter_ns E req) (\<lambda>_.
      op_bind (if touches_superblock o' then shares_superblock E target else op_return False) (\<lambda>shared.
      if shared then
        fail_with (Usage (lit ''superblock-level options are not valid when remounting a bind or subvolume ''
          @ lit ''(a shared superblock) '' @ [0x2014] @ lit '' they would affect every mount of that filesystem; ''
          @ lit ''only per-mount VFS attributes (ro/nosuid/'' @ [0x2026] @ lit '' or =recursive) are allowed here''))
      else if fake req then op_return ()
      else
        op_bind (if attr_set o' \<noteq> 0 \<or> attr_clr o' \<noteq> 0 then
            op_bind (lift_result (cstr target)) (\<lambda>tgt.
            at_stage ''mount_setattr'' (mount_setattr E AT_FDCWD tgt
              (if recursive_attr o' then AT_RECURSIVE else 0)
              (mount_attr_of (attr_set o') (attr_clr o') 0)))
          else op_return ()) (\<lambda>_.
        if touches_superblock o' then reconfigure E o' target else op_return ()))))"

section \<open>Propagation\<close>

fun prop_flag :: "prop_kind \<Rightarrow> u64" where
  "prop_flag Shared = MS_SHARED"
| "prop_flag Slave = MS_SLAVE"
| "prop_flag Private = MS_PRIVATE"
| "prop_flag Unbindable = MS_UNBINDABLE"

definition apply_propagation ::
  "('w, 'sd) sys_env \<Rightarrow> bool \<Rightarrow> bytes \<Rightarrow> prop_change list \<Rightarrow> ('w, 'sd, unit) flow_op" where
  "apply_propagation E dry target = op_for (\<lambda>ch.
     if dry then op_return ()
     else
       op_bind (lift_result (cstr target)) (\<lambda>tgt.
       at_stage ''mount_setattr(propagation)'' (mount_setattr E AT_FDCWD tgt
         (if pc_recursive ch then AT_RECURSIVE else 0) (mount_attr_of 0 0 (prop_flag (pc_kind ch))))))"

section \<open>Execution\<close>

definition execute ::
  "('w, 'sd) sys_env \<Rightarrow> (io_error \<Rightarrow> rust_str) \<Rightarrow> (rust_str \<Rightarrow> rust_str + 'sd) \<Rightarrow> ('sd \<Rightarrow> bool)
    \<Rightarrow> mount_request \<Rightarrow> ('w, 'sd, unit) flow_op" where
  "execute E show_err sddl has_owner req =
     op_bind (canonicalize E (rq_target req) (no_canonicalize_target req) (rq_mkdir req)) (\<lambda>target.
     op_bind (case rq_verb req of
        New \<Rightarrow> exec_new E show_err sddl has_owner req target
      | Bind recursive \<Rightarrow> exec_bind E req target recursive
      | Move \<Rightarrow> exec_move E req target 0
      | Beneath \<Rightarrow> exec_move E req target MOVE_MOUNT_BENEATH
      | Remount \<Rightarrow> exec_remount E req target) (\<lambda>_.
     apply_propagation E (fake req) target (rq_propagation req)))"

section \<open>Triples of the helpers\<close>

lemma triple_with_log:
  assumes "triple step P f (\<lambda>r m. case r of Inl _ \<Rightarrow> (\<forall>e. Q (Inl e) m) | Inr x \<Rightarrow> Q (Inr x) m)"
  shows "triple step P (with_log E stage fd f) Q"
proof (rule tripleI)
  fix s r t m
  assume run: "with_log E stage fd f s = (r, t)" and "P m"
  obtain r1 t1 where f: "f s = (r1, t1)" by fastforce
  from tripleD [OF assms f \<open>P m\<close>] run f
  show "\<exists>tr m'. trace t = trace s @ tr \<and> run_monitor step m tr = Some m' \<and> Q r m'"
    by (cases r1) (auto simp: with_log_def Let_def)
qed

lemma triple_if:
  "(b \<Longrightarrow> triple step P f Q) \<Longrightarrow> (\<not> b \<Longrightarrow> triple step P g Q) \<Longrightarrow> triple step P (if b then f else g) Q"
  by simp

text \<open>An operation keeps an invariant of the monitor when it holds again whatever the result.\<close>

definition keeps :: "('m \<Rightarrow> 'sd event \<Rightarrow> 'm option) \<Rightarrow> ('m \<Rightarrow> bool) \<Rightarrow> (('w, 'sd) sys_state, 'e, 'a) op \<Rightarrow> bool" where
  "keeps step I f \<longleftrightarrow> triple step I f (\<lambda>_. I)"

lemma keeps_return [intro!]: "keeps step I (op_return x)"
  and keeps_fail [intro!]: "keeps step I (op_fail e)"
  and keeps_lift [intro!]: "keeps step I (op_lift r)"
  and keeps_gets [intro!]: "keeps step I (op_gets f)"
  and keeps_fail_with [intro!]: "keeps step I (fail_with err)"
  and keeps_lift_result [intro!]: "keeps step I (lift_result r')"
  by (auto simp: keeps_def intro!: triple_return triple_fail triple_lift triple_gets triple_fail_with
      triple_lift_result)

lemma keeps_bind [intro]: "keeps step I f \<Longrightarrow> (\<And>x. keeps step I (g x)) \<Longrightarrow> keeps step I (op_bind f g)"
  unfolding keeps_def by (rule triple_bind)

lemma keeps_catch [intro]: "keeps step I f \<Longrightarrow> (\<And>e. keeps step I (h e)) \<Longrightarrow> keeps step I (op_catch f h)"
  unfolding keeps_def by (rule triple_catch)

lemma keeps_map_err [intro]: "keeps step I f \<Longrightarrow> keeps step I (op_map_err h f)"
  unfolding keeps_def by (rule triple_map_err)

lemma keeps_ignore [intro]: "keeps step I f \<Longrightarrow> keeps step I (op_ignore f)"
  unfolding keeps_def by (rule triple_ignore)

lemma keeps_check [intro]: "keeps step I f \<Longrightarrow> keeps step I (check f)"
  unfolding keeps_def by (rule triple_check)

lemma keeps_stage [intro]: "keeps step I f \<Longrightarrow> keeps step I (at_stage stage f)"
  unfolding keeps_def by (rule triple_stage)

lemma keeps_with_log [intro]: "keeps step I f \<Longrightarrow> keeps step I (with_log E stage fd f)"
  unfolding keeps_def by (rule triple_with_log) (auto elim: triple_conseq split: sum.splits)

lemma keeps_call [intro]:
  "(\<And>r m. I m \<Longrightarrow> \<exists>m'. step m (c, r) = Some m' \<and> I m') \<Longrightarrow> keeps step I (sys_call E c)"
  unfolding keeps_def by (rule triple_call)

lemma keeps_for [intro]: "(\<And>x. keeps step I (f x)) \<Longrightarrow> keeps step I (op_for f xs)"
  by (induction xs) auto

lemma keeps_if [intro!]: "keeps step I f \<Longrightarrow> keeps step I g \<Longrightarrow> keeps step I (if b then f else g)"
  by simp

lemma keeps_option [intro!]:
  "keeps step I f \<Longrightarrow> (\<And>x. keeps step I (g x)) \<Longrightarrow> keeps step I (case v of None \<Rightarrow> f | Some x \<Rightarrow> g x)"
  by (cases v) auto

lemmas wrapper_defs = fsopen_def fsconfig_set_string_def fsconfig_set_flag_def fsconfig_cmd_def
  fsmount_def move_mount_attach_def move_mount_path_def move_mount_raw_def open_tree_def fspick_def
  mount_setattr_def

section \<open>Descriptors\<close>

text \<open>
  The descriptors that are open, as a multiset. A call may name an open descriptor or the current
  directory; one that returns a descriptor opens it; a close needs it to be open.
\<close>

fun opens :: "'sd syscall \<Rightarrow> bool" where
  "opens (SysFsopen _ _) = True"
| "opens (SysFsmount _ _ _) = True"
| "opens (SysOpenTree _ _ _) = True"
| "opens (SysFspick _ _ _) = True"
| "opens (SysDup _) = True"
| "opens (SysOpen _ _) = True"
| "opens _ = False"

fun uses :: "'sd syscall \<Rightarrow> int list" where
  "uses (SysFsconfig fd _ _ _) = [fd]"
| "uses (SysFsmount fd _ _) = [fd]"
| "uses (SysMoveMount from _ to _ _) = [from, to]"
| "uses (SysOpenTree fd _ _) = [fd]"
| "uses (SysFspick fd _ _) = [fd]"
| "uses (SysMountSetattr fd _ _ _) = [fd]"
| "uses (SysSetPolicy fd _) = [fd]"
| "uses (SysDup fd) = [fd]"
| "uses (SysSetns fd _) = [fd]"
| "uses (SysIoctl fd _ _) = [fd]"
| "uses (SysClose fd) = [fd]"
| "uses _ = []"

fun fd_step :: "int multiset \<Rightarrow> 'sd event \<Rightarrow> int multiset option" where
  "fd_step m (c, r) =
     (if (\<exists>fd \<in> set (uses c). fd \<noteq> AT_FDCWD \<and> fd \<notin># m) then None
      else case c of
        SysClose fd \<Rightarrow> if fd \<in># m then Some (m - {#fd#}) else None
      | _ \<Rightarrow> (case r of Inr fd \<Rightarrow> Some (if opens c then add_mset fd m else m) | Inl _ \<Rightarrow> Some m))"

definition balanced :: "int multiset \<Rightarrow> (('w, 'sd) sys_state, 'e, 'a) op \<Rightarrow> bool" where
  "balanced M f \<longleftrightarrow> keeps fd_step (\<lambda>m. m = M) f"

definition acquires :: "int multiset \<Rightarrow> (('w, 'sd) sys_state, 'e, int) op \<Rightarrow> bool" where
  "acquires M f \<longleftrightarrow> triple fd_step (\<lambda>m. m = M) f
     (\<lambda>r m. case r of Inl _ \<Rightarrow> m = M | Inr fd \<Rightarrow> m = add_mset fd M)"

lemma acquires_call:
  "opens c \<Longrightarrow> \<forall>fd \<in> set (uses c). fd = AT_FDCWD \<or> fd \<in># M \<Longrightarrow> acquires M (sys_call E c)"
  unfolding acquires_def by (rule triple_call, cases c) (auto split: sum.splits)

lemma balanced_call:
  "\<not> opens c \<Longrightarrow> (\<And>fd. c \<noteq> SysClose fd) \<Longrightarrow> \<forall>fd \<in> set (uses c). fd = AT_FDCWD \<or> fd \<in># M
     \<Longrightarrow> balanced M (sys_call E c)"
  unfolding balanced_def by (rule keeps_call, cases c) (auto split: sum.splits)

lemma acquires_map_err: "acquires M f \<Longrightarrow> acquires M (op_map_err h f)"
  unfolding acquires_def
  by (rule triple_map_err, erule triple_conseq) (auto simp: map_err_def split: sum.splits)

lemma acquires_stage: "acquires M f \<Longrightarrow> acquires M (at_stage stage f)"
  unfolding at_stage_def by (rule acquires_map_err)

lemma balanced_with_fd:
  assumes "acquires M f" and "\<And>fd. balanced (add_mset fd M) (body fd)"
  shows "balanced M (with_fd E f body)"
  unfolding balanced_def keeps_def
  by (rule triple_with_fd [OF assms(1) [unfolded acquires_def], where S = "\<lambda>fd _ m. m = add_mset fd M"])
    (use assms(2) in \<open>auto simp: balanced_def keeps_def\<close>)

lemma acquires_with_fd:
  assumes "acquires M f" and "\<And>fd. acquires (add_mset fd M) (body fd)"
  shows "acquires M (with_fd E f body)"
  unfolding acquires_def
  by (rule triple_with_fd [OF assms(1) [unfolded acquires_def],
        where S = "\<lambda>fd r m. case r of Inl _ \<Rightarrow> m = add_mset fd M | Inr x \<Rightarrow> m = add_mset x (add_mset fd M)"])
    (use assms(2) in \<open>auto simp: acquires_def split: sum.splits\<close>)

lemma acquires_bind:
  assumes "balanced M f" and "\<And>x. acquires M (g x)"
  shows "acquires M (op_bind f g)"
  unfolding acquires_def
  by (rule triple_bind [OF assms(1) [unfolded balanced_def keeps_def]])
    (use assms(2) in \<open>auto simp: acquires_def\<close>)


lemma balanced_bind: "balanced M f \<Longrightarrow> (\<And>x. balanced M (g x)) \<Longrightarrow> balanced M (op_bind f g)"
  unfolding balanced_def by (rule keeps_bind)

lemma balanced_ns_enter: "balanced M (ns_enter E ns)"
  unfolding ns_enter_def
  by (intro balanced_with_fd acquires_stage acquires_call)
    (auto simp: balanced_def intro!: keeps_stage keeps_check balanced_call [unfolded balanced_def])

lemma balanced_enter_ns: "balanced M (enter_ns E req)"
  using balanced_ns_enter by (auto simp: enter_ns_def balanced_def split: option.splits)

lemma balanced_set_string: "fd \<in># M \<Longrightarrow> balanced M (set_string E fd k v)"
  unfolding set_string_def wrapper_defs balanced_def
  by (intro keeps_bind keeps_with_log keeps_check keeps_lift_result balanced_call [unfolded balanced_def]) auto

lemma balanced_set_flag: "fd \<in># M \<Longrightarrow> balanced M (set_flag E fd k)"
  unfolding set_flag_def wrapper_defs balanced_def
  by (intro keeps_bind keeps_with_log keeps_check keeps_lift_result balanced_call [unfolded balanced_def]) auto

lemma balanced_params: "fd \<in># M \<Longrightarrow> balanced M (set_params E fd ps)"
  "fd \<in># M \<Longrightarrow> balanced M (set_sb_flags E fd fs)"
  using balanced_set_string balanced_set_flag
  by (auto simp: set_params_def set_sb_flags_def balanced_def intro!: keeps_for split: option.splits)

lemma balanced_basic:
  "balanced M (op_return x)" "balanced M (lift_result r)" "balanced M (fail_with e)"
  by (auto simp: balanced_def)

lemma balanced_if: "balanced M f \<Longrightarrow> balanced M g \<Longrightarrow> balanced M (if b then f else g)"
  by simp

lemma balanced_fs_cmd: "fd \<in># M \<Longrightarrow> balanced M (with_log E stage fd (fsconfig_cmd E fd cmd))"
  unfolding wrapper_defs balanced_def
  by (intro keeps_with_log keeps_check balanced_call [unfolded balanced_def]) auto

lemma acquires_build: "acquires M (build_new_fsmount E req device fstype ro)"
  unfolding build_new_fsmount_def Let_def fsopen_def fsmount_def
  by (intro acquires_bind acquires_with_fd acquires_stage acquires_call balanced_if balanced_basic
      balanced_set_string balanced_set_flag balanced_params balanced_fs_cmd) auto

lemma balanced_move_attach: "fd \<in># M \<Longrightarrow> balanced M (at_stage stage (move_mount_attach E fd tgt fl))"
  unfolding wrapper_defs balanced_def
  by (intro keeps_stage keeps_check balanced_call [unfolded balanced_def]) auto

lemma balanced_policy: "fd \<in># M \<Longrightarrow> balanced M (apply_set_before_attach E sddl has_owner fd pol t)"
proof (cases pol)
  case (Some kind)
  assume "fd \<in># M"
  moreover have "balanced (add_mset f M) (op_map_err (\<lambda>e. Failed (translate e))
      (check (sys_call E (SysSetPolicy f p))))" for f p
    unfolding balanced_def by (intro keeps_map_err keeps_check balanced_call [unfolded balanced_def]) auto
  ultimately show ?thesis
    unfolding apply_set_before_attach_def Some option.case
    by (intro balanced_bind balanced_basic balanced_with_fd acquires_stage acquires_call) auto
qed (simp add: apply_set_before_attach_def balanced_basic)

lemma balanced_attach: "fd \<in># M \<Longrightarrow> balanced M (attach_new_mount E sddl has_owner req fd target)"
proof -
  assume fd: "fd \<in># M"
  show ?thesis
  proof (cases "subdir (rq_options req)")
    case None
    with fd show ?thesis
      unfolding attach_new_mount_def None option.case
      by (intro balanced_bind balanced_policy balanced_enter_ns balanced_basic balanced_move_attach)
  next
    case (Some dir)
    with fd show ?thesis
      unfolding attach_new_mount_def Some option.case open_tree_def
      by (intro balanced_bind balanced_policy balanced_enter_ns balanced_basic balanced_with_fd
          acquires_stage acquires_call balanced_move_attach) auto
  qed
qed

lemma balanced_attempt: "balanced M (attempt E sddl has_owner req device fstype target ro)"
  unfolding attempt_def by (intro balanced_with_fd acquires_build balanced_attach) simp

lemma balanced_catch: "balanced M f \<Longrightarrow> (\<And>e. balanced M (h e)) \<Longrightarrow> balanced M (op_catch f h)"
  unfolding balanced_def by (rule keeps_catch)

lemma balanced_attempts: "balanced M (mount_attempts E sddl has_owner req device fstype target)"
  unfolding mount_attempts_def
  by (intro balanced_catch balanced_attempt) (auto simp: balanced_attempt balanced_def split: failure.splits
      intro: balanced_attempt [unfolded balanced_def])

text \<open>The descriptor a loop guard owns.\<close>

definition guard_fds :: "loop_guard option \<Rightarrow> int multiset" where
  "guard_fds g = (case g of None \<Rightarrow> {#} | Some l \<Rightarrow> (case lg_handle l of None \<Rightarrow> {#} | Some h \<Rightarrow> {#h#}))"

definition yields :: "int multiset \<Rightarrow> ('w, 'sd, loop_guard option) flow_op \<Rightarrow> bool" where
  "yields M f \<longleftrightarrow> triple fd_step (\<lambda>m. m = M) f
     (\<lambda>r m. case r of Inl _ \<Rightarrow> m = M | Inr g \<Rightarrow> m = guard_fds g + M)"

lemma triple_with_fd_moved:
  assumes "triple step P f R" and "\<And>fd. triple step (R (Inr fd)) (body fd) (S fd)"
    and "\<And>e m. R (Inl e) m \<Longrightarrow> Q (Inl e) m" and "\<And>fd x m. S fd (Inr x) m \<Longrightarrow> Q (Inr x) m"
    and "\<And>fd e r' m. S fd (Inl e) m \<Longrightarrow> \<exists>m'. step m (SysClose fd, r') = Some m' \<and> Q (Inl e) m'"
  shows "triple step P (with_fd_moved E f body) Q"
proof -
  have "with_fd_moved E f body = op_bind f (\<lambda>fd. op_catch (body fd) (\<lambda>e.
      op_bind (op_ignore (sys_call E (SysClose fd))) (\<lambda>_. op_fail e)))"
    by (rule ext) (auto simp: with_fd_moved_def op_bind_def op_catch_def op_ignore_def split: prod.splits sum.splits)
  moreover have "triple step (R (Inr fd)) (op_catch (body fd) (\<lambda>e.
      op_bind (op_ignore (sys_call E (SysClose fd))) (\<lambda>_. op_fail e))) Q" for fd
  proof (rule triple_catch [OF assms(2)])
    fix e
    show "triple step (S fd (Inl e)) (op_bind (op_ignore (sys_call E (SysClose fd))) (\<lambda>_. op_fail e)) Q"
      by (rule triple_bind [where R = "\<lambda>r m. Q (Inl e) m \<and> r = Inr ()"])
        (auto intro!: triple_ignore triple_call triple_fail assms(5))
  qed (use assms(4) in blast)
  ultimately show ?thesis
    using assms(3) by (auto intro: triple_bind [OF assms(1)])
qed

lemma yields_return: "guard_fds g = {#} \<Longrightarrow> yields M (op_return g)"
  unfolding yields_def by (rule triple_return) simp

lemma yields_fail: "yields M (fail_with e)" "yields M (op_fail e')"
  unfolding yields_def by (auto intro!: triple_fail_with triple_fail)

lemma yields_bind: "balanced M f \<Longrightarrow> (\<And>x. yields M (g x)) \<Longrightarrow> yields M (op_bind f g)"
  unfolding yields_def balanced_def keeps_def by (erule triple_bind) auto

lemma yields_catch: "yields M f \<Longrightarrow> (\<And>e. yields M (h e)) \<Longrightarrow> yields M (op_catch f h)"
  unfolding yields_def by (erule triple_catch) auto

lemma yields_with_fd:
  assumes "acquires M f" and "\<And>fd. yields (add_mset fd M) (body fd)"
  shows "yields M (with_fd E f body)"
  unfolding yields_def
  by (rule triple_with_fd [OF assms(1) [unfolded acquires_def], where S = "\<lambda>fd r m.
        case r of Inl _ \<Rightarrow> m = add_mset fd M | Inr g \<Rightarrow> m = guard_fds g + add_mset fd M"])
    (use assms(2) in \<open>auto simp: yields_def split: sum.splits\<close>)

lemma acquires_catch: "acquires M f \<Longrightarrow> (\<And>e. acquires M (h e)) \<Longrightarrow> acquires M (op_catch f h)"
  unfolding acquires_def by (erule triple_catch) auto

lemma balanced_ioctl: "fd \<in># M \<Longrightarrow> balanced M (sys_call E (SysIoctl fd req arg))"
  by (rule balanced_call) auto

lemma balanced_configure: "fd \<in># M \<Longrightarrow> balanced M (configure_loop E fd backing info)"
  unfolding configure_loop_def attach_legacy_def
  by (intro balanced_catch balanced_if balanced_bind balanced_basic balanced_ioctl [unfolded balanced_def, THEN keeps_check, folded balanced_def]
      balanced_ioctl [unfolded balanced_def, THEN keeps_stage, folded balanced_def]
      balanced_ioctl [unfolded balanced_def, THEN keeps_ignore, folded balanced_def])

lemma yields_attach: "yields M (attach E device source off lim)"
proof -
  have "yields M (with_fd_moved E (at_stage ''open loop device'' (sys_call E (SysOpen device True))) (\<lambda>loopdev.
     op_bind (configure_loop E loopdev backing info) (\<lambda>_.
     op_return (Some \<lparr>lg_device = device, lg_handle = Some loopdev, lg_armed = True\<rparr>))))"
    for M :: "int multiset" and backing info
    unfolding yields_def
  proof (rule triple_with_fd_moved)
    show "triple fd_step (\<lambda>m. m = M) (at_stage ''open loop device'' (sys_call E (SysOpen device True)))
       (\<lambda>r m. case r of Inl _ \<Rightarrow> m = M | Inr fd \<Rightarrow> m = add_mset fd M)"
      using acquires_stage [OF acquires_call, of "SysOpen device True" M] by (simp add: acquires_def)
    show "triple fd_step (\<lambda>m. case Inr fd of Inl _ \<Rightarrow> m = M | Inr fd \<Rightarrow> m = add_mset fd M)
       (op_bind (configure_loop E fd backing info) (\<lambda>_.
         op_return (Some \<lparr>lg_device = device, lg_handle = Some fd, lg_armed = True\<rparr>)))
       (\<lambda>r m. m = add_mset fd M \<and> (case r of Inl _ \<Rightarrow> True | Inr g \<Rightarrow> guard_fds g = {#fd#}))" for fd
    proof (rule triple_bind)
      show "triple fd_step (\<lambda>m. case Inr fd of Inl _ \<Rightarrow> m = M | Inr fd \<Rightarrow> m = add_mset fd M)
          (configure_loop E fd backing info) (\<lambda>_ m. m = add_mset fd M)"
        using balanced_configure [of fd "add_mset fd M" E backing info]
        by (simp add: balanced_def keeps_def)
    qed (auto simp: guard_fds_def intro: triple_return)
  qed auto
  then show ?thesis
    unfolding attach_def open_backing_def
    by (intro yields_with_fd acquires_stage acquires_catch acquires_call yields_bind)
      (auto simp: balanced_def)
qed

lemma yields_attach_auto: "yields M (attach_auto E show_err source off lim)"
proof -
  have "yields M (attach_auto_loop E c source off lim k last)" if "c \<in># M" for c M k last
    using that
  proof (induction k arbitrary: last)
    case (Suc k)
    have "balanced M (at_stage ''LOOP_CTL_GET_FREE'' (sys_call E (SysIoctl c LOOP_CTL_GET_FREE [])))"
      using balanced_ioctl [OF Suc.prems] by (auto simp: balanced_def)
    with Suc show ?case
      by (auto intro!: yields_bind yields_catch yields_attach yields_fail split: failure.splits mount_error.splits)
  qed (simp add: yields_fail)
  then show ?thesis
    unfolding attach_auto_def
    by (intro yields_with_fd acquires_map_err acquires_call) auto
qed

lemma yields_maybe_setup: "yields M (maybe_setup E show_err dry source opts)"
  unfolding maybe_setup_def Let_def
  by (auto intro!: yields_bind yields_return yields_fail yields_attach yields_attach_auto
      simp: guard_fds_def balanced_def split: option.splits loop_request.splits)

lemma drop_guard_triple:
  "triple fd_step (\<lambda>m. m = guard_fds g + M) (drop_guard E d g) (\<lambda>_ m. m = M)"
proof (cases "Option.bind g lg_handle")
  case None
  then have "drop_guard E d g = op_return ()" "guard_fds g = {#}"
    by (cases g; auto simp: drop_guard_def guard_fds_def split: option.splits)+
  then show ?thesis by (auto intro: triple_return)
next
  case (Some h)
  then obtain l where g: "g = Some l" "lg_handle l = Some h" by (cases g) auto
  have "triple fd_step (\<lambda>m. m = add_mset h M) (sys_call E (SysIoctl h LOOP_CLR_FD [])) (\<lambda>_ m. m = add_mset h M)"
    using balanced_ioctl [of h "add_mset h M" E] by (simp add: balanced_def keeps_def)
  then have A: "triple fd_step (\<lambda>m. m = add_mset h M) (if lg_armed l \<and> \<not> d
      then op_ignore (sys_call E (SysIoctl h LOOP_CLR_FD [])) else op_return ())
      (\<lambda>r m. r = Inr () \<and> m = add_mset h M)"
    by (auto intro: triple_return triple_ignore)
  have B: "triple fd_step (\<lambda>m. m = add_mset h M) (op_ignore (sys_call E (SysClose h))) (\<lambda>_ m. m = M)"
    by (intro triple_ignore triple_call) auto
  have "triple fd_step (\<lambda>m. m = add_mset h M) (op_bind (if lg_armed l \<and> \<not> d
      then op_ignore (sys_call E (SysIoctl h LOOP_CLR_FD [])) else op_return ())
      (\<lambda>_. op_ignore (sys_call E (SysClose h)))) (\<lambda>_ m. m = M)"
    by (rule triple_bind [OF A]) (use B in auto)
  then show ?thesis
    by (simp only: g drop_guard_def guard_fds_def option.case add_mset_add_single [symmetric] union_commute [of "{#h#}"])
qed

lemma balanced_with_guard:
  assumes "yields M f" and "\<And>M g. balanced M (body g)"
  shows "balanced M (with_guard E f body)"
  unfolding with_guard_def balanced_def keeps_def
proof (rule triple_bind [OF assms(1) [unfolded yields_def]])
  fix g
  have body: "triple fd_step (\<lambda>m. m = guard_fds g + M) (op_catch (body g)
      (\<lambda>e. op_bind (drop_guard E False g) (\<lambda>_. op_fail e)))
      (\<lambda>r m. case r of Inl _ \<Rightarrow> m = M | Inr _ \<Rightarrow> m = guard_fds g + M)"
  proof (rule triple_catch)
    show "triple fd_step (\<lambda>m. m = guard_fds g + M) (body g) (\<lambda>_ m. m = guard_fds g + M)"
      using assms(2) by (simp add: balanced_def keeps_def)
    show "triple fd_step (\<lambda>m. m = guard_fds g + M) (op_bind (drop_guard E False g) (\<lambda>_. op_fail e))
      (\<lambda>r m. case r of Inl _ \<Rightarrow> m = M | Inr _ \<Rightarrow> m = guard_fds g + M)" for e
      by (rule triple_bind [OF drop_guard_triple]) (auto intro: triple_fail)
  qed simp
  show "triple fd_step (\<lambda>m. case Inr g of Inl _ \<Rightarrow> m = M | Inr g \<Rightarrow> m = guard_fds g + M)
      (op_bind (op_catch (body g) (\<lambda>e. op_bind (drop_guard E False g) (\<lambda>_. op_fail e)))
        (\<lambda>disarmed. drop_guard E disarmed g)) (\<lambda>_ m. m = M)"
    by (simp, rule triple_bind [OF body]) (auto intro: drop_guard_triple)
qed simp

lemma balanced_exec_new: "balanced M (exec_new E show_err sddl has_owner req target)"
  unfolding exec_new_def Let_def
  by (intro balanced_bind balanced_basic balanced_with_guard yields_maybe_setup balanced_if balanced_attempts)
    (auto simp: balanced_def)

lemma balanced_canonicalize: "balanced M (canonicalize E path nc d)"
  unfolding canonicalize_def
  by (intro balanced_bind) (auto simp: balanced_def intro!: keeps_ignore keeps_call split: sum.splits)

lemma balanced_setattr:
  "fd = AT_FDCWD \<or> fd \<in># M \<Longrightarrow> balanced M (at_stage stage (mount_setattr E fd path fl a))"
  unfolding wrapper_defs balanced_def
  by (intro keeps_stage keeps_check balanced_call [unfolded balanced_def]) auto

lemma balanced_move_path: "balanced M (at_stage stage (move_mount_path E src tgt fl))"
  unfolding wrapper_defs balanced_def
  by (intro keeps_stage keeps_check balanced_call [unfolded balanced_def]) auto

lemma balanced_exec_bind: "balanced M (exec_bind E req target recursive)"
  unfolding exec_bind_def Let_def open_tree_def
  by (intro balanced_bind balanced_basic balanced_if balanced_canonicalize balanced_with_fd acquires_stage
      acquires_call balanced_setattr balanced_enter_ns balanced_move_attach) auto

lemma balanced_exec_move: "balanced M (exec_move E req target fl)"
  unfolding exec_move_def
  by (intro balanced_bind balanced_basic balanced_if balanced_canonicalize balanced_enter_ns
      balanced_move_path)

lemma balanced_shares: "balanced M (shares_superblock E target)"
  unfolding balanced_def keeps_def
  by (rule tripleI) (auto simp: shares_superblock_def split: option.splits sum.splits)

lemma balanced_option:
  "balanced M f \<Longrightarrow> (\<And>x. balanced M (g x)) \<Longrightarrow> balanced M (case v of None \<Rightarrow> f | Some x \<Rightarrow> g x)"
  by (cases v) auto

lemma balanced_exec_remount: "balanced M (exec_remount E req target)"
  unfolding exec_remount_def Let_def reconfigure_def fspick_def
  by (intro balanced_bind balanced_basic balanced_if balanced_enter_ns balanced_shares balanced_setattr
      balanced_with_fd acquires_stage acquires_call balanced_params balanced_option balanced_set_flag
      balanced_fs_cmd) auto

lemma balanced_propagation: "balanced M (apply_propagation E dry target chs)"
  unfolding apply_propagation_def balanced_def
  by (intro keeps_for keeps_if keeps_bind keeps_return keeps_lift_result
      balanced_setattr [unfolded balanced_def]) simp

lemma balanced_execute: "balanced M (execute E show_err sddl has_owner req)"
  unfolding execute_def
  by (intro balanced_bind balanced_canonicalize balanced_propagation)
    (auto intro: balanced_exec_new balanced_exec_bind balanced_exec_move balanced_exec_remount
      split: verb.splits)

text \<open>C27. No descriptor is leaked or misused: whatever the kernel answers, every call of an execution
  names the current directory or a descriptor that is open at that point, every close closes an
  open descriptor, and when the execution ends, on success or on any error, exactly the
  descriptors open before it are open.\<close>

theorem execute_descriptors:
  "case execute E show_err sddl has_owner req s of
     (r, t) \<Rightarrow> \<exists>calls. trace t = trace s @ calls \<and> run_monitor fd_step M calls = Some M"
  using tripleD [OF balanced_execute [of M E show_err sddl has_owner req, unfolded balanced_def keeps_def]]
  by (cases "execute E show_err sddl has_owner req s") auto

section \<open>Which calls an operation makes\<close>

definition makes :: "('sd syscall \<Rightarrow> bool) \<Rightarrow> (('w, 'sd) sys_state, 'e, 'a) op \<Rightarrow> bool" where
  "makes C f \<longleftrightarrow> keeps (\<lambda>_ e. if C (fst e) then Some () else None) (\<lambda>_. True) f"

lemma run_allow: "run_monitor (\<lambda>_ e. if C (fst e) then Some () else None) m tr = Some m'
    \<longleftrightarrow> (\<forall>e \<in> set tr. C (fst e))"
  by (induction tr arbitrary: m) auto

lemma makes_iff:
  "makes C f \<longleftrightarrow> (\<forall>s r t. f s = (r, t) \<longrightarrow>
     (\<exists>calls. trace t = trace s @ calls \<and> (\<forall>e \<in> set calls. C (fst e))))"
  by (simp add: makes_def keeps_def triple_def run_allow)

lemma makes_mono: "makes C f \<Longrightarrow> (\<And>c. C c \<Longrightarrow> D c) \<Longrightarrow> makes D f"
  unfolding makes_iff by meson

lemma keeps_of_makes:
  assumes "makes C f" and "\<And>c r m. C c \<Longrightarrow> I m \<Longrightarrow> \<exists>m'. step m (c, r) = Some m' \<and> I m'"
  shows "keeps step I f"
  unfolding keeps_def
proof (rule tripleI)
  fix s r t m
  assume "f s = (r, t)" and "I m"
  then obtain tr where tr: "trace t = trace s @ tr" "\<forall>e \<in> set tr. C (fst e)"
    using assms(1) unfolding makes_iff by blast
  from tr(2) \<open>I m\<close> have "\<exists>m'. run_monitor step m tr = Some m' \<and> I m'"
  proof (induction tr arbitrary: m)
    case (Cons e tr)
    then obtain m1 where "step m e = Some m1" "I m1"
      using assms(2) [of "fst e" m "snd e"] by auto
    with Cons show ?case by simp
  qed simp
  with tr(1) show "\<exists>tr m'. trace t = trace s @ tr \<and> run_monitor step m tr = Some m' \<and> I m'" by blast
qed

lemma makes_basic [intro!]:
  "makes C (op_return x)" "makes C (op_fail e)" "makes C (op_lift r)" "makes C (op_gets g)"
  "makes C (fail_with err)" "makes C (lift_result r')"
  by (auto simp: makes_def)

lemma makes_call [intro]: "C c \<Longrightarrow> makes C (sys_call E c)"
  unfolding makes_def by (rule keeps_call) simp

lemma makes_bind [intro]: "makes C f \<Longrightarrow> (\<And>x. makes C (g x)) \<Longrightarrow> makes C (op_bind f g)"
  and makes_catch [intro]: "makes C f \<Longrightarrow> (\<And>e. makes C (h e)) \<Longrightarrow> makes C (op_catch f h)"
  and makes_map_err [intro]: "makes C f \<Longrightarrow> makes C (op_map_err k f)"
  and makes_ignore [intro]: "makes C f \<Longrightarrow> makes C (op_ignore f)"
  and makes_stage [intro]: "makes C i \<Longrightarrow> makes C (at_stage stage i)"
  and makes_with_log [intro]: "makes C i \<Longrightarrow> makes C (with_log E stage fd i)"
  and makes_if [intro!]: "makes C f \<Longrightarrow> makes C f' \<Longrightarrow> makes C (if b then f else f')"
  and makes_option [intro!]: "makes C f \<Longrightarrow> (\<And>x. makes C (g' x)) \<Longrightarrow> makes C (case v of None \<Rightarrow> f | Some x \<Rightarrow> g' x)"
  unfolding makes_def by blast+

lemma makes_check [intro]: "makes C f \<Longrightarrow> makes C (check f)"
  unfolding makes_def by (rule keeps_check)

lemma makes_for [intro]: "(\<And>x. makes C (f x)) \<Longrightarrow> makes C (op_for f xs)"
  unfolding makes_def by (rule keeps_for)

lemma makes_with_fd [intro]:
  assumes "makes C f" and "\<And>fd. makes C (body fd)" and "\<And>fd. C (SysClose fd)"
  shows "makes C (with_fd E f body)"
  unfolding makes_def keeps_def
  by (rule triple_with_fd [where R = "\<lambda>_ _. True" and S = "\<lambda>_ _ _. True"])
    (use assms in \<open>auto simp: makes_def keeps_def\<close>)

lemma makes_with_fd_moved [intro]:
  assumes "makes C f" and "\<And>fd. makes C (body fd)" and "\<And>fd. C (SysClose fd)"
  shows "makes C (with_fd_moved E f body)"
  unfolding makes_def keeps_def
  by (rule triple_with_fd_moved [where R = "\<lambda>_ _. True" and S = "\<lambda>_ _ _. True"])
    (use assms in \<open>auto simp: makes_def keeps_def\<close>)

lemmas makes_intros = makes_basic makes_call makes_bind makes_catch makes_map_err makes_ignore
  makes_stage makes_with_log makes_if makes_option makes_check makes_for makes_with_fd makes_with_fd_moved

text \<open>The calls of each part.\<close>

fun file_call :: "'sd syscall \<Rightarrow> bool" where
  "file_call (SysOpen _ _) = True"
| "file_call (SysIoctl _ _ _) = True"
| "file_call (SysSetns _ _) = True"
| "file_call (SysClose _) = True"
| "file_call _ = False"

fun config_call :: "'sd syscall \<Rightarrow> bool" where
  "config_call (SysFsopen _ _) = True"
| "config_call (SysFsconfig _ _ _ _) = True"
| "config_call (SysFsmount _ _ _) = True"
| "config_call (SysFspick _ _ _) = True"
| "config_call (SysClose _) = True"
| "config_call _ = False"

fun mkdir_call :: "'sd syscall \<Rightarrow> bool" where
  "mkdir_call (SysMkdirAll _) = True"
| "mkdir_call _ = False"

fun setattr_call :: "'sd syscall \<Rightarrow> bool" where
  "setattr_call (SysMountSetattr _ _ _ _) = True"
| "setattr_call _ = False"

fun tree_call :: "'sd syscall \<Rightarrow> bool" where
  "tree_call (SysOpenTree _ _ _) = True"
| "tree_call (SysMoveMount _ _ _ _ _) = True"
| "tree_call (SysMountSetattr _ _ _ _) = True"
| "tree_call c = file_call c"

lemma makes_attach: "makes file_call (attach E device source off lim)"
  unfolding attach_def open_backing_def configure_loop_def attach_legacy_def
  by (intro makes_intros) auto

lemma makes_attach_auto_loop: "makes file_call (attach_auto_loop E c source off lim k prev)"
proof (induction k arbitrary: prev)
  case (Suc k)
  then show ?case
    unfolding attach_auto_loop.simps
    by (intro makes_intros makes_attach) (auto split: failure.splits mount_error.splits)
qed auto

lemma makes_attach_auto: "makes file_call (attach_auto E show_err source off lim)"
  unfolding attach_auto_def by (intro makes_intros makes_attach_auto_loop) auto

lemma makes_maybe_setup: "makes file_call (maybe_setup E show_err dry source opts)"
  unfolding maybe_setup_def Let_def
  by (auto intro!: makes_bind makes_attach makes_attach_auto split: option.splits loop_request.splits)

lemma makes_drop_guard: "makes file_call (drop_guard E d g)"
  unfolding drop_guard_def by (intro makes_intros) auto

lemma makes_ns_enter: "makes file_call (ns_enter E ns)"
  unfolding ns_enter_def by (intro makes_intros) auto

lemma makes_enter_ns: "makes file_call (enter_ns E req)"
  unfolding enter_ns_def by (auto simp: makes_ns_enter split: option.splits)

lemma makes_set: "makes config_call (set_string E fd k v)" "makes config_call (set_flag E fd k)"
  unfolding set_string_def set_flag_def wrapper_defs by (intro makes_intros, auto)+

lemma makes_params: "makes config_call (set_params E fd ps)" "makes config_call (set_sb_flags E fd fs)"
  unfolding set_params_def set_sb_flags_def by (auto simp: makes_set split: option.splits)

lemma makes_build: "makes config_call (build_new_fsmount E req device fstype ro)"
  unfolding build_new_fsmount_def Let_def wrapper_defs
  by (intro makes_intros makes_set makes_params) auto

lemma makes_canonicalize: "makes mkdir_call (canonicalize E path nc d)"
  unfolding canonicalize_def by (intro makes_intros) auto

lemma makes_propagation: "makes setattr_call (apply_propagation E dry target chs)"
  unfolding apply_propagation_def wrapper_defs by (intro makes_intros) auto

section \<open>The policy comes before the attachment\<close>

text \<open>
  The monitor knows which mount each descriptor stands for (a duplicate and a cloned subtree stand
  for the mount they came from) and which mounts had the policy set since they were made. It
  allows a mount to be attached only when its policy was set.
\<close>

fun policy_step :: "policy_kind \<Rightarrow> (int \<Rightarrow> int) \<times> int set \<Rightarrow> 'sd event \<Rightarrow> ((int \<Rightarrow> int) \<times> int set) option" where
  "policy_step k (origin, done') (SysFsmount _ _ _, Inr fd) = Some (origin(fd := fd), done' - {fd})"
| "policy_step k (origin, done') (SysDup fd, Inr d) = Some (origin(d := origin fd), done')"
| "policy_step k (origin, done') (SysOpenTree fd _ _, Inr d) = Some (origin(d := origin fd), done')"
| "policy_step k (origin, done') (SysSetPolicy fd p, Inr _) =
     Some (origin, if mp_kind p = k then insert (origin fd) done' else done')"
| "policy_step k (origin, done') (SysMoveMount from _ _ _ _, _) =
     (if origin from \<in> done' then Some (origin, done') else None)"
| "policy_step k m _ = Some m"

definition detached_at :: "int \<Rightarrow> (int \<Rightarrow> int) \<times> int set \<Rightarrow> bool" where
  "detached_at fd m \<longleftrightarrow> fst m fd = fd"

definition policed :: "int \<Rightarrow> (int \<Rightarrow> int) \<times> int set \<Rightarrow> bool" where
  "policed fd m \<longleftrightarrow> fst m fd = fd \<and> fd \<in> snd m"

lemma policy_step_file: "file_call c \<Longrightarrow> policy_step k m (c, r) = Some m"
  by (cases c; cases m) simp_all

lemma policy_step_quiet: "file_call c \<or> mkdir_call c \<or> setattr_call c \<Longrightarrow> policy_step k m (c, r) = Some m"
  by (cases c; cases m) simp_all

lemma keeps_file: "makes file_call f \<Longrightarrow> keeps (policy_step k) I f"
  by (rule keeps_of_makes [where C = file_call]) (auto simp: policy_step_file)

lemma keeps_true_config: "makes config_call f \<Longrightarrow> keeps (policy_step k) (\<lambda>_. True) f"
proof (rule keeps_of_makes [where C = config_call])
  fix c :: "'a syscall" and r m
  assume "config_call c"
  then show "\<exists>m'. policy_step k m (c, r) = Some m' \<and> True"
    by (cases c; cases m; cases r) simp_all
qed

lemma build_gives_mount:
  "triple (policy_step k) (\<lambda>_. True) (build_new_fsmount E req device fstype ro)
     (\<lambda>r m. case r of Inl _ \<Rightarrow> True | Inr fd \<Rightarrow> detached_at fd m)"
proof -
  have mount: "triple (policy_step k) (\<lambda>_. True) (at_stage ''fsmount'' (fsmount E fd fl attr))
      (\<lambda>r m. case r of Inl _ \<Rightarrow> True | Inr fd \<Rightarrow> detached_at fd m)" for fd fl attr
    unfolding fsmount_def
    by (intro triple_stage triple_call) (auto simp: detached_at_def map_err_def split: sum.splits)
  have q: "triple (policy_step k) (\<lambda>_. True) f (\<lambda>_ _. True)" if "makes config_call f"
    for f :: "('b, 'a, 'c) flow_op"
    using keeps_true_config [OF that] by (simp add: keeps_def)
  have b: "triple (policy_step k) (\<lambda>_. True) (op_bind f g) Q"
    if "makes config_call f" and "\<And>x. triple (policy_step k) (\<lambda>_. True) (g x) Q" and "\<And>e m. Q (Inl e) m"
    for f :: "('b, 'a, 'c) flow_op" and g and Q :: "failure + int \<Rightarrow> _ \<Rightarrow> bool"
    by (rule triple_bind [OF q [OF that(1)]]) (use that in auto)
  have c: "policy_step k m (SysClose fd, r) = Some m" for m fd and r :: "io_error + int"
    by (cases m) simp
  show ?thesis
    unfolding build_new_fsmount_def Let_def
    apply (intro b makes_basic)
     apply (rule triple_with_fd [where R = "\<lambda>_ _. True" and S = "\<lambda>_ r m. case r of Inl _ \<Rightarrow> True | Inr fd \<Rightarrow> detached_at fd m"])
    subgoal unfolding fsopen_def by (rule q) (intro makes_intros, simp)
    subgoal by (intro b mount makes_intros makes_set makes_params) (auto simp: wrapper_defs intro!: makes_intros)
    subgoal by simp
    subgoal by (simp add: c)
    by simp
qed

lemma apply_policy_triple:
  "triple (policy_step k) (detached_at fd) (apply_set_before_attach E sddl has_owner fd (Some k) t)
     (\<lambda>r m. case r of Inl _ \<Rightarrow> True | Inr _ \<Rightarrow> policed fd m)"
proof -
  have c: "policy_step k m (SysClose fd, r) = Some m" for m fd and r :: "io_error + int"
    by (cases m) simp
  have dup: "triple (policy_step k) (detached_at fd) (at_stage ''dup'' (sys_call E (SysDup fd)))
      (\<lambda>r m. case r of Inl _ \<Rightarrow> True | Inr d \<Rightarrow> fst m d = fd \<and> fst m fd = fd)"
  proof (intro triple_stage triple_call)
    fix r m assume "detached_at fd m"
    then show "\<exists>m'. policy_step k m (SysDup fd, r) = Some m' \<and>
        (case map_err (\<lambda>e. Failed (from_syscall (lit ''dup'') e)) r of Inl _ \<Rightarrow> True
          | Inr d \<Rightarrow> fst m' d = fd \<and> fst m' fd = fd)"
      by (cases m; cases r) (auto simp: detached_at_def)
  qed
  have pol: "triple (policy_step k) (\<lambda>m. fst m d = fd \<and> fst m fd = fd)
      (op_map_err (\<lambda>e. Failed (translate e)) (check (sys_call E (SysSetPolicy d
        \<lparr>mp_kind = k, mp_flags = 0, mp_generation = 0, mp_template = tm\<rparr>))))
      (\<lambda>r m. case r of Inl _ \<Rightarrow> True | Inr _ \<Rightarrow> policed fd m)" for d tm
  proof (intro triple_map_err triple_check triple_call)
    fix r and m :: "(int \<Rightarrow> int) \<times> int set"
    assume "fst m d = fd \<and> fst m fd = fd"
    then show "\<exists>m'. policy_step k m (SysSetPolicy d
          \<lparr>mp_kind = k, mp_flags = 0, mp_generation = 0, mp_template = tm\<rparr>, r) = Some m' \<and>
        (case map_err (\<lambda>e. Failed (translate e)) (case r of Inl e \<Rightarrow> Inl e | Inr _ \<Rightarrow> Inr ()) of
           Inl _ \<Rightarrow> True | Inr _ \<Rightarrow> policed fd m')"
      by (cases m; cases r) (auto simp: policed_def)
  qed
  show ?thesis
    unfolding apply_set_before_attach_def option.case
    apply (rule triple_bind [where R = "\<lambda>_. detached_at fd"])
    subgoal by (rule triple_lift_result) simp
    subgoal for tm
      apply (rule triple_with_fd [OF dup, where S = "\<lambda>_ r m. case r of Inl _ \<Rightarrow> True | Inr _ \<Rightarrow> policed fd m"])
      subgoal for d using pol [of d tm] by simp
      by (simp_all add: c)
    by simp
qed


lemma keeps_policed: "makes file_call f \<Longrightarrow> triple (policy_step k) (policed fd) f (\<lambda>_. policed fd)"
  using keeps_file by (simp add: keeps_def)

lemma attach_policed:
  assumes "policy (rq_options req) = Some k"
  shows "triple (policy_step k) (detached_at fd) (attach_new_mount E sddl has_owner req fd target) (\<lambda>_ _. True)"
proof -
  have move: "triple (policy_step k) (\<lambda>m. fst m d = fd \<and> fd \<in> snd m)
      (at_stage ''move_mount'' (move_mount_attach E d tgt fl)) (\<lambda>_ _. True)" for d tgt fl
  proof (unfold wrapper_defs, intro triple_stage triple_check triple_call)
    fix r and m :: "(int \<Rightarrow> int) \<times> int set"
    assume "fst m d = fd \<and> fd \<in> snd m"
    then show "\<exists>m'. policy_step k m (SysMoveMount d [] AT_FDCWD tgt (MOVE_MOUNT_F_EMPTY_PATH OR fl), r)
        = Some m' \<and> True"
      by (cases m; cases r) auto
  qed
  have clone: "triple (policy_step k) (policed fd) (at_stage ''open_tree(subdir)'' (open_tree E fd rel fl))
      (\<lambda>r m. case r of Inl _ \<Rightarrow> True | Inr d \<Rightarrow> fst m d = fd \<and> fd \<in> snd m)" for rel fl
  proof (unfold open_tree_def, intro triple_stage triple_call)
    fix r and m :: "(int \<Rightarrow> int) \<times> int set"
    assume "policed fd m"
    then show "\<exists>m'. policy_step k m (SysOpenTree fd rel fl, r) = Some m' \<and>
        (case map_err (\<lambda>e. Failed (from_syscall (lit ''open_tree(subdir)'') e)) r of
           Inl _ \<Rightarrow> True | Inr d \<Rightarrow> fst m' d = fd \<and> fd \<in> snd m')"
      by (cases m; cases r) (auto simp: policed_def)
  qed
  have c: "policy_step k m (SysClose d, r) = Some m" for m d and r :: "io_error + int"
    by (cases m) simp
  have p: "triple (policy_step k) (policed fd) (op_bind f g) (\<lambda>_ _. True)"
    if "makes file_call f" and "\<And>x. triple (policy_step k) (policed fd) (g x) (\<lambda>_ _. True)" for f g
    by (rule triple_bind [OF keeps_policed [OF that(1)]]) (use that(2) in auto)
  have final: "triple (policy_step k) (policed fd) (case subdir (rq_options req) of
       Some dir \<Rightarrow>
         op_bind (lift_result (cstr (case strip_prefix (ascii ''/'') dir of Some r \<Rightarrow> r | None \<Rightarrow> dir))) (\<lambda>rel.
         with_fd E (at_stage ''open_tree(subdir)''
             (open_tree E fd rel (OPEN_TREE_CLONE OR OPEN_TREE_CLOEXEC))) (\<lambda>clone.
         at_stage ''move_mount'' (move_mount_attach E clone tgt (move_mount_flags req))))
     | None \<Rightarrow> at_stage ''move_mount'' (move_mount_attach E fd tgt (move_mount_flags req))) (\<lambda>_ _. True)"
    for tgt
  proof (cases "subdir (rq_options req)")
    case None
    show ?thesis unfolding None option.case by (rule triple_conseq [OF move]) (auto simp: policed_def)
  next
    case (Some dir)
    show ?thesis
      unfolding Some option.case
      apply (intro p makes_basic)
      apply (rule triple_with_fd [OF clone, where S = "\<lambda>_ _ _. True"])
      using move by (simp_all add: c)
  qed
  show ?thesis
    unfolding attach_new_mount_def assms
    apply (rule triple_bind [OF apply_policy_triple])
    subgoal for u
      using p [OF makes_enter_ns p [OF makes_basic(6) final]] by simp
    by simp
qed

lemma attempt_policed:
  "policy (rq_options req) = Some k \<Longrightarrow>
     triple (policy_step k) (\<lambda>_. True) (attempt E sddl has_owner req device fstype target ro) (\<lambda>_ _. True)"
  unfolding attempt_def
  apply (rule triple_with_fd [OF build_gives_mount, where S = "\<lambda>_ _ _. True"])
  subgoal for fd using attach_policed by simp
  by (auto intro: policy_step_file)

lemma keeps_true_guard:
  assumes "keeps (policy_step k) (\<lambda>_. True) m" and "\<And>g. keeps (policy_step k) (\<lambda>_. True) (body g)"
  shows "keeps (policy_step k) (\<lambda>_. True) (with_guard E m body)"
  unfolding with_guard_def
  by (intro keeps_bind keeps_catch assms keeps_file makes_drop_guard keeps_fail)

lemma exec_new_policed:
  assumes "policy (rq_options req) = Some k"
  shows "keeps (policy_step k) (\<lambda>_. True) (exec_new E show_err sddl has_owner req target)"
proof -
  have a: "keeps (policy_step k) (\<lambda>_. True) (attempt E sddl has_owner req device fstype target ro)"
    for device fstype ro
    using attempt_policed [OF assms] by (simp add: keeps_def)
  have "keeps (policy_step k) (\<lambda>_. True) (mount_attempts E sddl has_owner req device fstype target)"
    for device fstype
    unfolding mount_attempts_def by (intro keeps_catch a) (auto intro: a split: failure.splits)
  then show ?thesis
    unfolding exec_new_def Let_def
    by (intro keeps_bind keeps_true_guard keeps_file [OF makes_maybe_setup] keeps_if keeps_return
        keeps_lift_result keeps_gets) simp
qed

text \<open>C4. A new mount is never attached without its policy: when a policy is requested for a new
  mount, then whatever the kernel answers, on the first attempt or on the read-only retry, every
  attachment grafts a mount (or a clone of one of its subtrees) on which that very policy was
  successfully set after it was made.\<close>

theorem policy_before_attach:
  assumes "rq_verb req = New" and "policy (rq_options req) = Some k"
  shows "case execute E show_err sddl has_owner req s of
     (r, t) \<Rightarrow> \<exists>calls. trace t = trace s @ calls \<and> run_monitor (policy_step k) (origin, done') calls \<noteq> None"
proof -
  have q: "keeps (policy_step k) (\<lambda>_. True) f" if "makes mkdir_call f \<or> makes setattr_call f"
    for f :: "('w, 'sd, 'c) flow_op"
    using that
  proof
    assume "makes mkdir_call f"
    then show ?thesis
      by (rule keeps_of_makes [where C = mkdir_call]) (auto simp: policy_step_quiet)
  next
    assume "makes setattr_call f"
    then show ?thesis
      by (rule keeps_of_makes [where C = setattr_call]) (auto simp: policy_step_quiet)
  qed
  have "keeps (policy_step k) (\<lambda>_. True) (execute E show_err sddl has_owner req)"
    unfolding execute_def assms(1) verb.case
    by (intro keeps_bind q [OF disjI1 [OF makes_canonicalize]] exec_new_policed assms(2)
        q [OF disjI2 [OF makes_propagation]])
  from tripleD [OF this [unfolded keeps_def]]
  show ?thesis by (cases "execute E show_err sddl has_owner req s") fastforce
qed

text \<open>A kernel that answers every call with the next number, and requests to run on it.\<close>

definition sample_env :: "(nat, rust_str) sys_env" where
  "sample_env =
     \<lparr>se_call = (\<lambda>c w. (Inr (int w), w + 1)), se_log = (\<lambda>_ _. []), se_realpath = (\<lambda>p _. Some p),
      se_regular = (\<lambda>_ _. False), se_readonly = (\<lambda>_ _. False), se_mountinfo = (\<lambda>_ _. Inr []),
      se_loops = (\<lambda>_. None), se_backing = (\<lambda>_ _. None), se_evaluate_spec = (\<lambda>s _. Inr s), se_probe = (\<lambda>_ _. Inr None)\<rparr>"

definition sample_request :: "verb \<Rightarrow> parsed_options \<Rightarrow> mount_request" where
  "sample_request v o' =
     \<lparr>rq_verb = v, rq_source = Some (ascii ''tmpfs''), rq_target = ascii ''/t'',
      rq_fstype = Some (ascii ''tmpfs''), rq_options = o', rq_propagation = [],
      no_canonicalize_source = False, no_canonicalize_target = False, rq_mkdir = None,
      exclusive = False, onlyonce = False, internal_only = False, namespace = None,
      synth_sddl = None, target_prefix = None, fake = False, verbose = 0\<rparr>"

definition sample_run :: "mount_request \<Rightarrow> (failure + unit) \<times> (nat, rust_str) sys_state" where
  "sample_run req = execute sample_env (\<lambda>_. []) (\<lambda>t. Inr t) (\<lambda>_. True) req \<lparr>world = 3, trace = []\<rparr>"

lemma sample_policy_run:
  "map fst (trace (snd (sample_run (sample_request New (options_default\<lparr>policy := Some DenyMissing\<rparr>))))) =
     [SysFsopen (ascii ''tmpfs'') 1, SysFsconfig 3 1 (Some (ascii ''source'')) (Some (ascii ''tmpfs'')),
      SysFsconfig 3 6 None None, SysFsmount 3 1 0, SysClose 3, SysDup 6,
      SysSetPolicy 8 \<lparr>mp_kind = DenyMissing, mp_flags = 0, mp_generation = 0, mp_template = None\<rparr>,
      SysClose 8, SysMoveMount 6 [] (-100) (ascii ''/t'') 4, SysClose 6]"
  by code_simp

lemma policy_before_attach_witness:
  "case sample_run (sample_request New (options_default\<lparr>policy := Some DenyMissing\<rparr>)) of
     (r, t) \<Rightarrow> \<exists>calls. trace t = [] @ calls \<and> run_monitor (policy_step DenyMissing) ((\<lambda>fd. fd), {}) calls \<noteq> None"
  using policy_before_attach [where req = "sample_request New (options_default\<lparr>policy := Some DenyMissing\<rparr>)"
      and k = DenyMissing and E = sample_env and s = "\<lparr>world = 3, trace = []\<rparr>" and show_err = "\<lambda>_. []"
      and sddl = "\<lambda>t. Inr t" and has_owner = "\<lambda>_. True" and origin = "\<lambda>fd. fd" and done' = "{}"]
  by (simp add: sample_run_def sample_request_def)

end
