(* ===== verification/Mount_Safety.thy ===== *)
theory Mount_Safety
  imports Mount_Flow begin

text \<open>
  Safety properties of \<open>flow.rs\<close> that hold whatever the kernel answers: what a dry run may call,
  that binds, moves and remounts of shared superblocks never reconfigure a superblock, how often
  the read-only retry runs, the order of the calls of a new mount, and the release of the loop
  device when a mount fails.
\<close>

section \<open>Dry runs\<close>

lemma makes_maybe_setup_dry: "makes C (maybe_setup E show_err True source opts)"
  unfolding maybe_setup_def Let_def
  by (auto intro!: makes_bind split: option.splits)

lemma maybe_setup_dry:
  "maybe_setup E show_err True source opts s = (r, t) \<Longrightarrow> (\<exists>e. r = Inl e) \<or> r = Inr None"
  by (auto simp: maybe_setup_def Let_def op_bind_def op_gets_def fail_with_def
      split: prod.splits sum.splits if_splits option.splits)

lemma drop_guard_None [simp]: "drop_guard E d None = op_return ()"
  by (simp add: drop_guard_def)

lemma makes_with_guard_dry:
  assumes "makes C f" and "\<And>s r t. f s = (r, t) \<Longrightarrow> (\<exists>e. r = Inl e) \<or> r = Inr None"
    and "makes C (body None)"
  shows "makes C (with_guard E f body)"
proof -
  have "with_guard E f body = op_bind f (\<lambda>_. op_bind (op_catch (body None)
      (\<lambda>e. op_bind (drop_guard E False None) (\<lambda>_. op_fail e))) (\<lambda>d. drop_guard E d None))"
  proof
    fix s
    obtain r t where f: "f s = (r, t)" by fastforce
    with assms(2) [OF f] show "with_guard E f body s = op_bind f (\<lambda>_. op_bind (op_catch (body None)
      (\<lambda>e. op_bind (drop_guard E False None) (\<lambda>_. op_fail e))) (\<lambda>d. drop_guard E d None)) s"
      by (auto simp: with_guard_def op_bind_def)
  qed
  then show ?thesis using assms(1,3) by (auto intro!: makes_bind makes_catch)
qed

lemma makes_exec_new_dry: "fake req \<Longrightarrow> makes C (exec_new E show_err sddl has_owner req target)"
  unfolding exec_new_def Let_def
  by (intro makes_bind makes_basic makes_with_guard_dry) (auto intro: makes_maybe_setup_dry dest: maybe_setup_dry)

lemma makes_canonicalize_dry: "d = None \<Longrightarrow> makes C (canonicalize E path nc d)"
  unfolding canonicalize_def by (auto intro!: makes_bind)

lemma makes_enter_ns_dry: "fake req \<Longrightarrow> makes C (enter_ns E req)"
  unfolding enter_ns_def by (auto split: option.splits)

lemma makes_shares: "makes C (shares_superblock E target)"
  unfolding makes_iff by (auto simp: shares_superblock_def split: option.splits sum.splits)

lemma makes_propagation_dry: "makes C (apply_propagation E True target chs)"
  unfolding apply_propagation_def by auto

lemma makes_exec_dry:
  assumes "fake req"
  shows "makes C (exec_bind E req target recursive)" and "makes C (exec_move E req target fl)"
    and "makes C (exec_remount E req target)"
  using assms unfolding exec_bind_def exec_move_def exec_remount_def Let_def
  by (auto intro!: makes_bind makes_canonicalize_dry makes_enter_ns_dry makes_shares)

lemma makes_canonicalize_path:
  "makes (\<lambda>c. d \<noteq> None \<and> c = SysMkdirAll path) (canonicalize E path nc d)"
  unfolding canonicalize_def by (cases d) (auto intro!: makes_bind makes_ignore makes_call)

text \<open>C26. A dry run changes nothing: with the fake flag, whatever the verb, the options and the
  kernel, an execution opens no file, configures no loop device, enters no namespace and makes no
  mount call. The only call it can make is the creation of the target directory, and that only
  when the request asks for it.\<close>

theorem dry_run:
  assumes "fake req"
  shows "case execute E show_err sddl has_owner req s of (r, t) \<Rightarrow>
     \<exists>calls. trace t = trace s @ calls \<and>
       (\<forall>e \<in> set calls. rq_mkdir req \<noteq> None \<and> fst e = SysMkdirAll (rq_target req))"
proof -
  have "makes (\<lambda>c. rq_mkdir req \<noteq> None \<and> c = SysMkdirAll (rq_target req))
      (execute E show_err sddl has_owner req)"
    unfolding execute_def
    using assms by (intro makes_bind makes_canonicalize_path)
      (auto intro!: makes_exec_new_dry makes_exec_dry makes_propagation_dry split: verb.splits)
  then show ?thesis by (cases "execute E show_err sddl has_owner req s") (auto simp: makes_iff)
qed

lemma dry_run_witness:
  "case sample_run ((sample_request New options_default)\<lparr>fake := True, rq_mkdir := Some 0x1ED\<rparr>) of (r, t) \<Rightarrow>
     \<exists>calls. trace t = [] @ calls \<and> (\<forall>e \<in> set calls. fst e = SysMkdirAll (ascii ''/t''))"
  using dry_run [where req = "(sample_request New options_default)\<lparr>fake := True, rq_mkdir := Some 0x1ED\<rparr>" and E = sample_env
      and s = "\<lparr>world = 3, trace = []\<rparr>" and show_err = "\<lambda>_. []" and sddl = "\<lambda>t. Inr t" and has_owner = "\<lambda>_. True"]
  by (simp add: sample_run_def sample_request_def)

section \<open>Superblocks\<close>

text \<open>The calls that create, configure or reconfigure a superblock, or set a policy.\<close>

fun superblock_call :: "'sd syscall \<Rightarrow> bool" where
  "superblock_call (SysFsopen _ _) = True"
| "superblock_call (SysFsconfig _ _ _ _) = True"
| "superblock_call (SysFsmount _ _ _) = True"
| "superblock_call (SysFspick _ _ _) = True"
| "superblock_call (SysSetPolicy _ _) = True"
| "superblock_call _ = False"

lemma not_superblock:
  "file_call c \<Longrightarrow> \<not> superblock_call c" "mkdir_call c \<Longrightarrow> \<not> superblock_call c"
  "setattr_call c \<Longrightarrow> \<not> superblock_call c" "tree_call c \<Longrightarrow> \<not> superblock_call c"
  by (cases c; simp)+

lemma makes_exec_bind:
  "makes (\<lambda>c. \<not> superblock_call c) (exec_bind E req target recursive)"
  unfolding exec_bind_def Let_def wrapper_defs
  by (intro makes_basic makes_if makes_bind makes_with_fd makes_stage makes_check makes_call
      makes_mono [OF makes_canonicalize not_superblock(2)]
      makes_mono [OF makes_enter_ns not_superblock(1)]) auto

lemma makes_exec_move:
  "makes (\<lambda>c. \<not> superblock_call c) (exec_move E req target fl)"
  unfolding exec_move_def wrapper_defs
  by (intro makes_basic makes_if makes_bind makes_stage makes_check makes_call
      makes_mono [OF makes_canonicalize not_superblock(2)]
      makes_mono [OF makes_enter_ns not_superblock(1)]) auto

lemma canonicalize_ok: "\<exists>real t. canonicalize E path nc d s = (Inr real, t)"
proof (cases d)
  case (Some x)
  then show ?thesis
    by (cases "sys_call E (SysMkdirAll path) s")
      (auto simp: canonicalize_def op_bind_def op_ignore_def op_gets_def)
qed (auto simp: canonicalize_def op_bind_def op_gets_def)

text \<open>Binding and moving leave the filesystem alone: a bind, move or move-beneath request never
  opens, configures, creates or reconfigures a superblock and never sets a policy, whatever its
  options; and a bind that carries superblock options is refused before any call but the creation
  of the target directory.\<close>

theorem bind_leaves_superblock:
  assumes "rq_verb req = Bind recursive \<or> rq_verb req = Move \<or> rq_verb req = Beneath"
  shows "case execute E show_err sddl has_owner req s of (r, t) \<Rightarrow>
     \<exists>calls. trace t = trace s @ calls \<and> (\<forall>e \<in> set calls. \<not> superblock_call (fst e)) \<and>
       (rq_verb req = Bind recursive \<and> touches_superblock (rq_options req) \<longrightarrow>
         (\<exists>m. r = Inl (Failed (Usage m))) \<and> (\<forall>e \<in> set calls. fst e = SysMkdirAll (rq_target req)))"
proof -
  have "makes (\<lambda>c. \<not> superblock_call c) (execute E show_err sddl has_owner req)"
    unfolding execute_def using assms
    by (intro makes_bind makes_mono [OF makes_canonicalize not_superblock(2)]
        makes_mono [OF makes_propagation not_superblock(3)])
      (auto intro: makes_exec_bind makes_exec_move)
  moreover have "\<exists>m calls. execute E show_err sddl has_owner req s = (Inl (Failed (Usage m)), t)
      \<and> trace t = trace s @ calls \<and> (\<forall>e \<in> set calls. fst e = SysMkdirAll (rq_target req))"
    if "rq_verb req = Bind recursive" and "touches_superblock (rq_options req)"
      and t: "snd (execute E show_err sddl has_owner req s) = t" for t
  proof -
    obtain tg u where c: "canonicalize E (rq_target req) (no_canonicalize_target req) (rq_mkdir req) s = (Inr tg, u)"
      using canonicalize_ok by blast
    moreover obtain calls where "trace u = trace s @ calls" "\<forall>e \<in> set calls. fst e = SysMkdirAll (rq_target req)"
      using makes_canonicalize_path [of "rq_mkdir req" "rq_target req" E "no_canonicalize_target req"] c
      unfolding makes_iff by blast
    ultimately show ?thesis
      using that by (auto simp: execute_def op_bind_def exec_bind_def Let_def fail_with_def)
  qed
  ultimately show ?thesis
    by (cases "execute E show_err sddl has_owner req s") (fastforce simp: makes_iff)
qed

lemma lone_target_source:
  assumes "resolve_operands New [x] None None p = Inr ops"
  shows "op_source ops = None \<and> p"
  using assms by (auto simp: resolve_operands_def verb_takes_lone_target_def Let_def split: if_splits)

text \<open>C29. A standalone propagation change never happens: \<open>mount --make-shared TARGET\<close>, and every other
  command line with one operand, no source and no structural verb that is accepted at all, builds a
  request that the executor refuses with a usage error about a missing source, whatever the kernel,
  making no call but the creation of the target directory. (The specification of the utility
  describes it as the form to change the propagation of an existing mount.)\<close>

theorem standalone_propagation_refused:
  assumes "m_operands m = [target]" and "m_source m = None" and "m_target m = None"
    and "m_label m = None" and "m_uuid m = None"
    and "build sddl has_owner m = Inr (MountAction req)" and "rq_verb req = New"
  shows "rq_propagation req \<noteq> [] \<and>
    (case execute E show_err sddl has_owner req s of (r, t) \<Rightarrow>
       r = Inl (Failed (Usage (lit ''a source is required for a new mount''))) \<and>
       (\<exists>calls. trace t = trace s @ calls \<and> (\<forall>e \<in> set calls. fst e = SysMkdirAll (rq_target req))))"
proof -
  have tag: "tag_source m = None" using assms by (simp add: tag_source_def)
  have src: "rq_source req = None \<and> rq_propagation req \<noteq> []"
    by (rule build_mount_cases [OF assms(6)]) (use assms(1-3,7) tag lone_target_source in auto)
  obtain tg u where c: "canonicalize E (rq_target req) (no_canonicalize_target req) (rq_mkdir req) s = (Inr tg, u)"
    using canonicalize_ok by blast
  moreover have "\<exists>calls. trace u = trace s @ calls \<and> (\<forall>e \<in> set calls. fst e = SysMkdirAll (rq_target req))"
    using makes_canonicalize_path [of "rq_mkdir req" "rq_target req" E "no_canonicalize_target req"] c
    unfolding makes_iff by blast
  ultimately show ?thesis
    using src assms(7)
    by (auto simp: execute_def op_bind_def exec_new_def op_gets_def lift_result_def op_lift_def ok_or_def map_err_def)
qed

definition propagation_matches :: arg_matches where
  "propagation_matches = sample_matches\<lparr>m_options := [], m_read_only := False,
     m_operands := [ascii ''/mnt''], m_target_prefix := None, m_synth_sddl := None\<rparr>"

lemma propagation_build:
  "case build (\<lambda>t. Inr t) (\<lambda>sd. sd \<noteq> []) propagation_matches of
     Inr (MountAction r) \<Rightarrow> rq_verb r = New \<and> rq_target r = ascii ''/mnt''
   | _ \<Rightarrow> False"
  by code_simp

lemma standalone_propagation_refused_witness:
  "\<exists>req. build (\<lambda>t. Inr t) (\<lambda>sd. sd \<noteq> []) propagation_matches = Inr (MountAction req) \<and>
     fst (execute sample_env (\<lambda>_. []) (\<lambda>t. Inr t) (\<lambda>sd. sd \<noteq> []) req \<lparr>world = 3, trace = []\<rparr>) =
       Inl (Failed (Usage (lit ''a source is required for a new mount'')))"
proof -
  obtain r where r: "build (\<lambda>t. Inr t) (\<lambda>sd. sd \<noteq> []) propagation_matches = Inr (MountAction r)"
    and "rq_verb r = New"
    using propagation_build by (auto split: sum.splits action.splits)
  then show ?thesis
    using standalone_propagation_refused [where m = propagation_matches and target = "ascii ''/mnt''"
        and sddl = "\<lambda>t. Inr t" and has_owner = "\<lambda>sd. sd \<noteq> []" and req = r and E = sample_env
        and show_err = "\<lambda>_. []" and s = "\<lparr>world = 3, trace = []\<rparr>"]
    by (auto simp: propagation_matches_def sample_matches_def split: prod.splits)
qed

text \<open>A shared superblock is never reconfigured through one of its mounts: when the mount table
  shows that the target of a remount is a bind or a subvolume, in every state of the system, a
  remount with superblock options fails; the only calls it makes are those that enter the
  namespace, so neither the superblock nor the attributes of the mount are touched.\<close>

theorem shared_remount_refused:
  assumes "touches_superblock (rq_options req)"
    and "\<forall>w. case mountinfo_read (se_mountinfo E 0 w) (se_mountinfo E 1 w) of
       Some (Inr entries) \<Rightarrow> (\<exists>e. at_mountpoint entries target = Some e \<and> is_bind e)
     | _ \<Rightarrow> False"
  shows "case exec_remount E req target s of (r, t) \<Rightarrow>
     (\<exists>e. r = Inl (Failed e)) \<and>
     (\<exists>calls. trace t = trace s @ calls \<and> (\<forall>e \<in> set calls. file_call (fst e)))"
proof -
  have shared: "shares_superblock E target u = (Inr True, u)" for u
    using assms(2) [rule_format, of "world u"]
    by (auto simp: shares_superblock_def split: option.splits sum.splits)
  obtain r u where en: "enter_ns E req s = (r, u)" by fastforce
  then have calls: "\<exists>calls. trace u = trace s @ calls \<and> (\<forall>e \<in> set calls. file_call (fst e))"
    using makes_enter_ns [of E req] unfolding makes_iff by blast
  have "\<exists>err. e = Failed err" if "r = Inl e" for e
    using en that by (auto simp: enter_ns_def ns_enter_def with_fd_def at_stage_def op_map_err_def map_err_def
        split: option.splits if_splits prod.splits sum.splits)
  with en calls show ?thesis
    using assms(1) by (cases r) (auto simp: exec_remount_def Let_def op_bind_def shared fail_with_def)
qed

section \<open>The protocol of the mount interface\<close>

text \<open>
  What the kernel expects of a caller, as an abstract machine over descriptors: a context is
  configured, then created, then mounted once; a picked context is configured and reconfigured; a
  policy is set and a mount attached on a detached mount only. A call out of order is not allowed.
\<close>

datatype fd_role = Configuring | Created | Spent | Picked | Detached

fun protocol_step :: "(int \<Rightarrow> fd_role option) \<Rightarrow> 'sd event \<Rightarrow> (int \<Rightarrow> fd_role option) option" where
  "protocol_step st (SysFsopen _ _, Inr fd) = Some (st(fd \<mapsto> Configuring))"
| "protocol_step st (SysFspick _ _ _, Inr fd) = Some (st(fd \<mapsto> Picked))"
| "protocol_step st (SysFsconfig fd cmd _ _, r) =
     (if cmd = SET_FLAG \<or> cmd = SET_STRING then
        if st fd = Some Configuring \<or> st fd = Some Picked then Some st else None
      else if cmd = CMD_CREATE \<or> cmd = CMD_CREATE_EXCL then
        if st fd = Some Configuring then Some (st(fd \<mapsto> (case r of Inr _ \<Rightarrow> Created | Inl _ \<Rightarrow> Spent))) else None
      else if cmd = CMD_RECONFIGURE \<and> st fd = Some Picked then Some (st(fd \<mapsto> Spent))
      else None)"
| "protocol_step st (SysFsmount fd _ _, r) =
     (if st fd = Some Created
      then Some (case r of Inr d \<Rightarrow> st(fd \<mapsto> Spent, d \<mapsto> Detached) | Inl _ \<Rightarrow> st(fd \<mapsto> Spent))
      else None)"
| "protocol_step st (SysDup fd, Inr d) = Some (st(d := st fd))"
| "protocol_step st (SysOpenTree fd _ _, r) =
     (if fd = AT_FDCWD \<or> st fd = Some Detached
      then Some (case r of Inr d \<Rightarrow> st(d \<mapsto> Detached) | Inl _ \<Rightarrow> st) else None)"
| "protocol_step st (SysSetPolicy fd _, _) = (if st fd = Some Detached then Some st else None)"
| "protocol_step st (SysMoveMount from path _ _ _, _) =
     (if from = AT_FDCWD \<or> st from = Some Detached then Some st else None)"
| "protocol_step st (SysMountSetattr fd _ _ _, _) =
     (if fd = AT_FDCWD \<or> st fd = Some Detached then Some st else None)"
| "protocol_step st _ = Some st"

definition role :: "int \<Rightarrow> fd_role \<Rightarrow> (int \<Rightarrow> fd_role option) \<Rightarrow> bool" where
  "role fd x st \<longleftrightarrow> st fd = Some x"

abbreviation follows ::
  "((int \<Rightarrow> fd_role option) \<Rightarrow> bool) \<Rightarrow> (('w, 'sd) sys_state, 'e, 'a) op
    \<Rightarrow> ('e + 'a \<Rightarrow> (int \<Rightarrow> fd_role option) \<Rightarrow> bool) \<Rightarrow> bool" where
  "follows \<equiv> triple protocol_step"

abbreviation gives_role :: "fd_role \<Rightarrow> 'e + int \<Rightarrow> (int \<Rightarrow> fd_role option) \<Rightarrow> bool" where
  "gives_role x r st \<equiv> (case r of Inl _ \<Rightarrow> True | Inr fd \<Rightarrow> role fd x st)"

lemma protocol_close [simp]: "protocol_step st (SysClose fd, r) = Some st"
  by (cases r) simp_all

lemma protocol_quiet:
  "file_call c \<or> mkdir_call c \<Longrightarrow> protocol_step st (c, r) = Some st"
  by (cases c; cases r) simp_all

lemma follows_quiet:
  "makes file_call f \<or> makes mkdir_call f \<Longrightarrow> follows P f (\<lambda>_. P)"
proof (elim disjE)
  assume "makes file_call f"
  then have "keeps protocol_step P f"
    by (rule keeps_of_makes [where C = file_call]) (simp add: protocol_quiet)
  then show ?thesis by (simp add: keeps_def)
next
  assume "makes mkdir_call f"
  then have "keeps protocol_step P f"
    by (rule keeps_of_makes [where C = mkdir_call]) (simp add: protocol_quiet)
  then show ?thesis by (simp add: keeps_def)
qed

lemma follows_bind:
  "follows P f (\<lambda>_. P) \<Longrightarrow> (\<And>x. follows P (g x) Q) \<Longrightarrow> (\<And>e m. Q (Inl e) m) \<Longrightarrow> follows P (op_bind f g) Q"
  by (rule triple_bind) auto

lemma follows_with_fd:
  "follows P f (gives_role x) \<Longrightarrow> (\<And>fd. follows (role fd x) (body fd) Q) \<Longrightarrow> (\<And>e m. Q (Inl e) m)
    \<Longrightarrow> follows P (with_fd E f body) Q"
  by (rule triple_with_fd [where S = "\<lambda>_. Q" and R = "gives_role x"]) auto

lemma follows_basic:
  "follows P (op_return x) (\<lambda>_. P)" "follows P (lift_result r) (\<lambda>_. P)" "follows P (fail_with e) (\<lambda>_. P)"
  by (auto intro!: triple_return triple_lift_result triple_fail_with)

lemma follows_true: "follows P f Q \<Longrightarrow> follows P f (\<lambda>_ _. True)"
  by (erule triple_conseq) auto

lemma follows_set:
  assumes "x = Configuring \<or> x = Picked"
  shows "follows (role fd x) (set_string E fd k v) (\<lambda>_. role fd x)"
    and "follows (role fd x) (set_flag E fd k) (\<lambda>_. role fd x)"
  using assms unfolding set_string_def set_flag_def wrapper_defs
  by (auto simp: role_def SET_FLAG_def SET_STRING_def keeps_def [symmetric]
      intro!: keeps_bind keeps_with_log keeps_check keeps_lift_result keeps_call)

lemma follows_params:
  assumes "x = Configuring \<or> x = Picked"
  shows "follows (role fd x) (set_params E fd ps) (\<lambda>_. role fd x)"
    and "follows (role fd x) (set_sb_flags E fd fs) (\<lambda>_. role fd x)"
  using follows_set [OF assms, of fd E]
  by (auto simp: set_params_def set_sb_flags_def keeps_def [symmetric] intro!: keeps_for split: option.splits)

lemma follows_fsopen: "follows P (at_stage stage (fsopen E t fl)) (gives_role Configuring)"
  unfolding fsopen_def
  by (intro triple_stage triple_call) (auto simp: map_err_def role_def split: sum.splits)

lemma follows_fspick: "follows P (at_stage stage (fspick E dfd t fl)) (gives_role Picked)"
  unfolding fspick_def
  by (intro triple_stage triple_call) (auto simp: map_err_def role_def split: sum.splits)

lemma follows_create:
  "follows (role fd Configuring) (with_log E stage fd (fsconfig_cmd E fd (if b then CMD_CREATE_EXCL else CMD_CREATE)))
     (\<lambda>r st. case r of Inl _ \<Rightarrow> True | Inr _ \<Rightarrow> role fd Created st)"
  unfolding fsconfig_cmd_def
  by (intro triple_with_log triple_check triple_call)
    (auto simp: role_def CMD_CREATE_EXCL_def CMD_CREATE_def SET_FLAG_def SET_STRING_def split: sum.splits)

lemma follows_fsmount:
  "follows (role fd Created) (at_stage stage (fsmount E fd fl attr)) (gives_role Detached)"
  unfolding fsmount_def
  by (intro triple_stage triple_call) (auto simp: map_err_def role_def split: sum.splits)

lemma follows_if: "follows P f Q \<Longrightarrow> follows P g Q \<Longrightarrow> follows P (if b then f else g) Q"
  by simp

lemma follows_build: "follows P (build_new_fsmount E req device fstype ro) (gives_role Detached)"
  unfolding build_new_fsmount_def Let_def
  by (intro follows_bind follows_with_fd [OF follows_fsopen] follows_basic follows_if follows_set
      follows_params triple_bind [OF follows_create] triple_conseq [OF follows_fsmount]) simp_all

lemma follows_policy:
  "follows (role fd Detached) (apply_set_before_attach E sddl has_owner fd pol t) (\<lambda>_. role fd Detached)"
proof (cases pol)
  case (Some k)
  have dup: "follows (role fd Detached) (at_stage ''dup'' (sys_call E (SysDup fd)))
     (\<lambda>r st. role fd Detached st \<and> gives_role Detached r st)"
    by (intro triple_stage triple_call, rename_tac r m, case_tac r) (auto simp: map_err_def role_def)
  have pol: "follows (\<lambda>st. role fd Detached st \<and> role d Detached st)
     (op_map_err h (check (sys_call E (SysSetPolicy d p)))) (\<lambda>_. role fd Detached)" for d p and h :: "io_error \<Rightarrow> failure"
    by (intro triple_map_err triple_check triple_call) (auto simp: role_def)
  show ?thesis
    unfolding apply_set_before_attach_def Some option.case
    by (intro triple_bind [OF follows_basic(2)] triple_with_fd [OF dup]) (use pol in auto)
qed (simp add: apply_set_before_attach_def follows_basic)

lemma follows_move: "follows (role fd Detached) (at_stage stage (move_mount_attach E fd tgt fl)) (\<lambda>_ _. True)"
  unfolding wrapper_defs by (intro triple_stage triple_check triple_call) (auto simp: role_def)

lemma follows_enter_ns: "follows P (enter_ns E req) (\<lambda>_. P)"
  by (intro follows_quiet disjI1 makes_enter_ns)

lemma follows_tree:
  "follows (\<lambda>st. fd = AT_FDCWD \<or> role fd Detached st) (at_stage stage (open_tree E fd path fl)) (gives_role Detached)"
  unfolding open_tree_def
  by (intro triple_stage triple_call) (auto simp: map_err_def role_def split: sum.splits)

lemma follows_attach: "follows (role fd Detached) (attach_new_mount E sddl has_owner req fd target) (\<lambda>_ _. True)"
proof (cases "subdir (rq_options req)")
  case None
  then show ?thesis
    unfolding attach_new_mount_def None option.case
    by (intro follows_bind follows_policy follows_enter_ns follows_basic follows_move) auto
next
  case (Some dir)
  show ?thesis
    unfolding attach_new_mount_def Some option.case
    by (intro follows_bind follows_policy follows_enter_ns follows_basic
        follows_with_fd [OF triple_conseq [OF follows_tree]]) (auto simp: follows_move)
qed

lemma follows_attempt: "follows P (attempt E sddl has_owner req device fstype target ro) (\<lambda>_ _. True)"
  unfolding attempt_def by (intro follows_with_fd [OF follows_build] follows_attach) auto

lemma follows_attempts: "follows P (mount_attempts E sddl has_owner req device fstype target) (\<lambda>_ _. True)"
  unfolding mount_attempts_def
  by (rule triple_catch [OF follows_attempt])
    (auto intro!: follows_attempt triple_fail split: failure.splits)

lemma follows_exec_new: "follows (\<lambda>_. True) (exec_new E show_err sddl has_owner req target) (\<lambda>_ _. True)"
proof -
  have g: "follows (\<lambda>_. True) (maybe_setup E show_err d src o') (\<lambda>_ _. True)" for d src o'
    by (intro follows_quiet disjI1 makes_maybe_setup)
  have d: "follows (\<lambda>_. True) (drop_guard E b gd) (\<lambda>_ _. True)" for b gd
    by (intro follows_quiet disjI1 makes_drop_guard)
  show ?thesis
    unfolding exec_new_def with_guard_def Let_def
    by (intro follows_bind follows_basic follows_if triple_gets g d triple_catch [where R = "\<lambda>_ _. True"]
        follows_true [OF follows_attempts] triple_fail) auto
qed

lemma follows_setattr:
  "follows (\<lambda>st. fd = AT_FDCWD \<or> role fd Detached st) (at_stage stage (mount_setattr E fd path fl a)) (\<lambda>_ st. fd = AT_FDCWD \<or> role fd Detached st)"
  unfolding wrapper_defs by (intro triple_stage triple_check triple_call) (auto simp: role_def)

lemma follows_canonicalize: "follows P (canonicalize E path nc d) (\<lambda>_. P)"
  by (intro follows_quiet disjI2 makes_canonicalize)

lemma follows_exec_bind: "follows (\<lambda>_. True) (exec_bind E req target recursive) (\<lambda>_ _. True)"
proof -
  have attr: "follows (role fd Detached) (at_stage stage (mount_setattr E fd path fl a)) (\<lambda>_. role fd Detached)"
    for fd stage path fl a
    unfolding wrapper_defs by (intro triple_stage triple_check triple_call) (auto simp: role_def)
  show ?thesis
    unfolding exec_bind_def Let_def
    by (intro follows_bind follows_basic follows_if follows_canonicalize follows_enter_ns
        follows_with_fd [OF triple_conseq [OF follows_tree]]) (auto simp: attr follows_move)
qed

lemma follows_exec_move: "follows (\<lambda>_. True) (exec_move E req target fl) (\<lambda>_ _. True)"
proof -
  have "follows (\<lambda>_. True) (at_stage stage (move_mount_path E a b fl)) (\<lambda>_ _. True)" for stage a b
    unfolding wrapper_defs by (intro triple_stage triple_check triple_call) auto
  then show ?thesis
    unfolding exec_move_def
    by (intro follows_bind follows_basic follows_if follows_canonicalize follows_enter_ns) auto
qed

lemma follows_reconfigure: "follows (\<lambda>_. True) (reconfigure E o' target) (\<lambda>_ _. True)"
proof -
  have "follows (role fd Picked) (with_log E stage fd (fsconfig_cmd E fd CMD_RECONFIGURE)) (\<lambda>_ _. True)" for fd stage
    unfolding fsconfig_cmd_def
    by (intro triple_with_log triple_check triple_call)
      (auto simp: role_def CMD_CREATE_EXCL_def CMD_CREATE_def CMD_RECONFIGURE_def SET_FLAG_def SET_STRING_def
        split: sum.splits)
  moreover have "follows (role fd Picked) (case sb_rdonly o' of
        Some ro \<Rightarrow> set_flag E fd (if ro then ascii ''ro'' else ascii ''rw'')
      | None \<Rightarrow> op_return ()) (\<lambda>_. role fd Picked)" for fd
    by (auto intro: follows_basic follows_set split: option.splits)
  ultimately show ?thesis
    unfolding reconfigure_def
    by (intro follows_bind follows_basic follows_with_fd [OF follows_fspick] follows_params) auto
qed

lemma follows_exec_remount: "follows (\<lambda>_. True) (exec_remount E req target) (\<lambda>_ _. True)"
proof -
  have sh: "follows (\<lambda>_. True) (shares_superblock E target) (\<lambda>_ _. True)"
    by (rule tripleI) (auto simp: shares_superblock_def split: option.splits sum.splits)
  have attr: "follows (\<lambda>_. True) (at_stage stage (mount_setattr E AT_FDCWD path fl a)) (\<lambda>_ _. True)" for stage path fl a
    by (rule triple_conseq [OF follows_setattr]) auto
  show ?thesis
    unfolding exec_remount_def Let_def
    by (intro follows_bind follows_enter_ns follows_if sh follows_basic follows_reconfigure attr) auto
qed

text \<open>C8. Every execution is a run of the mount interface's protocol: whatever the kernel answers, and
  whatever descriptors were open before, parameters go only to a context being configured or
  picked, a superblock is created once per context and before it is mounted, a policy is set and
  a tree attached or given attributes only on a detached mount (or by path), and a picked context
  is reconfigured once.\<close>

theorem execute_protocol:
  "case execute E show_err sddl has_owner req s of (r, t) \<Rightarrow>
     \<exists>calls. trace t = trace s @ calls \<and> run_monitor protocol_step st calls \<noteq> None"
proof -
  have tail: "follows (\<lambda>_. True) (apply_propagation E (fake req) target chs) (\<lambda>_ _. True)" for target chs
    unfolding apply_propagation_def keeps_def [symmetric] wrapper_defs
    by (intro keeps_for keeps_if keeps_return keeps_bind keeps_lift_result keeps_stage keeps_check keeps_call) simp
  have "follows (\<lambda>_. True) (execute E show_err sddl has_owner req) (\<lambda>_ _. True)"
    unfolding execute_def
    by (intro follows_bind follows_canonicalize tail)
      (auto intro: follows_exec_new follows_exec_bind follows_exec_move follows_exec_remount split: verb.splits)
  from tripleD [OF this] show ?thesis
    by (cases "execute E show_err sddl has_owner req s") fastforce
qed

section \<open>The read-only retry\<close>

text \<open>The monitor allows as many superblock creations as it has credit for.\<close>

fun is_fsopen :: "'sd syscall \<Rightarrow> bool" where
  "is_fsopen (SysFsopen _ _) = True"
| "is_fsopen _ = False"

fun create_step :: "nat \<Rightarrow> 'sd event \<Rightarrow> nat option" where
  "create_step k (c, _) = (if is_fsopen c then (case k of 0 \<Rightarrow> None | Suc n \<Rightarrow> Some n) else Some k)"

lemma run_create: "run_monitor create_step k calls = Some n \<Longrightarrow>
    k = n + length (filter (\<lambda>e. is_fsopen (fst e)) calls)"
  by (induction calls arbitrary: k) (auto split: nat.splits if_splits)

definition creates :: "nat \<Rightarrow> (('w, 'sd) sys_state, 'e, 'a) op \<Rightarrow> bool" where
  "creates n f \<longleftrightarrow> (\<forall>k. triple create_step (\<lambda>m. k + n \<le> m) f (\<lambda>_ m. k \<le> m))"

lemma createsD: "creates n f \<Longrightarrow> triple create_step (\<lambda>m. k + n \<le> m) f (\<lambda>_ m. k \<le> m)"
  by (simp add: creates_def)

lemma creates_none:
  assumes "makes (\<lambda>c. \<not> is_fsopen c) f"
  shows "creates n f"
proof -
  have "keeps create_step (\<lambda>m. k + n \<le> m) f" for k
    using assms by (rule keeps_of_makes) simp
  then have "triple create_step (\<lambda>m. k + n \<le> m) f (\<lambda>_ m. k + n \<le> m)" for k
    by (simp add: keeps_def)
  from triple_conseq [OF this] show ?thesis
    unfolding creates_def by simp
qed

lemma creates_bind: "creates a f \<Longrightarrow> (\<And>x. creates b (g x)) \<Longrightarrow> creates (a + b) (op_bind f g)"
  unfolding creates_def
proof (intro allI)
  fix k
  assume a: "\<forall>k. triple create_step (\<lambda>m. k + a \<le> m) f (\<lambda>_ m. k \<le> m)"
    and b: "\<And>x. \<forall>k. triple create_step (\<lambda>m. k + b \<le> m) (g x) (\<lambda>_ m. k \<le> m)"
  show "triple create_step (\<lambda>m. k + (a + b) \<le> m) (op_bind f g) (\<lambda>_ m. k \<le> m)"
    by (rule triple_bind [where R = "\<lambda>_ m. k + b \<le> m", OF triple_conseq [OF a [rule_format, of "k + b"]]
          b [rule_format]]) auto
qed

lemma creates_catch: "creates a f \<Longrightarrow> (\<And>e. creates b (h e)) \<Longrightarrow> creates (a + b) (op_catch f h)"
  unfolding creates_def
proof (intro allI)
  fix k
  assume a: "\<forall>k. triple create_step (\<lambda>m. k + a \<le> m) f (\<lambda>_ m. k \<le> m)"
    and b: "\<And>x. \<forall>k. triple create_step (\<lambda>m. k + b \<le> m) (h x) (\<lambda>_ m. k \<le> m)"
  show "triple create_step (\<lambda>m. k + (a + b) \<le> m) (op_catch f h) (\<lambda>_ m. k \<le> m)"
    by (rule triple_catch [where R = "\<lambda>_ m. k + b \<le> m", OF triple_conseq [OF a [rule_format, of "k + b"]]
          b [rule_format]]) auto
qed

lemma creates_with_fd:
  assumes "creates a f" and "\<And>fd. creates b (body fd)"
  shows "creates (a + b) (with_fd E f body)"
  unfolding creates_def
proof (intro allI)
  fix k
  show "triple create_step (\<lambda>m. k + (a + b) \<le> m) (with_fd E f body) (\<lambda>_ m. k \<le> m)"
    by (rule triple_with_fd [where R = "\<lambda>_ m. k + b \<le> m" and S = "\<lambda>_ _ m. k \<le> m",
          OF triple_conseq [OF assms(1) [THEN createsD, of "k + b"]] assms(2) [THEN createsD]]) auto
qed

lemma not_fsopen:
  "file_call c \<Longrightarrow> \<not> is_fsopen c" "mkdir_call c \<Longrightarrow> \<not> is_fsopen c" "setattr_call c \<Longrightarrow> \<not> is_fsopen c"
  by (cases c; simp)+

lemma creates_if: "creates n f \<Longrightarrow> creates n g \<Longrightarrow> creates n (if b then f else g)"
  by simp

lemma set_no_fsopen:
  "makes (\<lambda>c. \<not> is_fsopen c) (set_string E fd k v)" "makes (\<lambda>c. \<not> is_fsopen c) (set_flag E fd k)"
  unfolding set_string_def set_flag_def wrapper_defs by (intro makes_intros, auto)+

lemma params_no_fsopen:
  "makes (\<lambda>c. \<not> is_fsopen c) (set_params E fd ps)" "makes (\<lambda>c. \<not> is_fsopen c) (set_sb_flags E fd fs)"
  unfolding set_params_def set_sb_flags_def by (auto simp: set_no_fsopen split: option.splits)

lemma creates_build: "creates 1 (build_new_fsmount E req device fstype ro)"
proof -
  have c: "creates 1 (sys_call E (SysFsopen t fl))" for E :: "('w, 'sd) sys_env" and t fl
    unfolding creates_def by (intro allI triple_call) (auto split: nat.splits)
  have o: "creates 1 (at_stage stage (fsopen E t fl))" for E :: "('w, 'sd) sys_env" and stage t fl
    using c [of E t fl] unfolding fsopen_def creates_def by (blast intro: triple_stage)
  have "creates (0 + (1 + 0)) (build_new_fsmount E req device fstype ro)"
    unfolding build_new_fsmount_def Let_def
    by (intro creates_bind creates_with_fd o creates_none makes_basic)
      (auto simp: wrapper_defs intro!: makes_intros set_no_fsopen params_no_fsopen)
  then show ?thesis by simp
qed

lemma attach_no_fsopen: "makes (\<lambda>c. \<not> is_fsopen c) (attach_new_mount E sddl has_owner req fd target)"
  unfolding attach_new_mount_def apply_set_before_attach_def wrapper_defs
  by (intro makes_intros makes_mono [OF makes_enter_ns not_fsopen(1)]) auto

lemma creates_attempt: "creates 1 (attempt E sddl has_owner req device fstype target ro)"
  using creates_with_fd [of 1 _ 0, OF creates_build creates_none [OF attach_no_fsopen]]
  unfolding attempt_def by simp

definition may_retry :: "parsed_options \<Rightarrow> bool" where
  "may_retry o' \<longleftrightarrow> \<not> explicit_rw o' \<and> sb_rdonly o' \<noteq> Some True"

lemma creates_attempts:
  "creates (if may_retry (rq_options req) then 2 else 1) (mount_attempts E sddl has_owner req device fstype target)"
proof (cases "may_retry (rq_options req)")
  case True
  have "creates (1 + 1) (mount_attempts E sddl has_owner req device fstype target)"
    unfolding mount_attempts_def
    by (intro creates_catch creates_attempt)
      (use creates_attempt in \<open>auto intro: creates_none split: failure.splits\<close>)
  with True show ?thesis by (simp add: numeral_2_eq_2)
next
  case False
  then have "\<not> should_retry_ro (rq_options req) e" for e
    by (simp add: may_retry_def should_retry_ro_def)
  then have "creates (1 + 0) (mount_attempts E sddl has_owner req device fstype target)"
    unfolding mount_attempts_def
    by (intro creates_catch creates_attempt) (auto intro: creates_none split: failure.splits)
  with False show ?thesis by simp
qed

lemma creates_exec_new:
  "creates (if may_retry (rq_options req) then 2 else 1) (exec_new E show_err sddl has_owner req target)"
proof -
  have z: "creates 0 f \<Longrightarrow> (\<And>x. creates n (g x)) \<Longrightarrow> creates n (op_bind f g)" for n f g
    using creates_bind [of 0 f n g] by simp
  have y: "creates n f \<Longrightarrow> (\<And>x. creates 0 (g x)) \<Longrightarrow> creates n (op_bind f g)" for n f g
    using creates_bind [of n f 0 g] by simp
  have c: "creates n f \<Longrightarrow> (\<And>x. creates 0 (g x)) \<Longrightarrow> creates n (op_catch f g)" for n f g
    using creates_catch [of n f 0 g] by simp
  have d: "creates 0 (drop_guard E b gd)" for b gd
    by (intro creates_none makes_mono [OF makes_drop_guard not_fsopen(1)])
  have s: "creates 0 (maybe_setup E show_err dr src o')" for dr src o'
    by (intro creates_none makes_mono [OF makes_maybe_setup not_fsopen(1)])
  have body: "creates n (if b then op_return False else op_bind (mount_attempts E sddl has_owner req device t target)
      (\<lambda>_. op_return True))" if "n = (if may_retry (rq_options req) then 2 else 1)" for n b device t
    unfolding that by (intro creates_if y creates_attempts creates_none makes_basic)
  show ?thesis
    unfolding exec_new_def Let_def with_guard_def
    by (intro z [OF creates_none [OF makes_basic(4)]] z [OF creates_none [OF makes_basic(6)]] z [OF s]
        y [OF c [OF body]] d creates_none [OF makes_bind] makes_mono [OF makes_drop_guard not_fsopen(1)]) auto
qed

text \<open>The read-only retry runs at most once and only when it may: an execution opens at most two
  superblock contexts, at most one when read-write was asked for explicitly or the superblock is
  read-only already, and none for a bind, a move or a remount.\<close>

theorem execute_creations:
  "case execute E show_err sddl has_owner req s of (r, t) \<Rightarrow>
     \<exists>calls. trace t = trace s @ calls \<and>
       length (filter (\<lambda>e. is_fsopen (fst e)) calls) \<le>
         (if rq_verb req \<noteq> New then 0 else if may_retry (rq_options req) then 2 else 1)"
proof -
  have z: "creates 0 f \<Longrightarrow> (\<And>x. creates n (g x)) \<Longrightarrow> creates n (op_bind f g)" for n f g
    using creates_bind [of 0 f n g] by simp
  have y: "creates n f \<Longrightarrow> (\<And>x. creates 0 (g x)) \<Longrightarrow> creates n (op_bind f g)" for n f g
    using creates_bind [of n f 0 g] by simp
  have canon: "makes (\<lambda>c. \<not> is_fsopen c) (canonicalize E p nc d)" for p nc d
    by (rule makes_mono [OF makes_canonicalize not_fsopen(2)])
  have ns: "makes (\<lambda>c. \<not> is_fsopen c) (enter_ns E req)"
    by (rule makes_mono [OF makes_enter_ns not_fsopen(1)])
  note quiet = canon ns makes_shares set_no_fsopen params_no_fsopen makes_intros
  have "makes (\<lambda>c. \<not> is_fsopen c) (exec_bind E req target r)" for target r
    unfolding exec_bind_def Let_def wrapper_defs by (intro quiet) auto
  moreover have "makes (\<lambda>c. \<not> is_fsopen c) (exec_move E req target fl)" for target fl
    unfolding exec_move_def wrapper_defs by (intro quiet) auto
  moreover have "makes (\<lambda>c. \<not> is_fsopen c) (exec_remount E req target)" for target
    unfolding exec_remount_def reconfigure_def Let_def wrapper_defs by (intro quiet) auto
  ultimately have "creates (if rq_verb req \<noteq> New then 0 else if may_retry (rq_options req) then 2 else 1)
      (execute E show_err sddl has_owner req)"
    unfolding execute_def
    by (intro z [OF creates_none [OF canon]] y
        creates_none [OF makes_mono [OF makes_propagation not_fsopen(3)]])
      (use creates_exec_new [of req E show_err sddl has_owner] in
        \<open>auto intro: creates_none split: verb.splits if_splits\<close>)
  from tripleD [OF createsD [OF this, of 0]] show ?thesis
    by (cases "execute E show_err sddl has_owner req s") (fastforce dest: run_create)
qed

section \<open>The loop device of a failed mount\<close>

text \<open>
  The descriptors through which a loop device was configured and not cleared since, and those of them whose
  clearing the kernel refused.
\<close>

fun loop_step :: "int multiset \<times> int multiset \<Rightarrow> 'sd event \<Rightarrow> (int multiset \<times> int multiset) option" where
  "loop_step (m, stuck) (SysIoctl fd q _, r) =
     Some (if q = LOOP_CLR_FD
           then (case r of Inr _ \<Rightarrow> (m - {#fd#}, stuck) | Inl _ \<Rightarrow> (m, add_mset fd stuck))
           else if q = LOOP_CONFIGURE \<or> q = LOOP_SET_FD
           then (case r of Inr _ \<Rightarrow> (add_mset fd m, stuck) | Inl _ \<Rightarrow> (m, stuck)) else (m, stuck))"
| "loop_step m _ = Some m"

text \<open>What is held beyond the devices the kernel refused to clear.\<close>

definition held :: "int multiset \<Rightarrow> int multiset \<times> int multiset \<Rightarrow> bool" where
  "held M s \<longleftrightarrow> fst s = M + snd s"

lemma held_simps [simp]:
  "held M (m, stuck) \<longleftrightarrow> m = M + stuck"
  by (simp add: held_def)

lemmas loop_codes = LOOP_CLR_FD_def LOOP_CONFIGURE_def LOOP_SET_FD_def LOOP_SET_STATUS64_def
  LOOP_CTL_GET_FREE_def

fun is_ioctl :: "'sd syscall \<Rightarrow> bool" where
  "is_ioctl (SysIoctl _ _ _) = True"
| "is_ioctl _ = False"

lemma loop_step_quiet: "\<not> is_ioctl c \<Longrightarrow> loop_step m (c, r) = Some m"
  by (cases c) simp_all

lemma loop_step_total: "\<exists>m'. loop_step m (c, r) = Some m'"
  by (cases m; cases c) simp_all

lemma loop_quiet: "makes (\<lambda>c. \<not> is_ioctl c) f \<Longrightarrow> triple loop_step P f (\<lambda>_. P)"
  using keeps_of_makes [of "\<lambda>c. \<not> is_ioctl c" f P loop_step]
  by (auto simp: keeps_def loop_step_quiet)

definition configured :: "int multiset \<Rightarrow> int \<Rightarrow> 'e + 'a \<Rightarrow> int multiset \<times> int multiset \<Rightarrow> bool" where
  "configured M fd r m \<longleftrightarrow> held (case r of Inl _ \<Rightarrow> M | Inr _ \<Rightarrow> add_mset fd M) m"

lemma configured_Inl: "configured M fd (Inl e) = (held (M))"
  by (auto simp: configured_def)

lemma configure_loop_triple:
  "triple loop_step (held (M)) (configure_loop E fd backing info) (configured M fd)"
proof -
  have call: "triple loop_step (held (M)) (sys_call E (SysIoctl fd q a)) (configured M fd)"
    if "q = LOOP_CONFIGURE \<or> q = LOOP_SET_FD" for q a M
    using that by (intro triple_call) (auto simp: configured_def loop_codes split: sum.splits)
  have status: "triple loop_step (held (add_mset fd M))
      (check (sys_call E (SysIoctl fd LOOP_SET_STATUS64 a))) (\<lambda>_. held (add_mset fd M))" for a
    by (intro triple_check triple_call) (auto simp: loop_codes)
  have clear: "triple loop_step (held (add_mset fd M))
      (op_bind (op_ignore (sys_call E (SysIoctl fd LOOP_CLR_FD []))) (\<lambda>_. fail_with e)) (configured M fd)" for e
    by (rule triple_bind [where R = "\<lambda>_. held M"])
      (auto simp: configured_def loop_codes split: sum.split intro!: triple_ignore triple_call triple_fail_with)
  have legacy: "triple loop_step (held (M)) (attach_legacy E fd backing info) (configured M fd)"
    unfolding attach_legacy_def
  proof (rule triple_bind)
    show "triple loop_step (held (M)) (at_stage ''LOOP_SET_FD'' (sys_call E (SysIoctl fd LOOP_SET_FD [of_int backing])))
       (configured M fd)"
      by (rule triple_stage, rule triple_conseq [OF call]) (auto simp: configured_def map_err_def split: sum.splits)
    show "triple loop_step (configured M fd (Inr x)) (op_catch (check (sys_call E (SysIoctl fd LOOP_SET_STATUS64 (info_args backing info))))
       (\<lambda>err. op_bind (op_ignore (sys_call E (SysIoctl fd LOOP_CLR_FD [])))
         (\<lambda>_. fail_with (from_syscall (lit ''LOOP_SET_STATUS64'') err)))) (configured M fd)" for x
      by (rule triple_catch [where R = "\<lambda>_. held (add_mset fd M)"], rule triple_conseq [OF status])
        (use clear in \<open>auto simp: configured_def\<close>)
  qed (auto simp: configured_def)
  show ?thesis
    unfolding configure_loop_def
  proof (rule triple_catch [where R = "configured M fd"])
    show "triple loop_step (held (M)) (check (sys_call E (SysIoctl fd LOOP_CONFIGURE (info_args backing info)))) (configured M fd)"
      by (rule triple_check, rule triple_conseq [OF call]) (auto simp: configured_def split: sum.splits)
    show "triple loop_step (configured M fd (Inl e)) (if raw_os_error e \<in> {Some ENOTTY, Some EINVAL}
        then attach_legacy E fd backing info else fail_with (from_syscall (lit ''LOOP_CONFIGURE'') e))
        (configured M fd)" for e
      using legacy by (auto simp: configured_Inl intro: triple_fail_with)
  qed (simp add: configured_def)
qed

text \<open>The device a guard has to release.\<close>

definition guard_armed :: "loop_guard option \<Rightarrow> int multiset" where
  "guard_armed g = (case g of None \<Rightarrow> {#} | Some l \<Rightarrow> (case lg_handle l of
     Some h \<Rightarrow> if lg_armed l then {#h#} else {#} | None \<Rightarrow> {#}))"

definition arms :: "('w, 'sd, loop_guard option) flow_op \<Rightarrow> bool" where
  "arms f \<longleftrightarrow> (\<forall>M. triple loop_step (held (M)) f
     (\<lambda>r m. held (case r of Inl _ \<Rightarrow> M | Inr g \<Rightarrow> guard_armed g + M) m))"

lemma armsI: "(\<And>M. triple loop_step (held (M)) f
     (\<lambda>r m. held (case r of Inl _ \<Rightarrow> M | Inr g \<Rightarrow> guard_armed g + M) m)) \<Longrightarrow> arms f"
  by (simp add: arms_def)

lemma armsD: "arms f \<Longrightarrow> triple loop_step (held (M)) f
     (\<lambda>r m. held (case r of Inl _ \<Rightarrow> M | Inr g \<Rightarrow> guard_armed g + M) m)"
  by (simp add: arms_def)

lemma arms_basic: "guard_armed g = {#} \<Longrightarrow> arms (op_return g)" "arms (fail_with e)" "arms (op_fail e')"
  by (auto intro!: armsI triple_return triple_fail_with triple_fail)

lemma arms_bind: "makes (\<lambda>c. \<not> is_ioctl c) f \<Longrightarrow> (\<And>x. arms (g x)) \<Longrightarrow> arms (op_bind f g)"
  by (rule armsI, rule triple_bind [OF loop_quiet]) (auto simp: arms_def)

lemma arms_with_fd:
  assumes "makes (\<lambda>c. \<not> is_ioctl c) f" and "\<And>fd. arms (body fd)"
  shows "arms (with_fd E f body)"
  by (rule armsI, rule triple_with_fd [OF loop_quiet [OF assms(1)]]) (use assms(2) in \<open>auto simp: arms_def\<close>)

lemma arms_catch: "arms f \<Longrightarrow> (\<And>e. arms (h e)) \<Longrightarrow> arms (op_catch f h)"
  by (rule armsI, rule triple_catch [OF armsD]) (auto simp: arms_def)

lemma arms_attach: "arms (attach E device source off lim)"
proof -
  have "arms (with_fd_moved E (at_stage ''open loop device'' (sys_call E (SysOpen device True))) (\<lambda>loopdev.
     op_bind (configure_loop E loopdev backing info) (\<lambda>_.
     op_return (Some \<lparr>lg_device = device, lg_handle = Some loopdev, lg_armed = True\<rparr>))))" for backing info
  proof (rule armsI, rule triple_with_fd_moved [OF loop_quiet])
    fix M fd
    show "triple loop_step (held (M)) (op_bind (configure_loop E fd backing info)
      (\<lambda>_. op_return (Some \<lparr>lg_device = device, lg_handle = Some fd, lg_armed = True\<rparr>)))
      (\<lambda>r m. held (case r of Inl _ \<Rightarrow> M | Inr g \<Rightarrow> guard_armed g + M) m)"
      by (rule triple_bind [OF configure_loop_triple])
        (auto simp: configured_def guard_armed_def intro!: triple_return)
  qed (auto intro!: makes_stage makes_call)
  then show ?thesis
    unfolding attach_def open_backing_def
    by (intro arms_with_fd arms_bind makes_stage makes_catch makes_call makes_basic) auto
qed

lemma arms_attach_auto: "arms (attach_auto E show_err source off lim)"
proof -
  have free: "arms (g x) \<Longrightarrow> arms (g x)" for g :: "int \<Rightarrow> ('w, 'sd, loop_guard option) flow_op" and x by simp
  have "arms (attach_auto_loop E c source off lim k prev)" for c k prev
  proof (induction k arbitrary: prev)
    case (Suc k)
    have q: "triple loop_step (held (M)) (at_stage ''LOOP_CTL_GET_FREE'' (sys_call E (SysIoctl c LOOP_CTL_GET_FREE [])))
       (\<lambda>_. held (M))" for M
      by (intro triple_stage triple_call) (auto simp: loop_codes)
    have "arms (op_catch (attach E d source off lim) (\<lambda>e. case e of
         Failed (MountFailed stage err) \<Rightarrow>
           if raw_os_error err = Some EBUSY then
             attach_auto_loop E c source off lim k (Some (MountFailed (lit ''LOOP_CONFIGURE'') err))
           else op_fail e
       | _ \<Rightarrow> op_fail e))" for d
      by (intro arms_catch arms_attach) (auto simp: Suc arms_basic split: failure.splits mount_error.splits)
    from triple_bind [OF q armsD [OF this]] show ?case
      unfolding attach_auto_loop.simps arms_def by simp
  qed (simp add: arms_basic)
  then show ?thesis
    unfolding attach_auto_def by (intro arms_with_fd makes_map_err makes_call) auto
qed

lemma arms_maybe_setup: "arms (maybe_setup E show_err dry source opts)"
  unfolding maybe_setup_def Let_def
  by (rule arms_bind) (auto intro!: arms_basic arms_attach arms_attach_auto
      simp: guard_armed_def split: option.splits loop_request.splits)

lemma drop_guard_releases:
  "triple loop_step (held (guard_armed g + M)) (drop_guard E False g) (\<lambda>_. held (M))"
proof (cases "Option.bind g lg_handle")
  case None
  then have "drop_guard E False g = op_return ()" "guard_armed g = {#}"
    by (cases g; auto simp: drop_guard_def guard_armed_def split: option.splits)+
  then show ?thesis by (auto intro: triple_return)
next
  case (Some h)
  then obtain l where g: "g = Some l" "lg_handle l = Some h" by (cases g) auto
  have close: "triple loop_step (held (M)) (op_ignore (sys_call E (SysClose h))) (\<lambda>_. held (M))"
    by (intro triple_ignore triple_call) auto
  show ?thesis
    unfolding drop_guard_def g guard_armed_def option.case
    by (rule triple_bind [where R = "\<lambda>_. held M"])
      (auto simp: loop_codes split: sum.split intro!: triple_ignore triple_call triple_return close)
qed

lemma drop_guard_returns: "triple loop_step (\<lambda>_. True) (drop_guard E b g) (\<lambda>r _. \<exists>x. r = Inr x)"
proof -
  have "keeps loop_step (\<lambda>_. True) (drop_guard E b g)"
    by (rule keeps_of_makes [OF makes_drop_guard]) (use loop_step_total in blast)
  moreover have "\<exists>x. r = Inr x" if "drop_guard E b g u = (r, v)" for u r v
    using that by (auto simp: drop_guard_def op_bind_def op_ignore_def op_return_def
        split: option.splits if_splits prod.splits)
  ultimately show ?thesis unfolding keeps_def triple_def by blast
qed

lemma not_ioctl: "config_call c \<Longrightarrow> \<not> is_ioctl c"
  by (cases c) simp_all

lemma attempts_no_ioctl: "makes (\<lambda>c. \<not> is_ioctl c) (mount_attempts E sddl has_owner req device t target)"
proof -
  have build: "makes (\<lambda>c. \<not> is_ioctl c) (build_new_fsmount E req device t ro)" for ro
    by (rule makes_mono [OF makes_build not_ioctl])
  have "makes (\<lambda>c. \<not> is_ioctl c) (enter_ns E req)"
    unfolding enter_ns_def ns_enter_def
    by (auto split: option.splits intro!: makes_with_fd makes_stage makes_check makes_call)
  then have attach: "makes (\<lambda>c. \<not> is_ioctl c) (attach_new_mount E sddl has_owner req fd target)" for fd
    unfolding attach_new_mount_def apply_set_before_attach_def wrapper_defs
    by (intro makes_basic makes_option makes_bind makes_with_fd makes_stage makes_check makes_map_err makes_call) auto
  have "makes (\<lambda>c. \<not> is_ioctl c) (attempt E sddl has_owner req device t target ro)" for ro
    unfolding attempt_def by (intro makes_with_fd build attach) auto
  then show ?thesis
    unfolding mount_attempts_def by (auto split: failure.splits)
qed

text \<open>C21. A new mount that fails leaves no loop device behind that the kernel lets it release: whatever the kernel
  answers, when the executor of a new mount ends in an error, every loop device that it configured on the
  way, also through the fallback for kernels without the combined call and also in earlier rounds of the
  search for a free device, was cleared again, except those whose clearing the kernel refused, and no other
  device was. The code ignores such a refusal.\<close>

theorem failed_mount_releases_loop:
  "case exec_new E show_err sddl has_owner req target s of
     (r, t) \<Rightarrow> \<exists>calls m stuck. trace t = trace s @ calls \<and> run_monitor loop_step (M, {#}) calls = Some (m, stuck) \<and>
       (r = Inr () \<or> m = M + stuck)"
proof -
  have released: "triple loop_step (held (M)) (with_guard E (maybe_setup E show_err d src o') body)
      (\<lambda>r m. (\<exists>x. r = Inr x) \<or> held M m)"
    if "\<And>g. makes (\<lambda>c. \<not> is_ioctl c) (body g)" for d src o' body
    unfolding with_guard_def
  proof (rule triple_bind [OF armsD [OF arms_maybe_setup]])
    fix g
    have body: "triple loop_step (held (guard_armed g + M)) (op_catch (body g)
        (\<lambda>e. op_bind (drop_guard E False g) (\<lambda>_. op_fail e))) (\<lambda>r m. case r of Inl _ \<Rightarrow> held M m | Inr _ \<Rightarrow> True)"
      by (rule triple_catch [OF loop_quiet [OF that]])
        (auto intro!: triple_bind [OF drop_guard_releases] triple_fail)
    show "triple loop_step (held (case Inr g of Inl _ \<Rightarrow> M | Inr g \<Rightarrow> guard_armed g + M))
        (op_bind (op_catch (body g) (\<lambda>e. op_bind (drop_guard E False g) (\<lambda>_. op_fail e)))
          (\<lambda>disarmed. drop_guard E disarmed g)) (\<lambda>r m. (\<exists>x. r = Inr x) \<or> held M m)"
      unfolding sum.case
    proof (rule triple_bind [OF body])
      show "triple loop_step (\<lambda>m. case Inr x of Inl _ \<Rightarrow> held M m | Inr _ \<Rightarrow> True)
        (drop_guard E x g) (\<lambda>r m. (\<exists>x. r = Inr x) \<or> held M m)" for x
        by (rule triple_conseq [OF drop_guard_returns]) auto
    qed auto
  qed auto
  have "triple loop_step (held (M)) (exec_new E show_err sddl has_owner req target)
      (\<lambda>r m. r = Inr () \<or> held M m)"
    unfolding exec_new_def Let_def
    by (intro triple_bind [OF loop_quiet [OF makes_basic(4)]] triple_bind [OF loop_quiet [OF makes_basic(6)]]
        triple_conseq [OF released] makes_if makes_bind attempts_no_ioctl makes_basic) auto
  from tripleD [OF this, where m = "(M, {#})"] show ?thesis
    by (cases "exec_new E show_err sddl has_owner req target s") fastforce
qed

text \<open>A system whose mount table shows a bind of \<open>/sub\<close> at \<open>/t\<close>.\<close>

definition bound_env :: "(nat, rust_str) sys_env" where
  "bound_env = sample_env\<lparr>se_mountinfo := (\<lambda>_ _. Inr (ascii ''9 1 0:1 /sub /t rw - tmpfs none rw''))\<rparr>"

lemma bound_line:
  "parse_line (ascii ''9 1 0:1 /sub /t rw - tmpfs none rw'') =
     Some (Some \<lparr>me_id = 9, me_parent_id = 1, me_major = 0, me_minor = 1, me_root = ascii ''/sub'',
       me_mount_point = ascii ''/t'', me_vfs_opts = ascii ''rw'', me_optional = [],
       me_fstype = ascii ''tmpfs'', me_source = ascii ''none'', me_super_opts = ascii ''rw''\<rparr>)"
  by (simp add: parse_line_def ascii_def device_numbers_def ascii_int_def ascii_uint_def subslice_def
      from_utf8_ascii parse_sint_def parse_uint_def to_digit_def)

lemma bound_table:
  "case mountinfo_read (se_mountinfo bound_env 0 w) (se_mountinfo bound_env 1 w) of
     Some (Inr entries) \<Rightarrow> (\<exists>e. at_mountpoint entries (ascii ''/t'') = Some e \<and> is_bind e)
   | _ \<Rightarrow> False"
proof -
  have "filter (\<lambda>l. l \<noteq> []) (split_on 0x0A (ascii ''9 1 0:1 /sub /t rw - tmpfs none rw'')) =
      [ascii ''9 1 0:1 /sub /t rw - tmpfs none rw'']"
    by (simp add: ascii_def)
  then show ?thesis
    by (simp add: bound_env_def mountinfo_read_def mountinfo_parse_def bound_line looks_torn_def
        at_mountpoint_def is_bind_def) (simp add: ascii_def)
qed

lemma shared_remount_refused_witness:
  "case exec_remount bound_env (sample_request Remount (options_default\<lparr>sb_rdonly := Some True\<rparr>)) (ascii ''/t'')
       \<lparr>world = 3, trace = []\<rparr> of (r, t) \<Rightarrow>
     (\<exists>e. r = Inl (Failed e)) \<and> (\<exists>calls. trace t = [] @ calls \<and> (\<forall>e \<in> set calls. file_call (fst e)))"
  using shared_remount_refused [where req = "sample_request Remount (options_default\<lparr>sb_rdonly := Some True\<rparr>)"
      and E = bound_env and target = "ascii ''/t''" and s = "\<lparr>world = 3, trace = []\<rparr>"] bound_table
  by (simp add: sample_request_def touches_superblock_def)

lemma bind_leaves_superblock_witness:
  "case sample_run (sample_request (Bind True) (options_default\<lparr>sb_rdonly := Some True\<rparr>)) of (r, t) \<Rightarrow>
     \<exists>calls. trace t = [] @ calls \<and> (\<forall>e \<in> set calls. \<not> superblock_call (fst e)) \<and>
       (\<exists>m. r = Inl (Failed (Usage m))) \<and> (\<forall>e \<in> set calls. fst e = SysMkdirAll (ascii ''/t''))"
  using bind_leaves_superblock [where req = "sample_request (Bind True) (options_default\<lparr>sb_rdonly := Some True\<rparr>)"
      and recursive = True and E = sample_env and s = "\<lparr>world = 3, trace = []\<rparr>" and show_err = "\<lambda>_. []"
      and sddl = "\<lambda>t. Inr t" and has_owner = "\<lambda>_. True"]
  by (simp add: sample_run_def sample_request_def touches_superblock_def)

end
