(* ===== verification/Umount.thy ===== *)
theory Umount
  imports Mount_Safety
begin

text \<open>
  \<open>src/uu/umount/src/umount.rs\<close>: resolving the operands against the mount table, the order of a
  recursive unmount, and the unmounting itself with its fallbacks, as operations on the world and
  its trace of calls. The mount table is read once, before the first operand.
\<close>

unbundle bit_operations_syntax

section \<open>Flags and errors\<close>

record umount_flags =
  uf_lazy :: bool
  uf_force :: bool
  uf_recursive :: bool
  uf_all_targets :: bool
  uf_detach_loop :: bool
  uf_read_only :: bool
  uf_graceful :: bool
  uf_quiet :: bool
  uf_no_canonicalize :: bool
  uf_fake :: bool

fun show_mount_error :: "(io_error \<Rightarrow> rust_str) \<Rightarrow> mount_error \<Rightarrow> rust_str" where
  "show_mount_error show_io (Usage m) = m"
| "show_mount_error show_io (Permission stage source) = stage @ lit '': '' @ show_io source"
| "show_mount_error show_io (Unimplemented m) = m @ lit '': not yet implemented''"
| "show_mount_error show_io (MountFailed stage source) = stage @ lit '': '' @ show_io source"
| "show_mount_error show_io (System m) = m"
| "show_mount_error show_io (Helper m) = m"
| "show_mount_error show_io (Bug m) = lit ''internal error: '' @ m"
| "show_mount_error show_io Interrupted = lit ''interrupted''"
| "show_mount_error show_io (Partial m) = m"
| "show_mount_error show_io (NotMounted m) = m"

section \<open>Targets\<close>

definition umount_canonicalize :: "('w, 'sd) sys_env \<Rightarrow> bytes \<Rightarrow> bool \<Rightarrow> 'w \<Rightarrow> bytes" where
  "umount_canonicalize E operand no_canon w =
     (if no_canon then operand
      else case se_realpath E operand w of Some p \<Rightarrow> p | None \<Rightarrow> operand)"

text \<open>The mount points of a source, each once, in the order of the table.\<close>

fun source_points :: "bytes \<Rightarrow> bytes \<Rightarrow> mount_entry list \<Rightarrow> bytes list \<Rightarrow> bytes list" where
  "source_points raw canon [] points = points"
| "source_points raw canon (e # es) points =
     source_points raw canon es
       (if (me_source e = raw \<or> me_source e = canon) \<and> me_mount_point e \<notin> set points
        then points @ [me_mount_point e] else points)"

definition resolve_targets ::
  "bytes \<Rightarrow> bytes \<Rightarrow> mount_entry list \<Rightarrow> umount_flags \<Rightarrow> mount_error + bytes list" where
  "resolve_targets canon raw entries flags =
     (if \<exists>e \<in> set entries. me_mount_point e = canon then Inr [canon]
      else let points = source_points raw canon entries [] in
        if length points = 0 then Inr []
        else if length points = 1 then Inr points
        else if uf_all_targets flags then Inr points
        else Inl (Usage (from_utf8_lossy raw @ lit '' is mounted at multiple places; specify a target or use -A:''
          @ [10, 32, 32] @ join_with [10, 32, 32] (map from_utf8_lossy points))))"

definition recursive_order :: "bytes \<Rightarrow> mount_entry list \<Rightarrow> bytes list" where
  "recursive_order target entries =
     (let prefix = (if strip_suffix [0x2F] target \<noteq> None then target else target @ [0x2F]);
          points = map me_mount_point (filter (\<lambda>e. me_mount_point e = target
            \<or> strip_prefix prefix (me_mount_point e) \<noteq> None) entries)
      in sort_key (\<lambda>p. - int (length p)) points)"

definition loop_source :: "bytes \<Rightarrow> mount_entry list \<Rightarrow> bytes option" where
  "loop_source mp entries =
     Option.bind (map_option me_source (find (\<lambda>e. me_mount_point e = mp) entries))
       (\<lambda>s. if strip_prefix (ascii ''/dev/loop'') s \<noteq> None then Some s else None)"

section \<open>Unmounting\<close>

definition remount_ro :: "('w, 'sd) sys_env \<Rightarrow> bytes \<Rightarrow> ('w, 'sd, unit) flow_op" where
  "remount_ro E mp =
     op_bind (lift_result (cstr mp)) (\<lambda>tgt.
     at_stage ''mount_setattr'' (mount_setattr E AT_FDCWD tgt 0 (mount_attr_of MOUNT_ATTR_RDONLY 0 0)))"

definition umount2_flags :: "umount_flags \<Rightarrow> int" where
  "umount2_flags flags =
     (let f = 0; f = (if uf_lazy flags then f OR MNT_DETACH else f);
          f = (if uf_force flags then f OR MNT_FORCE else f)
      in if uf_no_canonicalize flags then f OR UMOUNT_NOFOLLOW else f)"

definition unmount_one ::
  "('w, 'sd) sys_env \<Rightarrow> mount_entry list \<Rightarrow> umount_flags \<Rightarrow> bytes \<Rightarrow> ('w, 'sd, unit) flow_op" where
  "unmount_one E entries flags mp =
     (if uf_fake flags then op_return ()
      else
        op_bind (lift_result (cstr mp)) (\<lambda>tgt.
        op_bind (op_catch (op_bind (umount2 E tgt (umount2_flags flags)) (\<lambda>_. op_return None))
          (\<lambda>e. op_return (Some e))) (\<lambda>failed.
        case failed of
          None \<Rightarrow>
            (if uf_detach_loop flags
             then (case loop_source mp entries of
                     Some dev \<Rightarrow> op_ignore (detach_verified E dev)
                   | None \<Rightarrow> op_return ())
             else op_return ())
        | Some e \<Rightarrow>
            op_bind (if uf_read_only flags
                then op_catch (op_bind (remount_ro E mp) (\<lambda>_. op_return True)) (\<lambda>_. op_return False)
                else op_return False) (\<lambda>remounted.
            if remounted then op_return ()
            else if uf_graceful flags \<and> raw_os_error e = Some EINVAL then op_return ()
            else fail_with (from_syscall (lit ''umount2'') e)))))"

definition unmount_plan :: "mount_entry list \<Rightarrow> umount_flags \<Rightarrow> bytes list \<Rightarrow> bytes list" where
  "unmount_plan entries flags targets =
     concat (map (\<lambda>t. if uf_recursive flags then recursive_order t entries else [t]) targets)"

definition unmount_operand ::
  "('w, 'sd) sys_env \<Rightarrow> mount_entry list \<Rightarrow> umount_flags \<Rightarrow> bytes \<Rightarrow> ('w, 'sd, unit) flow_op" where
  "unmount_operand E entries flags operand =
     op_bind (op_gets (\<lambda>s. umount_canonicalize E operand (uf_no_canonicalize flags) (world s))) (\<lambda>canon.
     op_bind (lift_result (resolve_targets canon operand entries flags)) (\<lambda>targets.
     if targets = [] then
       if uf_graceful flags then op_return ()
       else fail_with (NotMounted (if uf_quiet flags then []
         else from_utf8_lossy operand @ lit '': not mounted''))
     else op_for (unmount_one E entries flags) (unmount_plan entries flags targets)))"

fun unmount_operands ::
  "('w, 'sd) sys_env \<Rightarrow> mount_entry list \<Rightarrow> umount_flags \<Rightarrow> bytes list \<Rightarrow> bool \<Rightarrow> mount_error option
    \<Rightarrow> ('w, 'sd, bool \<times> mount_error option) flow_op" where
  "unmount_operands E entries flags [] any_ok first_err = op_return (any_ok, first_err)"
| "unmount_operands E entries flags (operand # operands) any_ok first_err =
     op_bind (op_catch (op_bind (unmount_operand E entries flags operand) (\<lambda>_. op_return None))
       (\<lambda>e. case e of Failed err \<Rightarrow> op_return (Some err) | Panicked \<Rightarrow> op_fail Panicked)) (\<lambda>r.
     case r of
       None \<Rightarrow> unmount_operands E entries flags operands True first_err
     | Some err \<Rightarrow> unmount_operands E entries flags operands any_ok
         (case first_err of None \<Rightarrow> Some err | Some _ \<Rightarrow> first_err))"

definition read_mounts :: "('w, 'sd) sys_env \<Rightarrow> (io_error \<Rightarrow> rust_str) \<Rightarrow> ('w, 'sd, mount_entry list) flow_op" where
  "read_mounts E show_io s =
     (case mountinfo_read (se_mountinfo E 0 (world s)) (se_mountinfo E 1 (world s)) of
        None \<Rightarrow> (Inl Panicked, s)
      | Some (Inl e) \<Rightarrow> (Inl (Failed (System (lit ''mountinfo: '' @ show_io e))), s)
      | Some (Inr entries) \<Rightarrow> (Inr entries, s))"

definition umount_run ::
  "('w, 'sd) sys_env \<Rightarrow> (io_error \<Rightarrow> rust_str) \<Rightarrow> umount_flags \<Rightarrow> bytes option \<Rightarrow> bytes list
    \<Rightarrow> ('w, 'sd, unit) flow_op" where
  "umount_run E show_io flags ns operands =
     (if uf_recursive flags \<and> uf_read_only flags then
        fail_with (Usage (lit ''--recursive and --read-only are mutually exclusive''))
      else if operands = [] then fail_with (Usage (lit ''a target or source is required''))
      else
        op_bind (case ns of
            Some n \<Rightarrow> if \<not> uf_fake flags then ns_enter E n else op_return ()
          | None \<Rightarrow> op_return ()) (\<lambda>_.
        op_bind (read_mounts E show_io) (\<lambda>entries.
        op_bind (unmount_operands E entries flags operands False None) (\<lambda>(any_ok, first_err).
        case first_err of
          None \<Rightarrow> op_return ()
        | Some e \<Rightarrow>
            if any_ok then fail_with (Partial (lit ''some unmounts failed: '' @ show_mount_error show_io e))
            else fail_with e))))"

section \<open>The order of a recursive unmount\<close>

definition slashed :: "bytes \<Rightarrow> bytes" where
  "slashed p = (if p \<noteq> [] \<and> last p = 0x2F then p else p @ [0x2F])"

text \<open>\<open>below p q\<close>: the path \<open>q\<close> lies strictly below \<open>p\<close>.\<close>

definition below :: "bytes \<Rightarrow> bytes \<Rightarrow> bool" where
  "below p q \<longleftrightarrow> prefix (slashed p) q \<and> q \<noteq> p"

lemma below_longer: "below p q \<Longrightarrow> length p < length q"
  by (auto simp: below_def slashed_def prefix_def split: if_splits)

lemma strip_prefix_iff: "strip_prefix p q \<noteq> None \<longleftrightarrow> prefix p q"
  by (auto simp: strip_prefix_def prefix_def) (metis append_eq_conv_conj)

lemma recursive_order_alt:
  "recursive_order target entries =
     sort_key (\<lambda>p. - int (length p)) (filter (\<lambda>p. p = target \<or> below target p) (map me_mount_point entries))"
proof -
  have "(if strip_suffix [0x2F] target \<noteq> None then target else target @ [0x2F]) = slashed target"
    by (cases target rule: rev_cases) (auto simp: slashed_def strip_suffix_def)
  then have "(strip_prefix (if strip_suffix [0x2F] target \<noteq> None then target else target @ [0x2F]) p \<noteq> None)
      = prefix (slashed target) p" for p
    by (simp only: strip_prefix_iff)
  moreover have "(p = target \<or> prefix (slashed target) p) = (p = target \<or> below target p)" for p
    by (auto simp: below_def)
  ultimately show ?thesis
    by (simp add: recursive_order_def Let_def filter_map o_def)
qed

text \<open>A recursive unmount takes down exactly the mounts at and below the target, each as often as
  it is mounted on, and everything below a path before the path itself.\<close>

theorem recursive_order_deepest_first:
  "mset (recursive_order target entries) =
     mset (filter (\<lambda>p. p = target \<or> below target p) (map me_mount_point entries))
   \<and> sorted_wrt (\<lambda>p q. \<not> below p q) (recursive_order target entries)"
proof -
  have "sorted (map (\<lambda>p. - int (length p)) (recursive_order target entries))"
    by (simp add: recursive_order_alt)
  then have "sorted_wrt (\<lambda>p q. - int (length p) \<le> - int (length q)) (recursive_order target entries)"
    by (simp add: sorted_map)
  then have "sorted_wrt (\<lambda>p q. \<not> below p q) (recursive_order target entries)"
    by (rule sorted_wrt_mono_rel [rotated]) (auto dest: below_longer)
  then show ?thesis by (simp add: recursive_order_alt)
qed

section \<open>What becomes of the mount points\<close>

text \<open>
  What became of a mount point: unmounted, or not, and then remounted read-only, left alone, or kept
  because the remount failed too. \<open>blocker\<close> is the error that stops an operand there: none when the point
  is gone or read-only now, or when it was not mounted (\<open>EINVAL\<close>) and that is excused.
\<close>

datatype fate = Gone | Remounted | Refused io_error | Kept io_error

definition excused :: "umount_flags \<Rightarrow> io_error \<Rightarrow> bool" where
  "excused flags e \<longleftrightarrow> uf_graceful flags \<and> raw_os_error e = Some EINVAL"

fun blocker :: "umount_flags \<Rightarrow> fate \<Rightarrow> io_error option" where
  "blocker flags Gone = None"
| "blocker flags Remounted = None"
| "blocker flags (Refused e) = (if \<not> uf_read_only flags \<and> excused flags e then None else Some e)"
| "blocker flags (Kept e) = (if excused flags e then None else Some e)"

definition settled :: "umount_flags \<Rightarrow> (bytes \<times> fate) list \<Rightarrow> bool" where
  "settled flags m \<longleftrightarrow> (\<forall>(p, fate) \<in> set m. blocker flags fate = None)"

lemma settled_simps [simp]:
  "settled flags []" "settled flags (m @ n) \<longleftrightarrow> settled flags m \<and> settled flags n"
  "settled flags ((p, f) # m) \<longleftrightarrow> blocker flags f = None \<and> settled flags m"
  by (auto simp: settled_def)

text \<open>
  The monitor collects the mount points tried and their fates, from what the kernel answers. A point is
  unmounted with the flags asked for, and only when all before it are settled; the point just refused may
  be remounted read-only; when it is gone, the loop device behind it may be released.
\<close>

fun umount_step ::
  "mount_entry list \<Rightarrow> umount_flags \<Rightarrow> (bytes \<times> fate) list \<Rightarrow> 'sd event \<Rightarrow> (bytes \<times> fate) list option" where
  "umount_step entries flags m (SysUmount2 p f, r) =
     (if f = umount2_flags flags \<and> settled flags m
      then Some (m @ [(p, case r of Inr _ \<Rightarrow> Gone | Inl e \<Rightarrow> Refused e)]) else None)"
| "umount_step entries flags m (SysMountSetattr fd p f a, r) =
     (if uf_read_only flags \<and> fd = AT_FDCWD \<and> f = 0 \<and> a = mount_attr_of MOUNT_ATTR_RDONLY 0 0
         \<and> m \<noteq> [] \<and> fst (last m) = p
      then (case snd (last m) of
              Refused e \<Rightarrow> Some (butlast m @ [(p, case r of Inr _ \<Rightarrow> Remounted | Inl _ \<Rightarrow> Kept e)])
            | _ \<Rightarrow> None)
      else None)"
| "umount_step entries flags m (SysOpen dev _, _) =
     (if uf_detach_loop flags \<and> m \<noteq> [] \<and> snd (last m) = Gone \<and> loop_source (fst (last m)) entries = Some dev
      then Some m else None)"
| "umount_step entries flags m (SysIoctl _ q _, _) =
     (if uf_detach_loop flags \<and> m \<noteq> [] \<and> snd (last m) = Gone \<and> q = LOOP_CLR_FD then Some m else None)"
| "umount_step entries flags m (SysClose _, _) =
     (if uf_detach_loop flags \<and> m \<noteq> [] \<and> snd (last m) = Gone then Some m else None)"
| "umount_step entries flags m _ = None"

text \<open>
  How the points of a plan end: all settled, or stopped at the first one that is not, with its error; or at a
  path that cannot be passed to the kernel.
\<close>

definition nul_error :: mount_error where
  "nul_error = Usage (lit ''argument contains a NUL byte'')"

definition plan_outcome :: "umount_flags \<Rightarrow> bytes list \<Rightarrow> (bytes \<times> fate) list \<Rightarrow> failure + unit \<Rightarrow> bool" where
  "plan_outcome flags plan m r \<longleftrightarrow>
     (case r of
        Inr _ \<Rightarrow> map fst m = plan \<and> settled flags m
      | Inl err \<Rightarrow>
          \<exists>front p rest. plan = map fst front @ p # rest \<and> settled flags front
            \<and> (0 \<in> set p \<and> m = front \<and> err = Failed nul_error
               \<or> (\<exists>fate e. m = front @ [(p, fate)] \<and> blocker flags fate = Some e
                    \<and> err = Failed (from_syscall (lit ''umount2'') e))))"

lemma plan_outcome_append:
  assumes "plan_outcome flags ps ms (Inr x)" "plan_outcome flags qs ns r"
  shows "plan_outcome flags (ps @ qs) (ms @ ns) r"
proof (cases r)
  case (Inr y)
  then show ?thesis using assms by (simp add: plan_outcome_def)
next
  case (Inl err)
  then obtain front p rest where "qs = map fst front @ p # rest" "settled flags front"
    "0 \<in> set p \<and> ns = front \<and> err = Failed nul_error
     \<or> (\<exists>fate e. ns = front @ [(p, fate)] \<and> blocker flags fate = Some e \<and> err = Failed (from_syscall (lit ''umount2'') e))"
    using assms(2) unfolding plan_outcome_def by auto
  then show ?thesis
    using assms(1) Inl by (auto simp: plan_outcome_def intro!: exI [of _ "ms @ front"])
qed

lemma plan_outcome_stop: "plan_outcome flags ps ms (Inl e) \<Longrightarrow> plan_outcome flags (ps @ qs) ms (Inl e)"
  unfolding plan_outcome_def sum.case by (metis Cons_eq_appendI append_assoc)

definition unmounts ::
  "mount_entry list \<Rightarrow> umount_flags \<Rightarrow> bytes list \<Rightarrow> ('w, 'sd, unit) flow_op \<Rightarrow> bool" where
  "unmounts entries flags ps f \<longleftrightarrow>
     (\<forall>M. settled flags M \<longrightarrow> triple (umount_step entries flags) (\<lambda>m. m = M) f
        (\<lambda>r m. \<exists>ms. m = M @ ms \<and> plan_outcome flags ps ms r))"

lemma unmountsD:
  "unmounts entries flags ps f \<Longrightarrow> settled flags M \<Longrightarrow> triple (umount_step entries flags) (\<lambda>m. m = M) f
     (\<lambda>r m. \<exists>ms. m = M @ ms \<and> plan_outcome flags ps ms r)"
  by (simp add: unmounts_def)

lemma unmounts_bind:
  assumes "unmounts entries flags ps f" and "unmounts entries flags qs g"
  shows "unmounts entries flags (ps @ qs) (op_bind f (\<lambda>_. g))"
  unfolding unmounts_def
proof (intro allI impI)
  fix M assume M: "settled flags M"
  show "triple (umount_step entries flags) (\<lambda>m. m = M) (op_bind f (\<lambda>_. g))
      (\<lambda>r m. \<exists>ms. m = M @ ms \<and> plan_outcome flags (ps @ qs) ms r)"
  proof (rule triple_bind [OF unmountsD [OF assms(1) M]])
    show "triple (umount_step entries flags) (\<lambda>m. \<exists>ms. m = M @ ms \<and> plan_outcome flags ps ms (Inr x)) g
      (\<lambda>r m. \<exists>ms. m = M @ ms \<and> plan_outcome flags (ps @ qs) ms r)" for x
    proof (rule tripleI)
      fix s r t m
      assume run: "g s = (r, t)" and "\<exists>ms. m = M @ ms \<and> plan_outcome flags ps ms (Inr x)"
      then obtain ms where ms: "m = M @ ms" "plan_outcome flags ps ms (Inr x)" by blast
      then have "settled flags (M @ ms)" using M by (simp add: plan_outcome_def)
      from tripleD [OF unmountsD [OF assms(2) this] run refl] obtain tr ns
        where "trace t = trace s @ tr" "run_monitor (umount_step entries flags) (M @ ms) tr = Some ((M @ ms) @ ns)"
          "plan_outcome flags qs ns r" by blast
      then show "\<exists>tr m'. trace t = trace s @ tr \<and> run_monitor (umount_step entries flags) m tr = Some m'
          \<and> (\<exists>ms. m' = M @ ms \<and> plan_outcome flags (ps @ qs) ms r)"
        using plan_outcome_append [OF ms(2)] by (auto simp: ms(1))
    qed
  qed (auto intro: plan_outcome_stop)
qed

lemma unmounts_for:
  "(\<And>x. unmounts entries flags [x] (f x)) \<Longrightarrow> unmounts entries flags xs (op_for f xs)"
proof (induction xs)
  case Nil
  show ?case unfolding unmounts_def op_for.simps by (intro allI impI triple_return) (simp add: plan_outcome_def)
next
  case (Cons x xs)
  then show ?case using unmounts_bind [of entries flags "[x]" "f x" xs "op_for f xs"] by simp
qed

lemma detach_quiet:
  assumes "uf_detach_loop flags" "loop_source mp entries = Some dev"
  shows "triple (umount_step entries flags) (\<lambda>m. m = M @ [(mp, Gone)]) (op_ignore (detach_verified E dev))
    (\<lambda>r m. r = Inr () \<and> m = M @ [(mp, Gone)])"
proof -
  have "keeps (umount_step entries flags) (\<lambda>m. m = M @ [(mp, Gone)]) (detach_verified E dev)"
    unfolding detach_verified_def
    by (intro keeps_bind keeps_gets keeps_if keeps_return,
        unfold keeps_def, rule triple_with_fd [where R = "\<lambda>_ m. m = M @ [(mp, Gone)]" and S = "\<lambda>_ _ m. m = M @ [(mp, Gone)]"])
      (use assms in \<open>auto intro!: triple_stage triple_check triple_call\<close>)
  then show ?thesis unfolding keeps_def by (intro triple_ignore) (auto elim: triple_conseq)
qed

lemma bind_lift_Inr: "op_bind (lift_result (Inr x)) g = g x"
  by (rule ext) (simp add: op_bind_def lift_result_def op_lift_def)

lemma remount_fate:
  assumes "uf_read_only flags" "0 \<notin> set mp"
  shows "triple (umount_step entries flags) (\<lambda>m. m = M @ [(mp, Refused e)])
      (op_catch (op_bind (remount_ro E mp) (\<lambda>_. op_return True)) (\<lambda>_. op_return False))
      (\<lambda>r m. r = Inr True \<and> m = M @ [(mp, Remounted)] \<or> r = Inr False \<and> m = M @ [(mp, Kept e)])"
proof -
  have c: "cstr mp = Inr mp" using assms(2) by (simp add: cstr_def)
  have "triple (umount_step entries flags) (\<lambda>m. m = M @ [(mp, Refused e)]) (remount_ro E mp)
      (\<lambda>r m. m = M @ [(mp, case r of Inr _ \<Rightarrow> Remounted | Inl _ \<Rightarrow> Kept e)])"
    unfolding remount_ro_def c bind_lift_Inr mount_setattr_def
    by (intro triple_stage triple_check triple_call)
      (use assms(1) in \<open>auto simp: map_err_def split: sum.splits\<close>)
  then show ?thesis
    by (intro triple_catch [where R = "\<lambda>r m. (case r of Inr b \<Rightarrow> b \<and> m = M @ [(mp, Remounted)] | Inl _ \<Rightarrow> m = M @ [(mp, Kept e)])"])
      (auto intro!: triple_bind triple_return)
qed

lemma unmount_one_calls:
  assumes "\<not> uf_fake flags"
  shows "unmounts entries flags [mp] (unmount_one E entries flags mp)"
proof (cases "0 \<in> set mp")
  case True
  then show ?thesis
    using assms by (auto simp: unmount_one_def cstr_def unmounts_def op_bind_def lift_result_def nul_error_def
        op_lift_def map_err_def plan_outcome_def intro!: tripleI)
next
  case False
  then have c: "cstr mp = Inr mp" by (simp add: cstr_def)
  show ?thesis
    unfolding unmounts_def
  proof (intro allI impI)
    fix M assume M: "settled flags M"
    let ?Q = "\<lambda>r m. \<exists>ms. m = M @ ms \<and> plan_outcome flags [mp] ms r"
    let ?R = "\<lambda>r m. r = Inr None \<and> m = M @ [(mp, Gone)] \<or> (\<exists>e. r = Inr (Some e) \<and> m = M @ [(mp, Refused e)])"
    have ok: "plan_outcome flags [mp] [(mp, f)] (Inr ())" if "blocker flags f = None" for f
      using that by (simp add: plan_outcome_def)
    have bad: "plan_outcome flags [mp] [(mp, f)] (Inl (Failed (from_syscall (lit ''umount2'') e)))"
      if "blocker flags f = Some e" for f e
      unfolding plan_outcome_def sum.case using that
      by (intro exI [of _ "[]"] exI [of _ mp]) auto
    have one: "triple (umount_step entries flags) (\<lambda>m. m = M) (op_catch (op_bind (umount2 E mp (umount2_flags flags)) (\<lambda>_. op_return None))
          (\<lambda>e. op_return (Some e))) ?R"
      unfolding umount2_def
      by (rule triple_catch [where R = "\<lambda>r m. m = M @ [(mp, case r of Inr _ \<Rightarrow> Gone | Inl e \<Rightarrow> Refused e)] \<and> (\<forall>x. r = Inr x \<longrightarrow> x = None)"],
          rule triple_bind [where R = "\<lambda>r m. m = M @ [(mp, case r of Inr _ \<Rightarrow> Gone | Inl e \<Rightarrow> Refused e)]"])
        (use M in \<open>auto intro!: triple_check triple_call triple_return split: sum.splits\<close>)
    show "triple (umount_step entries flags) (\<lambda>m. m = M) (unmount_one E entries flags mp) ?Q"
      unfolding unmount_one_def c bind_lift_Inr if_not_P [OF assms]
    proof (rule triple_bind [OF one])
      fix failed
      show "triple (umount_step entries flags) (?R (Inr failed)) (case failed of
          None \<Rightarrow>
            (if uf_detach_loop flags
             then (case loop_source mp entries of
                     Some dev \<Rightarrow> op_ignore (detach_verified E dev)
                   | None \<Rightarrow> op_return ())
             else op_return ())
        | Some e \<Rightarrow>
            op_bind (if uf_read_only flags
                then op_catch (op_bind (remount_ro E mp) (\<lambda>_. op_return True)) (\<lambda>_. op_return False)
                else op_return False) (\<lambda>remounted.
            if remounted then op_return ()
            else if uf_graceful flags \<and> raw_os_error e = Some EINVAL then op_return ()
            else fail_with (from_syscall (lit ''umount2'') e))) ?Q"
      proof (cases failed)
        case None
        have "triple (umount_step entries flags) (?R (Inr None)) (op_return ()) ?Q"
          using ok [of Gone] by (auto intro!: triple_return)
        moreover have "triple (umount_step entries flags) (?R (Inr None)) (op_ignore (detach_verified E dev)) ?Q"
          if "uf_detach_loop flags" "loop_source mp entries = Some dev" for dev
          using ok [of Gone] by (intro triple_conseq [OF detach_quiet [OF that, of M E]]) auto
        ultimately show ?thesis unfolding None by (auto split: option.split)
      next
        case (Some e)
        let ?S = "\<lambda>r m. r = Inr True \<and> m = M @ [(mp, Remounted)]
            \<or> r = Inr False \<and> m = M @ [(mp, if uf_read_only flags then Kept e else Refused e)]"
        have ro: "triple (umount_step entries flags) (?R (Inr (Some e))) (if uf_read_only flags
            then op_catch (op_bind (remount_ro E mp) (\<lambda>_. op_return True)) (\<lambda>_. op_return False)
            else op_return False) ?S"
          using triple_conseq [OF remount_fate [OF _ False, of flags entries M e E], of "?R (Inr (Some e))" ?S]
          by (auto intro!: triple_return)
        show ?thesis
          unfolding Some option.case
          by (rule triple_bind [OF ro])
            (use ok [of Remounted] ok [of "Kept e"] ok [of "Refused e"] bad [of "Kept e"] bad [of "Refused e"]
              in \<open>auto simp: excused_def intro!: triple_return triple_fail_with\<close>)
      qed
    qed auto
  qed
qed

lemma unmount_points_run:
  assumes "\<not> uf_fake flags" "op_for (unmount_one E entries flags) ps s = (r, t)"
  shows "\<exists>calls m. trace t = trace s @ calls \<and> run_monitor (umount_step entries flags) [] calls = Some m
    \<and> plan_outcome flags ps m r"
proof -
  have "unmounts entries flags ps (op_for (unmount_one E entries flags) ps)"
    by (rule unmounts_for [OF unmount_one_calls [OF assms(1)]])
  from tripleD [OF unmountsD [OF this, of "[]"] assms(2), of "[]"] show ?thesis by auto
qed

lemma operand_cases:
  "unmount_operand E entries flags operand s =
     (case resolve_targets (umount_canonicalize E operand (uf_no_canonicalize flags) (world s)) operand entries flags of
        Inl e \<Rightarrow> (Inl (Failed e), s)
      | Inr targets \<Rightarrow> (if targets = [] then
          if uf_graceful flags then (Inr (), s)
          else (Inl (Failed (NotMounted (if uf_quiet flags then []
            else from_utf8_lossy operand @ lit '': not mounted''))), s)
        else op_for (unmount_one E entries flags) (unmount_plan entries flags targets) s))"
  by (simp add: unmount_operand_def op_bind_def op_gets_def lift_result_def op_lift_def fail_with_def
      split: sum.split)

lemma points_fake: "uf_fake flags \<Longrightarrow> op_for (unmount_one E entries flags) ps s = (Inr (), s)"
  by (induction ps) (simp_all add: unmount_one_def op_bind_def)

text \<open>C14. What an operand does: it is resolved to mount points, each with everything below it when recursive, and
  these are unmounted in that order, with exactly the flags asked for. The operand succeeds only if every point
  of the plan was unmounted, was remounted read-only instead, or was not mounted and that is excused; the
  first point that was not is the last one tried, and its error is the error of the operand. The only other
  calls are the read-only remount of the point just refused and the release of the loop device behind the
  point just unmounted, each only when asked for. A dry run makes no call and succeeds; an operand
  that resolves to nothing or to several places makes no call and fails unless it may.\<close>

theorem umount_operand_plan:
  "case unmount_operand E entries flags operand s of (r, t) \<Rightarrow>
     let canon = umount_canonicalize E operand (uf_no_canonicalize flags) (world s) in
     \<exists>calls m. trace t = trace s @ calls \<and> run_monitor (umount_step entries flags) [] calls = Some m \<and>
       (case resolve_targets canon operand entries flags of
          Inl e \<Rightarrow> r = Inl (Failed e) \<and> calls = []
        | Inr [] \<Rightarrow> calls = [] \<and> (if uf_graceful flags then r = Inr () else \<exists>msg. r = Inl (Failed (NotMounted msg)))
        | Inr targets \<Rightarrow>
            if uf_fake flags then calls = [] \<and> r = Inr ()
            else plan_outcome flags (unmount_plan entries flags targets) m r)"
proof -
  define canon where "canon = umount_canonicalize E operand (uf_no_canonicalize flags) (world s)"
  show ?thesis
  proof (cases "resolve_targets canon operand entries flags")
    case (Inl e)
    then show ?thesis unfolding operand_cases canon_def [symmetric] by simp
  next
    case (Inr targets)
    show ?thesis
    proof (cases targets)
      case Nil
      with Inr show ?thesis unfolding operand_cases canon_def [symmetric] by simp
    next
      case (Cons target ts)
      obtain r t where run: "op_for (unmount_one E entries flags) (unmount_plan entries flags targets) s = (r, t)"
        by fastforce
      show ?thesis
      proof (cases "uf_fake flags")
        case True
        with Inr Cons show ?thesis
          unfolding operand_cases canon_def [symmetric] by (simp add: points_fake)
      next
        case False
        with Inr Cons unmount_points_run [OF False run] run show ?thesis
          unfolding operand_cases canon_def [symmetric] by simp
      qed
    qed
  qed
qed

definition sample_entry :: "bytes \<Rightarrow> bytes \<Rightarrow> mount_entry" where
  "sample_entry source mp = \<lparr>me_id = 1, me_parent_id = 0, me_major = 0, me_minor = 1, me_root = ascii ''/'',
     me_mount_point = mp, me_vfs_opts = ascii ''rw'', me_optional = [], me_fstype = ascii ''tmpfs'',
     me_source = source, me_super_opts = ascii ''rw''\<rparr>"

definition sample_table :: "mount_entry list" where
  "sample_table = [sample_entry (ascii ''x'') (ascii ''/a''), sample_entry (ascii ''y'') (ascii ''/a/b''),
     sample_entry (ascii ''x'') (ascii ''/ab'')]"

definition recursive_flags :: umount_flags where
  "recursive_flags = \<lparr>uf_lazy = True, uf_force = False, uf_recursive = True, uf_all_targets = True,
     uf_detach_loop = False, uf_read_only = False, uf_graceful = False, uf_quiet = False,
     uf_no_canonicalize = False, uf_fake = False\<rparr>"

lemma sample_plan:
  "resolve_targets (ascii ''x'') (ascii ''x'') sample_table recursive_flags = Inr [ascii ''/a'', ascii ''/ab'']"
  "unmount_plan sample_table recursive_flags [ascii ''/a'', ascii ''/ab''] =
     [ascii ''/a/b'', ascii ''/a'', ascii ''/ab'']"
  by code_simp+

lemma umount_operand_plan_witness:
  "case unmount_operand sample_env sample_table recursive_flags (ascii ''x'') \<lparr>world = 3, trace = []\<rparr> of
     (r, t) \<Rightarrow> \<exists>calls m. trace t = [] @ calls \<and> run_monitor (umount_step sample_table recursive_flags) [] calls = Some m
       \<and> plan_outcome recursive_flags [ascii ''/a/b'', ascii ''/a'', ascii ''/ab''] m r"
proof -
  have c: "umount_canonicalize sample_env (ascii ''x'') (uf_no_canonicalize recursive_flags) w = ascii ''x''" for w
    by (simp add: umount_canonicalize_def sample_env_def)
  have f: "\<not> uf_fake recursive_flags" by (simp add: recursive_flags_def)
  show ?thesis
    using umount_operand_plan [where E = sample_env and entries = sample_table and flags = recursive_flags
        and operand = "ascii ''x''" and s = "\<lparr>world = 3, trace = []\<rparr>"]
    unfolding c Let_def sample_plan sum.case list.case using f by (auto split: prod.splits)
qed

section \<open>Exit codes\<close>

text \<open>The exit code of a run; a panic has none.\<close>

fun exit_status :: "failure + unit \<Rightarrow> int option" where
  "exit_status (Inr _) = Some 0"
| "exit_status (Inl (Failed e)) = Some (exit_code e)"
| "exit_status (Inl Panicked) = None"

text \<open>The operands one after the other, whatever becomes of them: state before, result, state after.\<close>

fun operand_runs ::
  "('w, 'sd) sys_env \<Rightarrow> mount_entry list \<Rightarrow> umount_flags \<Rightarrow> bytes list \<Rightarrow> ('w, 'sd) sys_state
    \<Rightarrow> (('w, 'sd) sys_state \<times> (failure + unit) \<times> ('w, 'sd) sys_state) list" where
  "operand_runs E entries flags [] s = []"
| "operand_runs E entries flags (operand # operands) s =
     (case unmount_operand E entries flags operand s of (r, t) \<Rightarrow>
        (s, r, t) # operand_runs E entries flags operands t)"

text \<open>
  The code of an operand: usage for several places, 32 for nothing mounted, and else the first refusal of the
  kernel that stopped it, 1 when it lacks permission and 32 otherwise.
\<close>

definition syscall_code :: "io_error \<Rightarrow> int" where
  "syscall_code e = (if os_code e \<in> {Some EPERM, Some EACCES} then 1 else 32)"

definition operand_code ::
  "('w, 'sd) sys_env \<Rightarrow> mount_entry list \<Rightarrow> umount_flags \<Rightarrow> bytes
    \<Rightarrow> ('w, 'sd) sys_state \<times> (failure + unit) \<times> ('w, 'sd) sys_state \<Rightarrow> bool" where
  "operand_code E entries flags operand = (\<lambda>(s, r, t).
     case resolve_targets (umount_canonicalize E operand (uf_no_canonicalize flags) (world s)) operand entries flags of
       Inl _ \<Rightarrow> exit_status r = Some 1
     | Inr [] \<Rightarrow> exit_status r = Some (if uf_graceful flags then 0 else 32)
     | Inr targets \<Rightarrow>
         if uf_fake flags then exit_status r = Some 0
         else \<exists>calls m. trace t = trace s @ calls \<and> run_monitor (umount_step entries flags) [] calls = Some m \<and>
           (exit_status r = Some 0 \<and> map fst m = unmount_plan entries flags targets \<and> settled flags m
            \<or> exit_status r = Some 1 \<and> (\<exists>p \<in> set (unmount_plan entries flags targets). 0 \<in> set p)
            \<or> (\<exists>e. m \<noteq> [] \<and> blocker flags (snd (last m)) = Some e \<and> exit_status r = Some (syscall_code e))))"

lemma from_syscall_code [simp]: "exit_code (from_syscall stage e) = syscall_code e"
  by (auto simp: from_syscall_def syscall_code_def)

lemma plan_outcome_code:
  assumes "plan_outcome flags plan m r"
  shows "exit_status r = Some 0 \<and> map fst m = plan \<and> settled flags m
    \<or> exit_status r = Some 1 \<and> (\<exists>p \<in> set plan. 0 \<in> set p)
    \<or> (\<exists>e. m \<noteq> [] \<and> blocker flags (snd (last m)) = Some e \<and> exit_status r = Some (syscall_code e))"
proof (cases r)
  case (Inl err)
  with assms obtain front p rest where "plan = map fst front @ p # rest"
    "0 \<in> set p \<and> m = front \<and> err = Failed nul_error
     \<or> (\<exists>fate e. m = front @ [(p, fate)] \<and> blocker flags fate = Some e \<and> err = Failed (from_syscall (lit ''umount2'') e))"
    unfolding plan_outcome_def by auto
  then show ?thesis using Inl by (auto simp: nul_error_def)
qed (use assms in \<open>simp add: plan_outcome_def\<close>)

lemma operand_code_ok:
  assumes "unmount_operand E entries flags operand s = (r, t)"
  shows "operand_code E entries flags operand (s, r, t)" "r \<noteq> Inl Panicked"
proof -
  define canon where "canon = umount_canonicalize E operand (uf_no_canonicalize flags) (world s)"
  have run: "unmount_operand E entries flags operand s = (r, t)" by (rule assms)
  have "operand_code E entries flags operand (s, r, t) \<and> r \<noteq> Inl Panicked"
  proof (cases "resolve_targets canon operand entries flags")
    case (Inl e)
    then have "\<exists>msg. e = Usage msg" by (auto simp: resolve_targets_def Let_def split: if_splits)
    then show ?thesis
      using run Inl unfolding operand_cases operand_code_def prod.case canon_def [symmetric] by auto
  next
    case (Inr targets)
    show ?thesis
    proof (cases "targets = [] \<or> uf_fake flags")
      case True
      with run Inr show ?thesis
        unfolding operand_cases operand_code_def prod.case canon_def [symmetric]
        by (auto simp: points_fake split: list.splits)
    next
      case False
      then have "op_for (unmount_one E entries flags) (unmount_plan entries flags targets) s = (r, t)"
        using run Inr unfolding operand_cases canon_def [symmetric] by simp
      from unmount_points_run [OF _ this] False obtain calls m where c: "trace t = trace s @ calls"
        "run_monitor (umount_step entries flags) [] calls = Some m"
        "plan_outcome flags (unmount_plan entries flags targets) m r" by blast
      moreover have "r \<noteq> Inl Panicked" using c(3) by (auto simp: plan_outcome_def)
      ultimately show ?thesis
        using plan_outcome_code [OF c(3)] Inr False
        unfolding operand_code_def prod.case canon_def [symmetric] by (cases targets) auto
    qed
  qed
  then show "operand_code E entries flags operand (s, r, t)" "r \<noteq> Inl Panicked" by blast+
qed

lemma runs_codes: "list_all2 (operand_code E entries flags) operands (operand_runs E entries flags operands s)"
  by (induction operands arbitrary: s) (auto simp: operand_code_ok split: prod.split)

lemma runs_total: "(s', r, t) \<in> set (operand_runs E entries flags operands s) \<Longrightarrow> r \<noteq> Inl Panicked"
  by (induction operands arbitrary: s) (auto dest: operand_code_ok(2) operand_code_ok(2) [OF sym] split: prod.splits)

text \<open>What the loop over the operands accumulates.\<close>

definition run_errors :: "(('s \<times> (failure + unit) \<times> 's) list) \<Rightarrow> mount_error list" where
  "run_errors runs = [e. (_, Inl (Failed e), _) \<leftarrow> runs]"

lemma run_errors_simps [simp]:
  "run_errors [] = []" "run_errors ((s, Inl (Failed e), t) # runs) = e # run_errors runs"
  "run_errors ((s, Inr x, t) # runs) = run_errors runs"
  by (simp_all add: run_errors_def)

lemma operands_runs:
  "\<exists>t. unmount_operands E entries flags operands ok first s =
     (Inr (ok \<or> (\<exists>(_, r, _) \<in> set (operand_runs E entries flags operands s). r = Inr ()),
       case first of Some e \<Rightarrow> Some e
       | None \<Rightarrow> (case run_errors (operand_runs E entries flags operands s) of [] \<Rightarrow> None | e # _ \<Rightarrow> Some e)), t)"
proof (induction operands arbitrary: ok first s)
  case Nil
  then show ?case by (cases first) simp_all
next
  case (Cons operand operands)
  obtain r u where one: "unmount_operand E entries flags operand s = (r, u)" by fastforce
  show ?case
  proof (cases r)
    case (Inr x)
    with Cons [of True first u] one show ?thesis by (cases first) (simp_all add: op_bind_def op_catch_def)
  next
    case (Inl f)
    with operand_code_ok(2) [OF one] obtain e where f: "f = Failed e" by (cases f) auto
    show ?thesis
      using Cons [of ok "case first of None \<Rightarrow> Some e | Some _ \<Rightarrow> first" u] one Inl f
      by (cases first) (simp_all add: op_bind_def op_catch_def)
  qed
qed

definition run_code :: "(('s \<times> (failure + unit) \<times> 's) list) \<Rightarrow> int option" where
  "run_code runs =
     (let codes = map (\<lambda>(_, r, _). exit_status r) runs in
      if \<forall>c \<in> set codes. c = Some 0 then Some 0 else if Some 0 \<in> set codes then Some 64 else hd codes)"

lemma exit_code_positive: "0 < exit_code e"
  by (cases e) simp_all

lemma exit_status_0: "exit_status r = Some 0 \<longleftrightarrow> r = Inr ()"
proof (cases r)
  case (Inl f)
  then show ?thesis using exit_code_positive by (cases f) (simp_all add: less_imp_neq [symmetric])
qed simp

lemma run_code_errors:
  assumes "\<forall>(_, r, _) \<in> set runs. r \<noteq> Inl Panicked"
  shows "run_code runs =
    (case run_errors runs of [] \<Rightarrow> Some 0
     | e # _ \<Rightarrow> if \<exists>(_, r, _) \<in> set runs. r = Inr () then Some 64 else Some (exit_code e))"
proof -
  have ok: "(Some 0 \<in> (\<lambda>(_, r, _). exit_status r) ` set runs) = (\<exists>(_, r, _) \<in> set runs. r = Inr ())"
    by (force simp: exit_status_0 eq_commute [of "Some 0"])
  have none: "(\<forall>c \<in> (\<lambda>(_, r, _). exit_status r) ` set runs. c = Some 0) \<longleftrightarrow> run_errors runs = []"
    using assms
  proof (induction runs)
    case (Cons a runs)
    obtain s r t where "a = (s, r, t)" by (cases a) auto
    note a = \<open>a = (s, r, t)\<close>
    show ?case
    proof (cases r)
      case (Inl f)
      with Cons.prems a obtain e where "f = Failed e" by (cases f) auto
      then show ?thesis using a Inl exit_code_positive [of e] by simp
    qed (use Cons a in simp)
  qed simp
  have first: "exit_status (fst (snd (hd runs))) = Some (exit_code e)"
    if es: "run_errors runs = e # es" "\<not> (\<exists>(_, r, _) \<in> set runs. r = Inr ())" for e es
    using es assms
  proof (cases runs)
    case (Cons a rest)
    obtain s r t where a: "a = (s, r, t)" by (cases a) auto
    then obtain f where "r = Inl f" using es(2) Cons by (cases r) auto
    moreover obtain e' where "f = Failed e'" using assms a Cons calculation by (cases f) auto
    ultimately show ?thesis using es(1) a Cons by simp
  qed simp
  show ?thesis
  proof (cases "run_errors runs")
    case (Cons e es)
    then have "runs \<noteq> []" by auto
    then show ?thesis
      using Cons none ok first [OF Cons] by (auto simp: run_code_def Let_def hd_map split_def)
  qed (use none in \<open>simp add: run_code_def\<close>)
qed

text \<open>C31. The exit codes of \<open>umount\<close>: 1 for a command line that asks for nothing or for both a recursive and a
  read-only unmount; 1 or 32, by the error, when the namespace cannot be entered; 2 when the mount table cannot
  be read. Otherwise every operand has its own code: 1 when it names several places, 32 when
  nothing is mounted there, unless that is excused, and else 0 when the whole plan is settled, or the code of
  the refusal that stopped it, 1 for a lack of permission and 32 for any other. The code of the run is 0
  when all succeeded, 64 when some did, and that of the first when none did.\<close>

theorem umount_exit_code:
  "case umount_run E show_io flags ns operands s of (r, t) \<Rightarrow>
     if uf_recursive flags \<and> uf_read_only flags \<or> operands = [] then exit_status r = Some 1 \<and> t = s
     else case (case ns of Some n \<Rightarrow> if uf_fake flags then op_return () else ns_enter E n | None \<Rightarrow> op_return ()) s of
       (Inl f, _) \<Rightarrow> \<exists>stage e. r = Inl (Failed (from_syscall stage e)) \<and> exit_status r = Some (syscall_code e)
     | (Inr _, u) \<Rightarrow>
         (case mountinfo_read (se_mountinfo E 0 (world u)) (se_mountinfo E 1 (world u)) of
            None \<Rightarrow> exit_status r = None
          | Some (Inl _) \<Rightarrow> exit_status r = Some 2
          | Some (Inr entries) \<Rightarrow>
              \<exists>runs. runs = operand_runs E entries flags operands u
                \<and> list_all2 (operand_code E entries flags) operands runs \<and> exit_status r = run_code runs)"
proof (cases "uf_recursive flags \<and> uf_read_only flags \<or> operands = []")
  case True
  then show ?thesis by (auto simp: umount_run_def fail_with_def)
next
  case False
  let ?enter = "case ns of Some n \<Rightarrow> if uf_fake flags then op_return () else ns_enter E n | None \<Rightarrow> op_return ()"
  obtain f u where enter: "?enter s = (f, u)" by fastforce
  have ns: "(case ns of Some n \<Rightarrow> if \<not> uf_fake flags then ns_enter E n else op_return () | None \<Rightarrow> op_return ()) = ?enter"
    by (simp split: option.split)
  have start: "umount_run E show_io flags ns operands s = op_bind ?enter (\<lambda>_.
        op_bind (read_mounts E show_io) (\<lambda>entries.
        op_bind (unmount_operands E entries flags operands False None) (\<lambda>(any_ok, first_err).
        case first_err of
          None \<Rightarrow> op_return ()
        | Some e \<Rightarrow>
            if any_ok then fail_with (Partial (lit ''some unmounts failed: '' @ show_mount_error show_io e))
            else fail_with e))) s"
    unfolding umount_run_def ns using False by auto
  show ?thesis
  proof (cases f)
    case (Inl err)
    then obtain n where n: "ns_enter E n s = (Inl err, u)" using enter by (auto split: option.splits if_splits)
    then obtain stage e where "err = Failed (from_syscall stage e)"
      by (auto simp: ns_enter_def with_fd_def at_stage_def op_map_err_def map_err_def split: prod.splits sum.splits)
    then show ?thesis
      using Inl enter False unfolding start by (auto simp: op_bind_def intro!: exI [of _ stage] exI [of _ e])
  next
    case (Inr x)
    show ?thesis
    proof (cases "mountinfo_read (se_mountinfo E 0 (world u)) (se_mountinfo E 1 (world u))")
      case None
      then show ?thesis
        using Inr enter False unfolding start by (simp add: op_bind_def read_mounts_def)
    next
      case (Some res)
      show ?thesis
      proof (cases res)
        case (Inl e)
        then show ?thesis
          using Some Inr enter False unfolding start by (simp add: op_bind_def read_mounts_def)
      next
        case entries: (Inr entries)
        let ?runs = "operand_runs E entries flags operands u"
        obtain t where t: "unmount_operands E entries flags operands False None u =
            (Inr (\<exists>(_, r, _) \<in> set ?runs. r = Inr (), case run_errors ?runs of [] \<Rightarrow> None | e # _ \<Rightarrow> Some e), t)"
          using operands_runs [of E entries flags operands False None u] by auto
        have "run_code ?runs =
           (case run_errors ?runs of [] \<Rightarrow> Some 0
            | e # _ \<Rightarrow> if \<exists>(_, r, _) \<in> set ?runs. r = Inr () then Some 64 else Some (exit_code e))"
          by (rule run_code_errors) (auto dest: runs_total)
        then show ?thesis
          using entries Some Inr enter False t runs_codes [of E entries flags operands u] unfolding start
          by (auto simp: op_bind_def read_mounts_def fail_with_def split: list.splits)
      qed
    qed
  qed
qed

end
