(* ===== verification/Binary_Search.thy ===== *)
theory Binary_Search
  imports Prelude
begin

text \<open>
  Binary search as the code writes it: halving an index range of a sorted list until an element is
  hit or the range is empty. The contract names the order the list is in; the result is the one a
  linear search would give.
\<close>

locale binary_search =
  fixes xs :: "'a list" and below above :: "'a \<Rightarrow> bool" and search :: "nat \<Rightarrow> nat \<Rightarrow> 'r"
    and hit :: "'a \<Rightarrow> 'r" and miss :: 'r
  assumes search_step: "low < high \<Longrightarrow> search low high =
      (if below (xs ! ((low + high) div 2)) then search low ((low + high) div 2)
       else if above (xs ! ((low + high) div 2)) then search ((low + high) div 2 + 1) high
       else hit (xs ! ((low + high) div 2)))"
    and search_end: "\<not> low < high \<Longrightarrow> search low high = miss"
    and below_mono: "i < j \<Longrightarrow> j < length xs \<Longrightarrow> below (xs ! i) \<Longrightarrow> below (xs ! j)"
    and above_mono: "i < j \<Longrightarrow> j < length xs \<Longrightarrow> above (xs ! j) \<Longrightarrow> above (xs ! i)"
    and apart_hits: "i < j \<Longrightarrow> j < length xs \<Longrightarrow> above (xs ! i) \<or> below (xs ! j)"
begin

definition found :: "'a \<Rightarrow> bool" where
  "found x \<longleftrightarrow> \<not> below x \<and> \<not> above x"

lemma search_range:
  assumes "\<And>i. i < length xs \<Longrightarrow> i < low \<or> high \<le> i \<Longrightarrow> \<not> found (xs ! i)"
    and "high \<le> length xs"
  shows "search low high = (case find found xs of Some x \<Rightarrow> hit x | None \<Rightarrow> miss)"
  using assms
proof (induction "high - low" arbitrary: low high rule: less_induct)
  case less
  show ?case
  proof (cases "low < high")
    case False
    then have "\<not> found (xs ! i)" if "i < length xs" for i
      using less.prems(1) [OF that] by linarith
    then have "find found xs = None" by (auto simp: find_None_iff in_set_conv_nth)
    with False show ?thesis by (simp add: search_end)
  next
    case True
    define m where "m = (low + high) div 2"
    have m: "low \<le> m" "m < high" "m < length xs" using True less.prems(2) by (simp_all add: m_def)
    have step: "search low high = (if below (xs ! m) then search low m
        else if above (xs ! m) then search (m + 1) high else hit (xs ! m))"
      using search_step [OF True] by (simp add: m_def)
    consider "below (xs ! m)" | "\<not> below (xs ! m)" "above (xs ! m)" | "found (xs ! m)"
      by (auto simp: found_def)
    then show ?thesis
    proof cases
      case 1
      have "\<not> found (xs ! i)" if "i < length xs" "i < low \<or> m \<le> i" for i
      proof (cases "m \<le> i")
        case True
        then have "below (xs ! i)" using 1 below_mono [of m i] that(1) by (cases "m = i") auto
        then show ?thesis by (simp add: found_def)
      qed (use that less.prems(1) [of i] in auto)
      from less.hyps [OF _ this] m step 1 show ?thesis by simp
    next
      case 2
      have "\<not> found (xs ! i)" if "i < length xs" "i < m + 1 \<or> high \<le> i" for i
      proof (cases "i \<le> m")
        case True
        then have "above (xs ! i)" using 2 above_mono [of i m] m(3) by (cases "m = i") auto
        then show ?thesis by (simp add: found_def)
      qed (use that less.prems(1) [of i] in auto)
      from less.hyps [OF _ this] m less.prems(2) step 2 show ?thesis by simp
    next
      case 3
      have "\<not> found (xs ! j)" if "j < m" for j
        using apart_hits [OF that m(3)] below_mono [OF that m(3)] 3 by (auto simp: found_def)
      then have "find found xs = Some (xs ! m)"
        unfolding find_Some_iff using 3 m(3) by (intro exI [of _ m]) auto
      with step 3 show ?thesis by (simp add: found_def)
    qed
  qed
qed

lemma search_finds: "search 0 (length xs) = (case find found xs of Some x \<Rightarrow> hit x | None \<Rightarrow> miss)"
  by (rule search_range) auto

end

end
