(* ===== verification/Reg_Fold.thy ===== *)
theory Reg_Fold
  imports RustStd Binary_Search
begin

text \<open>
  \<open>crates/registry-manual/src/fold.rs\<close> and the table of \<open>casefold_table.rs\<close>: Unicode simple case
  folding of registry anchors, by binary search in a table of ranges and a table of pairs. The
  table is the one of the repository.
\<close>

section \<open>The table\<close>

definition CASE_FOLD_RANGES :: "(nat \<times> nat \<times> nat) list" where
  "CASE_FOLD_RANGES =
    [(0x41, 0x5A, 0x61), (0xC0, 0xD6, 0xE0), (0xD8, 0xDE, 0xF8), (0x388, 0x38A, 0x3AD),
      (0x391, 0x3A1, 0x3B1), (0x3A3, 0x3AB, 0x3C3), (0x3FD, 0x3FF, 0x37B),
      (0x400, 0x40F, 0x450), (0x410, 0x42F, 0x430), (0x531, 0x556, 0x561),
      (0x10A0, 0x10C5, 0x2D00), (0x13F8, 0x13FD, 0x13F0), (0x1C90, 0x1CBA, 0x10D0),
      (0x1CBD, 0x1CBF, 0x10FD), (0x1F08, 0x1F0F, 0x1F00), (0x1F18, 0x1F1D, 0x1F10),
      (0x1F28, 0x1F2F, 0x1F20), (0x1F38, 0x1F3F, 0x1F30), (0x1F48, 0x1F4D, 0x1F40),
      (0x1F68, 0x1F6F, 0x1F60), (0x1F88, 0x1F8F, 0x1F80), (0x1F98, 0x1F9F, 0x1F90),
      (0x1FA8, 0x1FAF, 0x1FA0), (0x1FC8, 0x1FCB, 0x1F72), (0x2160, 0x216F, 0x2170),
      (0x24B6, 0x24CF, 0x24D0), (0x2C00, 0x2C2F, 0x2C30), (0xAB70, 0xABBF, 0x13A0),
      (0xFF21, 0xFF3A, 0xFF41), (0x10400, 0x10427, 0x10428), (0x104B0, 0x104D3, 0x104D8),
      (0x10570, 0x1057A, 0x10597), (0x1057C, 0x1058A, 0x105A3), (0x1058C, 0x10592, 0x105B3),
      (0x10C80, 0x10CB2, 0x10CC0), (0x10D50, 0x10D65, 0x10D70), (0x118A0, 0x118BF, 0x118C0),
      (0x16E40, 0x16E5F, 0x16E60), (0x1E900, 0x1E921, 0x1E922)]"

definition CASE_FOLD_PAIRS :: "(nat \<times> nat) list" where
  "CASE_FOLD_PAIRS =
    [(0xB5, 0x3BC), (0x100, 0x101), (0x102, 0x103), (0x104, 0x105), (0x106, 0x107),
      (0x108, 0x109), (0x10A, 0x10B), (0x10C, 0x10D), (0x10E, 0x10F), (0x110, 0x111),
      (0x112, 0x113), (0x114, 0x115), (0x116, 0x117), (0x118, 0x119), (0x11A, 0x11B),
      (0x11C, 0x11D), (0x11E, 0x11F), (0x120, 0x121), (0x122, 0x123), (0x124, 0x125),
      (0x126, 0x127), (0x128, 0x129), (0x12A, 0x12B), (0x12C, 0x12D), (0x12E, 0x12F),
      (0x132, 0x133), (0x134, 0x135), (0x136, 0x137), (0x139, 0x13A), (0x13B, 0x13C),
      (0x13D, 0x13E), (0x13F, 0x140), (0x141, 0x142), (0x143, 0x144), (0x145, 0x146),
      (0x147, 0x148), (0x14A, 0x14B), (0x14C, 0x14D), (0x14E, 0x14F), (0x150, 0x151),
      (0x152, 0x153), (0x154, 0x155), (0x156, 0x157), (0x158, 0x159), (0x15A, 0x15B),
      (0x15C, 0x15D), (0x15E, 0x15F), (0x160, 0x161), (0x162, 0x163), (0x164, 0x165),
      (0x166, 0x167), (0x168, 0x169), (0x16A, 0x16B), (0x16C, 0x16D), (0x16E, 0x16F),
      (0x170, 0x171), (0x172, 0x173), (0x174, 0x175), (0x176, 0x177), (0x178, 0xFF),
      (0x179, 0x17A), (0x17B, 0x17C), (0x17D, 0x17E), (0x17F, 0x73), (0x181, 0x253),
      (0x182, 0x183), (0x184, 0x185), (0x186, 0x254), (0x187, 0x188), (0x189, 0x256),
      (0x18A, 0x257), (0x18B, 0x18C), (0x18E, 0x1DD), (0x18F, 0x259), (0x190, 0x25B),
      (0x191, 0x192), (0x193, 0x260), (0x194, 0x263), (0x196, 0x269), (0x197, 0x268),
      (0x198, 0x199), (0x19C, 0x26F), (0x19D, 0x272), (0x19F, 0x275), (0x1A0, 0x1A1),
      (0x1A2, 0x1A3), (0x1A4, 0x1A5), (0x1A6, 0x280), (0x1A7, 0x1A8), (0x1A9, 0x283),
      (0x1AC, 0x1AD), (0x1AE, 0x288), (0x1AF, 0x1B0), (0x1B1, 0x28A), (0x1B2, 0x28B),
      (0x1B3, 0x1B4), (0x1B5, 0x1B6), (0x1B7, 0x292), (0x1B8, 0x1B9), (0x1BC, 0x1BD),
      (0x1C4, 0x1C6), (0x1C5, 0x1C6), (0x1C7, 0x1C9), (0x1C8, 0x1C9), (0x1CA, 0x1CC),
      (0x1CB, 0x1CC), (0x1CD, 0x1CE), (0x1CF, 0x1D0), (0x1D1, 0x1D2), (0x1D3, 0x1D4),
      (0x1D5, 0x1D6), (0x1D7, 0x1D8), (0x1D9, 0x1DA), (0x1DB, 0x1DC), (0x1DE, 0x1DF),
      (0x1E0, 0x1E1), (0x1E2, 0x1E3), (0x1E4, 0x1E5), (0x1E6, 0x1E7), (0x1E8, 0x1E9),
      (0x1EA, 0x1EB), (0x1EC, 0x1ED), (0x1EE, 0x1EF), (0x1F1, 0x1F3), (0x1F2, 0x1F3),
      (0x1F4, 0x1F5), (0x1F6, 0x195), (0x1F7, 0x1BF), (0x1F8, 0x1F9), (0x1FA, 0x1FB),
      (0x1FC, 0x1FD), (0x1FE, 0x1FF), (0x200, 0x201), (0x202, 0x203), (0x204, 0x205),
      (0x206, 0x207), (0x208, 0x209), (0x20A, 0x20B), (0x20C, 0x20D), (0x20E, 0x20F),
      (0x210, 0x211), (0x212, 0x213), (0x214, 0x215), (0x216, 0x217), (0x218, 0x219),
      (0x21A, 0x21B), (0x21C, 0x21D), (0x21E, 0x21F), (0x220, 0x19E), (0x222, 0x223),
      (0x224, 0x225), (0x226, 0x227), (0x228, 0x229), (0x22A, 0x22B), (0x22C, 0x22D),
      (0x22E, 0x22F), (0x230, 0x231), (0x232, 0x233), (0x23A, 0x2C65), (0x23B, 0x23C),
      (0x23D, 0x19A), (0x23E, 0x2C66), (0x241, 0x242), (0x243, 0x180), (0x244, 0x289),
      (0x245, 0x28C), (0x246, 0x247), (0x248, 0x249), (0x24A, 0x24B), (0x24C, 0x24D),
      (0x24E, 0x24F), (0x345, 0x3B9), (0x370, 0x371), (0x372, 0x373), (0x376, 0x377),
      (0x37F, 0x3F3), (0x386, 0x3AC), (0x38C, 0x3CC), (0x38E, 0x3CD), (0x38F, 0x3CE),
      (0x3C2, 0x3C3), (0x3CF, 0x3D7), (0x3D0, 0x3B2), (0x3D1, 0x3B8), (0x3D5, 0x3C6),
      (0x3D6, 0x3C0), (0x3D8, 0x3D9), (0x3DA, 0x3DB), (0x3DC, 0x3DD), (0x3DE, 0x3DF),
      (0x3E0, 0x3E1), (0x3E2, 0x3E3), (0x3E4, 0x3E5), (0x3E6, 0x3E7), (0x3E8, 0x3E9),
      (0x3EA, 0x3EB), (0x3EC, 0x3ED), (0x3EE, 0x3EF), (0x3F0, 0x3BA), (0x3F1, 0x3C1),
      (0x3F4, 0x3B8), (0x3F5, 0x3B5), (0x3F7, 0x3F8), (0x3F9, 0x3F2), (0x3FA, 0x3FB),
      (0x460, 0x461), (0x462, 0x463), (0x464, 0x465), (0x466, 0x467), (0x468, 0x469),
      (0x46A, 0x46B), (0x46C, 0x46D), (0x46E, 0x46F), (0x470, 0x471), (0x472, 0x473),
      (0x474, 0x475), (0x476, 0x477), (0x478, 0x479), (0x47A, 0x47B), (0x47C, 0x47D),
      (0x47E, 0x47F), (0x480, 0x481), (0x48A, 0x48B), (0x48C, 0x48D), (0x48E, 0x48F),
      (0x490, 0x491), (0x492, 0x493), (0x494, 0x495), (0x496, 0x497), (0x498, 0x499),
      (0x49A, 0x49B), (0x49C, 0x49D), (0x49E, 0x49F), (0x4A0, 0x4A1), (0x4A2, 0x4A3),
      (0x4A4, 0x4A5), (0x4A6, 0x4A7), (0x4A8, 0x4A9), (0x4AA, 0x4AB), (0x4AC, 0x4AD),
      (0x4AE, 0x4AF), (0x4B0, 0x4B1), (0x4B2, 0x4B3), (0x4B4, 0x4B5), (0x4B6, 0x4B7),
      (0x4B8, 0x4B9), (0x4BA, 0x4BB), (0x4BC, 0x4BD), (0x4BE, 0x4BF), (0x4C0, 0x4CF),
      (0x4C1, 0x4C2), (0x4C3, 0x4C4), (0x4C5, 0x4C6), (0x4C7, 0x4C8), (0x4C9, 0x4CA),
      (0x4CB, 0x4CC), (0x4CD, 0x4CE), (0x4D0, 0x4D1), (0x4D2, 0x4D3), (0x4D4, 0x4D5),
      (0x4D6, 0x4D7), (0x4D8, 0x4D9), (0x4DA, 0x4DB), (0x4DC, 0x4DD), (0x4DE, 0x4DF),
      (0x4E0, 0x4E1), (0x4E2, 0x4E3), (0x4E4, 0x4E5), (0x4E6, 0x4E7), (0x4E8, 0x4E9),
      (0x4EA, 0x4EB), (0x4EC, 0x4ED), (0x4EE, 0x4EF), (0x4F0, 0x4F1), (0x4F2, 0x4F3),
      (0x4F4, 0x4F5), (0x4F6, 0x4F7), (0x4F8, 0x4F9), (0x4FA, 0x4FB), (0x4FC, 0x4FD),
      (0x4FE, 0x4FF), (0x500, 0x501), (0x502, 0x503), (0x504, 0x505), (0x506, 0x507),
      (0x508, 0x509), (0x50A, 0x50B), (0x50C, 0x50D), (0x50E, 0x50F), (0x510, 0x511),
      (0x512, 0x513), (0x514, 0x515), (0x516, 0x517), (0x518, 0x519), (0x51A, 0x51B),
      (0x51C, 0x51D), (0x51E, 0x51F), (0x520, 0x521), (0x522, 0x523), (0x524, 0x525),
      (0x526, 0x527), (0x528, 0x529), (0x52A, 0x52B), (0x52C, 0x52D), (0x52E, 0x52F),
      (0x10C7, 0x2D27), (0x10CD, 0x2D2D), (0x1C80, 0x432), (0x1C81, 0x434), (0x1C82, 0x43E),
      (0x1C83, 0x441), (0x1C84, 0x442), (0x1C85, 0x442), (0x1C86, 0x44A), (0x1C87, 0x463),
      (0x1C88, 0xA64B), (0x1C89, 0x1C8A), (0x1E00, 0x1E01), (0x1E02, 0x1E03), (0x1E04, 0x1E05),
      (0x1E06, 0x1E07), (0x1E08, 0x1E09), (0x1E0A, 0x1E0B), (0x1E0C, 0x1E0D), (0x1E0E, 0x1E0F),
      (0x1E10, 0x1E11), (0x1E12, 0x1E13), (0x1E14, 0x1E15), (0x1E16, 0x1E17), (0x1E18, 0x1E19),
      (0x1E1A, 0x1E1B), (0x1E1C, 0x1E1D), (0x1E1E, 0x1E1F), (0x1E20, 0x1E21), (0x1E22, 0x1E23),
      (0x1E24, 0x1E25), (0x1E26, 0x1E27), (0x1E28, 0x1E29), (0x1E2A, 0x1E2B), (0x1E2C, 0x1E2D),
      (0x1E2E, 0x1E2F), (0x1E30, 0x1E31), (0x1E32, 0x1E33), (0x1E34, 0x1E35), (0x1E36, 0x1E37),
      (0x1E38, 0x1E39), (0x1E3A, 0x1E3B), (0x1E3C, 0x1E3D), (0x1E3E, 0x1E3F), (0x1E40, 0x1E41),
      (0x1E42, 0x1E43), (0x1E44, 0x1E45), (0x1E46, 0x1E47), (0x1E48, 0x1E49), (0x1E4A, 0x1E4B),
      (0x1E4C, 0x1E4D), (0x1E4E, 0x1E4F), (0x1E50, 0x1E51), (0x1E52, 0x1E53), (0x1E54, 0x1E55),
      (0x1E56, 0x1E57), (0x1E58, 0x1E59), (0x1E5A, 0x1E5B), (0x1E5C, 0x1E5D), (0x1E5E, 0x1E5F),
      (0x1E60, 0x1E61), (0x1E62, 0x1E63), (0x1E64, 0x1E65), (0x1E66, 0x1E67), (0x1E68, 0x1E69),
      (0x1E6A, 0x1E6B), (0x1E6C, 0x1E6D), (0x1E6E, 0x1E6F), (0x1E70, 0x1E71), (0x1E72, 0x1E73),
      (0x1E74, 0x1E75), (0x1E76, 0x1E77), (0x1E78, 0x1E79), (0x1E7A, 0x1E7B), (0x1E7C, 0x1E7D),
      (0x1E7E, 0x1E7F), (0x1E80, 0x1E81), (0x1E82, 0x1E83), (0x1E84, 0x1E85), (0x1E86, 0x1E87),
      (0x1E88, 0x1E89), (0x1E8A, 0x1E8B), (0x1E8C, 0x1E8D), (0x1E8E, 0x1E8F), (0x1E90, 0x1E91),
      (0x1E92, 0x1E93), (0x1E94, 0x1E95), (0x1E9B, 0x1E61), (0x1E9E, 0xDF), (0x1EA0, 0x1EA1),
      (0x1EA2, 0x1EA3), (0x1EA4, 0x1EA5), (0x1EA6, 0x1EA7), (0x1EA8, 0x1EA9), (0x1EAA, 0x1EAB),
      (0x1EAC, 0x1EAD), (0x1EAE, 0x1EAF), (0x1EB0, 0x1EB1), (0x1EB2, 0x1EB3), (0x1EB4, 0x1EB5),
      (0x1EB6, 0x1EB7), (0x1EB8, 0x1EB9), (0x1EBA, 0x1EBB), (0x1EBC, 0x1EBD), (0x1EBE, 0x1EBF),
      (0x1EC0, 0x1EC1), (0x1EC2, 0x1EC3), (0x1EC4, 0x1EC5), (0x1EC6, 0x1EC7), (0x1EC8, 0x1EC9),
      (0x1ECA, 0x1ECB), (0x1ECC, 0x1ECD), (0x1ECE, 0x1ECF), (0x1ED0, 0x1ED1), (0x1ED2, 0x1ED3),
      (0x1ED4, 0x1ED5), (0x1ED6, 0x1ED7), (0x1ED8, 0x1ED9), (0x1EDA, 0x1EDB), (0x1EDC, 0x1EDD),
      (0x1EDE, 0x1EDF), (0x1EE0, 0x1EE1), (0x1EE2, 0x1EE3), (0x1EE4, 0x1EE5), (0x1EE6, 0x1EE7),
      (0x1EE8, 0x1EE9), (0x1EEA, 0x1EEB), (0x1EEC, 0x1EED), (0x1EEE, 0x1EEF), (0x1EF0, 0x1EF1),
      (0x1EF2, 0x1EF3), (0x1EF4, 0x1EF5), (0x1EF6, 0x1EF7), (0x1EF8, 0x1EF9), (0x1EFA, 0x1EFB),
      (0x1EFC, 0x1EFD), (0x1EFE, 0x1EFF), (0x1F59, 0x1F51), (0x1F5B, 0x1F53), (0x1F5D, 0x1F55),
      (0x1F5F, 0x1F57), (0x1FB8, 0x1FB0), (0x1FB9, 0x1FB1), (0x1FBA, 0x1F70), (0x1FBB, 0x1F71),
      (0x1FBC, 0x1FB3), (0x1FBE, 0x3B9), (0x1FCC, 0x1FC3), (0x1FD3, 0x390), (0x1FD8, 0x1FD0),
      (0x1FD9, 0x1FD1), (0x1FDA, 0x1F76), (0x1FDB, 0x1F77), (0x1FE3, 0x3B0), (0x1FE8, 0x1FE0),
      (0x1FE9, 0x1FE1), (0x1FEA, 0x1F7A), (0x1FEB, 0x1F7B), (0x1FEC, 0x1FE5), (0x1FF8, 0x1F78),
      (0x1FF9, 0x1F79), (0x1FFA, 0x1F7C), (0x1FFB, 0x1F7D), (0x1FFC, 0x1FF3), (0x2126, 0x3C9),
      (0x212A, 0x6B), (0x212B, 0xE5), (0x2132, 0x214E), (0x2183, 0x2184), (0x2C60, 0x2C61),
      (0x2C62, 0x26B), (0x2C63, 0x1D7D), (0x2C64, 0x27D), (0x2C67, 0x2C68), (0x2C69, 0x2C6A),
      (0x2C6B, 0x2C6C), (0x2C6D, 0x251), (0x2C6E, 0x271), (0x2C6F, 0x250), (0x2C70, 0x252),
      (0x2C72, 0x2C73), (0x2C75, 0x2C76), (0x2C7E, 0x23F), (0x2C7F, 0x240), (0x2C80, 0x2C81),
      (0x2C82, 0x2C83), (0x2C84, 0x2C85), (0x2C86, 0x2C87), (0x2C88, 0x2C89), (0x2C8A, 0x2C8B),
      (0x2C8C, 0x2C8D), (0x2C8E, 0x2C8F), (0x2C90, 0x2C91), (0x2C92, 0x2C93), (0x2C94, 0x2C95),
      (0x2C96, 0x2C97), (0x2C98, 0x2C99), (0x2C9A, 0x2C9B), (0x2C9C, 0x2C9D), (0x2C9E, 0x2C9F),
      (0x2CA0, 0x2CA1), (0x2CA2, 0x2CA3), (0x2CA4, 0x2CA5), (0x2CA6, 0x2CA7), (0x2CA8, 0x2CA9),
      (0x2CAA, 0x2CAB), (0x2CAC, 0x2CAD), (0x2CAE, 0x2CAF), (0x2CB0, 0x2CB1), (0x2CB2, 0x2CB3),
      (0x2CB4, 0x2CB5), (0x2CB6, 0x2CB7), (0x2CB8, 0x2CB9), (0x2CBA, 0x2CBB), (0x2CBC, 0x2CBD),
      (0x2CBE, 0x2CBF), (0x2CC0, 0x2CC1), (0x2CC2, 0x2CC3), (0x2CC4, 0x2CC5), (0x2CC6, 0x2CC7),
      (0x2CC8, 0x2CC9), (0x2CCA, 0x2CCB), (0x2CCC, 0x2CCD), (0x2CCE, 0x2CCF), (0x2CD0, 0x2CD1),
      (0x2CD2, 0x2CD3), (0x2CD4, 0x2CD5), (0x2CD6, 0x2CD7), (0x2CD8, 0x2CD9), (0x2CDA, 0x2CDB),
      (0x2CDC, 0x2CDD), (0x2CDE, 0x2CDF), (0x2CE0, 0x2CE1), (0x2CE2, 0x2CE3), (0x2CEB, 0x2CEC),
      (0x2CED, 0x2CEE), (0x2CF2, 0x2CF3), (0xA640, 0xA641), (0xA642, 0xA643), (0xA644, 0xA645),
      (0xA646, 0xA647), (0xA648, 0xA649), (0xA64A, 0xA64B), (0xA64C, 0xA64D), (0xA64E, 0xA64F),
      (0xA650, 0xA651), (0xA652, 0xA653), (0xA654, 0xA655), (0xA656, 0xA657), (0xA658, 0xA659),
      (0xA65A, 0xA65B), (0xA65C, 0xA65D), (0xA65E, 0xA65F), (0xA660, 0xA661), (0xA662, 0xA663),
      (0xA664, 0xA665), (0xA666, 0xA667), (0xA668, 0xA669), (0xA66A, 0xA66B), (0xA66C, 0xA66D),
      (0xA680, 0xA681), (0xA682, 0xA683), (0xA684, 0xA685), (0xA686, 0xA687), (0xA688, 0xA689),
      (0xA68A, 0xA68B), (0xA68C, 0xA68D), (0xA68E, 0xA68F), (0xA690, 0xA691), (0xA692, 0xA693),
      (0xA694, 0xA695), (0xA696, 0xA697), (0xA698, 0xA699), (0xA69A, 0xA69B), (0xA722, 0xA723),
      (0xA724, 0xA725), (0xA726, 0xA727), (0xA728, 0xA729), (0xA72A, 0xA72B), (0xA72C, 0xA72D),
      (0xA72E, 0xA72F), (0xA732, 0xA733), (0xA734, 0xA735), (0xA736, 0xA737), (0xA738, 0xA739),
      (0xA73A, 0xA73B), (0xA73C, 0xA73D), (0xA73E, 0xA73F), (0xA740, 0xA741), (0xA742, 0xA743),
      (0xA744, 0xA745), (0xA746, 0xA747), (0xA748, 0xA749), (0xA74A, 0xA74B), (0xA74C, 0xA74D),
      (0xA74E, 0xA74F), (0xA750, 0xA751), (0xA752, 0xA753), (0xA754, 0xA755), (0xA756, 0xA757),
      (0xA758, 0xA759), (0xA75A, 0xA75B), (0xA75C, 0xA75D), (0xA75E, 0xA75F), (0xA760, 0xA761),
      (0xA762, 0xA763), (0xA764, 0xA765), (0xA766, 0xA767), (0xA768, 0xA769), (0xA76A, 0xA76B),
      (0xA76C, 0xA76D), (0xA76E, 0xA76F), (0xA779, 0xA77A), (0xA77B, 0xA77C), (0xA77D, 0x1D79),
      (0xA77E, 0xA77F), (0xA780, 0xA781), (0xA782, 0xA783), (0xA784, 0xA785), (0xA786, 0xA787),
      (0xA78B, 0xA78C), (0xA78D, 0x265), (0xA790, 0xA791), (0xA792, 0xA793), (0xA796, 0xA797),
      (0xA798, 0xA799), (0xA79A, 0xA79B), (0xA79C, 0xA79D), (0xA79E, 0xA79F), (0xA7A0, 0xA7A1),
      (0xA7A2, 0xA7A3), (0xA7A4, 0xA7A5), (0xA7A6, 0xA7A7), (0xA7A8, 0xA7A9), (0xA7AA, 0x266),
      (0xA7AB, 0x25C), (0xA7AC, 0x261), (0xA7AD, 0x26C), (0xA7AE, 0x26A), (0xA7B0, 0x29E),
      (0xA7B1, 0x287), (0xA7B2, 0x29D), (0xA7B3, 0xAB53), (0xA7B4, 0xA7B5), (0xA7B6, 0xA7B7),
      (0xA7B8, 0xA7B9), (0xA7BA, 0xA7BB), (0xA7BC, 0xA7BD), (0xA7BE, 0xA7BF), (0xA7C0, 0xA7C1),
      (0xA7C2, 0xA7C3), (0xA7C4, 0xA794), (0xA7C5, 0x282), (0xA7C6, 0x1D8E), (0xA7C7, 0xA7C8),
      (0xA7C9, 0xA7CA), (0xA7CB, 0x264), (0xA7CC, 0xA7CD), (0xA7D0, 0xA7D1), (0xA7D6, 0xA7D7),
      (0xA7D8, 0xA7D9), (0xA7DA, 0xA7DB), (0xA7DC, 0x19B), (0xA7F5, 0xA7F6), (0xFB05, 0xFB06),
      (0x10594, 0x105BB), (0x10595, 0x105BC)]"

section \<open>The searches\<close>

text \<open>\<open>char::from_u32(..).expect(..)\<close>: the outer \<open>None\<close> is a panic.\<close>

definition to_char :: "nat \<Rightarrow> nat option" where
  "to_char n = (if is_scalar n then Some n else None)"

function range_search :: "nat \<Rightarrow> nat \<Rightarrow> nat \<Rightarrow> nat option option" where
  "range_search codepoint low high =
     (if low < high then
        let mid = (low + high) div 2 in
        (case CASE_FOLD_RANGES ! mid of (start, end', mapped_start) \<Rightarrow>
           if codepoint < start then range_search codepoint low mid
           else if end' < codepoint then range_search codepoint (mid + 1) high
           else map_option Some (to_char (mapped_start + (codepoint - start))))
      else Some None)"
  by pat_completeness auto
termination by (relation "measure (\<lambda>(_, low, high). high - low)") auto

definition fold_from_ranges :: "nat \<Rightarrow> nat option option" where
  "fold_from_ranges codepoint = range_search codepoint 0 (length CASE_FOLD_RANGES)"

function pair_search :: "nat \<Rightarrow> nat \<Rightarrow> nat \<Rightarrow> nat option option" where
  "pair_search codepoint low high =
     (if low < high then
        let mid = (low + high) div 2 in
        (case CASE_FOLD_PAIRS ! mid of (source, target) \<Rightarrow>
           if codepoint < source then pair_search codepoint low mid
           else if source < codepoint then pair_search codepoint (mid + 1) high
           else map_option Some (to_char target))
      else Some None)"
  by pat_completeness auto
termination by (relation "measure (\<lambda>(_, low, high). high - low)") auto

definition fold_from_pairs :: "nat \<Rightarrow> nat option option" where
  "fold_from_pairs codepoint = pair_search codepoint 0 (length CASE_FOLD_PAIRS)"

definition fold_char :: "nat \<Rightarrow> nat option" where
  "fold_char c =
     (case fold_from_ranges c of
        None \<Rightarrow> None
      | Some (Some m) \<Rightarrow> Some m
      | Some None \<Rightarrow>
          (case fold_from_pairs c of
             None \<Rightarrow> None
           | Some (Some m) \<Rightarrow> Some m
           | Some None \<Rightarrow> Some c))"

fun fold_str :: "rust_str \<Rightarrow> rust_str option" where
  "fold_str [] = Some []"
| "fold_str (c # s) = Option.bind (fold_char c) (\<lambda>m. map_option ((#) m) (fold_str s))"

declare range_search.simps [simp del] pair_search.simps [simp del]

section \<open>What the searches find\<close>

text \<open>The intervals of a list are in order and apart; the sources of the pairs ascend.\<close>

fun apart :: "nat \<Rightarrow> (nat \<times> nat \<times> nat) list \<Rightarrow> bool" where
  "apart n [] = True"
| "apart n ((s, e, m) # rs) \<longleftrightarrow> n \<le> s \<and> s \<le> e \<and> apart (e + 1) rs"

fun ascending :: "nat \<Rightarrow> (nat \<times> nat) list \<Rightarrow> bool" where
  "ascending n [] = True"
| "ascending n ((s, t) # ps) \<longleftrightarrow> n \<le> s \<and> ascending (s + 1) ps"

text \<open>
  No target is a source. Most targets lie strictly between their source and the next one; the
  others, and the images of the ranges, are listed in order and merged with the sources.
\<close>

definition far_targets :: "nat list" where
  "far_targets =
    [0x6B, 0x73, 0xDF, 0xE5, 0xFF, 0x180, 0x195, 0x19A, 0x19B, 0x19E, 0x1BF, 0x1C6, 0x1C9,
      0x1CC, 0x1DD, 0x1F3, 0x23F, 0x240, 0x250, 0x251, 0x252, 0x253, 0x254, 0x256, 0x257, 0x259,
      0x25B, 0x25C, 0x260, 0x261, 0x263, 0x264, 0x265, 0x266, 0x268, 0x269, 0x26A, 0x26B, 0x26C,
      0x26F, 0x271, 0x272, 0x275, 0x27D, 0x280, 0x282, 0x283, 0x287, 0x288, 0x289, 0x28A, 0x28B,
      0x28C, 0x292, 0x29D, 0x29E, 0x390, 0x3AC, 0x3B0, 0x3B2, 0x3B5, 0x3B8, 0x3B9, 0x3BA, 0x3BC,
      0x3C0, 0x3C1, 0x3C6, 0x3C9, 0x3CC, 0x3CD, 0x3CE, 0x3D7, 0x3F2, 0x3F3, 0x432, 0x434, 0x43E,
      0x441, 0x442, 0x44A, 0x463, 0x4CF, 0x1D79, 0x1D7D, 0x1D8E, 0x1E61, 0x1F51, 0x1F53, 0x1F55,
      0x1F57, 0x1F70, 0x1F71, 0x1F76, 0x1F77, 0x1F78, 0x1F79, 0x1F7A, 0x1F7B, 0x1F7C, 0x1F7D,
      0x1FB0, 0x1FB1, 0x1FB3, 0x1FC3, 0x1FD0, 0x1FD1, 0x1FE0, 0x1FE1, 0x1FE5, 0x1FF3, 0x2C65,
      0x2C66, 0x2D27, 0x2D2D, 0xA64B, 0xA794, 0xAB53, 0x105BB]"

definition range_images :: "(nat \<times> nat) list" where
  "range_images =
    [(0x61, 0x7A), (0xE0, 0xF6), (0xF8, 0xFE), (0x37B, 0x37D), (0x3AD, 0x3AF), (0x3B1, 0x3C1),
      (0x3C3, 0x3CB), (0x430, 0x44F), (0x450, 0x45F), (0x561, 0x586), (0x10D0, 0x10FA),
      (0x10FD, 0x10FF), (0x13A0, 0x13EF), (0x13F0, 0x13F5), (0x1F00, 0x1F07), (0x1F10, 0x1F15),
      (0x1F20, 0x1F27), (0x1F30, 0x1F37), (0x1F40, 0x1F45), (0x1F60, 0x1F67), (0x1F72, 0x1F75),
      (0x1F80, 0x1F87), (0x1F90, 0x1F97), (0x1FA0, 0x1FA7), (0x2170, 0x217F), (0x24D0, 0x24E9),
      (0x2C30, 0x2C5F), (0x2D00, 0x2D25), (0xFF41, 0xFF5A), (0x10428, 0x1044F),
      (0x104D8, 0x104FB), (0x10597, 0x105A1), (0x105A3, 0x105B1), (0x105B3, 0x105B9),
      (0x10CC0, 0x10CF2), (0x10D70, 0x10D85), (0x118C0, 0x118DF), (0x16E60, 0x16E7F),
      (0x1E922, 0x1E943)]"

fun near :: "nat list \<Rightarrow> (nat \<times> nat) list \<Rightarrow> bool" where
  "near far [] = True"
| "near far [(s, t)] \<longleftrightarrow> (if s < t then True else t \<in> set far)"
| "near far ((s, t) # (s2, t2) # ps) \<longleftrightarrow>
     (if s < t \<and> t < s2 then near far ((s2, t2) # ps)
      else t \<in> set far \<and> near far ((s2, t2) # ps))"

text \<open>Intervals in order that contain no source.\<close>

fun clear_of :: "(nat \<times> nat) list \<Rightarrow> (nat \<times> nat) list \<Rightarrow> bool" where
  "clear_of [] ps = True"
| "clear_of is [] = True"
| "clear_of ((a, b) # is) ((s, t) # ps) =
     (if s < a then clear_of ((a, b) # is) ps
      else if b < s then clear_of is ((s, t) # ps) else False)"

text \<open>The same for the ranges: a target lies before the first range that ends after its source.\<close>

fun off_ranges :: "nat list \<Rightarrow> (nat \<times> nat) list \<Rightarrow> (nat \<times> nat \<times> nat) list \<Rightarrow> bool" where
  "off_ranges far [] rs = True"
| "off_ranges far ((s, t) # ps) [] =
     (if s < t then off_ranges far ps [] else t \<in> set far \<and> off_ranges far ps [])"
| "off_ranges far ((s, t) # ps) ((a, b, m) # rs) =
     (if b < s then off_ranges far ((s, t) # ps) rs
      else if s < t \<and> t < a then off_ranges far ps ((a, b, m) # rs)
      else t \<in> set far \<and> off_ranges far ps ((a, b, m) # rs))"

text \<open>Congruences that keep the simplifier from descending into the literal lists.\<close>

lemma weak: "near far ps = near far ps" "clear_of is ps = clear_of is ps" "list_all P xs = list_all P xs"
  "ascending n ps = ascending n ps" "apart n rs = apart n rs" "off_ranges far ps rs = off_ranges far ps rs"
  by (rule refl)+

lemma ranges_apart: "apart 0 CASE_FOLD_RANGES"
  by (simp add: CASE_FOLD_RANGES_def)

lemma pairs_ascending: "ascending 0 CASE_FOLD_PAIRS"
  unfolding CASE_FOLD_PAIRS_def by (simp cong: weak)

lemma targets_near: "near far_targets CASE_FOLD_PAIRS"
  unfolding CASE_FOLD_PAIRS_def by (simp cong: weak add: far_targets_def)

lemma far_clear: "clear_of (map (\<lambda>t. (t, t)) far_targets) CASE_FOLD_PAIRS"
  unfolding CASE_FOLD_PAIRS_def far_targets_def list.map by (simp cong: weak)

lemma images_clear: "clear_of range_images CASE_FOLD_PAIRS"
  unfolding CASE_FOLD_PAIRS_def range_images_def by (simp cong: weak)

lemma images_listed: "list_all (\<lambda>(s, e, m). (m, m + (e - s)) \<in> set range_images) CASE_FOLD_RANGES"
  by (simp add: CASE_FOLD_RANGES_def range_images_def)

lemma images_off_ranges:
  "list_all (\<lambda>(s, e, m). list_all (\<lambda>(a, b, _). m + (e - s) < a \<or> b < m) CASE_FOLD_RANGES) CASE_FOLD_RANGES"
  by (simp add: CASE_FOLD_RANGES_def)

lemma targets_off_ranges: "off_ranges far_targets CASE_FOLD_PAIRS CASE_FOLD_RANGES"
  unfolding CASE_FOLD_PAIRS_def CASE_FOLD_RANGES_def by (simp cong: weak add: far_targets_def)

lemma far_off_ranges: "clear_of (map (\<lambda>(s, e, _). (s, e)) CASE_FOLD_RANGES) (map (\<lambda>t. (t, t)) far_targets)"
  unfolding CASE_FOLD_RANGES_def far_targets_def list.map prod.case by (simp cong: weak)

lemma images_scalar:
  "list_all (\<lambda>(s, e, m). m + (e - s) < 0xD800 \<or> 0xE000 \<le> m \<and> m + (e - s) < 0x110000) CASE_FOLD_RANGES"
  by (simp add: CASE_FOLD_RANGES_def)

lemma targets_scalar: "list_all (\<lambda>(_, t). is_scalar t) CASE_FOLD_PAIRS"
  unfolding CASE_FOLD_PAIRS_def by (simp cong: weak add: is_scalar_def)

section \<open>The searches find what is in the table\<close>

lemma apart_bound: "apart n rs \<Longrightarrow> (s, e, m) \<in> set rs \<Longrightarrow> n \<le> s \<and> s \<le> e"
  by (induction n rs rule: apart.induct) force+

lemma apart_nth:
  "apart n rs \<Longrightarrow> i < j \<Longrightarrow> j < length rs \<Longrightarrow> fst (snd (rs ! i)) < fst (rs ! j)"
proof (induction n rs arbitrary: i j rule: apart.induct)
  case (2 n s e m rs)
  then obtain j' where j: "j = Suc j'" "j' < length rs" by (cases j) auto
  show ?case
  proof (cases i)
    case 0
    have "e + 1 \<le> fst (rs ! j')"
      using apart_bound [of "e + 1" rs "fst (rs ! j')" "fst (snd (rs ! j'))" "snd (snd (rs ! j'))"] 2(2) j
      by (auto simp: nth_mem)
    then show ?thesis using 0 j by simp
  next
    case (Suc i')
    then show ?thesis using 2 j by simp
  qed
qed simp

lemma range_search_step:
  "low < high \<Longrightarrow> range_search c low high =
     (if (\<lambda>(s, e, m). c < s) (CASE_FOLD_RANGES ! ((low + high) div 2)) then range_search c low ((low + high) div 2)
      else if (\<lambda>(s, e, m). e < c) (CASE_FOLD_RANGES ! ((low + high) div 2))
      then range_search c ((low + high) div 2 + 1) high
      else (\<lambda>(s, e, m). map_option Some (to_char (m + (c - s)))) (CASE_FOLD_RANGES ! ((low + high) div 2)))"
  by (subst range_search.simps) (simp add: Let_def split: prod.splits)

lemma range_search_end: "\<not> low < high \<Longrightarrow> range_search c low high = Some None"
  by (subst range_search.simps) simp

interpretation range_table: binary_search CASE_FOLD_RANGES "\<lambda>(s, e, m). c < s" "\<lambda>(s, e, m). e < c"
  "range_search c" "\<lambda>(s, e, m). map_option Some (to_char (m + (c - s)))" "Some None" for c
proof unfold_locales
  note R = apart_nth [OF ranges_apart]
  have se: "fst r \<le> fst (snd r)" if "r \<in> set CASE_FOLD_RANGES" for r
    using apart_bound [OF ranges_apart, of "fst r" "fst (snd r)" "snd (snd r)"] that by simp
  fix i j assume ij: "i < j" "j < length CASE_FOLD_RANGES"
  then have lt: "fst (CASE_FOLD_RANGES ! i) \<le> fst (snd (CASE_FOLD_RANGES ! i))"
    "fst (snd (CASE_FOLD_RANGES ! i)) < fst (CASE_FOLD_RANGES ! j)"
    "fst (CASE_FOLD_RANGES ! j) \<le> fst (snd (CASE_FOLD_RANGES ! j))"
    using R [OF ij] by (auto intro!: se)
  show "case CASE_FOLD_RANGES ! j of (s, e, m) \<Rightarrow> c < s"
    if "case CASE_FOLD_RANGES ! i of (s, e, m) \<Rightarrow> c < s"
    using lt that by (auto split: prod.splits)
  show "case CASE_FOLD_RANGES ! i of (s, e, m) \<Rightarrow> e < c"
    if "case CASE_FOLD_RANGES ! j of (s, e, m) \<Rightarrow> e < c"
    using lt that by (auto split: prod.splits)
  show "(case CASE_FOLD_RANGES ! i of (s, e, m) \<Rightarrow> e < c) \<or> (case CASE_FOLD_RANGES ! j of (s, e, m) \<Rightarrow> c < s)"
    using lt by (auto split: prod.splits)
qed (rule range_search_step range_search_end; assumption)+

lemma ascending_bound: "ascending n ps \<Longrightarrow> p \<in> set ps \<Longrightarrow> n \<le> fst p"
  by (induction n ps rule: ascending.induct) force+

lemma ascending_nth: "ascending n ps \<Longrightarrow> i < j \<Longrightarrow> j < length ps \<Longrightarrow> fst (ps ! i) < fst (ps ! j)"
proof (induction n ps arbitrary: i j rule: ascending.induct)
  case (2 n s t ps)
  then obtain j' where j: "j = Suc j'" "j' < length ps" by (cases j) auto
  then have "s + 1 \<le> fst (ps ! j')" using ascending_bound [of "s + 1" ps "ps ! j'"] 2(2) by simp
  then show ?case using 2 j by (cases i) auto
qed simp

lemma pair_search_step:
  "low < high \<Longrightarrow> pair_search c low high =
     (if (\<lambda>(s, t). c < s) (CASE_FOLD_PAIRS ! ((low + high) div 2)) then pair_search c low ((low + high) div 2)
      else if (\<lambda>(s, t). s < c) (CASE_FOLD_PAIRS ! ((low + high) div 2))
      then pair_search c ((low + high) div 2 + 1) high
      else (\<lambda>(s, t). map_option Some (to_char t)) (CASE_FOLD_PAIRS ! ((low + high) div 2)))"
  by (subst pair_search.simps) (simp add: Let_def split: prod.splits)

lemma pair_search_end: "\<not> low < high \<Longrightarrow> pair_search c low high = Some None"
  by (subst pair_search.simps) simp

interpretation pair_table: binary_search CASE_FOLD_PAIRS "\<lambda>(s, t). c < s" "\<lambda>(s, t). s < c"
  "pair_search c" "\<lambda>(s, t). map_option Some (to_char t)" "Some None" for c
proof unfold_locales
  fix i j assume ij: "i < j" "j < length CASE_FOLD_PAIRS"
  note lt = ascending_nth [OF pairs_ascending this]
  show "case CASE_FOLD_PAIRS ! j of (s, t) \<Rightarrow> c < s" if "case CASE_FOLD_PAIRS ! i of (s, t) \<Rightarrow> c < s"
    using lt that by (auto split: prod.splits)
  show "case CASE_FOLD_PAIRS ! i of (s, t) \<Rightarrow> s < c" if "case CASE_FOLD_PAIRS ! j of (s, t) \<Rightarrow> s < c"
    using lt that by (auto split: prod.splits)
  show "(case CASE_FOLD_PAIRS ! i of (s, t) \<Rightarrow> s < c) \<or> (case CASE_FOLD_PAIRS ! j of (s, t) \<Rightarrow> c < s)"
    using lt by (auto split: prod.splits)
qed (rule pair_search_step pair_search_end; assumption)+

section \<open>Folding\<close>

text \<open>The fold the table describes, read from end to end.\<close>

definition table_fold :: "nat \<Rightarrow> nat" where
  "table_fold c =
     (case find (\<lambda>(s, e, _). s \<le> c \<and> c \<le> e) CASE_FOLD_RANGES of
        Some (s, _, m) \<Rightarrow> m + (c - s)
      | None \<Rightarrow> (case map_of CASE_FOLD_PAIRS c of Some t \<Rightarrow> t | None \<Rightarrow> c))"

lemma find_map_of: "map_option snd (find (\<lambda>(s, t). \<not> c < s \<and> \<not> s < c) ps) = map_of ps (c :: nat)"
  by (induction ps) auto

lemma fold_ranges_table:
  "fold_from_ranges c = Some (map_option (\<lambda>(s, _, m). m + (c - s))
     (find (\<lambda>(s, e, _). s \<le> c \<and> c \<le> e) CASE_FOLD_RANGES))"
proof -
  have f: "range_table.found c = (\<lambda>(s, e, _). s \<le> c \<and> c \<le> e)"
    by (auto simp: range_table.found_def fun_eq_iff not_less)
  show ?thesis
  proof (cases "find (\<lambda>(s, e, _). s \<le> c \<and> c \<le> e) CASE_FOLD_RANGES")
    case None
    then show ?thesis by (simp add: fold_from_ranges_def range_table.search_finds f)
  next
    case (Some r)
    obtain s e m where r: "r = (s, e, m)" by (cases r)
    with Some have "(s, e, m) \<in> set CASE_FOLD_RANGES" "s \<le> c" "c \<le> e"
      by (auto simp: find_Some_iff nth_mem dest: sym)
    then have "is_scalar (m + (c - s))"
      using images_scalar by (fastforce simp: list_all_iff is_scalar_def)
    with Some r show ?thesis
      by (simp add: fold_from_ranges_def range_table.search_finds f to_char_def)
  qed
qed

lemma fold_pairs_table: "fold_from_pairs c = Some (map_of CASE_FOLD_PAIRS c)"
proof -
  have f: "pair_table.found c = (\<lambda>(s, t). \<not> c < s \<and> \<not> s < c)"
    by (auto simp: pair_table.found_def fun_eq_iff)
  show ?thesis
  proof (cases "find (\<lambda>(s, t). \<not> c < s \<and> \<not> s < c) CASE_FOLD_PAIRS")
    case None
    then show ?thesis
      using find_map_of [of c CASE_FOLD_PAIRS] by (simp add: fold_from_pairs_def pair_table.search_finds f)
  next
    case (Some p)
    then have "p \<in> set CASE_FOLD_PAIRS" by (auto simp: find_Some_iff intro: nth_mem dest: sym)
    then have "is_scalar (snd p)" using targets_scalar by (auto simp: list_all_iff)
    with Some show ?thesis
      using find_map_of [of c CASE_FOLD_PAIRS]
      by (auto simp: fold_from_pairs_def pair_table.search_finds f to_char_def split: prod.splits)
  qed
qed

lemma fold_char_table: "fold_char c = Some (table_fold c)"
  by (simp add: fold_char_def fold_ranges_table fold_pairs_table table_fold_def split: option.splits prod.splits)


section \<open>Folding twice\<close>

lemma clear_of_sound:
  assumes "clear_of is ps" "ascending m is" "ascending n ps" "(a, b) \<in> set is" "(s, t) \<in> set ps"
  shows "s < a \<or> b < s"
  using assms
proof (induction "is" ps arbitrary: m n rule: clear_of.induct)
  case (3 a0 b0 "is" s0 t0 ps)
  have a: "a0 \<le> a" using ascending_bound [of "a0 + 1" "is" "(a, b)"] 3(4,6) by auto
  have s: "s0 \<le> s" using ascending_bound [of "s0 + 1" ps "(s, t)"] 3(5,7) by auto
  consider "s0 < a0" | "\<not> s0 < a0" "b0 < s0" using 3(3) by (auto split: if_splits)
  then show ?case
  proof cases
    case 1
    show ?thesis
    proof (cases "(s, t) = (s0, t0)")
      case False
      then show ?thesis using 3(1) [OF 1, of m "s0 + 1"] 1 3(3-7) by auto
    qed (use a 1 in auto)
  next
    case 2
    show ?thesis
    proof (cases "(a, b) = (a0, b0)")
      case False
      then show ?thesis using 3(2) [OF 2, of "a0 + 1" n] 2 3(3-7) by auto
    qed (use s 2 in auto)
  qed
qed auto

lemma near_sound:
  assumes "near far ps" "ascending n ps" "(s, t) \<in> set ps"
  shows "t \<in> set far \<or> s < t \<and> (\<forall>p \<in> set ps. fst p \<noteq> t)"
  using assms
proof (induction far ps arbitrary: n rule: near.induct)
  case (3 far s0 t0 s2 t2 ps)
  have asc: "ascending (s0 + 1) ((s2, t2) # ps)" using 3(4) by simp
  have rest: "near far ((s2, t2) # ps)" using 3(3) by (auto split: if_splits)
  have after: "s2 \<le> fst p" if "p \<in> set ((s2, t2) # ps)" for p
    using that ascending_bound [of "s2 + 1" ps p] asc by auto
  show ?case
  proof (cases "(s, t) = (s0, t0)")
    case True
    then show ?thesis using 3(3) after by (fastforce split: if_splits)
  next
    case False
    with 3(5) have mem: "(s, t) \<in> set ((s2, t2) # ps)" by auto
    have IH: "t \<in> set far \<or> s < t \<and> (\<forall>p \<in> set ((s2, t2) # ps). fst p \<noteq> t)"
      using 3(1) [OF _ rest asc mem] 3(2) [OF _ rest asc mem] by blast
    have "s0 < s" using ascending_bound [OF asc mem] by simp
    with IH show ?thesis by auto
  qed
qed (auto split: if_splits)

lemma off_ranges_sound:
  assumes "off_ranges far ps rs" "ascending n ps" "apart k rs" "(s, t) \<in> set ps"
  shows "t \<in> set far \<or> s < t \<and> (\<forall>(a, b, _) \<in> set rs. t < a \<or> b < t)"
  using assms
proof (induction far ps rs arbitrary: n k rule: off_ranges.induct)
  case (2 far s0 t0 ps)
  have "off_ranges far ps []" "ascending (s0 + 1) ps" using 2(3,4) by (auto split: if_splits)
  moreover have "t0 \<in> set far \<or> s0 < t0" using 2(3) by (auto split: if_splits)
  ultimately show ?case using 2(1) [of "s0 + 1" k] 2(2) [of "s0 + 1" k] 2(5,6) by (cases "s0 < t0") auto
next
  case (3 far s0 t0 ps a b m rs)
  have asc: "ascending (s0 + 1) ps" and ap: "apart (b + 1) rs" using 3(5,6) by simp_all
  have s0: "s0 \<le> s" using ascending_bound [OF asc, of "(s, t)"] 3(7) by auto
  show ?case
  proof (cases "b < s0")
    case True
    then have "off_ranges far ((s0, t0) # ps) rs" using 3(4) by simp
    from 3(1) [OF True this 3(5) ap 3(7)] show ?thesis using True s0 by auto
  next
    case False
    have rest: "off_ranges far ps ((a, b, m) # rs)" using 3(4) False by (auto split: if_splits)
    show ?thesis
    proof (cases "(s, t) = (s0, t0)")
      case True
      have "a \<le> x" if "(x, y, z) \<in> set rs" for x y z
        using apart_bound [OF ap that] 3(6) by auto
      then show ?thesis using True 3(4) False by (fastforce split: if_splits)
    next
      case ne: False
      with 3(7) have "(s, t) \<in> set ps" by auto
      then show ?thesis
        using 3(2) [OF False _ rest asc 3(6)] 3(3) [OF False _ rest asc 3(6)] by blast
    qed
  qed
qed simp

lemma further_ascending:
  "ascending 0 (map (\<lambda>t. (t, t)) far_targets)" "ascending 0 range_images"
  "ascending 0 (map (\<lambda>(s, e, _). (s, e)) CASE_FOLD_RANGES)"
  unfolding far_targets_def range_images_def CASE_FOLD_RANGES_def list.map prod.case
  by (simp_all cong: weak)

text \<open>A code point no range and no pair lists is its own fold.\<close>

lemma table_fold_id:
  assumes "\<And>s e m. (s, e, m) \<in> set CASE_FOLD_RANGES \<Longrightarrow> c < s \<or> e < c"
    and "\<And>s t. (s, t) \<in> set CASE_FOLD_PAIRS \<Longrightarrow> s \<noteq> c"
  shows "table_fold c = c"
proof -
  have "find (\<lambda>(s, e, _). s \<le> c \<and> c \<le> e) CASE_FOLD_RANGES = None"
    using assms(1) by (fastforce simp: find_None_iff)
  moreover have "map_of CASE_FOLD_PAIRS c = None"
    using assms(2) map_of_SomeD by (metis not_None_eq)
  ultimately show ?thesis by (simp add: table_fold_def)
qed

lemma far_fixed:
  assumes "c \<in> set far_targets"
  shows "(s, e, m) \<in> set CASE_FOLD_RANGES \<Longrightarrow> c < s \<or> e < c"
    and "(s, t) \<in> set CASE_FOLD_PAIRS \<Longrightarrow> s \<noteq> c"
proof -
  assume "(s, e, m) \<in> set CASE_FOLD_RANGES"
  then have "(s, e) \<in> set (map (\<lambda>(s, e, _). (s, e)) CASE_FOLD_RANGES)" by force
  from clear_of_sound [OF far_off_ranges further_ascending(3,1) this, of c c] assms
  show "c < s \<or> e < c" by auto
next
  assume "(s, t) \<in> set CASE_FOLD_PAIRS"
  from clear_of_sound [OF far_clear further_ascending(1) pairs_ascending _ this, of c c] assms
  show "s \<noteq> c" by auto
qed

lemma target_fixed:
  assumes "(c0, c) \<in> set CASE_FOLD_PAIRS"
  shows "table_fold c = c"
proof (rule table_fold_id)
  show "c < s \<or> e < c" if "(s, e, m) \<in> set CASE_FOLD_RANGES" for s e m
    using off_ranges_sound [OF targets_off_ranges pairs_ascending ranges_apart assms]
      far_fixed(1) [OF _ that] that by fast
  show "s \<noteq> c" if "(s, t) \<in> set CASE_FOLD_PAIRS" for s t
    using near_sound [OF targets_near pairs_ascending assms] far_fixed(2) [OF _ that] that by force
qed

lemma image_fixed:
  assumes r: "(s0, e0, m0) \<in> set CASE_FOLD_RANGES" and c: "m0 \<le> c" "c \<le> m0 + (e0 - s0)"
  shows "table_fold c = c"
proof (rule table_fold_id)
  show "c < s \<or> e < c" if "(s, e, m) \<in> set CASE_FOLD_RANGES" for s e m
    using images_off_ranges r that c unfolding list_all_iff by fastforce
  show "s \<noteq> c" if "(s, t) \<in> set CASE_FOLD_PAIRS" for s t
  proof -
    have "(m0, m0 + (e0 - s0)) \<in> set range_images" using images_listed r by (auto simp: list_all_iff)
    from clear_of_sound [OF images_clear further_ascending(2) pairs_ascending this that] c
    show ?thesis by auto
  qed
qed

lemma table_fold_idem: "table_fold (table_fold c) = table_fold c"
proof (cases "find (\<lambda>(s, e, _). s \<le> c \<and> c \<le> e) CASE_FOLD_RANGES")
  case (Some r)
  obtain s e m where r: "r = (s, e, m)" by (cases r)
  with Some have "(s, e, m) \<in> set CASE_FOLD_RANGES" "s \<le> c" "c \<le> e"
    by (auto simp: find_Some_iff nth_mem dest: sym)
  then have "table_fold (m + (c - s)) = m + (c - s)" by (intro image_fixed [of s e m]) auto
  with Some r show ?thesis by (simp add: table_fold_def [of c])
next
  case None
  show ?thesis
  proof (cases "map_of CASE_FOLD_PAIRS c")
    case (Some t)
    then have "table_fold t = t" by (intro target_fixed [of c]) (rule map_of_SomeD)
    with Some None show ?thesis by (simp add: table_fold_def [of c])
  next
    case none: None
    have "table_fold c = c" by (simp only: table_fold_def None none option.case)
    then show ?thesis by simp
  qed
qed

lemma fold_str_table: "fold_str s = Some (map table_fold s)"
  by (induction s) (simp_all add: fold_char_table)

text \<open>C32. Folding a name never panics, changes each character to what the Unicode table gives for
  it whatever way the binary searches go, and folding the folded name changes nothing.\<close>

theorem fold_correct:
  "fold_str s = Some (map table_fold s) \<and> fold_str (map table_fold s) = Some (map table_fold s)"
  by (simp add: fold_str_table table_fold_idem)

end
