(* ===== verification/Reg_Fragment.thy ===== *)
theory Reg_Fragment
  imports Reg_Fold
begin

text \<open>
  \<open>crates/registry-manual/src/fragment.rs\<close>: the fragments of the registry manual, runs of records
  opened by a fence line, found by their byte offset. Slices of the text are taken by byte offset
  as in the code; a slice outside the text or inside a character is a panic, the value \<open>None\<close>.
\<close>

section \<open>Records\<close>

datatype record_kind = KeyDoc | ValueDoc

record reg_record =
  rr_fence_offset :: nat
  rr_anchor :: rust_str
  rr_canonical :: rust_str
  rr_type :: "rust_str option"
  rr_default :: "rust_str option"
  rr_valid :: "rust_str option"
  rr_applies :: "rust_str option"
  rr_deprecated :: "rust_str option"
  rr_body :: rust_str

record parse_issue =
  issue_line :: nat
  issue_message :: rust_str

text \<open>\<open>fold\<close> never panics, so its string is always there.\<close>

definition fold_text :: "rust_str \<Rightarrow> rust_str" where
  "fold_text s = the (fold_str s)"

definition record_kind :: "reg_record \<Rightarrow> record_kind" where
  "record_kind r =
     (if rr_type r \<noteq> None \<or> rr_default r \<noteq> None \<or> rr_valid r \<noteq> None \<or> rr_applies r \<noteq> None
      then ValueDoc else KeyDoc)"

definition summary :: "reg_record \<Rightarrow> rust_str" where
  "summary r = (case find (\<lambda>l. l \<noteq> []) (map trim (lines (rr_body r))) of Some l \<Rightarrow> l | None \<Rightarrow> [])"

text \<open>\<open>is_char_boundary(i)\<close> and the byte at an offset of the UTF-8 form.\<close>

definition is_char_boundary :: "nat \<Rightarrow> rust_str \<Rightarrow> bool" where
  "is_char_boundary i s \<longleftrightarrow> split_bytes i s \<noteq> None"

definition rsplit_once :: "'a \<Rightarrow> 'a list \<Rightarrow> ('a list \<times> 'a list) option" where
  "rsplit_once c s = map_option (\<lambda>(a, b). (rev b, rev a)) (split_once c (rev s))"

definition value_name :: "reg_record \<Rightarrow> rust_str \<Rightarrow> rust_str option" where
  "value_name r key_canonical =
     (let c = rr_canonical r; k = str_len key_canonical; prefix_len = k + 1 in
      if prefix_len < str_len c \<and> is_char_boundary k c \<and> is_char_boundary prefix_len c
        \<and> map_option fold_text (str_get 0 k c) = Some (fold_text key_canonical)
        \<and> utf8 c ! k = 0x20
      then str_get prefix_len (str_len c) c
      else (case rsplit_once 32 c of Some (_, v) \<Rightarrow> Some v | None \<Rightarrow> Some c))"

definition expected_anchor :: "reg_record \<Rightarrow> rust_str" where
  "expected_anchor r = fold_text (rr_canonical r)"

section \<open>Fences\<close>

record fence =
  fn_offset :: nat
  fn_line :: nat
  fn_anchor :: rust_str

definition fence_anchor :: "rust_str \<Rightarrow> rust_str option" where
  "fence_anchor line =
     Option.bind (strip_prefix (lit ''---'') line) (\<lambda>rest.
     Option.bind (strip_prefix (lit '' '') rest) (\<lambda>rest.
       let a = trim rest in if a = [] then None else Some a))"

definition line_spans :: "rust_str \<Rightarrow> (nat \<times> rust_str) list" where
  "line_spans text = map (\<lambda>(i, l). (i + 1, l)) (List.enumerate 0 (split_on 10 text))"

fun find_fences :: "nat \<Rightarrow> (nat \<times> rust_str) list \<Rightarrow> fence list" where
  "find_fences offset [] = []"
| "find_fences offset ((line_no, line) # spans) =
     (case fence_anchor line of
        Some a \<Rightarrow> [\<lparr>fn_offset = offset, fn_line = line_no, fn_anchor = a\<rparr>] | None \<Rightarrow> [])
     @ find_fences (offset + str_len line + 1) spans"

section \<open>Headers\<close>

fun split_header_loop :: "rust_str \<Rightarrow> nat \<Rightarrow> rust_str list \<Rightarrow> (rust_str \<times> rust_str) option" where
  "split_header_loop after idx [] = Some (after, [])"
| "split_header_loop after idx (line # pieces) =
     (let trimmed = (case strip_suffix [10] line of Some r \<Rightarrow> r | None \<Rightarrow> line);
          trimmed = (case strip_suffix [13] trimmed of Some r \<Rightarrow> r | None \<Rightarrow> trimmed) in
      if trimmed = [] then
        Option.bind (str_get 0 idx after) (\<lambda>header.
          map_option (Pair header) (str_get (idx + str_len line) (str_len after) after))
      else split_header_loop after (idx + str_len line) pieces)"

definition split_header_body :: "rust_str \<Rightarrow> (rust_str \<times> rust_str) option" where
  "split_header_body after = split_header_loop after 0 (split_inclusive 10 after)"

record reg_header =
  h_canonical :: "rust_str option"
  h_type :: "rust_str option"
  h_default :: "rust_str option"
  h_valid :: "rust_str option"
  h_applies :: "rust_str option"
  h_deprecated :: "rust_str option"

definition header_default :: reg_header where
  "header_default = \<lparr>h_canonical = None, h_type = None, h_default = None, h_valid = None,
     h_applies = None, h_deprecated = None\<rparr>"

definition header_line :: "reg_header \<Rightarrow> rust_str \<Rightarrow> reg_header" where
  "header_line h line =
     (let line = trim line in
      if line = [] then h
      else case split_once 58 line of
        None \<Rightarrow> h
      | Some (key, v) \<Rightarrow>
          let v = trim v; key = to_ascii_lowercase (trim key) in
          if key = lit ''canonical'' then h\<lparr>h_canonical := Some v\<rparr>
          else if key = lit ''type'' then h\<lparr>h_type := Some v\<rparr>
          else if key = lit ''default'' then h\<lparr>h_default := Some v\<rparr>
          else if key = lit ''valid'' then h\<lparr>h_valid := Some v\<rparr>
          else if key = lit ''applies'' then h\<lparr>h_applies := Some v\<rparr>
          else if key = lit ''deprecated'' then h\<lparr>h_deprecated := Some v\<rparr>
          else h)"

definition parse_header :: "rust_str \<Rightarrow> reg_header" where
  "parse_header text = foldl header_line header_default (lines text)"

section \<open>Parsing\<close>

fun parse_blocks :: "rust_str \<Rightarrow> fence list \<Rightarrow> (reg_record list \<times> parse_issue list) option" where
  "parse_blocks text [] = Some ([], [])"
| "parse_blocks text (f # fs) =
     (let record_end = (case fs of [] \<Rightarrow> str_len text | g # _ \<Rightarrow> fn_offset g) in
      Option.bind (str_get (fn_offset f) record_end text) (\<lambda>block.
      let after_fence = (case split_once 10 block of Some (_, b) \<Rightarrow> b | None \<Rightarrow> []) in
      Option.bind (split_header_body after_fence) (\<lambda>(header_text, b).
      let h = parse_header header_text in
      map_option (\<lambda>(records, issues).
          case h_canonical h of
            None \<Rightarrow> (records, \<lparr>issue_line = fn_line f, issue_message = lit ''record has no `canonical:` field''\<rparr> # issues)
          | Some c \<Rightarrow>
              (\<lparr>rr_fence_offset = fn_offset f, rr_anchor = fn_anchor f, rr_canonical = c, rr_type = h_type h,
                rr_default = h_default h, rr_valid = h_valid h, rr_applies = h_applies h,
                rr_deprecated = h_deprecated h, rr_body = trim_with (\<lambda>c. c = 10) b\<rparr> # records, issues))
        (parse_blocks text fs))))"

definition parse_fragment :: "rust_str \<Rightarrow> (reg_record list \<times> parse_issue list) option" where
  "parse_fragment text = parse_blocks text (find_fences 0 (line_spans text))"

section \<open>Fragments by lines\<close>

text \<open>The text after a fence: the lines up to the next fence, or to the end of the text.\<close>

definition unlines :: "rust_str list \<Rightarrow> rust_str" where
  "unlines ls = concat (map (\<lambda>l. l @ [10]) ls)"

lemma unlines_simps [simp]: "unlines [] = []" "unlines (l # ls) = l @ 10 # unlines ls"
  "unlines (ls @ ms) = unlines ls @ unlines ms"
  by (simp_all add: unlines_def)

lemma join_unlines: "ms \<noteq> [] \<Longrightarrow> join_with [10] (ls @ ms) = unlines ls @ join_with [10] ms"
proof (induction ls)
  case (Cons l ls)
  then show ?case by (cases "ls @ ms") auto
qed simp

definition no_fence :: "rust_str \<Rightarrow> bool" where
  "no_fence l \<longleftrightarrow> fence_anchor l = None"

definition after_text :: "rust_str list \<Rightarrow> rust_str" where
  "after_text ls = (let blk = takeWhile no_fence ls in if blk = ls then join_with [10] ls else unlines blk)"

definition header_body :: "rust_str \<Rightarrow> rust_str \<times> rust_str" where
  "header_body after = the (split_header_body after)"

definition block_record :: "nat \<Rightarrow> rust_str \<Rightarrow> rust_str \<Rightarrow> reg_record option" where
  "block_record offset a after =
     (let (ht, b) = header_body after; h = parse_header ht in
      map_option (\<lambda>c. \<lparr>rr_fence_offset = offset, rr_anchor = a, rr_canonical = c, rr_type = h_type h,
        rr_default = h_default h, rr_valid = h_valid h, rr_applies = h_applies h,
        rr_deprecated = h_deprecated h, rr_body = trim_with (\<lambda>c. c = 10) b\<rparr>) (h_canonical h))"

definition no_canonical :: "nat \<Rightarrow> parse_issue" where
  "no_canonical line = \<lparr>issue_line = line, issue_message = lit ''record has no `canonical:` field''\<rparr>"

fun parse_lines :: "nat \<Rightarrow> nat \<Rightarrow> rust_str list \<Rightarrow> reg_record list \<times> parse_issue list" where
  "parse_lines offset no [] = ([], [])"
| "parse_lines offset no (l # ls) =
     (let (rs, iss) = parse_lines (offset + str_len l + 1) (no + 1) ls in
      case fence_anchor l of
        None \<Rightarrow> (rs, iss)
      | Some a \<Rightarrow>
          (case block_record offset a (after_text ls) of
             None \<Rightarrow> (rs, no_canonical no # iss)
           | Some r \<Rightarrow> (r # rs, iss)))"

lemma split_header_loop_total:
  "\<exists>r. split_header_loop (consumed @ concat pieces) (str_len consumed) pieces = Some r"
proof (induction pieces arbitrary: consumed)
  case (Cons line pieces)
  have "str_get 0 (str_len consumed) (consumed @ line @ concat pieces) = Some consumed"
    using str_get_mid [of "[]" consumed "line @ concat pieces"] by simp
  moreover have "str_get (str_len consumed + str_len line)
      (str_len (consumed @ line @ concat pieces)) (consumed @ line @ concat pieces) = Some (concat pieces)"
    using str_get_mid [of "consumed @ line" "concat pieces" "[]"] by (simp add: add.assoc)
  ultimately show ?case
    using Cons [of "consumed @ line"] by (simp add: Let_def)
qed simp

lemma split_header_body_total: "split_header_body after = Some (header_body after)"
  using split_header_loop_total [of "[]" "split_inclusive 10 after"]
  by (auto simp: split_header_body_def header_body_def concat_split_inclusive)

text \<open>The next fence found is that of the first line that is one.\<close>

definition spans :: "nat \<Rightarrow> rust_str list \<Rightarrow> (nat \<times> rust_str) list" where
  "spans no ls = map (\<lambda>(i, l). (i + 1, l)) (List.enumerate no ls)"

lemma spans_simps [simp]: "spans no [] = []" "spans no (l # ls) = (no + 1, l) # spans (no + 1) ls"
  by (simp_all add: spans_def)

lemma next_fence:
  "(case find_fences (str_len pre) (spans no ls) of [] \<Rightarrow> str_len pre + str_len (join_with [10] ls) | g # _ \<Rightarrow> fn_offset g)
     = str_len pre + str_len (after_text ls)"
proof (induction ls arbitrary: pre no)
  case (Cons l ls)
  show ?case
  proof (cases "fence_anchor l")
    case (Some a)
    then show ?thesis by (simp add: after_text_def no_fence_def)
  next
    case None
    show ?thesis
    proof (cases "ls = []")
      case True
      with None show ?thesis by (simp add: after_text_def no_fence_def)
    next
      case False
      then have "join_with [10] (l # ls) = l @ 10 # join_with [10] ls" by (cases ls) auto
      moreover have "after_text (l # ls) = l @ 10 # after_text ls"
        using None False calculation by (auto simp: after_text_def no_fence_def Let_def)
      ultimately show ?thesis
        using Cons [of "pre @ l @ [10]" "no + 1"] None by (simp add: utf8_len_def add.assoc cong: list.case_cong)
    qed
  qed
qed (simp add: after_text_def)

lemma after_text_prefix: "\<exists>r. join_with [10] ls = after_text ls @ r"
proof (cases "dropWhile no_fence ls = []")
  case False
  then have "takeWhile no_fence ls \<noteq> ls" by (auto simp: takeWhile_eq_all_conv dropWhile_eq_Nil_conv)
  with False show ?thesis
    using join_unlines [OF False, of "takeWhile no_fence ls"] by (auto simp: after_text_def)
next
  case True
  then have "takeWhile no_fence ls = ls" by (auto simp: takeWhile_eq_all_conv dropWhile_eq_Nil_conv)
  then show ?thesis by (simp add: after_text_def)
qed

lemma split_once_at: "c \<notin> set a \<Longrightarrow> split_once c (a @ c # b) = Some (a, b)"
  by (subst split_once_def, subst takeWhile_append2, force, subst dropWhile_append2) auto

lemma split_once_none: "c \<notin> set a \<Longrightarrow> split_once c a = None"
  by (simp add: split_once_def)

lemma parse_blocks_step:
  assumes "(case fs of [] \<Rightarrow> str_len text | g # _ \<Rightarrow> fn_offset g) = e"
    and "str_get (fn_offset f) e text = Some block"
    and "(case split_once 10 block of Some (_, b) \<Rightarrow> b | None \<Rightarrow> []) = after"
    and "parse_blocks text fs = Some (rs, iss)"
  shows "parse_blocks text (f # fs) = Some
     (case block_record (fn_offset f) (fn_anchor f) after of
        None \<Rightarrow> (rs, no_canonical (fn_line f) # iss) | Some r \<Rightarrow> (r # rs, iss))"
  using assms
  by (simp add: split_header_body_total block_record_def no_canonical_def Let_def
      split: prod.splits option.splits)

lemma parse_blocks_lines:
  "\<forall>l \<in> set ls. 10 \<notin> set l \<Longrightarrow> parse_blocks (pre @ join_with [10] ls) (find_fences (str_len pre) (spans no ls))
     = Some (parse_lines (str_len pre) (no + 1) ls)"
proof (induction ls arbitrary: pre no)
  case (Cons l ls)
  let ?text = "pre @ join_with [10] (l # ls)" and ?fs = "find_fences (str_len pre + str_len l + 1) (spans (no + 1) ls)"
  define nx where "nx = (if ls = [] then l else l @ 10 # after_text ls)"
  have IH: "parse_blocks ?text ?fs = Some (parse_lines (str_len pre + str_len l + 1) (no + 1 + 1) ls)"
  proof (cases "ls = []")
    case False
    then have "?text = (pre @ l @ [10]) @ join_with [10] ls" by (cases ls) auto
    then show ?thesis using Cons.IH [of "pre @ l @ [10]" "no + 1"] Cons.prems by (simp add: utf8_len_def add.assoc)
  qed simp
  show ?case
  proof (cases "fence_anchor l")
    case None
    with IH show ?thesis by (simp add: Let_def split: prod.splits)
  next
    case (Some a)
    have e: "(case ?fs of [] \<Rightarrow> str_len ?text | g # _ \<Rightarrow> fn_offset g) = str_len pre + str_len nx"
    proof (cases "ls = []")
      case False
      then have "str_len ?text = str_len (pre @ l @ [10]) + str_len (join_with [10] ls)" by (cases ls) auto
      with next_fence [where pre = "pre @ l @ [10]" and no = "no + 1" and ls = ls] False show ?thesis
        by (simp add: nx_def utf8_len_def add.assoc cong: list.case_cong)
    qed (simp add: nx_def)
    obtain r where "join_with [10] (l # ls) = nx @ r"
      using after_text_prefix [of ls] by (cases ls) (auto simp: nx_def)
    then have blk: "str_get (str_len pre) (str_len pre + str_len nx) ?text = Some nx"
      using str_get_mid [of pre nx r] by simp
    have "10 \<notin> set l" using Cons.prems by simp
    then have aft: "(case split_once 10 nx of Some (_, b) \<Rightarrow> b | None \<Rightarrow> []) = after_text ls"
      by (cases "ls = []") (simp_all add: nx_def split_once_at split_once_none after_text_def)
    show ?thesis
      using parse_blocks_step [where f = "\<lparr>fn_offset = str_len pre, fn_line = no + 1, fn_anchor = a\<rparr>",
          OF e _ aft] blk IH Some
      by (auto simp: Let_def split: prod.splits option.splits)
  qed
qed simp

lemma parse_fragment_lines: "parse_fragment text = Some (parse_lines 0 1 (split_on 10 text))"
  using parse_blocks_lines [of "split_on 10 text" "[]" 0]
  by (auto simp: parse_fragment_def line_spans_def spans_def join_split dest: split_on_fields)

end
