(* ===== verification/Reg_Fmt.thy ===== *)
theory Reg_Fmt
  imports Reg_Fragment "HOL-Library.Multiset"
begin

text \<open>
  \<open>src/uu/regman/src/cmd/fmt.rs\<close> and \<open>lint.rs\<close>: baking the folded anchors onto the fence lines of
  a fragment, and checking them. Replacing a byte range outside the text or inside a character is a
  panic, the value \<open>None\<close>.
\<close>

section \<open>Baking anchors\<close>

text \<open>The byte range of a record's fence, without its line ending, and what replaces it.\<close>

definition fence_edit :: "rust_str \<Rightarrow> reg_record \<Rightarrow> (nat \<times> nat \<times> rust_str) option" where
  "fence_edit text r =
     map_option (\<lambda>tail.
         let line_end =
               (if 10 \<notin> set tail then str_len text
                else let i = str_len (takeWhile (\<lambda>c. c \<noteq> 10) tail); stop = rr_fence_offset r + i in
                  if 0 < i \<and> utf8 text ! (stop - 1) = 0x0D then stop - 1 else stop)
         in (rr_fence_offset r, line_end, lit ''--- '' @ expected_anchor r))
       (str_get (rr_fence_offset r) (str_len text) text)"

definition replace_range :: "nat \<Rightarrow> nat \<Rightarrow> rust_str \<Rightarrow> rust_str \<Rightarrow> rust_str option" where
  "replace_range start stop replacement out =
     (if stop < start then None
      else Option.bind (str_get 0 start out) (\<lambda>a.
        map_option (\<lambda>b. a @ replacement @ b) (str_get stop (str_len out) out)))"

fun apply_edits :: "(nat \<times> nat \<times> rust_str) list \<Rightarrow> rust_str \<Rightarrow> rust_str option" where
  "apply_edits [] out = Some out"
| "apply_edits ((start, stop, replacement) # edits) out =
     Option.bind (replace_range start stop replacement out) (apply_edits edits)"

definition bake :: "rust_str \<Rightarrow> (rust_str \<times> parse_issue list) option" where
  "bake text =
     Option.bind (parse_fragment text) (\<lambda>(records, issues).
     Option.bind (those (map (fence_edit text) records)) (\<lambda>edits.
     map_option (\<lambda>out. (out, issues)) (apply_edits (sort_key (\<lambda>e. - int (fst e)) edits) text)))"

section \<open>Checking anchors\<close>

definition issue_text :: "parse_issue \<Rightarrow> rust_str" where
  "issue_text i = lit ''line '' @ fmt_dec (issue_line i) @ lit '': '' @ issue_message i"

definition lint_text :: "rust_str \<Rightarrow> rust_str list option" where
  "lint_text text =
     map_option (\<lambda>(records, issues).
         map issue_text issues
         @ concat (map (\<lambda>r. let expected = expected_anchor r in
             if rr_anchor r \<noteq> expected then
               [lit ''anchor for `'' @ rr_canonical r @ lit ''`: fence has `'' @ rr_anchor r
                @ lit ''`, expected `'' @ expected @ lit ''` (run `regman fmt`)'']
             else []) records))
       (parse_fragment text)"

section \<open>Folding keeps the white space\<close>

lemma no_white_target: "list_all (\<lambda>(_, t). \<not> is_whitespace t) CASE_FOLD_PAIRS"
  unfolding CASE_FOLD_PAIRS_def by (simp cong: weak add: is_whitespace_def)

text \<open>The ranges of white space.\<close>

definition white_ranges :: "(nat \<times> nat) list" where
  "white_ranges = [(9, 13), (32, 32), (0x85, 0x85), (0xA0, 0xA0), (0x1680, 0x1680), (0x2000, 0x200A),
     (0x2028, 0x2029), (0x202F, 0x202F), (0x205F, 0x205F), (0x3000, 0x3000)]"

lemma white_in_range: "is_whitespace c \<Longrightarrow> \<exists>(a, b) \<in> set white_ranges. a \<le> c \<and> c \<le> b"
  unfolding is_whitespace_def white_ranges_def by (elim disjE) simp_all

lemma no_white_image:
  "list_all (\<lambda>(s, e, m). list_all (\<lambda>(a, b). m + (e - s) < a \<or> b < m) white_ranges) CASE_FOLD_RANGES"
  unfolding CASE_FOLD_RANGES_def white_ranges_def by simp

lemma image_not_white:
  assumes "(s, e, m) \<in> set CASE_FOLD_RANGES" "m \<le> v" "v \<le> m + (e - s)"
  shows "\<not> is_whitespace v"
proof
  assume "is_whitespace v"
  then obtain a b where "(a, b) \<in> set white_ranges" "a \<le> v" "v \<le> b"
    using white_in_range [of v] by blast
  moreover have "list_all (\<lambda>(a, b). m + (e - s) < a \<or> b < m) white_ranges"
    using bspec [OF iffD1 [OF list_all_iff no_white_image] assms(1)] by (simp only: prod.case)
  ultimately show False using assms(2,3) by (force simp: list_all_iff)
qed

lemma table_fold_white:
  assumes "is_whitespace (table_fold c)"
  shows "table_fold c = c"
proof (cases "find (\<lambda>(s, e, _). s \<le> c \<and> c \<le> e) CASE_FOLD_RANGES")
  case (Some r)
  obtain s e m where r: "r = (s, e, m)" by (cases r)
  with Some have "(s, e, m) \<in> set CASE_FOLD_RANGES" "s \<le> c" "c \<le> e"
    by (auto simp: find_Some_iff nth_mem dest: sym)
  then have "\<not> is_whitespace (m + (c - s))"
    by (intro image_not_white [of s e m]) auto
  with Some r assms show ?thesis by (simp add: table_fold_def)
next
  case None
  show ?thesis
  proof (cases "map_of CASE_FOLD_PAIRS c")
    case (Some t)
    then have "\<not> is_whitespace t" using no_white_target by (auto simp: list_all_iff dest: map_of_SomeD)
    then show ?thesis using Some None assms by (simp only: table_fold_def option.case)
  next
    case none: None
    show ?thesis by (simp only: table_fold_def None none option.case)
  qed
qed

lemma fold_text_map: "fold_text s = map table_fold s"
  by (simp add: fold_text_def fold_str_table)

text \<open>Text that \<open>trim\<close> leaves alone.\<close>

definition trimmed :: "rust_str \<Rightarrow> bool" where
  "trimmed s \<longleftrightarrow> s = [] \<or> \<not> is_whitespace (hd s) \<and> \<not> is_whitespace (last s)"

lemma hd_dropWhile_not: "dropWhile p s \<noteq> [] \<Longrightarrow> \<not> p (hd (dropWhile p s))"
  by (rule hd_dropWhile)

lemma trimmed_trim: "trimmed (trim s)"
proof -
  define u where "u = dropWhile is_whitespace s"
  have t: "trim s = rev (dropWhile is_whitespace (rev u))" by (simp add: trim_def trim_with_def u_def)
  show ?thesis
  proof (cases "trim s = []")
    case False
    then have "u \<noteq> []" by (auto simp: t)
    then have "\<not> is_whitespace (hd u)" unfolding u_def by (rule hd_dropWhile)
    moreover have "\<exists>w. u = trim s @ w"
      unfolding t by (metis append_Nil rev_append rev_rev_ident takeWhile_dropWhile_id)
    ultimately have "\<not> is_whitespace (hd (trim s))" using False by auto
    moreover have "\<not> is_whitespace (last (trim s))"
      using False unfolding t by (simp add: last_rev hd_dropWhile)
    ultimately show ?thesis by (simp add: trimmed_def)
  qed (simp add: trimmed_def)
qed

lemma not_white_fold: "\<not> is_whitespace c \<Longrightarrow> \<not> is_whitespace (table_fold c)"
  by (metis table_fold_white)

lemma trimmed_fold: "trimmed s \<Longrightarrow> trimmed (fold_text s)"
  by (auto simp: trimmed_def fold_text_map hd_map last_map dest: not_white_fold)

lemma trim_trimmed_cr: "trimmed s \<Longrightarrow> s \<noteq> [] \<Longrightarrow> set w \<subseteq> {13} \<Longrightarrow> trim (s @ w) = s"
proof -
  assume s: "trimmed s" "s \<noteq> []" and w: "set w \<subseteq> {13}"
  have "dropWhile is_whitespace (s @ w) = s @ w" using s by (cases s) (auto simp: trimmed_def)
  moreover have "dropWhile is_whitespace (rev w @ rev s) = dropWhile is_whitespace (rev s)"
    using w by (intro dropWhile_append2) (auto simp: is_whitespace_def)
  moreover have "dropWhile is_whitespace (rev s) = rev s"
    using s by (simp add: trimmed_def dropWhile_eq_self_iff hd_rev)
  ultimately show ?thesis by (simp add: trim_def trim_with_def)
qed

text \<open>A fence that was baked is a fence for the folded name.\<close>

lemma fence_anchor_baked:
  "trimmed c \<Longrightarrow> c \<noteq> [] \<Longrightarrow> set w \<subseteq> {13} \<Longrightarrow>
     fence_anchor (lit ''--- '' @ fold_text c @ w) = Some (fold_text c)"
  using trim_trimmed_cr [OF trimmed_fold [of c], of w]
  by (auto simp: fence_anchor_def strip_prefix_def lit_def fold_text_map)

section \<open>Canonical names\<close>

lemma strip_cr_subset: "set (strip_cr l) \<subseteq> set l"
  by (auto simp: strip_cr_def strip_suffix_def dest: in_set_takeD split: if_splits)

lemma lines_no_newline: "l \<in> set (lines s) \<Longrightarrow> 10 \<notin> set l"
proof -
  assume "l \<in> set (lines s)"
  then consider f where "f \<in> set (butlast (split_on 10 s))" "l = strip_cr f" | "l = last (split_on 10 s)"
    by (auto simp: lines_def Let_def split: if_splits)
  then show ?thesis
  proof cases
    case 1
    then show ?thesis
      using split_on_fields [OF in_set_butlastD [OF 1(1)]] subsetD [OF strip_cr_subset [of f]] by simp blast
  qed (use split_on_fields [of _ 10 s] in simp)
qed

lemma trim_subset: "set (trim s) \<subseteq> set s"
  by (auto simp: trim_def trim_with_def dest!: set_dropWhileD)

lemma split_once_subset: "split_once c s = Some (a, b) \<Longrightarrow> set b \<subseteq> set s"
  by (auto simp: split_once_def split: if_splits dest!: list.set_sel(2) [rotated] set_dropWhileD)

definition name_text :: "rust_str \<Rightarrow> bool" where
  "name_text c \<longleftrightarrow> trimmed c \<and> 10 \<notin> set c"

lemma name_text_value: "10 \<notin> set l \<Longrightarrow> split_once 58 (trim l) = Some (k, v) \<Longrightarrow> name_text (trim v)"
  using trim_subset [of l] trim_subset [of v] split_once_subset [of 58 "trim l" k v]
  by (auto simp: name_text_def trimmed_trim)

lemma header_line_canonical:
  assumes "h_canonical (header_line h l) = Some c"
  shows "h_canonical h = Some c \<or> (\<exists>k v. split_once 58 (trim l) = Some (k, v) \<and> c = trim v)"
proof (cases "split_once 58 (trim l)")
  case None
  with assms show ?thesis by (simp add: header_line_def Let_def split: if_splits)
next
  case (Some p)
  obtain k v where "p = (k, v)" by (cases p)
  with Some assms show ?thesis by (auto simp: header_line_def Let_def split: if_splits)
qed

lemma parse_header_canonical:
  assumes "h_canonical (parse_header t) = Some c"
  shows "name_text c"
proof -
  have "\<forall>l \<in> set ls. 10 \<notin> set l \<Longrightarrow> (\<forall>c. h_canonical h = Some c \<longrightarrow> name_text c)
      \<Longrightarrow> h_canonical (foldl header_line h ls) = Some c \<Longrightarrow> name_text c" for ls h
  proof (induction ls arbitrary: h)
    case (Cons l ls)
    then show ?case
      using name_text_value [of l] by (intro Cons.IH [of "header_line h l"]) (auto dest: header_line_canonical)
  qed simp
  from this [of "lines t" header_default] assms show ?thesis
    by (auto simp: parse_header_def header_default_def lines_no_newline)
qed

lemma block_record_name: "block_record off a t = Some r \<Longrightarrow> name_text (rr_canonical r)"
  by (auto simp: block_record_def Let_def split: prod.splits dest: parse_header_canonical)

lemma block_record_parts:
  "block_record off a t = map_option (\<lambda>r. r\<lparr>rr_fence_offset := off, rr_anchor := a\<rparr>) (block_record 0 [] t)"
  by (simp add: block_record_def Let_def option.map_comp comp_def split: prod.splits)

lemma block_record_last: "block_record off a (after_text []) = None"
  by (simp add: block_record_def after_text_def header_body_def split_header_body_def parse_header_def
      lines_def header_default_def)

section \<open>Baking by lines\<close>

definition baked_line :: "rust_str \<Rightarrow> rust_str \<Rightarrow> rust_str" where
  "baked_line l c = lit ''--- '' @ fold_text c @ (if l \<noteq> [] \<and> last l = 13 then [13] else [])"

definition record_after :: "rust_str \<Rightarrow> rust_str list \<Rightarrow> reg_record option" where
  "record_after l ls = (if no_fence l then None else block_record 0 [] (after_text ls))"

fun bake_lines :: "rust_str list \<Rightarrow> rust_str list" where
  "bake_lines [] = []"
| "bake_lines (l # ls) =
     (case record_after l ls of None \<Rightarrow> l | Some r \<Rightarrow> baked_line l (rr_canonical r)) # bake_lines ls"

fun line_edits :: "nat \<Rightarrow> rust_str list \<Rightarrow> (nat \<times> nat \<times> rust_str) list" where
  "line_edits off [] = []"
| "line_edits off (l # ls) =
     (case record_after l ls of None \<Rightarrow> [] | Some r \<Rightarrow>
        [(off, off + str_len (if last l = 13 then butlast l else l), lit ''--- '' @ fold_text (rr_canonical r))])
     @ line_edits (off + str_len l + 1) ls"

lemma last_utf8: "l \<noteq> [] \<Longrightarrow> last (utf8 l) = 0x0D \<longleftrightarrow> last l = 13"
proof (induction l)
  case (Cons c l)
  have cont: "(of_nat (0x80 + n mod 0x40) :: u8) \<noteq> 0x0D" for n
  proof -
    have "unat (of_nat (0x80 + n mod 0x40) :: u8) = 0x80 + n mod 0x40"
      using mod_64_bound [of n] by (intro unat_of_nat_u8) linarith
    then show ?thesis by (simp add: word_unat_eq_iff)
  qed
  show ?case
  proof (cases "l = []")
    case True
    have "c < 0x80 \<Longrightarrow> (of_nat c :: u8) = 0x0D \<longleftrightarrow> c = 13"
      using unat_of_nat_u8 [of c] by (auto simp: word_unat_eq_iff)
    with True cont [of c] show ?thesis by (auto simp: utf8_char_def)
  next
    case False
    then have "utf8 l \<noteq> []" by (cases l) auto
    with False Cons show ?thesis by simp
  qed
qed simp

lemma parse_lines_Cons:
  "parse_lines off n (l # ls) =
     (let (rs, iss) = parse_lines (off + str_len l + 1) (n + 1) ls in
      if no_fence l then (rs, iss)
      else case record_after l ls of
        None \<Rightarrow> (rs, no_canonical n # iss)
      | Some r \<Rightarrow> (r\<lparr>rr_fence_offset := off, rr_anchor := the (fence_anchor l)\<rparr> # rs, iss))"
  by (cases "fence_anchor l")
    (simp_all add: record_after_def no_fence_def block_record_parts [of off] Let_def split: prod.splits option.splits)

declare parse_lines.simps(2) [simp del]

lemma fst_parse_Cons:
  "fst (parse_lines off n (l # ls)) =
     (case record_after l ls of None \<Rightarrow> []
      | Some r \<Rightarrow> [r\<lparr>rr_fence_offset := off, rr_anchor := the (fence_anchor l)\<rparr>])
     @ fst (parse_lines (off + str_len l + 1) (n + 1) ls)"
  by (simp add: parse_lines_Cons record_after_def split: prod.splits option.splits)

lemma snd_parse_Cons:
  "snd (parse_lines off n (l # ls)) =
     (if no_fence l \<or> record_after l ls \<noteq> None then [] else [no_canonical n])
     @ snd (parse_lines (off + str_len l + 1) (n + 1) ls)"
  by (simp add: parse_lines_Cons record_after_def split: prod.splits option.splits)

lemma record_after_facts:
  assumes "record_after l ls = Some r"
  shows "\<not> no_fence l" "ls \<noteq> []" "name_text (rr_canonical r)" "l \<noteq> []"
proof -
  show "\<not> no_fence l" "name_text (rr_canonical r)"
    using assms by (auto simp: record_after_def block_record_name split: if_splits)
  show "ls \<noteq> []" using assms by (auto simp: record_after_def block_record_last split: if_splits)
  show "l \<noteq> []"
    using \<open>\<not> no_fence l\<close> by (auto simp: no_fence_def fence_anchor_def strip_prefix_def lit_def)
qed

lemma utf8_nonempty: "l \<noteq> [] \<Longrightarrow> utf8 l \<noteq> []"
  by (cases l) auto

lemma nth_mid_last: "x \<noteq> [] \<Longrightarrow> (a @ x @ b) ! (length a + length x - 1) = last x"
  by (cases x rule: rev_cases) (simp_all add: nth_append)

lemma edits_of_lines:
  "\<forall>l \<in> set ls. 10 \<notin> set l \<Longrightarrow> text = pre @ join_with [10] ls \<Longrightarrow>
   those (map (fence_edit text) (fst (parse_lines (str_len pre) n ls))) = Some (line_edits (str_len pre) ls)"
proof (induction ls arbitrary: pre n)
  case (Cons l ls)
  show ?case
  proof (cases "ls = []")
    case True
    then have "record_after l ls = None" using record_after_facts(2) by fastforce
    with True show ?thesis by (simp add: fst_parse_Cons)
  next
    case False
    then have t: "text = pre @ l @ 10 # join_with [10] ls" using Cons.prems(2) by (cases ls) auto
    have IH: "those (map (fence_edit text) (fst (parse_lines (str_len pre + str_len l + 1) (n + 1) ls)))
        = Some (line_edits (str_len pre + str_len l + 1) ls)"
      using Cons.IH [of "pre @ l @ [10]" "n + 1"] Cons.prems(1) t by (simp add: utf8_len_def add.assoc)
    show ?thesis
    proof (cases "record_after l ls")
      case None
      with IH show ?thesis by (simp add: fst_parse_Cons)
    next
      case (Some r)
      note R = record_after_facts [OF Some]
      let ?r = "r\<lparr>rr_fence_offset := str_len pre, rr_anchor := the (fence_anchor l)\<rparr>"
      have g: "str_get (str_len pre) (str_len text) text = Some (l @ 10 # join_with [10] ls)"
        using str_get_mid [of pre "l @ 10 # join_with [10] ls" "[]"] by (simp add: t)
      have tw: "takeWhile (\<lambda>c. c \<noteq> 10) (l @ 10 # join_with [10] ls) = l"
        using Cons.prems(1) by (subst takeWhile_append2) auto
      have pos: "0 < str_len l" using R(4) by (cases l) (auto simp: utf8_len_def)
      have "utf8 text ! (str_len pre + str_len l - 1) = last (utf8 l)"
        using nth_mid_last [of "utf8 l" "utf8 pre" "utf8 (10 # join_with [10] ls)"] utf8_nonempty [OF R(4)]
        by (simp add: t length_utf8)
      then have cr: "utf8 text ! (str_len pre + str_len l - 1) = 0x0D \<longleftrightarrow> last l = 13"
        using last_utf8 [OF R(4)] by simp
      have "str_len pre + str_len l - 1 = str_len pre + str_len (butlast l)" if "last l = 13"
        using that by (subst append_butlast_last_id [OF R(4), symmetric]) (simp add: utf8_len_def del: append_butlast_last_id)
      then have "fence_edit text ?r = Some (str_len pre,
          str_len pre + str_len (if last l = 13 then butlast l else l), lit ''--- '' @ fold_text (rr_canonical r))"
        using cr pos by (simp add: fence_edit_def g tw Let_def expected_anchor_def)
      then show ?thesis using IH R(1) Some by (simp add: fst_parse_Cons)
    qed
  qed
qed simp

lemma apply_edits_append:
  "apply_edits (es @ fs) out = Option.bind (apply_edits es out) (apply_edits fs)"
  by (induction es out rule: apply_edits.induct) (auto split: option.splits bind_splits)

lemma replace_range_mid:
  "replace_range (str_len a) (str_len a + str_len b) rep (a @ b @ c) = Some (a @ rep @ c)"
  using str_get_mid [of "[]" a "b @ c"] str_get_mid [of "a @ b" c "[]"]
  by (simp add: replace_range_def add.assoc)

lemma apply_line_edits:
  "apply_edits (rev (line_edits (str_len pre) ls)) (pre @ join_with [10] ls) = Some (pre @ join_with [10] (bake_lines ls))"
proof (induction ls arbitrary: pre)
  case (Cons l ls)
  show ?case
  proof (cases "ls = []")
    case True
    then have "record_after l ls = None" using record_after_facts(2) by fastforce
    with True show ?thesis by simp
  next
    case False
    then have j: "join_with [10] (m # ls) = m @ 10 # join_with [10] ls"
      "join_with [10] (m # bake_lines ls) = m @ 10 # join_with [10] (bake_lines ls)" for m :: rust_str
      by (cases ls; simp)+
    have IH: "apply_edits (rev (line_edits (str_len pre + str_len l + 1) ls)) (pre @ l @ 10 # join_with [10] ls)
        = Some (pre @ l @ 10 # join_with [10] (bake_lines ls))"
      using Cons [of "pre @ l @ [10]"] by (simp add: utf8_len_def add.assoc)
    show ?thesis
    proof (cases "record_after l ls")
      case None
      with IH show ?thesis by (simp add: j)
    next
      case (Some r)
      note R = record_after_facts [OF Some]
      define b cr where "b = (if last l = 13 then butlast l else l)" and "cr = (if last l = 13 then [13 :: nat] else [])"
      have "l = b @ cr" by (metis b_def cr_def append_butlast_last_id R(4) append_Nil2)
      then have l: "pre @ l @ 10 # join_with [10] (bake_lines ls) = pre @ b @ cr @ 10 # join_with [10] (bake_lines ls)"
        by simp
      have bl: "baked_line l (rr_canonical r) = (lit ''--- '' @ fold_text (rr_canonical r)) @ cr"
        using R(4) by (simp add: baked_line_def cr_def)
      have "replace_range (str_len pre) (str_len pre + str_len b) (lit ''--- '' @ fold_text (rr_canonical r))
          (pre @ l @ 10 # join_with [10] (bake_lines ls))
        = Some (pre @ baked_line l (rr_canonical r) @ 10 # join_with [10] (bake_lines ls))"
        unfolding l bl replace_range_mid by simp
      then show ?thesis using IH Some by (simp add: j apply_edits_append b_def)
    qed
  qed
qed simp

lemma line_edits_ascend:
  "sorted (map fst (line_edits off ls)) \<and> distinct (map fst (line_edits off ls))
   \<and> (\<forall>e \<in> set (line_edits off ls). off \<le> fst e)"
proof (induction ls arbitrary: off)
  case (Cons l ls)
  show ?case using Cons [of "off + str_len l + 1"] by (fastforce split: option.splits)
qed simp

lemma edits_sorted: "sort_key (\<lambda>e. - int (fst e)) (line_edits off ls) = rev (line_edits off ls)"
proof (rule sort_key_inj_key_eq)
  show "inj_on (\<lambda>e. - int (fst e)) (set (line_edits off ls))"
    using line_edits_ascend [of off ls] by (auto simp: distinct_map inj_on_def)
  have "sorted (map (\<lambda>e. - int (fst e)) (rev es)) \<longleftrightarrow> sorted (map fst es)" for es :: "(nat \<times> nat \<times> rust_str) list"
    by (simp add: rev_map [symmetric] sorted_wrt_rev sorted_wrt_map)
  then show "sorted (map (\<lambda>e. - int (fst e)) (rev (line_edits off ls)))" using line_edits_ascend [of off ls] by simp
qed simp

text \<open>Baking rewrites the lines that open a record and nothing else.\<close>

lemma bake_by_lines:
  "bake text = Some (join_with [10] (bake_lines (split_on 10 text)), snd (parse_lines 0 1 (split_on 10 text)))"
proof -
  have "\<forall>l \<in> set (split_on 10 text). 10 \<notin> set l" using split_on_fields [of _ 10 "text"] by blast
  then have "those (map (fence_edit text) (fst (parse_lines 0 1 (split_on 10 text)))) = Some (line_edits 0 (split_on 10 text))"
    using edits_of_lines [of "split_on 10 text" "text" "[]" 1] by (simp add: join_split)
  moreover have "apply_edits (rev (line_edits 0 (split_on 10 text))) text = Some (join_with [10] (bake_lines (split_on 10 text)))"
    using apply_line_edits [of "[]" "split_on 10 text"] by (simp add: join_split)
  moreover obtain rs iss where "parse_lines 0 1 (split_on 10 text) = (rs, iss)" by fastforce
  ultimately show ?thesis by (simp add: bake_def parse_fragment_lines edits_sorted)
qed

section \<open>What baking gives\<close>

lemma baked_fence:
  assumes "record_after l ls = Some r" "rr_canonical r \<noteq> []"
  shows "fence_anchor (baked_line l (rr_canonical r)) = Some (fold_text (rr_canonical r))"
  unfolding baked_line_def
  using record_after_facts(3) [OF assms(1)] assms(2)
  by (intro fence_anchor_baked) (auto simp: name_text_def)

definition named :: "rust_str list \<Rightarrow> bool" where
  "named ls \<longleftrightarrow> [] \<notin> set (map rr_canonical (fst (parse_lines 0 1 ls)))"

lemma named_offset: "named ls \<longleftrightarrow> [] \<notin> set (map rr_canonical (fst (parse_lines off n ls)))"
proof -
  have "map rr_canonical (fst (parse_lines a b ls)) = map rr_canonical (fst (parse_lines c d ls))" for a b c d
    by (induction ls arbitrary: a b c d) (auto simp: fst_parse_Cons split: option.splits)
  from this [of 0 1 off n] show ?thesis unfolding named_def by (rule arg_cong)
qed

lemma named_Cons: "named (l # ls) \<longleftrightarrow> named ls \<and> (\<forall>r. record_after l ls = Some r \<longrightarrow> rr_canonical r \<noteq> [])"
  by (cases "record_after l ls")
    (auto simp: named_offset [of "l # ls" 0 1] named_offset [of ls "0 + str_len l + 1" "1 + 1"] fst_parse_Cons)

lemma after_text_bake: "named ls \<Longrightarrow> after_text (bake_lines ls) = after_text ls"
proof -
  have "named ls \<Longrightarrow> takeWhile no_fence (bake_lines ls) = takeWhile no_fence ls
      \<and> (takeWhile no_fence (bake_lines ls) = bake_lines ls \<longleftrightarrow> takeWhile no_fence ls = ls)
      \<and> (takeWhile no_fence ls = ls \<longrightarrow> bake_lines ls = ls)"
  proof (induction ls)
    case (Cons l ls)
    then show ?case
      by (cases "record_after l ls")
        (auto simp: named_Cons record_after_facts(1) no_fence_def [of "baked_line _ _"] baked_fence)
  qed simp
  then show "named ls \<Longrightarrow> after_text (bake_lines ls) = after_text ls" by (auto simp: after_text_def Let_def)
qed

lemma record_after_bake:
  assumes "named (l # ls)"
  shows "record_after (case record_after l ls of None \<Rightarrow> l | Some r \<Rightarrow> baked_line l (rr_canonical r)) (bake_lines ls)
    = record_after l ls"
proof (cases "record_after l ls")
  case (Some r)
  then show ?thesis
    using assms baked_fence [OF Some]
    by (auto simp: named_Cons record_after_def [of "baked_line _ _"] no_fence_def after_text_bake)
      (auto simp: record_after_def split: if_splits)
qed (use assms in \<open>auto simp: named_Cons record_after_def after_text_bake split: if_splits\<close>)

definition placeless :: "reg_record \<Rightarrow> reg_record" where
  "placeless r = r\<lparr>rr_fence_offset := 0\<rparr>"

definition refenced :: "reg_record \<Rightarrow> reg_record" where
  "refenced r = r\<lparr>rr_anchor := expected_anchor r\<rparr>"

lemma parse_baked_lines:
  "named ls \<Longrightarrow> map placeless (fst (parse_lines off' n (bake_lines ls))) = map (placeless \<circ> refenced) (fst (parse_lines off n ls))
     \<and> snd (parse_lines off' n (bake_lines ls)) = snd (parse_lines off n ls)"
proof (induction ls arbitrary: off off' n)
  case (Cons l ls)
  then have n: "named ls" by (simp add: named_Cons)
  show ?case
  proof (cases "record_after l ls")
    case None
    then show ?thesis
      using Cons.IH [OF n] record_after_bake [OF Cons.prems]
      by (simp add: fst_parse_Cons snd_parse_Cons)
  next
    case (Some r)
    then show ?thesis
      using Cons.IH [OF n] record_after_bake [OF Cons.prems] baked_fence [OF Some] Cons.prems
      by (auto simp: fst_parse_Cons snd_parse_Cons named_Cons placeless_def refenced_def expected_anchor_def)
  qed
qed simp

lemma baked_line_again: "c \<noteq> [] \<Longrightarrow> name_text c \<Longrightarrow> baked_line (baked_line l c) c = baked_line l c"
proof -
  assume c: "c \<noteq> []" "name_text c"
  then have "\<not> is_whitespace (last (fold_text c))" "fold_text c \<noteq> []"
    using trimmed_fold [of c] by (auto simp: name_text_def trimmed_def fold_text_map)
  then show "baked_line (baked_line l c) c = baked_line l c" by (auto simp: baked_line_def is_whitespace_def)
qed

lemma bake_lines_again: "named ls \<Longrightarrow> bake_lines (bake_lines ls) = bake_lines ls"
proof (induction ls)
  case (Cons l ls)
  then show ?case
    using record_after_bake [OF Cons.prems] record_after_facts(3) [of l ls]
    by (auto simp: named_Cons baked_line_again split: option.splits)
qed simp

lemma named_bake: "named ls \<Longrightarrow> named (bake_lines ls)"
proof (induction ls)
  case (Cons l ls)
  then show ?case
    using record_after_bake [OF Cons.prems] by (auto simp: named_Cons)
qed simp

lemma baked_no_newline:
  "\<forall>l \<in> set ls. 10 \<notin> set l \<Longrightarrow> \<forall>l \<in> set (bake_lines ls). 10 \<notin> set l"
proof (induction ls)
  case (Cons l ls)
  have "10 \<notin> set (fold_text c)" if "name_text c" for c
  proof -
    have "table_fold x \<noteq> 10" if "x \<noteq> 10" for x
      using table_fold_white [of x] that by (auto simp: is_whitespace_def)
    with that show ?thesis by (force simp: name_text_def fold_text_map)
  qed
  then show ?case
    using Cons record_after_facts(3) [of l ls] by (auto simp: baked_line_def lit_def split: option.splits)
qed simp

section \<open>Line by line\<close>

text \<open>The byte offset at which a line starts, and the carriage return it ends with, if any.\<close>

definition line_start :: "rust_str list \<Rightarrow> nat \<Rightarrow> nat" where
  "line_start ls i = sum_list (map (\<lambda>l. str_len l + 1) (take i ls))"

definition line_cr :: "rust_str \<Rightarrow> rust_str" where
  "line_cr l = (if l \<noteq> [] \<and> last l = 13 then [13] else [])"

lemma line_start_simps [simp]: "line_start ls 0 = 0" "line_start (l # ls) (Suc i) = str_len l + 1 + line_start ls i"
  by (simp_all add: line_start_def)

lemma parse_lines_offset: "r \<in> set (fst (parse_lines off n ls)) \<Longrightarrow> off \<le> rr_fence_offset r"
proof (induction ls arbitrary: off n)
  case (Cons l ls)
  then consider "rr_fence_offset r = off" | "r \<in> set (fst (parse_lines (off + str_len l + 1) (n + 1) ls))"
    by (auto simp: fst_parse_Cons split: option.splits)
  then show ?case
  proof cases
    case 2
    from Cons.IH [OF this] show ?thesis by simp
  qed simp
qed (simp add: parse_lines.simps)

lemma bake_lines_nth:
  "i < length ls \<Longrightarrow> bake_lines ls ! i =
     (case find (\<lambda>r. rr_fence_offset r = off + line_start ls i) (fst (parse_lines off n ls)) of
        None \<Rightarrow> ls ! i | Some r \<Rightarrow> lit ''--- '' @ expected_anchor r @ line_cr (ls ! i))"
proof (induction ls arbitrary: i off n)
  case (Cons l ls)
  let ?rest = "fst (parse_lines (off + str_len l + 1) (n + 1) ls)"
  show ?case
  proof (cases i)
    case 0
    have "find (\<lambda>r. rr_fence_offset r = off) ?rest = None"
      by (auto simp: find_None_iff dest: parse_lines_offset)
    with 0 show ?thesis
      by (cases "record_after l ls") (simp_all add: fst_parse_Cons baked_line_def line_cr_def expected_anchor_def)
  next
    case (Suc j)
    have "find (\<lambda>r. rr_fence_offset r = off + line_start (l # ls) i) (fst (parse_lines off n (l # ls)))
        = find (\<lambda>r. rr_fence_offset r = off + str_len l + 1 + line_start ls j) ?rest"
      by (cases "record_after l ls") (simp_all add: Suc fst_parse_Cons add.assoc)
    with Suc Cons.IH [of j "off + str_len l + 1" "n + 1"] Cons.prems show ?thesis by (simp split: option.split)
  qed
qed simp

lemma length_bake_lines: "length (bake_lines ls) = length ls"
  by (induction ls) simp_all

text \<open>C18. \<open>fmt\<close> never panics, and rewrites the fence lines of the records and nothing else: the output has the
  lines of the input, those at the offset of a record replaced by the fence with the anchor folded
  from its name, each with the line end it had. When every record has a name, the output parses
  to the same records with these anchors and reports the same issues, \<open>lint\<close> finds nothing else wrong with it,
  and a second \<open>fmt\<close> changes nothing.\<close>

theorem fmt_bakes:
  "\<exists>records issues out. parse_fragment text = Some (records, issues) \<and> bake text = Some (out, issues)
    \<and> length (split_on 10 out) = length (split_on 10 text)
    \<and> (\<forall>i < length (split_on 10 text). split_on 10 out ! i =
         (case find (\<lambda>r. rr_fence_offset r = line_start (split_on 10 text) i) records of
            None \<Rightarrow> split_on 10 text ! i
          | Some r \<Rightarrow> lit ''--- '' @ expected_anchor r @ line_cr (split_on 10 text ! i)))
    \<and> ((\<forall>r \<in> set records. rr_canonical r \<noteq> []) \<longrightarrow>
         (\<exists>records'. parse_fragment out = Some (records', issues)
            \<and> map placeless records' = map (placeless \<circ> refenced) records
            \<and> lint_text out = Some (map issue_text issues) \<and> bake out = Some (out, issues)))"
proof -
  define ls where "ls = split_on 10 text"
  let ?out = "join_with [10] (bake_lines ls)"
  obtain records issues where P: "parse_lines 0 1 ls = (records, issues)" by fastforce
  have "bake_lines ls \<noteq> []" using split_on_nonempty [of 10 "text"] by (cases ls) (simp_all add: ls_def)
  then have s: "split_on 10 ?out = bake_lines ls"
    using baked_no_newline [of ls] split_on_fields [of _ 10 "text"] by (intro split_on_join) (auto simp: ls_def)
  have b: "bake text = Some (?out, issues)" using P by (simp add: bake_by_lines ls_def)
  have lines: "bake_lines ls ! i = (case find (\<lambda>r. rr_fence_offset r = line_start ls i) records of
      None \<Rightarrow> ls ! i | Some r \<Rightarrow> lit ''--- '' @ expected_anchor r @ line_cr (ls ! i))" if "i < length ls" for i
    using bake_lines_nth [OF that, of 0 1] P by simp
  have again: "\<exists>records'. parse_fragment ?out = Some (records', issues)
      \<and> map placeless records' = map (placeless \<circ> refenced) records
      \<and> lint_text ?out = Some (map issue_text issues) \<and> bake ?out = Some (?out, issues)"
    if "\<forall>r \<in> set records. rr_canonical r \<noteq> []"
  proof -
    have n: "named ls" using that P by (auto simp: named_def)
    obtain records' issues' where P': "parse_lines 0 1 (bake_lines ls) = (records', issues')" by fastforce
    have r: "map placeless records' = map (placeless \<circ> refenced) records" "issues' = issues"
      using parse_baked_lines [OF n, of 0 1 0] P P' by simp_all
    have "rr_anchor r' = expected_anchor r'" if "r' \<in> set records'" for r'
    proof -
      have "placeless r' \<in> set (map (placeless \<circ> refenced) records)" using that by (simp flip: r(1))
      then obtain r where "placeless r' = placeless (refenced r)" by auto
      then have "rr_anchor (placeless r') = rr_anchor (placeless (refenced r))"
        "rr_canonical (placeless r') = rr_canonical (placeless (refenced r))" by simp_all
      then show ?thesis by (simp add: placeless_def refenced_def expected_anchor_def)
    qed
    then have "lint_text ?out = Some (map issue_text issues)"
      using P' r(2) by (simp add: lint_text_def parse_fragment_lines s Let_def concat_eq_Nil_conv)
    moreover have "bake ?out = Some (?out, issues)"
      using P' r(2) by (simp add: bake_by_lines s bake_lines_again [OF n])
    moreover have "parse_fragment ?out = Some (records', issues)" using P' r(2) by (simp add: parse_fragment_lines s)
    ultimately show ?thesis using r(1) by blast
  qed
  show ?thesis
    unfolding ls_def [symmetric]
    by (rule exI [of _ records], rule exI [of _ issues], rule exI [of _ ?out], intro conjI impI again)
      (use P b s lines in \<open>simp_all add: parse_fragment_lines length_bake_lines ls_def [symmetric]\<close>)
qed

definition sample_fragment :: rust_str where
  "sample_fragment = lit ''--- x'' @ [13, 10] @ lit ''canonical: A b'' @ [10, 10] @ lit ''Text''"

lemmas fragment_eval = fence_anchor_def strip_prefix_def strip_suffix_def trim_def trim_with_def
  is_whitespace_def after_text_def no_fence_def header_body_def split_header_body_def str_get_def
  parse_header_def header_line_def header_default_def lines_def strip_cr_def split_once_def
  to_ascii_lowercase_def lit_def utf8_len_def block_record_def Let_def

lemma sample_fragment_parse:
  "parse_fragment sample_fragment = Some ([\<lparr>rr_fence_offset = 0, rr_anchor = lit ''x'', rr_canonical = lit ''A b'',
     rr_type = None, rr_default = None, rr_valid = None, rr_applies = None, rr_deprecated = None,
     rr_body = lit ''Text''\<rparr>], [])"
  unfolding parse_fragment_lines sample_fragment_def
  by (simp add: fragment_eval parse_lines.simps)

theorem fmt_bakes_witness:
  "\<exists>out records'. bake sample_fragment = Some (out, []) \<and> parse_fragment out = Some (records', [])
    \<and> split_on 10 out ! 0 = lit ''--- '' @ fold_text (lit ''A b'') @ [13] \<and> split_on 10 out ! 3 = lit ''Text''
    \<and> lint_text out = Some [] \<and> bake out = Some (out, [])"
proof -
  have ls: "split_on 10 sample_fragment = [lit ''--- x'' @ [13], lit ''canonical: A b'', [], lit ''Text'']"
    by (simp add: sample_fragment_def lit_def)
  obtain out where out: "bake sample_fragment = Some (out, [])"
    "\<forall>i < 4. split_on 10 out ! i =
         (case find (\<lambda>r. rr_fence_offset r = line_start (split_on 10 sample_fragment) i) [\<lparr>rr_fence_offset = 0, rr_anchor = lit ''x'', rr_canonical = lit ''A b'',
     rr_type = None, rr_default = None, rr_valid = None, rr_applies = None, rr_deprecated = None, rr_body = lit ''Text''\<rparr>] of
            None \<Rightarrow> split_on 10 sample_fragment ! i
          | Some r \<Rightarrow> lit ''--- '' @ expected_anchor r @ line_cr (split_on 10 sample_fragment ! i))"
    "\<exists>records'. parse_fragment out = Some (records', []) \<and> lint_text out = Some [] \<and> bake out = Some (out, [])"
    using fmt_bakes [of sample_fragment] unfolding sample_fragment_parse by (auto simp: ls lit_def)
  have "split_on 10 out ! 0 = lit ''--- '' @ fold_text (lit ''A b'') @ [13]" "split_on 10 out ! 3 = lit ''Text''"
    using out(2) by (simp_all add: ls line_cr_def expected_anchor_def line_start_def)
  with out show ?thesis by blast
qed

text \<open>A record whose name is empty loses its fence: \<open>fmt\<close> writes a line that is not a fence.\<close>

lemma fmt_empty_name:
  "\<exists>out. bake (lit ''--- x'' @ [10] @ lit ''canonical:'' @ [10]) = Some (out, []) \<and> parse_fragment out = Some ([], [])"
  unfolding bake_by_lines
  by (simp add: fragment_eval parse_lines.simps baked_line_def fold_text_map parse_fragment_lines record_after_def)

end
