(* ===== verification/Reg_Pattern.thy ===== *)
theory Reg_Pattern
  imports RustStd
begin

text \<open>
  \<open>crates/registry-manual/src/pattern.rs\<close>: wildcard components in the anchors of registry
  documentation. The matcher keeps one row of reachable query prefixes; it is compared with the
  language of the pattern, defined without rows.
\<close>

section \<open>The matcher\<close>

definition has_wildcard :: "bytes \<Rightarrow> bool" where
  "has_wildcard anchor \<longleftrightarrow> 0x3C \<in> set anchor"

definition ends_dots :: "bytes \<Rightarrow> bool" where
  "ends_dots s \<longleftrightarrow> strip_suffix (ascii ''...'') s \<noteq> None"

text \<open>A leading wildcard: its length in bytes and whether it may cross separators.\<close>

definition wildcard :: "bytes \<Rightarrow> (nat \<times> bool) option" where
  "wildcard anchor =
     (case anchor of
        [] \<Rightarrow> None
      | b # _ \<Rightarrow>
          if b \<noteq> 0x3C then None
          else map_option (\<lambda>close. (close + 1, ends_dots (subslice 1 close anchor)))
            (position (\<lambda>b. b = 0x3E) anchor))"

text \<open>The loop over the bytes from the current one on.\<close>

function spans_components :: "bytes \<Rightarrow> bool" where
  "spans_components [] = False"
| "spans_components (b # r) =
     (if b \<noteq> 0x3C then spans_components r
      else case position (\<lambda>b. b = 0x3E) (b # r) of
        None \<Rightarrow> False
      | Some close \<Rightarrow>
          if ends_dots (subslice 1 close (b # r)) then True
          else spans_components (drop (close + 1) (b # r)))"
  by pat_completeness auto
termination by (relation "measure length") auto

text \<open>The next row: under a wildcard, reachable prefixes grow one byte at a time.\<close>

definition allowed :: "bool \<Rightarrow> u8 \<Rightarrow> bool" where
  "allowed spans byte \<longleftrightarrow> byte \<noteq> 0x20 \<and> (spans \<or> byte \<noteq> 0x5C)"

fun wild_row :: "bool \<Rightarrow> bool \<Rightarrow> bool list \<Rightarrow> bytes \<Rightarrow> bool list" where
  "wild_row spans prev (r # rs) (b # bs) =
     (let n = (allowed spans b \<and> (r \<or> prev)) in n # wild_row spans n rs bs)"
| "wild_row spans prev _ _ = []"

fun lit_row :: "u8 \<Rightarrow> bool list \<Rightarrow> bytes \<Rightarrow> bool list" where
  "lit_row c (r # rs) (b # bs) = (r \<and> c = b) # lit_row c rs bs"
| "lit_row c _ _ = []"

function walk_loop :: "(bytes \<Rightarrow> bool) \<Rightarrow> bytes \<Rightarrow> bool list \<Rightarrow> bytes \<Rightarrow> bool" where
  "walk_loop tail_ok query reachable remaining =
     (if reachable ! length query \<and> tail_ok remaining then True
      else if remaining = [] then False
      else
        let (next', width) =
              (case wildcard remaining of
                 Some (w, spans) \<Rightarrow> (False # wild_row spans False reachable query, w)
               | None \<Rightarrow> (False # lit_row (hd remaining) reachable query, 1))
        in if \<not> list_ex (\<lambda>x. x) next' then False
           else walk_loop tail_ok query next' (drop width remaining))"
  by pat_completeness auto
termination
  by (relation "measure (\<lambda>(_, _, _, remaining). length remaining)")
    (auto simp: wildcard_def split: option.splits list.splits if_splits)

definition pat_walk :: "bytes \<Rightarrow> bytes \<Rightarrow> (bytes \<Rightarrow> bool) \<Rightarrow> bool" where
  "pat_walk anchor query tail_ok = walk_loop tail_ok query (True # replicate (length query) False) anchor"

definition matches_exact :: "bytes \<Rightarrow> bytes \<Rightarrow> bool" where
  "matches_exact anchor query =
     (if \<not> has_wildcard anchor then anchor = query else pat_walk anchor query (\<lambda>rest. rest = []))"

definition matches_under_key :: "bytes \<Rightarrow> bytes \<Rightarrow> bool" where
  "matches_under_key anchor query =
     (if \<not> has_wildcard anchor then
        anchor = query \<or> (length query < length anchor \<and> strip_prefix query anchor \<noteq> None
          \<and> anchor ! length query = 0x20)
      else pat_walk anchor query (\<lambda>rest. rest = [] \<or> hd rest = 0x20))"

section \<open>The language of a pattern\<close>

datatype pat_token = Exactly u8 | Wild bool

function pat_tokens :: "bytes \<Rightarrow> pat_token list" where
  "pat_tokens [] = []"
| "pat_tokens (b # r) =
     (case wildcard (b # r) of
        Some (w, spans) \<Rightarrow> Wild spans # pat_tokens (drop w (b # r))
      | None \<Rightarrow> Exactly b # pat_tokens r)"
  by pat_completeness auto
termination
  by (relation "measure length") (auto simp: wildcard_def split: option.splits list.splits if_splits)

fun token_matches :: "pat_token \<Rightarrow> bytes \<Rightarrow> bool" where
  "token_matches (Exactly c) w \<longleftrightarrow> w = [c]"
| "token_matches (Wild spans) w \<longleftrightarrow> w \<noteq> [] \<and> 0x20 \<notin> set w \<and> (spans \<or> 0x5C \<notin> set w)"

inductive denotes :: "pat_token list \<Rightarrow> bytes \<Rightarrow> bool" where
  denotes_Nil: "denotes [] []"
| denotes_Cons: "token_matches p w \<Longrightarrow> denotes ps q \<Longrightarrow> denotes (p # ps) (w @ q)"

inductive_cases denotes_NilE: "denotes [] q"
inductive_cases denotes_ConsE: "denotes (p # ps) q"

inductive_simps denotes_Nil_iff [simp]: "denotes [] q"

lemma denotes_Cons_iff: "denotes (p # ps) q \<longleftrightarrow> (\<exists>w r. q = w @ r \<and> token_matches p w \<and> denotes ps r)"
  by (blast elim: denotes_ConsE intro: denotes_Cons)

lemma denotes_append: "denotes (ps @ rs) q \<longleftrightarrow> (\<exists>u v. q = u @ v \<and> denotes ps u \<and> denotes rs v)"
proof (induction ps arbitrary: q)
  case (Cons p ps)
  then show ?case
    by (auto simp: denotes_Cons_iff) (metis append.assoc)+
qed simp

lemma denotes_snoc: "denotes (ps @ [p]) q \<longleftrightarrow> (\<exists>u w. q = u @ w \<and> denotes ps u \<and> token_matches p w)"
  by (simp add: denotes_append denotes_Cons_iff)

section \<open>The rows\<close>

definition row_of :: "pat_token list \<Rightarrow> bytes \<Rightarrow> bool list" where
  "row_of ps query = map (\<lambda>n. denotes ps (take n query)) [0..<length query + 1]"

lemma row_nth: "n \<le> length query \<Longrightarrow> row_of ps query ! n = denotes ps (take n query)"
  unfolding row_of_def by (subst nth_map) (simp_all del: upt_Suc)

lemma row_length [simp]: "length (row_of ps query) = length query + 1"
  by (simp add: row_of_def del: upt_Suc)

lemma row_start: "row_of [] query = True # replicate (length query) False"
  by (rule nth_equalityI) (auto simp: row_nth nth_Cons split: nat.splits)

lemma lit_row_nth: "i < length bs \<Longrightarrow> length bs \<le> length rs \<Longrightarrow> lit_row c rs bs ! i = (rs ! i \<and> c = bs ! i)"
  by (induction c rs bs arbitrary: i rule: lit_row.induct) (auto simp: nth_Cons split: nat.splits)

lemma lit_row_length: "length bs \<le> length rs \<Longrightarrow> length (lit_row c rs bs) = length bs"
  by (induction c rs bs rule: lit_row.induct) auto

lemma wild_row_length: "length bs \<le> length rs \<Longrightarrow> length (wild_row s prev rs bs) = length bs"
  by (induction s prev rs bs rule: wild_row.induct) (auto simp: Let_def)

lemma wild_row_nth:
  "i < length bs \<Longrightarrow> length bs \<le> length rs \<Longrightarrow>
     wild_row s prev rs bs ! i =
       ((\<exists>j \<le> i. rs ! j \<and> (\<forall>k. j \<le> k \<and> k \<le> i \<longrightarrow> allowed s (bs ! k))) \<or> prev \<and> (\<forall>k \<le> i. allowed s (bs ! k)))"
proof (induction s prev rs bs arbitrary: i rule: wild_row.induct)
  case (1 s prev r rs b bs)
  show ?case
  proof (cases i)
    case 0
    then show ?thesis by (auto simp: Let_def)
  next
    case (Suc i')
    have all: "(\<forall>k \<le> Suc n. P k) \<longleftrightarrow> P 0 \<and> (\<forall>k \<le> n. P (Suc k))" for P :: "nat \<Rightarrow> bool" and n
      by (metis Suc_le_mono le0 not0_implies_Suc)
    have ex: "(\<exists>j \<le> Suc n. P j) \<longleftrightarrow> P 0 \<or> (\<exists>j \<le> n. P (Suc j))" for P :: "nat \<Rightarrow> bool" and n
      by (metis Suc_le_mono le0 not0_implies_Suc)
    have from_Suc: "(\<forall>k. Suc j \<le> k \<and> k \<le> Suc n \<longrightarrow> P k) \<longleftrightarrow> (\<forall>k. j \<le> k \<and> k \<le> n \<longrightarrow> P (Suc k))"
      for P :: "nat \<Rightarrow> bool" and n j
      by (metis Suc_le_D Suc_le_mono)
    have from_0: "(\<forall>k. 0 \<le> k \<and> k \<le> Suc n \<longrightarrow> P k) \<longleftrightarrow> P 0 \<and> (\<forall>k \<le> n. P (Suc k))"
      for P :: "nat \<Rightarrow> bool" and n
      using all [of n P] by simp
    show ?thesis
      using 1 unfolding Suc by (auto simp: Let_def ex all from_Suc from_0)
  qed
qed simp_all

lemma allowed_all: "(\<forall>b \<in> set w. allowed s b) \<longleftrightarrow> 0x20 \<notin> set w \<and> (s \<or> 0x5C \<notin> set w)"
  by (auto simp: allowed_def)

lemma row_lit: "False # lit_row c (row_of ps query) query = row_of (ps @ [Exactly c]) query"
proof (rule nth_equalityI)
  fix i assume "i < length (False # lit_row c (row_of ps query) query)"
  then have i: "i \<le> length query" by (simp add: lit_row_length)
  show "(False # lit_row c (row_of ps query) query) ! i = row_of (ps @ [Exactly c]) query ! i"
  proof (cases i)
    case 0
    then show ?thesis by (simp add: row_nth denotes_snoc)
  next
    case (Suc j)
    with i have j: "j < length query" by simp
    then have "row_of (ps @ [Exactly c]) query ! i = denotes (ps @ [Exactly c]) (take j query @ [query ! j])"
      using i Suc by (simp add: row_nth take_Suc_conv_app_nth)
    also have "\<dots> = (denotes ps (take j query) \<and> query ! j = c)"
      by (auto simp: denotes_snoc)
    finally show ?thesis
      using Suc j by (auto simp: lit_row_nth row_nth)
  qed
qed (simp add: lit_row_length)

lemma row_wild: "False # wild_row s False (row_of ps query) query = row_of (ps @ [Wild s]) query"
proof (rule nth_equalityI)
  fix i assume "i < length (False # wild_row s False (row_of ps query) query)"
  then have i: "i \<le> length query" by (simp add: wild_row_length)
  show "(False # wild_row s False (row_of ps query) query) ! i = row_of (ps @ [Wild s]) query ! i"
  proof (cases i)
    case 0
    then show ?thesis by (simp add: row_nth denotes_snoc)
  next
    case (Suc n)
    with i have n: "n < length query" by simp
    have "row_of (ps @ [Wild s]) query ! i \<longleftrightarrow>
        (\<exists>u w. take (Suc n) query = u @ w \<and> denotes ps u \<and> w \<noteq> [] \<and> (\<forall>b \<in> set w. allowed s b))"
      using i Suc by (simp add: row_nth denotes_snoc allowed_all)
    also have "\<dots> \<longleftrightarrow> (\<exists>j \<le> n. denotes ps (take j query) \<and> (\<forall>k. j \<le> k \<and> k \<le> n \<longrightarrow> allowed s (query ! k)))"
    proof
      assume "\<exists>u w. take (Suc n) query = u @ w \<and> denotes ps u \<and> w \<noteq> [] \<and> (\<forall>b \<in> set w. allowed s b)"
      then obtain u w where uw: "take (Suc n) query = u @ w" "denotes ps u" "w \<noteq> []" "\<forall>b \<in> set w. allowed s b"
        by blast
      have len: "length u + length w = Suc n" using uw(1) n by (metis length_append length_take min.absorb2 Suc_leI)
      have "u = take (length u) query" using uw(1) len
        by (metis append_eq_conv_conj le_add1 min.absorb1 take_take)
      moreover have "allowed s (query ! k)" if "length u \<le> k \<and> k \<le> n" for k
      proof -
        have "query ! k = take (Suc n) query ! k" using that by simp
        also have "\<dots> = w ! (k - length u)" using that by (simp add: uw(1) nth_append)
        finally have "query ! k = w ! (k - length u)" .
        moreover have "w ! (k - length u) \<in> set w" using that len by (intro nth_mem) linarith
        ultimately show ?thesis using uw(4) by simp
      qed
      ultimately show "\<exists>j \<le> n. denotes ps (take j query) \<and> (\<forall>k. j \<le> k \<and> k \<le> n \<longrightarrow> allowed s (query ! k))"
        using uw(2,3) len by (intro exI [of _ "length u"]) (cases w; auto)
    next
      assume "\<exists>j \<le> n. denotes ps (take j query) \<and> (\<forall>k. j \<le> k \<and> k \<le> n \<longrightarrow> allowed s (query ! k))"
      then obtain j where j: "j \<le> n" "denotes ps (take j query)" "\<forall>k. j \<le> k \<and> k \<le> n \<longrightarrow> allowed s (query ! k)"
        by blast
      have "take (Suc n) query = take j query @ drop j (take (Suc n) query)"
        using j(1) by (metis append_take_drop_id le_SucI min.absorb1 take_take)
      moreover have "drop j (take (Suc n) query) \<noteq> []" using j(1) n by simp
      moreover have "\<forall>b \<in> set (drop j (take (Suc n) query)). allowed s b"
      proof
        fix b assume "b \<in> set (drop j (take (Suc n) query))"
        then obtain m where "m < length (drop j (take (Suc n) query))" "b = drop j (take (Suc n) query) ! m"
          by (auto simp: in_set_conv_nth)
        then show "allowed s b" using j(3) n by simp
      qed
      ultimately show "\<exists>u w. take (Suc n) query = u @ w \<and> denotes ps u \<and> w \<noteq> [] \<and> (\<forall>b \<in> set w. allowed s b)"
        using j(2) by blast
    qed
    also have "\<dots> = (False # wild_row s False (row_of ps query) query) ! i"
      using Suc n by (simp add: wild_row_nth row_nth cong: conj_cong)
    finally show ?thesis by simp
  qed
qed (simp add: wild_row_length)

section \<open>The matcher decides the language\<close>

lemma no_prefix_no_match:
  assumes "\<not> list_ex (\<lambda>x. x) (row_of ps query)"
  shows "\<not> denotes (ps @ us) query"
proof
  assume "denotes (ps @ us) query"
  then obtain u v where uv: "query = u @ v" "denotes ps u" by (auto simp: denotes_append)
  then have "row_of ps query ! length u" by (simp add: row_nth)
  moreover have "length u < length (row_of ps query)" using uv(1) by simp
  ultimately show False using assms by (metis list_ex_iff nth_mem)
qed

lemma walk_loop_denotes:
  assumes "\<And>rest. tail_ok rest = T (pat_tokens rest)"
  shows "walk_loop tail_ok query (row_of ps query) remaining \<longleftrightarrow>
    (\<exists>us vs. pat_tokens remaining = us @ vs \<and> T vs \<and> denotes (ps @ us) query)"
proof (induction "length remaining" arbitrary: ps remaining rule: less_induct)
  case less
  have here: "row_of ps query ! length query \<longleftrightarrow> denotes ps query" by (simp add: row_nth)
  show ?case
  proof (cases "denotes ps query \<and> tail_ok remaining")
    case True
    then have "\<exists>us vs. pat_tokens remaining = us @ vs \<and> T vs \<and> denotes (ps @ us) query"
      using assms by (intro exI [of _ "[]"] exI [of _ "pat_tokens remaining"]) simp
    with True show ?thesis by (subst walk_loop.simps) (simp add: here)
  next
    case False
    show ?thesis
    proof (cases remaining)
      case Nil
      with False assms [of "[]"] show ?thesis
        by (subst walk_loop.simps) (auto simp: here)
    next
      case (Cons b r)
      obtain p rest where step: "pat_tokens remaining = p # pat_tokens rest" "length rest < length remaining"
        "(case wildcard remaining of
            Some (w, spans) \<Rightarrow> (False # wild_row spans False (row_of ps query) query, w)
          | None \<Rightarrow> (False # lit_row (hd remaining) (row_of ps query) query, 1)) =
          (row_of (ps @ [p]) query, length remaining - length rest)"
        "drop (length remaining - length rest) remaining = rest"
      proof (cases "wildcard remaining")
        case None
        with Cons that [of "Exactly b" r] show ?thesis by (simp add: row_lit)
      next
        case (Some ws)
        obtain w s where ws: "ws = (w, s)" by fastforce
        with Some Cons have "0 < w" "w \<le> length remaining"
          by (auto simp: wildcard_def split: if_splits option.splits dest!: position_Some)
        with Some ws Cons that [of "Wild s" "drop w remaining"] show ?thesis by (simp add: row_wild)
      qed
      have ne: "remaining \<noteq> []" using Cons by simp
      have loop: "walk_loop tail_ok query (row_of ps query) remaining \<longleftrightarrow>
          list_ex (\<lambda>x. x) (row_of (ps @ [p]) query) \<and> walk_loop tail_ok query (row_of (ps @ [p]) query) rest"
        using False ne
        by (subst walk_loop.simps, unfold step(3)) (auto simp: here step(4) simp del: walk_loop.simps)
      also have "\<dots> \<longleftrightarrow> walk_loop tail_ok query (row_of (ps @ [p]) query) rest"
        using less [OF step(2), of "ps @ [p]"] no_prefix_no_match [of "ps @ [p]" query] by auto
      also have "\<dots> \<longleftrightarrow> (\<exists>us vs. pat_tokens rest = us @ vs \<and> T vs \<and> denotes (ps @ p # us) query)"
        using less [OF step(2), of "ps @ [p]"] by simp
      also have "\<dots> \<longleftrightarrow> (\<exists>us vs. pat_tokens remaining = us @ vs \<and> T vs \<and> denotes (ps @ us) query)"
      proof
        assume "\<exists>us vs. pat_tokens rest = us @ vs \<and> T vs \<and> denotes (ps @ p # us) query"
        then show "\<exists>us vs. pat_tokens remaining = us @ vs \<and> T vs \<and> denotes (ps @ us) query"
          unfolding step(1) by (metis append_Cons)
      next
        assume "\<exists>us vs. pat_tokens remaining = us @ vs \<and> T vs \<and> denotes (ps @ us) query"
        then obtain us vs where u: "p # pat_tokens rest = us @ vs" "T vs" "denotes (ps @ us) query"
          unfolding step(1) by blast
        with False assms step(1) have "us \<noteq> []" by auto
        with u show "\<exists>us vs. pat_tokens rest = us @ vs \<and> T vs \<and> denotes (ps @ p # us) query"
          by (cases us) auto
      qed
      finally show ?thesis .
    qed
  qed
qed

lemma walk_denotes:
  assumes "\<And>rest. tail_ok rest = T (pat_tokens rest)"
  shows "pat_walk anchor query tail_ok \<longleftrightarrow>
    (\<exists>us vs. pat_tokens anchor = us @ vs \<and> T vs \<and> denotes us query)"
  unfolding pat_walk_def row_start [symmetric] using walk_loop_denotes [where ps = "[]" and T = T and tail_ok = tail_ok] assms by simp

lemma wildcard_None: "\<not> has_wildcard anchor \<Longrightarrow> wildcard anchor = None"
  by (cases anchor) (auto simp: wildcard_def has_wildcard_def)

lemma plain_tokens: "\<not> has_wildcard anchor \<Longrightarrow> pat_tokens anchor = map Exactly anchor"
  by (induction anchor) (auto simp: wildcard_None has_wildcard_def)

lemma denotes_plain: "denotes (map Exactly s) q \<longleftrightarrow> q = s"
  by (induction s arbitrary: q) (auto simp: denotes_Cons_iff)

lemma pat_tokens_Nil [simp]: "pat_tokens s = [] \<longleftrightarrow> s = []"
  by (cases s) (auto split: option.splits)

lemma pat_tokens_space: "s \<noteq> [] \<Longrightarrow> hd (pat_tokens s) = Exactly 0x20 \<longleftrightarrow> hd s = 0x20"
  by (cases s) (auto simp: wildcard_def split: option.splits)

definition key_boundary :: "pat_token list \<Rightarrow> bool" where
  "key_boundary vs \<longleftrightarrow> vs = [] \<or> hd vs = Exactly 0x20"

lemma spans_components_iff: "spans_components anchor \<longleftrightarrow> Wild True \<in> set (pat_tokens anchor)"
proof (induction anchor rule: spans_components.induct)
  case (2 b r)
  have no: "Wild True \<notin> set (pat_tokens s)" if "0x3E \<notin> set s" for s
    using that
  proof (induction s rule: pat_tokens.induct)
    case (2 c s)
    then have "wildcard (c # s) = None"
      by (auto simp: wildcard_def position_None split: option.splits)
    with 2 show ?case by simp
  qed simp
  show ?case
  proof (cases "b = 0x3C")
    case False
    with 2 show ?thesis by (simp add: wildcard_def)
  next
    case True
    show ?thesis
    proof (cases "position (\<lambda>b. b = 0x3E) (b # r)")
      case None
      then have "Wild True \<notin> set (pat_tokens (b # r))" using no position_None [of "\<lambda>b. b = 0x3E" "b # r"] by blast
      moreover have "\<not> spans_components (b # r)" using True None by (simp del: position.simps)
      ultimately show ?thesis by simp
    next
      case (Some close)
      with True have w: "wildcard (b # r) = Some (close + 1, ends_dots (subslice 1 close (b # r)))"
        by (simp add: wildcard_def)
      from True 2(2) [OF _ Some] show ?thesis
        unfolding spans_components.simps Some option.case pat_tokens.simps w
        by auto
    qed
  qed
qed simp

text \<open>C16. The table-driven matcher decides the language of the pattern: a bracketed component stands
  for one or more bytes other than a space and, unless its name ends in dots, other than a
  separator, everything else for itself; a query is under a key when it matches the pattern up to
  its end or up to a literal space; a record is ranked as spanning exactly when its pattern has a
  component that crosses separators.\<close>

theorem pattern_matching:
  "(matches_exact anchor query \<longleftrightarrow> denotes (pat_tokens anchor) query)
   \<and> (matches_under_key anchor query \<longleftrightarrow>
        (\<exists>us vs. pat_tokens anchor = us @ vs \<and> key_boundary vs \<and> denotes us query))
   \<and> (spans_components anchor \<longleftrightarrow> Wild True \<in> set (pat_tokens anchor))"
proof (intro conjI spans_components_iff)
  show "matches_exact anchor query \<longleftrightarrow> denotes (pat_tokens anchor) query"
  proof (cases "has_wildcard anchor")
    case True
    then show ?thesis
      using walk_denotes [of "\<lambda>rest. rest = []" "\<lambda>vs. vs = []" anchor query]
      by (simp add: matches_exact_def)
  next
    case False
    then show ?thesis by (auto simp: matches_exact_def plain_tokens denotes_plain)
  qed
  show "matches_under_key anchor query \<longleftrightarrow>
      (\<exists>us vs. pat_tokens anchor = us @ vs \<and> key_boundary vs \<and> denotes us query)"
  proof (cases "has_wildcard anchor")
    case True
    have "(rest = [] \<or> hd rest = 0x20) = key_boundary (pat_tokens rest)" for rest
      using pat_tokens_space [of rest] by (auto simp: key_boundary_def)
    from walk_denotes [of _ key_boundary, OF this] True show ?thesis
      by (simp add: matches_under_key_def)
  next
    case False
    have "(\<exists>us vs. map Exactly anchor = us @ vs \<and> key_boundary vs \<and> denotes us query) \<longleftrightarrow>
        (\<exists>vs. anchor = query @ vs \<and> (vs = [] \<or> hd vs = 0x20))"
    proof
      assume "\<exists>us vs. map Exactly anchor = us @ vs \<and> key_boundary vs \<and> denotes us query"
      then obtain us vs where "map Exactly anchor = us @ vs" and k: "key_boundary vs" and d: "denotes us query"
        by blast
      then obtain a b where ab: "anchor = a @ b" "us = map Exactly a" "vs = map Exactly b"
        by (auto simp: map_eq_append_conv)
      with d have "query = a" by (simp add: denotes_plain)
      with ab k show "\<exists>vs. anchor = query @ vs \<and> (vs = [] \<or> hd vs = 0x20)"
        by (cases b) (auto simp: key_boundary_def)
    next
      assume "\<exists>vs. anchor = query @ vs \<and> (vs = [] \<or> hd vs = 0x20)"
      then obtain vs where v: "anchor = query @ vs" "vs = [] \<or> hd vs = 0x20" by blast
      then show "\<exists>us vs. map Exactly anchor = us @ vs \<and> key_boundary vs \<and> denotes us query"
        by (intro exI [of _ "map Exactly query"] exI [of _ "map Exactly vs"])
          (cases vs; auto simp: key_boundary_def denotes_plain)
    qed
    also have "\<dots> \<longleftrightarrow> matches_under_key anchor query"
      using False
      by (auto simp: matches_under_key_def strip_prefix_def nth_append hd_conv_nth)
        (metis append_take_drop_id drop_eq_Nil hd_drop_conv_nth linorder_not_le)
    finally show ?thesis using False by (simp add: plain_tokens)
  qed
qed

end
