(* ===== verification/Reg_Scan.thy ===== *)
theory Reg_Scan
  imports Reg_Fmt Reg_Pattern "HOL-Library.List_Lexorder" "HOL-Library.Product_Lexorder"
begin

text \<open>
  \<open>crates/registry-manual/src/corpus.rs\<close>, \<open>error.rs\<close> and \<open>scan.rs\<close>: the directory of fragments and
  the authoritative search through it. The directory and the files' contents are parameters. Paths
  are bytes; text is compared by its UTF-8 bytes.
\<close>

section \<open>Errors\<close>

datatype reg_error =
    RegUsage rust_str
  | RegNotFound rust_str
  | RegFragment rust_str
  | RegIo rust_str

fun reg_exit_code :: "reg_error \<Rightarrow> int" where
  "reg_exit_code (RegUsage _) = 1"
| "reg_exit_code (RegNotFound _) = 2"
| "reg_exit_code (RegFragment _) = 3"
| "reg_exit_code (RegIo _) = 4"

section \<open>The corpus\<close>

text \<open>
  What the file system answers: a missing file is told from every other error. \<open>read_dir\<close> gives the
  paths of its entries, each of which may be an error of its own.
\<close>

datatype fs_error = Missing rust_str | Unreadable rust_str

fun fs_message :: "fs_error \<Rightarrow> rust_str" where
  "fs_message (Missing m) = m"
| "fs_message (Unreadable m) = m"

definition to_reg_error :: "fs_error \<Rightarrow> reg_error" where
  "to_reg_error e = RegIo (fs_message e)"

record reg_fs =
  rf_dir :: "fs_error + (fs_error + bytes) list"
  rf_read :: "bytes \<Rightarrow> fs_error + rust_str"
  rf_bytes :: "bytes \<Rightarrow> fs_error + bytes"

definition DEFAULT_DIR :: bytes where "DEFAULT_DIR = ascii ''/usr/share/regman''"
definition DEFAULT_INDEX :: bytes where "DEFAULT_INDEX = ascii ''/var/cache/regman/index''"

definition corpus_dir :: "bytes option \<Rightarrow> bytes" where
  "corpus_dir var = (case var of Some d \<Rightarrow> d | None \<Rightarrow> DEFAULT_DIR)"

definition index_path :: "bytes option \<Rightarrow> bytes" where
  "index_path var = (case var of Some d \<Rightarrow> d | None \<Rightarrow> DEFAULT_INDEX)"

text \<open>
  \<open>Path::file_stem\<close> and \<open>Path::extension\<close> of the last component: the name is split at its last dot
  unless that is its first byte.
\<close>

definition file_name :: "bytes \<Rightarrow> bytes" where
  "file_name path = last (split_on 0x2F path)"

definition file_stem :: "bytes \<Rightarrow> bytes" where
  "file_stem path =
     (let name = file_name path in
      if name = ascii ''..'' then name
      else case rsplit_once 0x2E name of
        None \<Rightarrow> name
      | Some (before, after) \<Rightarrow> if before = [] then name else before)"

definition extension :: "bytes \<Rightarrow> bytes option" where
  "extension path =
     (let name = file_name path in
      if name = ascii ''..'' then None
      else case rsplit_once 0x2E name of
        None \<Rightarrow> None
      | Some (before, after) \<Rightarrow> if before = [] then None else Some after)"

definition provider_of :: "bytes \<Rightarrow> rust_str" where
  "provider_of path = (case from_utf8 (file_stem path) of Some s \<Rightarrow> s | None \<Rightarrow> lit ''?'')"

fun regman_entries :: "(fs_error + bytes) list \<Rightarrow> reg_error + bytes list" where
  "regman_entries [] = Inr []"
| "regman_entries (Inl e # es) = Inl (to_reg_error e)"
| "regman_entries (Inr path # es) =
     result_bind (regman_entries es) (\<lambda>out.
       Inr (if Option.bind (extension path) from_utf8 = Some (lit ''regman'') then path # out else out))"

text \<open>
  Paths compare by their components: the root, a leading dot, then the names, where repeated
  separators and inner dots do not count.
\<close>

definition path_components :: "bytes \<Rightarrow> (nat \<times> bytes) list" where
  "path_components path =
     (let parts = split_on 0x2F path;
          names = filter (\<lambda>c. c \<noteq> [] \<and> c \<noteq> ascii ''.'') parts
      in (if path \<noteq> [] \<and> hd path = 0x2F then [(1, [])]
          else if hd parts = ascii ''.'' then [(2, [])] else [])
         @ map (\<lambda>c. (if c = ascii ''..'' then 3 else 4, c)) names)"

definition fragments :: "reg_fs \<Rightarrow> reg_error + bytes list" where
  "fragments fs =
     (case rf_dir fs of
        Inl (Missing _) \<Rightarrow> Inr []
      | Inl e \<Rightarrow> Inl (to_reg_error e)
      | Inr entries \<Rightarrow> result_bind (regman_entries entries) (\<lambda>out. Inr (sort_key path_components out)))"

section \<open>Searching\<close>

record hit =
  ht_provider :: rust_str
  ht_file :: bytes
  ht_record :: reg_record

definition is_exact :: "rust_str \<Rightarrow> rust_str \<Rightarrow> bool" where
  "is_exact a folded = matches_exact (utf8 a) (utf8 folded)"

definition is_under_key :: "rust_str \<Rightarrow> rust_str \<Rightarrow> bool" where
  "is_under_key a folded_path = matches_under_key (utf8 a) (utf8 folded_path)"

text \<open>\<open>memmem::find\<close> and \<open>str::contains\<close>.\<close>

fun occurs_in :: "'a list \<Rightarrow> 'a list \<Rightarrow> bool" where
  "occurs_in needle [] \<longleftrightarrow> needle = []"
| "occurs_in needle (x # xs) \<longleftrightarrow> take (length needle) (x # xs) = needle \<or> occurs_in needle xs"

text \<open>Parsing never panics, so the records are always there.\<close>

definition records_of :: "rust_str \<Rightarrow> reg_record list" where
  "records_of text = fst (the (parse_fragment text))"

definition scan_file :: "reg_fs \<Rightarrow> bytes \<Rightarrow> bytes \<Rightarrow> (reg_record \<Rightarrow> bool) \<Rightarrow> reg_error + hit list" where
  "scan_file fs file needle pred =
     (case rf_read fs file of
        Inl (Missing _) \<Rightarrow> Inr []
      | Inl e \<Rightarrow> Inl (to_reg_error e)
      | Inr text \<Rightarrow>
          if \<not> occurs_in needle (utf8 text) \<and> 0x3C \<notin> set (utf8 text) then Inr []
          else Inr (map (\<lambda>r. \<lparr>ht_provider = provider_of file, ht_file = file, ht_record = r\<rparr>)
            (filter pred (records_of text))))"

definition file_exact :: "reg_fs \<Rightarrow> rust_str \<Rightarrow> bytes \<Rightarrow> reg_error + hit list" where
  "file_exact fs folded file = scan_file fs file (utf8 folded) (\<lambda>r. is_exact (rr_anchor r) folded)"

definition file_key :: "reg_fs \<Rightarrow> rust_str \<Rightarrow> bytes \<Rightarrow> reg_error + hit list" where
  "file_key fs folded_path file =
     scan_file fs file (utf8 folded_path) (\<lambda>r. is_under_key (rr_anchor r) folded_path)"

definition sort_hits :: "hit list \<Rightarrow> hit list" where
  "sort_hits hits = sort_key (\<lambda>h. (utf8 (ht_provider h), utf8 (rr_anchor (ht_record h)))) hits"

fun scan_all :: "(bytes \<Rightarrow> reg_error + hit list) \<Rightarrow> bytes list \<Rightarrow> reg_error + hit list" where
  "scan_all scan [] = Inr []"
| "scan_all scan (file # files) =
     result_bind (scan file) (\<lambda>hits. result_bind (scan_all scan files) (\<lambda>more. Inr (hits @ more)))"

definition corpus_exact :: "reg_fs \<Rightarrow> rust_str \<Rightarrow> reg_error + hit list" where
  "corpus_exact fs folded =
     result_bind (fragments fs) (\<lambda>files.
     result_bind (scan_all (file_exact fs folded) files) (\<lambda>hits. Inr (sort_hits hits)))"

definition corpus_key :: "reg_fs \<Rightarrow> rust_str \<Rightarrow> reg_error + hit list" where
  "corpus_key fs folded_path =
     result_bind (fragments fs) (\<lambda>files.
     result_bind (scan_all (file_key fs folded_path) files) (\<lambda>hits. Inr (sort_hits hits)))"

definition apropos_file :: "reg_fs \<Rightarrow> rust_str list \<Rightarrow> bytes \<Rightarrow> reg_error + hit list" where
  "apropos_file fs folded file =
     (case rf_read fs file of
        Inl e \<Rightarrow> Inl (to_reg_error e)
      | Inr text \<Rightarrow>
          Inr (map (\<lambda>r. \<lparr>ht_provider = provider_of file, ht_file = file, ht_record = r\<rparr>)
            (filter (\<lambda>r. let haystack = fold_text (rr_canonical r @ lit '' '' @ summary r)
               in \<forall>t \<in> set folded. occurs_in t haystack) (records_of text))))"

definition apropos :: "reg_fs \<Rightarrow> rust_str list \<Rightarrow> reg_error + hit list" where
  "apropos fs terms =
     (let folded = map fold_text terms in
      result_bind (fragments fs) (\<lambda>files.
      result_bind (scan_all (apropos_file fs folded) files) (\<lambda>hits.
        Inr (sort_key (\<lambda>h. (utf8 (fold_text (rr_canonical (ht_record h))), utf8 (ht_provider h))) hits))))"

section \<open>The cheap rejection rejects nothing\<close>

lemma occurs_in_iff: "occurs_in needle s \<longleftrightarrow> (\<exists>a b. s = a @ needle @ b)"
proof (induction s)
  case (Cons x s)
  have "take (length needle) (x # s) = needle \<longleftrightarrow> (\<exists>b. x # s = needle @ b)"
    by (metis append_eq_conv_conj)
  with Cons show ?case by (auto simp: Cons_eq_append_conv)
qed auto

lemma occurs_in_mid: "occurs_in b (a @ b @ c)"
  unfolding occurs_in_iff by (intro exI) (rule refl)

lemma occurs_in_ends: "occurs_in a (a @ c)" "occurs_in c (a @ c)"
  using occurs_in_mid [of a "[]" c] occurs_in_mid [of c a "[]"] by simp_all

lemma occurs_in_trans: "occurs_in a b \<Longrightarrow> occurs_in b c \<Longrightarrow> occurs_in a c"
  unfolding occurs_in_iff by (metis append_assoc)

lemma occurs_in_utf8: "occurs_in a b \<Longrightarrow> occurs_in (utf8 a) (utf8 b)"
  by (auto simp: occurs_in_iff) blast

lemma occurs_in_trim: "occurs_in (trim s) s"
proof -
  define u where "u = dropWhile is_whitespace s"
  have "u = rev (dropWhile is_whitespace (rev u)) @ rev (takeWhile is_whitespace (rev u))"
    by (metis rev_append rev_rev_ident takeWhile_dropWhile_id)
  then have "s = takeWhile is_whitespace s @ trim s @ rev (takeWhile is_whitespace (rev u))"
    by (simp add: trim_def trim_with_def u_def)
  then show ?thesis unfolding occurs_in_iff by blast
qed

lemma strip_prefix_Some: "strip_prefix p s = Some r \<longleftrightarrow> s = p @ r"
  by (auto simp: strip_prefix_def) (metis append_take_drop_id)

lemma fence_anchor_occurs:
  assumes "fence_anchor l = Some a"
  shows "occurs_in a l"
proof -
  obtain x where x: "strip_prefix (lit ''---'') l = Some x"
    using assms by (cases "strip_prefix (lit ''---'') l") (simp_all add: fence_anchor_def)
  obtain y where y: "strip_prefix (lit '' '') x = Some y"
    using assms x by (cases "strip_prefix (lit '' '') x") (simp_all add: fence_anchor_def)
  have a: "a = trim y" using assms x y by (simp add: fence_anchor_def Let_def split: if_splits)
  have l: "l = (lit ''---'' @ lit '' '') @ y" using x y by (simp add: strip_prefix_Some)
  have "occurs_in y l" unfolding l by (rule occurs_in_ends)
  then show ?thesis unfolding a by (rule occurs_in_trans [OF occurs_in_trim])
qed

lemma parse_lines_occurs:
  "r \<in> set (fst (parse_lines off n ls)) \<Longrightarrow> occurs_in (rr_anchor r) (join_with [10] ls)"
proof (induction ls arbitrary: off n)
  case (Cons l ls)
  have j: "occurs_in l (join_with [10] (l # ls))" "ls \<noteq> [] \<Longrightarrow> occurs_in (join_with [10] ls) (join_with [10] (l # ls))"
    using occurs_in_ends [of l] occurs_in_ends(2) [of "join_with [10] ls" "l @ [10]"] occurs_in_ends(1) [of l "[]"]
    by (cases ls; simp)+
  from Cons.prems consider "r \<in> set (fst (parse_lines (off + str_len l + 1) (n + 1) ls))"
    | a where "fence_anchor l = Some a" "rr_anchor r = a"
    using record_after_facts(1) [of l ls]
    by (fastforce simp: fst_parse_Cons no_fence_def split: option.splits)
  then show ?case
  proof cases
    case 1
    then have "ls \<noteq> []" by (cases ls) auto
    then show ?thesis by (rule occurs_in_trans [OF Cons.IH [OF 1] j(2)])
  next
    case 2
    then show ?thesis using fence_anchor_occurs occurs_in_trans j(1) by blast
  qed
qed simp

lemma records_of_occurs: "r \<in> set (records_of text) \<Longrightarrow> occurs_in (rr_anchor r) text"
  using parse_lines_occurs [of r 0 1 "split_on 10 text"] by (simp add: records_of_def parse_fragment_lines join_split)


definition hit_of :: "bytes \<Rightarrow> reg_record \<Rightarrow> hit" where
  "hit_of file r = \<lparr>ht_provider = provider_of file, ht_file = file, ht_record = r\<rparr>"

lemma scan_file_filter:
  assumes "rf_read fs file = Inr text"
    and "\<And>r. 0x3C \<notin> set (utf8 (rr_anchor r)) \<Longrightarrow> pred r \<Longrightarrow> occurs_in needle (utf8 (rr_anchor r))"
  shows "scan_file fs file needle pred = Inr (map (hit_of file) (filter pred (records_of text)))"
proof (cases "\<not> occurs_in needle (utf8 text) \<and> 0x3C \<notin> set (utf8 text)")
  case True
  have "\<not> pred r" if "r \<in> set (records_of text)" for r
  proof
    assume "pred r"
    have o: "occurs_in (utf8 (rr_anchor r)) (utf8 text)" using that by (intro occurs_in_utf8 records_of_occurs)
    then have "0x3C \<notin> set (utf8 (rr_anchor r))" using True by (auto simp: occurs_in_iff)
    then show False using assms(2) [OF _ \<open>pred r\<close>] occurs_in_trans [OF _ o] True by blast
  qed
  then have "filter pred (records_of text) = []" by (simp add: filter_empty_conv)
  with True assms(1) show ?thesis by (simp add: scan_file_def)
qed (auto simp: scan_file_def assms(1) hit_of_def [abs_def])

lemma occurs_exact: "0x3C \<notin> set (utf8 a) \<Longrightarrow> is_exact a q \<Longrightarrow> occurs_in (utf8 q) (utf8 a)"
  using occurs_in_ends(1) [of "utf8 q" "[]"] by (simp add: is_exact_def matches_exact_def has_wildcard_def)

lemma occurs_under_key: "0x3C \<notin> set (utf8 a) \<Longrightarrow> is_under_key a q \<Longrightarrow> occurs_in (utf8 q) (utf8 a)"
  using occurs_in_ends(1) [of "utf8 q"] occurs_in_ends(1) [of "utf8 q" "[]"]
  by (auto simp: is_under_key_def matches_under_key_def has_wildcard_def strip_prefix_Some)

text \<open>C33. The byte search that lets a scan skip a file never skips one that answers: searching a file
  gives exactly its matching records, in their order, wildcard records included.\<close>

theorem scan_complete:
  assumes "rf_read fs file = Inr text"
  shows "file_exact fs q file = Inr (map (hit_of file) (filter (\<lambda>r. is_exact (rr_anchor r) q) (records_of text)))
    \<and> file_key fs q file = Inr (map (hit_of file) (filter (\<lambda>r. is_under_key (rr_anchor r) q) (records_of text)))"
  unfolding file_exact_def file_key_def
  by (intro conjI scan_file_filter [OF assms]) (auto intro: occurs_exact occurs_under_key)

definition sample_fs :: reg_fs where
  "sample_fs = \<lparr>rf_dir = Inr [Inr (ascii ''d/a.regman'')], rf_read = (\<lambda>_. Inr sample_fragment),
     rf_bytes = (\<lambda>_. Inl (Missing []))\<rparr>"

theorem scan_complete_witness:
  "file_exact sample_fs [] [] = Inr (map (hit_of []) (filter (\<lambda>r. is_exact (rr_anchor r) []) (records_of sample_fragment)))"
  using scan_complete [of sample_fs "[]" sample_fragment "[]"] by (simp add: sample_fs_def)

end
