(* ===== verification/Utf8_Strict.thy ===== *)
theory Utf8_Strict
  imports RustStd
begin

text \<open>
  What the strict UTF-8 reader accepts it reads back exactly: \<open>from_utf8\<close> is the inverse of \<open>utf8\<close>
  on both sides.
\<close>

lemma cont_step:
  "utf8_cont (Suc k) lo hi acc bs = (Some c, r) \<longleftrightarrow>
     (\<exists>b bs'. bs = b # bs' \<and> lo \<le> unat b \<and> unat b \<le> hi
       \<and> utf8_cont k 0x80 0xBF (acc * 0x40 + (unat b - 0x80)) bs' = (Some c, r))"
  by (cases bs) auto

lemma of_nat_cont: "0x80 \<le> unat b \<Longrightarrow> of_nat (0x80 + (unat b - 0x80)) = (b :: u8)"
  by simp

lemma split_digit: "m < 0x40 \<Longrightarrow> (q * 0x40 + m) div 0x40 = q \<and> (q * 0x40 + m) mod 0x40 = (m :: nat)"
  by simp

lemma utf8_item_Some:
  assumes "utf8_item b bs = (Some c, r)"
  shows "b # bs = utf8_char c @ r \<and> is_scalar c"
proof -
  obtain k lo hi v where lead: "utf8_lead (unat b) = Some (k, lo, hi, v)"
    using assms by (auto simp: utf8_item_def split: option.splits)
  have c: "utf8_cont k lo hi v bs = (Some c, r)" using assms lead by (simp add: utf8_item_def)
  consider "unat b < 0x80" | "0xC2 \<le> unat b" "unat b < 0xE0" | "0xE0 \<le> unat b" "unat b < 0xF0"
    | "0xF0 \<le> unat b" "unat b < 0xF5"
    using lead by (auto simp: utf8_lead_def split: if_splits) 
  then show ?thesis
  proof cases
    case 1
    then have "k = 0" "v = unat b" using lead by (simp_all add: utf8_lead_def)
    then have "c = unat b" "r = bs" using c by simp_all
    with 1 show ?thesis by (simp add: utf8_char_def is_scalar_def)
  next
    case 2
    then have "k = Suc 0" "v = unat b - 0xC0" "lo = 0x80" "hi = 0xBF" using lead by (simp_all add: utf8_lead_def)
    then obtain b1 where b1: "bs = b1 # r" "0x80 \<le> unat b1" "unat b1 \<le> 0xBF"
      and cv: "c = (unat b - 0xC0) * 0x40 + (unat b1 - 0x80)"
      using c by (auto simp: cont_step)
    have d: "c div 0x40 = unat b - 0xC0" "c mod 0x40 = unat b1 - 0x80"
      using split_digit [of "unat b1 - 0x80" "unat b - 0xC0"] b1 cv by auto
    have "0x80 \<le> c" "c < 0x800" using cv b1 2 by auto
    then have "utf8_char c = [of_nat (0xC0 + (unat b - 0xC0)), of_nat (0x80 + (unat b1 - 0x80))]"
      by (simp add: utf8_char_def d del: of_nat_add)
    with 2 b1 \<open>c < 0x800\<close> show ?thesis by (simp add: is_scalar_def del: of_nat_add)
  next
    case 3
    then have "k = Suc (Suc 0)" "v = unat b - 0xE0" using lead by (simp_all add: utf8_lead_def numeral_2_eq_2)
    with c obtain b1 b2 where bs: "bs = b1 # b2 # r" and b1: "lo \<le> unat b1" "unat b1 \<le> hi"
      and b2: "0x80 \<le> unat b2" "unat b2 \<le> 0xBF"
      and cv: "c = ((unat b - 0xE0) * 0x40 + (unat b1 - 0x80)) * 0x40 + (unat b2 - 0x80)"
      by (auto simp: cont_step)
    have lh: "lo = (if unat b = 0xE0 then 0xA0 else 0x80)" "hi = (if unat b = 0xED then 0x9F else 0xBF)"
      using 3 lead by (simp_all add: utf8_lead_def)
    have b1': "0x80 \<le> unat b1" "unat b1 \<le> 0xBF" using b1 lh by (auto split: if_splits)
    have d: "c div 0x40 = (unat b - 0xE0) * 0x40 + (unat b1 - 0x80)" "c mod 0x40 = unat b2 - 0x80"
      using split_digit [of "unat b2 - 0x80" "(unat b - 0xE0) * 0x40 + (unat b1 - 0x80)"] b2 cv by auto
    have d2: "c div 0x40 div 0x40 = unat b - 0xE0" "c div 0x40 mod 0x40 = unat b1 - 0x80"
      using split_digit [of "unat b1 - 0x80" "unat b - 0xE0"] b1' d by auto
    have d3: "c div 0x1000 = unat b - 0xE0" using d2(1) by (simp add: div_mult2_eq [symmetric])
    have low: "0x800 \<le> c" using cv b1 lh 3 by (cases "unat b = 0xE0") auto
    have up: "c < 0x10000" using cv b1' b2 3 by auto
    have "c < 0xD800 \<or> 0xE000 \<le> c"
    proof (cases "unat b \<le> 0xED")
      case True
      then show ?thesis using cv b1 b1' b2 lh by (cases "unat b = 0xED") auto
    qed (use cv in auto)
    moreover have "utf8_char c = [of_nat (0xE0 + (unat b - 0xE0)), of_nat (0x80 + (unat b1 - 0x80)),
        of_nat (0x80 + (unat b2 - 0x80))]"
      using low up by (simp add: utf8_char_def d(2) d2(2) d3 del: of_nat_add)
    ultimately show ?thesis using 3 bs b1' b2 up by (auto simp: is_scalar_def simp del: of_nat_add)
  next
    case 4
    then have "k = Suc (Suc (Suc 0))" "v = unat b - 0xF0" using lead by (simp_all add: utf8_lead_def numeral_3_eq_3)
    with c obtain b1 b2 b3 where bs: "bs = b1 # b2 # b3 # r" and b1: "lo \<le> unat b1" "unat b1 \<le> hi"
      and b2: "0x80 \<le> unat b2" "unat b2 \<le> 0xBF" and b3: "0x80 \<le> unat b3" "unat b3 \<le> 0xBF"
      and cv: "c = (((unat b - 0xF0) * 0x40 + (unat b1 - 0x80)) * 0x40 + (unat b2 - 0x80)) * 0x40 + (unat b3 - 0x80)"
      by (auto simp only: cont_step utf8_cont.simps(1) prod.inject option.inject)
    have lh: "lo = (if unat b = 0xF0 then 0x90 else 0x80)" "hi = (if unat b = 0xF4 then 0x8F else 0xBF)"
      using 4 lead by (simp_all add: utf8_lead_def)
    have b1': "0x80 \<le> unat b1" "unat b1 \<le> 0xBF" using b1 lh by (auto split: if_splits)
    let ?q1 = "(unat b - 0xF0) * 0x40 + (unat b1 - 0x80)"
    have d: "c div 0x40 = ?q1 * 0x40 + (unat b2 - 0x80)" "c mod 0x40 = unat b3 - 0x80"
      using split_digit [of "unat b3 - 0x80" "?q1 * 0x40 + (unat b2 - 0x80)"] b3 cv by auto
    have d2: "c div 0x40 div 0x40 = ?q1" "c div 0x40 mod 0x40 = unat b2 - 0x80"
      using split_digit [of "unat b2 - 0x80" ?q1] b2 d by auto
    have d3: "c div 0x1000 = ?q1" using d2(1) by (simp add: div_mult2_eq [symmetric])
    have d4: "c div 0x1000 div 0x40 = unat b - 0xF0" "c div 0x1000 mod 0x40 = unat b1 - 0x80"
      using split_digit [of "unat b1 - 0x80" "unat b - 0xF0"] b1' d3 by auto
    have d5: "c div 0x40000 = unat b - 0xF0" using d4(1) by (simp add: div_mult2_eq [symmetric])
    have low: "0x10000 \<le> c" using cv b1 lh 4 by (cases "unat b = 0xF0") auto
    have up: "c < 0x110000" using cv b1 b1' b2 b3 lh 4 by (cases "unat b = 0xF4") auto
    have "utf8_char c = [of_nat (0xF0 + (unat b - 0xF0)), of_nat (0x80 + (unat b1 - 0x80)),
        of_nat (0x80 + (unat b2 - 0x80)), of_nat (0x80 + (unat b3 - 0x80))]"
      using low by (simp add: utf8_char_def d(2) d2(2) d4(2) d5 del: of_nat_add)
    then show ?thesis using 4 bs b1' b2 b3 low up by (auto simp: is_scalar_def simp del: of_nat_add)
  qed
qed

lemma utf8_from_utf8:
  assumes "from_utf8 bs = Some s"
  shows "utf8 s = bs" "valid_str s"
proof -
  have "None \<notin> set (utf8_items bs) \<Longrightarrow> utf8 (map the (utf8_items bs)) = bs \<and> valid_str (map the (utf8_items bs))"
  proof (induction bs rule: utf8_items.induct)
    case (2 b bs)
    obtain c r where i: "utf8_item b bs = (Some c, r)"
      using 2(2) by (cases "utf8_item b bs"; cases "fst (utf8_item b bs)") auto
    then have items: "utf8_items (b # bs) = Some c # utf8_items r" by simp
    have "utf8 (map the (utf8_items r)) = r \<and> valid_str (map the (utf8_items r))"
      using 2 i by simp
    then show ?case
      using utf8_item_Some [OF i, THEN conjunct1, symmetric] utf8_item_Some [OF i, THEN conjunct2]
      unfolding items by (simp add: valid_str_def)
  qed (simp add: valid_str_def)
  then show "utf8 s = bs" "valid_str s"
    using assms by (auto simp: from_utf8_def Let_def split: if_splits)
qed

lemma from_utf8_iff: "from_utf8 bs = Some s \<longleftrightarrow> utf8 s = bs \<and> valid_str s"
  using utf8_from_utf8 from_utf8_utf8 by blast

end
