(* ===== verification/Reg_Index.thy ===== *)
theory Reg_Index
  imports Reg_Scan Utf8_Strict
begin

text \<open>
  \<open>crates/registry-manual/src/index.rs\<close>: the flat-file index of the registry manual, from the
  records of the corpus to bytes and back. Offsets are below \<open>2^32\<close> when read and their sums cannot
  overflow 64 bits, so they are natural numbers; a slice outside the bytes is a panic, the outer
  \<open>None\<close> of the operations.
\<close>

section \<open>The file's layout\<close>

definition IX_MAGIC :: bytes where "IX_MAGIC = ascii ''REGMANIX''"
definition IX_VERSION :: nat where "IX_VERSION = 2"
definition IX_HEADER_LEN :: nat where "IX_HEADER_LEN = 48"
definition DESC_LEN :: nat where "DESC_LEN = 16"
definition LOC_LEN :: nat where "LOC_LEN = 12"
definition WILD_LEN :: nat where "WILD_LEN = 4"

lemmas layout_defs = IX_HEADER_LEN_def DESC_LEN_def LOC_LEN_def WILD_LEN_def

record location =
  lc_file :: bytes
  lc_offset :: nat

definition slice :: "nat \<Rightarrow> nat \<Rightarrow> bytes \<Rightarrow> bytes option" where
  "slice a b bs = (if a \<le> b \<and> b \<le> length bs then Some (subslice a b bs) else None)"

definition rd_u32 :: "bytes \<Rightarrow> nat \<Rightarrow> nat option" where
  "rd_u32 b at = map_option (\<lambda>s. unat (from_le s :: u32)) (slice at (at + 4) b)"

definition rd_u64 :: "bytes \<Rightarrow> nat \<Rightarrow> nat option" where
  "rd_u64 b at = map_option (\<lambda>s. unat (from_le s :: u64)) (slice at (at + 8) b)"

text \<open>\<open>(n as u32).to_le_bytes()\<close> and its 64-bit form.\<close>

definition le32 :: "nat \<Rightarrow> bytes" where "le32 n = to_le 4 (of_nat n :: u32)"
definition le64 :: "nat \<Rightarrow> bytes" where "le64 n = to_le 8 (of_nat n :: u64)"

section \<open>Building\<close>

type_synonym index_entries = "(rust_str \<times> (nat \<times> nat) list) list"

text \<open>\<open>entry(anchor).or_default().push(location)\<close> on a map ordered by the anchors' bytes.\<close>

fun entry_push :: "rust_str \<Rightarrow> nat \<times> nat \<Rightarrow> index_entries \<Rightarrow> index_entries" where
  "entry_push a v [] = [(a, [v])]"
| "entry_push a v ((k, vs) # es) =
     (if utf8 a = utf8 k then (k, vs @ [v]) # es
      else if utf8 a < utf8 k then (a, [v]) # (k, vs) # es
      else (k, vs) # entry_push a v es)"

fun index_files :: "reg_fs \<Rightarrow> bytes list \<Rightarrow> index_entries \<Rightarrow> rust_str list \<Rightarrow> reg_error + (index_entries \<times> rust_str list)" where
  "index_files fs [] entries files = Inr (entries, files)"
| "index_files fs (file # rest) entries files =
     (let file_str = from_utf8_lossy file;
          (file_idx, files) = (case position (\<lambda>f. f = file_str) files of
             Some i \<Rightarrow> (i, files) | None \<Rightarrow> (length files, files @ [file_str]))
      in case rf_read fs file of
        Inl e \<Rightarrow> Inl (to_reg_error e)
      | Inr text \<Rightarrow>
          index_files fs rest
            (foldl (\<lambda>es r. entry_push (rr_anchor r) (file_idx, rr_fence_offset r) es) entries (records_of text)) files)"

record index_parts =
  ip_descriptors :: bytes
  ip_locations :: bytes
  ip_wildcards :: bytes
  ip_anchors :: bytes
  ip_loc_idx :: nat

definition serialize_entry :: "nat \<Rightarrow> index_parts \<Rightarrow> nat \<times> rust_str \<times> (nat \<times> nat) list \<Rightarrow> index_parts" where
  "serialize_entry anch_off p e =
     (case e of (i, a, locs) \<Rightarrow>
        let a_off = anch_off + length (ip_anchors p) in
        \<lparr>ip_descriptors = ip_descriptors p @ le32 a_off @ le32 (str_len a) @ le32 (ip_loc_idx p) @ le32 (length locs),
         ip_locations = ip_locations p @ concat (map (\<lambda>(f, off). le32 f @ le64 off) locs),
         ip_wildcards = (if has_wildcard (utf8 a) then ip_wildcards p @ le32 i else ip_wildcards p),
         ip_anchors = ip_anchors p @ utf8 a,
         ip_loc_idx = ip_loc_idx p + length locs\<rparr>)"

definition serialize :: "index_entries \<Rightarrow> rust_str list \<Rightarrow> bytes" where
  "serialize entries files =
     (let entry_count = length entries;
          loc_count = sum_list (map (\<lambda>e. length (snd e)) entries);
          wild_count = length (filter (\<lambda>e. has_wildcard (utf8 (fst e))) entries);
          desc_off = IX_HEADER_LEN;
          locs_off = desc_off + entry_count * DESC_LEN;
          files_off = locs_off + loc_count * LOC_LEN;
          files_len = sum_list (map (\<lambda>f. 4 + str_len f) files);
          wild_off = files_off + files_len;
          anch_off = wild_off + wild_count * WILD_LEN;
          p = foldl (serialize_entry anch_off) \<lparr>ip_descriptors = [], ip_locations = [], ip_wildcards = [],
                ip_anchors = [], ip_loc_idx = 0\<rparr> (List.enumerate 0 entries);
          file_table = concat (map (\<lambda>f. le32 (str_len f) @ utf8 f) files)
      in IX_MAGIC @ le32 IX_VERSION @ le32 entry_count @ le32 desc_off @ le32 locs_off @ le32 files_off
         @ le32 anch_off @ le32 (length files) @ le32 wild_off @ le32 wild_count @ le32 0
         @ ip_descriptors p @ ip_locations p @ file_table @ ip_wildcards p @ ip_anchors p)"

text \<open>The bytes \<open>build\<close> hands to the atomic write.\<close>

definition build_index :: "reg_fs \<Rightarrow> reg_error + bytes" where
  "build_index fs =
     result_bind (fragments fs) (\<lambda>paths.
     result_bind (index_files fs paths [] []) (\<lambda>(entries, files). Inr (serialize entries files)))"

section \<open>Loading\<close>

record reg_index =
  ix_bytes :: bytes
  ix_files :: "rust_str list"
  ix_entries :: nat
  ix_desc_off :: nat
  ix_locs_off :: nat
  ix_wild_off :: nat
  ix_wild_n :: nat

definition ix_desc :: "reg_index \<Rightarrow> nat \<Rightarrow> (nat \<times> nat \<times> nat \<times> nat) option" where
  "ix_desc ix i = do {
     let base = ix_desc_off ix + i * DESC_LEN;
     a \<leftarrow> rd_u32 (ix_bytes ix) base;
     b \<leftarrow> rd_u32 (ix_bytes ix) (base + 4);
     c \<leftarrow> rd_u32 (ix_bytes ix) (base + 8);
     d \<leftarrow> rd_u32 (ix_bytes ix) (base + 12);
     Some (a, b, c, d)
   }"

definition ix_anchor :: "reg_index \<Rightarrow> nat \<Rightarrow> bytes option" where
  "ix_anchor ix i = do { (off, len, _, _) \<leftarrow> ix_desc ix i; slice off (off + len) (ix_bytes ix) }"

definition ix_wild :: "reg_index \<Rightarrow> nat \<Rightarrow> nat option" where
  "ix_wild ix k = rd_u32 (ix_bytes ix) (ix_wild_off ix + k * WILD_LEN)"

fun validate_entries :: "reg_index \<Rightarrow> nat \<Rightarrow> nat \<Rightarrow> nat list \<Rightarrow> bytes option \<Rightarrow> nat \<Rightarrow> nat option option" where
  "validate_entries ix anch_off location_count [] previous seen = Some (Some seen)"
| "validate_entries ix anch_off location_count (i # is) previous seen = do {
     (offset, len, loc, count) \<leftarrow> ix_desc ix i;
     if offset < anch_off \<or> length (ix_bytes ix) < offset + len \<or> location_count < loc + count then Some None
     else do {
       a \<leftarrow> ix_anchor ix i;
       if from_utf8 a = None then Some None
       else if (case previous of Some value \<Rightarrow> a \<le> value | None \<Rightarrow> False) then Some None
       else if has_wildcard a then
         if ix_wild_n ix \<le> seen then Some None
         else do {
           w \<leftarrow> ix_wild ix seen;
           if w \<noteq> i then Some None
           else validate_entries ix anch_off location_count is (Some a) (seen + 1)
         }
       else validate_entries ix anch_off location_count is (Some a) seen
     }
   }"

fun validate_locations :: "reg_index \<Rightarrow> nat list \<Rightarrow> bool option" where
  "validate_locations ix [] = Some True"
| "validate_locations ix (i # is) = do {
     f \<leftarrow> rd_u32 (ix_bytes ix) (ix_locs_off ix + i * LOC_LEN);
     if length (ix_files ix) \<le> f then Some False else validate_locations ix is
   }"

definition validate_records :: "reg_index \<Rightarrow> nat \<Rightarrow> nat \<Rightarrow> bool option" where
  "validate_records ix anch_off location_count = do {
     r \<leftarrow> validate_entries ix anch_off location_count [0..<ix_entries ix] None 0;
     case r of
       None \<Rightarrow> Some False
     | Some seen \<Rightarrow>
         if seen \<noteq> ix_wild_n ix then Some False
         else validate_locations ix [0..<location_count]
   }"

fun decode_files :: "bytes \<Rightarrow> nat \<Rightarrow> nat \<Rightarrow> nat \<Rightarrow> (rust_str list \<times> nat) option option" where
  "decode_files b wild_off 0 at = Some (Some ([], at))"
| "decode_files b wild_off (Suc n) at =
     (let length_end = at + 4 in
      if wild_off < length_end then Some None
      else do {
        len \<leftarrow> rd_u32 b at;
        let stop = length_end + len;
        if wild_off < stop then Some None
        else do {
          s \<leftarrow> slice length_end stop b;
          case from_utf8 s of
            None \<Rightarrow> Some None
          | Some f \<Rightarrow> do {
              r \<leftarrow> decode_files b wild_off n stop;
              Some (map_option (\<lambda>(fs, at). (f # fs, at)) r)
            }
        }
      })"

definition decode_index :: "bytes \<Rightarrow> reg_index option option" where
  "decode_index b =
     (if length b < IX_HEADER_LEN \<or> take 8 b \<noteq> IX_MAGIC then Some None
      else do {
        version \<leftarrow> rd_u32 b 8;
        if version \<noteq> IX_VERSION then Some None
        else do {
          entries \<leftarrow> rd_u32 b 12;
          desc_off \<leftarrow> rd_u32 b 16;
          locs_off \<leftarrow> rd_u32 b 20;
          files_off \<leftarrow> rd_u32 b 24;
          anch_off \<leftarrow> rd_u32 b 28;
          file_count \<leftarrow> rd_u32 b 32;
          wild_off \<leftarrow> rd_u32 b 36;
          wild_n \<leftarrow> rd_u32 b 40;
          if desc_off \<noteq> IX_HEADER_LEN \<or> desc_off + entries * DESC_LEN \<noteq> locs_off \<or> files_off < locs_off
            \<or> (files_off - locs_off) mod LOC_LEN \<noteq> 0 \<or> wild_off < files_off
            \<or> wild_off + wild_n * WILD_LEN \<noteq> anch_off \<or> length b < anch_off
            \<or> (wild_off - files_off) div 4 < file_count
          then Some None
          else do {
            r \<leftarrow> decode_files b wild_off file_count files_off;
            case r of
              None \<Rightarrow> Some None
            | Some (files, at) \<Rightarrow>
                if at \<noteq> wild_off then Some None
                else do {
                  let ix = \<lparr>ix_bytes = b, ix_files = files, ix_entries = entries, ix_desc_off = desc_off,
                    ix_locs_off = locs_off, ix_wild_off = wild_off, ix_wild_n = wild_n\<rparr>;
                  ok \<leftarrow> validate_records ix anch_off ((files_off - locs_off) div LOC_LEN);
                  Some (if ok then Some ix else None)
                }
          }
        }
      })"

section \<open>Looking up\<close>

fun locations_from :: "reg_index \<Rightarrow> nat list \<Rightarrow> location list option" where
  "locations_from ix [] = Some []"
| "locations_from ix (k # ks) = do {
     let base = ix_locs_off ix + k * LOC_LEN;
     file_idx \<leftarrow> rd_u32 (ix_bytes ix) base;
     offset \<leftarrow> rd_u64 (ix_bytes ix) (base + 4);
     out \<leftarrow> locations_from ix ks;
     Some (if file_idx < length (ix_files ix)
       then \<lparr>lc_file = utf8 (ix_files ix ! file_idx), lc_offset = offset\<rparr> # out else out)
   }"

definition ix_locations :: "reg_index \<Rightarrow> nat \<Rightarrow> nat \<Rightarrow> location list option" where
  "ix_locations ix loc_idx loc_n = locations_from ix [loc_idx..<loc_idx + loc_n]"

function lower_bound_loop :: "reg_index \<Rightarrow> bytes \<Rightarrow> nat \<Rightarrow> nat \<Rightarrow> nat option" where
  "lower_bound_loop ix target lo hi =
     (if lo < hi then
        let mid = (lo + hi) div 2 in do {
          a \<leftarrow> ix_anchor ix mid;
          if a < target then lower_bound_loop ix target (mid + 1) hi else lower_bound_loop ix target lo mid
        }
      else Some lo)"
  by pat_completeness auto
termination by (relation "measure (\<lambda>(_, _, lo, hi). hi - lo)") auto

definition lower_bound :: "reg_index \<Rightarrow> bytes \<Rightarrow> nat option" where
  "lower_bound ix target = lower_bound_loop ix target 0 (ix_entries ix)"

fun push_wildcard_matches :: "reg_index \<Rightarrow> (rust_str \<Rightarrow> bool) \<Rightarrow> nat list \<Rightarrow> nat list \<Rightarrow> nat list option" where
  "push_wildcard_matches ix pred [] idxs = Some idxs"
| "push_wildcard_matches ix pred (k # ks) idxs = do {
     i \<leftarrow> ix_wild ix k;
     if ix_entries ix \<le> i \<or> i \<in> set idxs then push_wildcard_matches ix pred ks idxs
     else do {
       a \<leftarrow> ix_anchor ix i;
       push_wildcard_matches ix pred ks
         (case from_utf8 a of Some t \<Rightarrow> if pred t then idxs @ [i] else idxs | None \<Rightarrow> idxs)
     }
   }"

fun ix_collect :: "reg_index \<Rightarrow> nat list \<Rightarrow> location list option" where
  "ix_collect ix [] = Some []"
| "ix_collect ix (i # is) = do {
     (_, _, loc_idx, loc_n) \<leftarrow> ix_desc ix i;
     ls \<leftarrow> ix_locations ix loc_idx loc_n;
     out \<leftarrow> ix_collect ix is;
     Some (ls @ out)
   }"

definition lookup_exact :: "reg_index \<Rightarrow> rust_str \<Rightarrow> location list option" where
  "lookup_exact ix folded_anchor = do {
     let target = utf8 folded_anchor;
     i \<leftarrow> lower_bound ix target;
     idxs \<leftarrow> (if i < ix_entries ix then do { a \<leftarrow> ix_anchor ix i; Some (if a = target then [i] else []) }
       else Some []);
     idxs \<leftarrow> push_wildcard_matches ix (\<lambda>a. is_exact a folded_anchor) [0..<ix_wild_n ix] idxs;
     ix_collect ix idxs
   }"

function key_loop :: "reg_index \<Rightarrow> rust_str \<Rightarrow> nat \<Rightarrow> nat list \<Rightarrow> nat list option" where
  "key_loop ix folded_path i idxs =
     (if i < ix_entries ix then do {
        a \<leftarrow> ix_anchor ix i;
        if strip_prefix (utf8 folded_path) a \<noteq> None then
          key_loop ix folded_path (i + 1)
            (case from_utf8 a of Some t \<Rightarrow> if is_under_key t folded_path then idxs @ [i] else idxs | None \<Rightarrow> idxs)
        else Some idxs
      }
      else Some idxs)"
  by pat_completeness auto
termination by (relation "measure (\<lambda>(ix, _, i, _). ix_entries ix - i)") auto

definition lookup_key :: "reg_index \<Rightarrow> rust_str \<Rightarrow> location list option" where
  "lookup_key ix folded_path = do {
     i \<leftarrow> lower_bound ix (utf8 folded_path);
     idxs \<leftarrow> key_loop ix folded_path i [];
     idxs \<leftarrow> push_wildcard_matches ix (\<lambda>a. is_under_key a folded_path) [0..<ix_wild_n ix] idxs;
     ix_collect ix idxs
   }"

declare lower_bound_loop.simps [simp del] key_loop.simps [simp del]

section \<open>A loaded index is safe to read\<close>

definition anchor_at :: "reg_index \<Rightarrow> nat \<Rightarrow> bytes" where
  "anchor_at ix i = the (ix_anchor ix i)"

definition locations_at :: "reg_index \<Rightarrow> nat \<Rightarrow> location list" where
  "locations_at ix i = the (do { (_, _, l, n) \<leftarrow> ix_desc ix i; ix_locations ix l n })"

definition index_wf :: "reg_index \<Rightarrow> bool" where
  "index_wf ix \<longleftrightarrow>
     (\<forall>i < ix_entries ix. ix_anchor ix i \<noteq> None \<and> from_utf8 (anchor_at ix i) \<noteq> None
        \<and> (\<exists>o' l li c ls. ix_desc ix i = Some (o', l, li, c) \<and> ix_locations ix li c = Some ls
          \<and> (\<forall>loc \<in> set ls. lc_file loc \<in> utf8 ` set (ix_files ix))))
     \<and> sorted_wrt (<) (map (anchor_at ix) [0..<ix_entries ix])
     \<and> map (ix_wild ix) [0..<ix_wild_n ix]
        = map Some (filter (\<lambda>i. has_wildcard (anchor_at ix i)) [0..<ix_entries ix])"

definition layout_ok :: "reg_index \<Rightarrow> nat \<Rightarrow> bool" where
  "layout_ok ix n \<longleftrightarrow> ix_desc_off ix = IX_HEADER_LEN \<and> ix_desc_off ix + ix_entries ix * DESC_LEN = ix_locs_off ix
     \<and> ix_locs_off ix + n * LOC_LEN \<le> ix_wild_off ix
     \<and> ix_wild_off ix + ix_wild_n ix * WILD_LEN \<le> length (ix_bytes ix)"

lemma rd_u32_in: "at + 4 \<le> length b \<Longrightarrow> \<exists>v. rd_u32 b at = Some v"
  by (simp add: rd_u32_def slice_def)

lemma rd_u64_in: "at + 8 \<le> length b \<Longrightarrow> \<exists>v. rd_u64 b at = Some v"
  by (simp add: rd_u64_def slice_def)

lemma scaled_bound: "i < n \<Longrightarrow> i * k + k \<le> n * (k :: nat)"
  by (metis add.commute mult_Suc mult_le_mono1 Suc_leI)

lemma desc_in:
  assumes "layout_ok ix n" "i < ix_entries ix"
  shows "\<exists>a b c d. ix_desc ix i = Some (a, b, c, d)"
proof -
  let ?base = "ix_desc_off ix + i * DESC_LEN"
  have "?base + 16 \<le> length (ix_bytes ix)"
    using assms scaled_bound [of i "ix_entries ix" 16] by (simp add: layout_ok_def layout_defs)
  then have "?base + 4 \<le> length (ix_bytes ix)" "?base + 4 + 4 \<le> length (ix_bytes ix)"
    "?base + 8 + 4 \<le> length (ix_bytes ix)" "?base + 12 + 4 \<le> length (ix_bytes ix)" by linarith+
  from this [THEN rd_u32_in] show ?thesis unfolding ix_desc_def Let_def by (elim exE) simp
qed

lemma wild_in: "layout_ok ix n \<Longrightarrow> k < ix_wild_n ix \<Longrightarrow> \<exists>w. ix_wild ix k = Some w"
  using scaled_bound [of k "ix_wild_n ix" 4]
  by (auto simp: ix_wild_def layout_ok_def layout_defs intro!: rd_u32_in)

lemma location_in:
  assumes "layout_ok ix n" "k < n"
  shows "\<exists>f. rd_u32 (ix_bytes ix) (ix_locs_off ix + k * LOC_LEN) = Some f"
    "\<exists>off. rd_u64 (ix_bytes ix) (ix_locs_off ix + k * LOC_LEN + 4) = Some off"
  using scaled_bound [of k n 12] assms
  by (auto simp: layout_ok_def layout_defs intro!: rd_u32_in rd_u64_in)

lemma locations_from_in:
  assumes "layout_ok ix n" "\<forall>k \<in> set ks. k < n"
  shows "\<exists>ls. locations_from ix ks = Some ls \<and> (\<forall>loc \<in> set ls. lc_file loc \<in> utf8 ` set (ix_files ix))"
  using assms(2)
proof (induction ks)
  case (Cons k ks)
  then show ?case using location_in [OF assms(1), of k] by (fastforce simp: Let_def)
qed simp

lemma validate_entries_total:
  assumes "layout_ok ix n" "\<forall>i \<in> set is. i < ix_entries ix"
  shows "\<exists>r. validate_entries ix ao n is previous seen = Some r"
  using assms(2)
proof (induction "is" arbitrary: previous seen)
  case (Cons i "is")
  obtain a b c d where d: "ix_desc ix i = Some (a, b, c, d)" using desc_in [OF assms(1), of i] Cons.prems by auto
  show ?case
  proof (cases "a < ao \<or> length (ix_bytes ix) < a + b \<or> n < c + d")
    case False
    then have "ix_anchor ix i = Some (subslice a (a + b) (ix_bytes ix))" by (simp add: ix_anchor_def d slice_def)
    with d False Cons show ?thesis using wild_in [OF assms(1), of seen] by auto
  qed (simp add: d)
qed simp

lemma validate_locations_total:
  assumes "layout_ok ix n" "\<forall>i \<in> set is. i < n"
  shows "\<exists>r. validate_locations ix is = Some r"
  using assms(2)
proof (induction "is")
  case (Cons i "is")
  then show ?case using location_in(1) [OF assms(1), of i] by auto
qed auto

lemma validate_entries_sound:
  assumes "validate_entries ix ao n is previous seen = Some (Some last_seen)"
  shows "(\<forall>i \<in> set is. ix_anchor ix i \<noteq> None \<and> from_utf8 (anchor_at ix i) \<noteq> None
      \<and> (\<exists>o' l li c. ix_desc ix i = Some (o', l, li, c) \<and> li + c \<le> n))
    \<and> sorted_wrt (<) (case previous of None \<Rightarrow> map (anchor_at ix) is | Some p \<Rightarrow> p # map (anchor_at ix) is)
    \<and> seen \<le> last_seen
    \<and> map (ix_wild ix) [seen..<last_seen] = map Some (filter (\<lambda>i. has_wildcard (anchor_at ix i)) is)"
  using assms
proof (induction "is" arbitrary: previous seen)
  case (Cons i "is")
  obtain a b c d where d: "ix_desc ix i = Some (a, b, c, d)"
    using Cons.prems by (cases "ix_desc ix i") auto
  have r: "\<not> (a < ao \<or> length (ix_bytes ix) < a + b \<or> n < c + d)" using Cons.prems d by (auto split: if_splits)
  obtain x where x: "ix_anchor ix i = Some x" using Cons.prems d r by (cases "ix_anchor ix i") auto
  then have ax: "anchor_at ix i = x" by (simp add: anchor_at_def)
  have u: "from_utf8 x \<noteq> None" and p: "\<not> (case previous of Some v \<Rightarrow> x \<le> v | None \<Rightarrow> False)"
    using Cons.prems d r x by (auto split: if_splits)
  have asc: "sorted_wrt (<) (x # map (anchor_at ix) is) \<Longrightarrow>
      sorted_wrt (<) (case previous of None \<Rightarrow> map (anchor_at ix) (i # is) | Some p \<Rightarrow> p # map (anchor_at ix) (i # is))"
    using p by (fastforce simp: ax split: option.splits)
  show ?case
  proof (cases "has_wildcard x")
    case True
    then have w: "ix_wild ix seen = Some i" and rest: "validate_entries ix ao n is (Some x) (seen + 1) = Some (Some last_seen)"
      using Cons.prems d r x u p by (auto split: if_splits bind_splits)
    note IH = Cons.IH [OF rest]
    then have "[seen..<last_seen] = seen # [seen + 1..<last_seen]" by (simp add: upt_conv_Cons)
    with IH w True r d x u ax asc show ?thesis by auto
  next
    case False
    then have rest: "validate_entries ix ao n is (Some x) seen = Some (Some last_seen)"
      using Cons.prems d r x u p by (auto split: if_splits)
    from Cons.IH [OF rest] False r d x u ax asc show ?thesis by auto
  qed
qed (simp split: option.splits)

lemma decode_files_total: "wild_off \<le> length b \<Longrightarrow> \<exists>r. decode_files b wild_off n at = Some r"
proof (induction n arbitrary: at)
  case (Suc n)
  show ?case
  proof (cases "wild_off < at + 4")
    case False
    then obtain len where l: "rd_u32 b at = Some len" using rd_u32_in [of at b] Suc.prems by auto
    show ?thesis
    proof (cases "wild_off < at + 4 + len")
      case ok: False
      then have "slice (at + 4) (at + 4 + len) b = Some (subslice (at + 4) (at + 4 + len) b)"
        using Suc.prems by (simp add: slice_def)
      then show ?thesis
        using False l ok Suc.IH [OF Suc.prems, of "at + 4 + len"]
        by (auto simp: Let_def split: option.splits)
    qed (use False l in \<open>simp add: Let_def\<close>)
  qed (simp add: Let_def)
qed simp

lemma validate_records_total: "layout_ok ix n \<Longrightarrow> \<exists>ok. validate_records ix ao n = Some ok"
proof -
  assume l: "layout_ok ix n"
  obtain r where "validate_entries ix ao n [0..<ix_entries ix] None 0 = Some r"
    using validate_entries_total [OF l] by fastforce
  moreover obtain ok where "validate_locations ix [0..<n] = Some ok"
    using validate_locations_total [OF l] by fastforce
  ultimately show ?thesis by (auto simp: validate_records_def split: option.splits)
qed

lemma validate_records_wf:
  assumes "layout_ok ix n" "validate_records ix ao n = Some True"
  shows "index_wf ix"
proof -
  have v: "validate_entries ix ao n [0..<ix_entries ix] None 0 = Some (Some (ix_wild_n ix))"
    using assms(2) by (auto simp: validate_records_def bind_eq_Some_conv split: option.splits if_splits)
  have "\<exists>ls. ix_locations ix l c = Some ls \<and> (\<forall>loc \<in> set ls. lc_file loc \<in> utf8 ` set (ix_files ix))"
    if "l + c \<le> n" for l c
    unfolding ix_locations_def using that by (intro locations_from_in [OF assms(1)]) auto
  with validate_entries_sound [OF v] show ?thesis unfolding index_wf_def by fastforce
qed

definition header_ok :: "nat \<Rightarrow> nat \<Rightarrow> nat \<Rightarrow> nat \<Rightarrow> nat \<Rightarrow> nat \<Rightarrow> nat \<Rightarrow> nat \<Rightarrow> bytes \<Rightarrow> bool" where
  "header_ok entries desc_off locs_off files_off anch_off file_count wild_off wild_n b \<longleftrightarrow>
     \<not> (desc_off \<noteq> IX_HEADER_LEN \<or> desc_off + entries * DESC_LEN \<noteq> locs_off \<or> files_off < locs_off
        \<or> (files_off - locs_off) mod LOC_LEN \<noteq> 0 \<or> wild_off < files_off
        \<or> wild_off + wild_n * WILD_LEN \<noteq> anch_off \<or> length b < anch_off
        \<or> (wild_off - files_off) div 4 < file_count)"

lemma decode_result:
  "\<exists>r. decode_index b = Some r \<and> (\<forall>ix. r = Some ix \<longrightarrow> index_wf ix)"
proof (cases "length b < IX_HEADER_LEN \<or> take 8 b \<noteq> IX_MAGIC")
  case False
  then have len: "48 \<le> length b" by (simp add: layout_defs)
  then have "8 + 4 \<le> length b" "12 + 4 \<le> length b" "16 + 4 \<le> length b" "20 + 4 \<le> length b" "24 + 4 \<le> length b"
    "28 + 4 \<le> length b" "32 + 4 \<le> length b" "36 + 4 \<le> length b" "40 + 4 \<le> length b" by simp_all
  from this [THEN rd_u32_in] obtain version entries desc_off locs_off files_off anch_off file_count wild_off wild_n
    where rd: "rd_u32 b 8 = Some version" "rd_u32 b 12 = Some entries" "rd_u32 b 16 = Some desc_off"
      "rd_u32 b 20 = Some locs_off" "rd_u32 b 24 = Some files_off" "rd_u32 b 28 = Some anch_off"
      "rd_u32 b 32 = Some file_count" "rd_u32 b 36 = Some wild_off" "rd_u32 b 40 = Some wild_n" by auto
  show ?thesis
  proof (cases "version = IX_VERSION \<and> header_ok entries desc_off locs_off files_off anch_off file_count wild_off wild_n b")
    case False
    then have "decode_index b = Some None"
      unfolding decode_index_def header_ok_def using \<open>\<not> (length b < _ \<or> _)\<close> rd by simp
    then show ?thesis by simp
  next
    case ok: True
    define n where "n = (files_off - locs_off) div LOC_LEN"
    have o: "wild_off \<le> length b" and files_off: "files_off = locs_off + n * LOC_LEN"
      using ok by (auto simp: header_ok_def n_def mod_eq_0_iff_dvd)
    obtain fr where fr: "decode_files b wild_off file_count files_off = Some fr" using decode_files_total [OF o] by blast
    have step: "decode_index b = (case fr of
        None \<Rightarrow> Some None
      | Some (files, at) \<Rightarrow>
          if at \<noteq> wild_off then Some None
          else do {
            let ix = \<lparr>ix_bytes = b, ix_files = files, ix_entries = entries, ix_desc_off = desc_off,
              ix_locs_off = locs_off, ix_wild_off = wild_off, ix_wild_n = wild_n\<rparr>;
            ok \<leftarrow> validate_records ix anch_off n;
            Some (if ok then Some ix else None)
          })"
      unfolding decode_index_def n_def using \<open>\<not> (length b < _ \<or> _)\<close> rd ok fr
      by (simp add: header_ok_def split: option.split)
    show ?thesis
    proof (cases fr)
      case (Some p)
      obtain files at where p: "p = (files, at)" by (cases p)
      let ?ix = "\<lparr>ix_bytes = b, ix_files = files, ix_entries = entries, ix_desc_off = desc_off,
              ix_locs_off = locs_off, ix_wild_off = wild_off, ix_wild_n = wild_n\<rparr>"
      have l: "layout_ok ?ix n" using ok files_off by (auto simp: header_ok_def layout_ok_def)
      obtain okv where "validate_records ?ix anch_off n = Some okv" using validate_records_total [OF l] by blast
      then show ?thesis using step Some p validate_records_wf [OF l] by (cases okv) (auto simp: Let_def)
    qed (simp add: step)
  qed
qed (simp add: decode_index_def)

end
