(* ===== verification/Reg_Lookup.thy ===== *)
theory Reg_Lookup
  imports Reg_Index
begin

text \<open>
  What the index of the registry manual answers: on any bytes that load, a lookup finds exactly the
  entries a scan of the anchors would; and the bytes that \<open>build\<close> writes load to the entries they
  were written from.
\<close>

section \<open>What a lookup finds\<close>

lemma wf_entry:
  assumes "index_wf ix" "i < ix_entries ix"
  shows "ix_anchor ix i = Some (anchor_at ix i)" "\<exists>t. from_utf8 (anchor_at ix i) = Some t \<and> utf8 t = anchor_at ix i"
    "\<exists>o' l li c. ix_desc ix i = Some (o', l, li, c) \<and> ix_locations ix li c = Some (locations_at ix i)"
    "\<forall>loc \<in> set (locations_at ix i). lc_file loc \<in> utf8 ` set (ix_files ix)"
  using assms utf8_from_utf8(1) [of "anchor_at ix i"]
  by (fastforce simp: index_wf_def anchor_at_def locations_at_def)+

lemma wf_ascending: "index_wf ix \<Longrightarrow> i < j \<Longrightarrow> j < ix_entries ix \<Longrightarrow> anchor_at ix i < anchor_at ix j"
  by (auto simp: index_wf_def sorted_wrt_iff_nth_less)

lemma lower_bound_loop_finds:
  assumes "index_wf ix" "\<forall>i < lo. anchor_at ix i < t" "\<forall>i. hi \<le> i \<longrightarrow> i < ix_entries ix \<longrightarrow> t \<le> anchor_at ix i"
    "lo \<le> hi" "hi \<le> ix_entries ix"
  shows "\<exists>m. lower_bound_loop ix t lo hi = Some m \<and> m \<le> ix_entries ix \<and> (\<forall>i < m. anchor_at ix i < t)
    \<and> (\<forall>i. m \<le> i \<longrightarrow> i < ix_entries ix \<longrightarrow> t \<le> anchor_at ix i)"
  using assms(2-)
proof (induction "hi - lo" arbitrary: lo hi rule: less_induct)
  case less
  show ?case
  proof (cases "lo < hi")
    case False
    then have "lo = hi" using less.prems(3) by simp
    then show ?thesis using less.prems by (subst lower_bound_loop.simps) auto
  next
    case True
    define mid where "mid = (lo + hi) div 2"
    have m: "lo \<le> mid" "mid < hi" "mid < ix_entries ix" using True less.prems(4) by (simp_all add: mid_def)
    have step: "lower_bound_loop ix t lo hi = (if anchor_at ix mid < t then lower_bound_loop ix t (mid + 1) hi
        else lower_bound_loop ix t lo mid)"
      using True wf_entry(1) [OF assms(1) m(3)]
      by (subst lower_bound_loop.simps) (simp add: mid_def [symmetric] Let_def)
    show ?thesis
    proof (cases "anchor_at ix mid < t")
      case lt: True
      have "anchor_at ix i < t" if "i < mid + 1" for i
        using wf_ascending [OF assms(1) _ m(3), of i] lt that by (cases "i = mid") auto
      then show ?thesis using less.hyps [of hi "mid + 1"] less.prems m step lt by auto
    next
      case ge: False
      have "t \<le> anchor_at ix i" if "mid \<le> i" "i < ix_entries ix" for i
        using wf_ascending [OF assms(1) _ that(2), of mid] ge that(1) by (cases "i = mid") (auto simp: not_less)
      then show ?thesis using less.hyps [of mid lo] less.prems m step ge by auto
    qed
  qed
qed

lemma lower_bound_finds:
  "index_wf ix \<Longrightarrow> \<exists>m. lower_bound ix t = Some m \<and> m \<le> ix_entries ix \<and> (\<forall>i < m. anchor_at ix i < t)
    \<and> (\<forall>i. m \<le> i \<longrightarrow> i < ix_entries ix \<longrightarrow> t \<le> anchor_at ix i)"
  unfolding lower_bound_def by (rule lower_bound_loop_finds) auto

definition entry_sat :: "reg_index \<Rightarrow> (rust_str \<Rightarrow> bool) \<Rightarrow> nat \<Rightarrow> bool" where
  "entry_sat ix pred i \<longleftrightarrow> pred (the (from_utf8 (anchor_at ix i)))"

lemma push_wild_filter:
  assumes "index_wf ix" "map (ix_wild ix) ks = map Some ws" "\<forall>i \<in> set ws. i < ix_entries ix" "distinct ws"
  shows "push_wildcard_matches ix pred ks idxs = Some (idxs @ filter (\<lambda>i. i \<notin> set idxs \<and> entry_sat ix pred i) ws)"
  using assms(2-)
proof (induction ks arbitrary: ws idxs)
  case (Cons k ks)
  then obtain i ws' where ws: "ws = i # ws'" "ix_wild ix k = Some i" "map (ix_wild ix) ks = map Some ws'"
    by (cases ws) auto
  obtain t where t: "from_utf8 (anchor_at ix i) = Some t" using wf_entry(2) [OF assms(1), of i] Cons.prems(2) ws by auto
  have e: "filter (\<lambda>j. j \<notin> set (idxs @ [i]) \<and> entry_sat ix pred j) ws'
      = filter (\<lambda>j. j \<notin> set idxs \<and> entry_sat ix pred j) ws'"
    using Cons.prems(3) ws(1) by (intro filter_cong) auto
  show ?case
    using Cons.IH [OF ws(3), of idxs] Cons.IH [OF ws(3), of "idxs @ [i]"] Cons.prems ws t e
      wf_entry(1) [OF assms(1), of i]
    by (auto simp: entry_sat_def)
qed simp

lemma collect_concat:
  "index_wf ix \<Longrightarrow> \<forall>i \<in> set is. i < ix_entries ix \<Longrightarrow> ix_collect ix is = Some (concat (map (locations_at ix) is))"
proof (induction "is")
  case (Cons i "is")
  then show ?case using wf_entry(3) [OF Cons.prems(1), of i] by auto
qed simp

definition wilds :: "reg_index \<Rightarrow> nat list" where
  "wilds ix = filter (\<lambda>i. has_wildcard (anchor_at ix i)) [0..<ix_entries ix]"

lemma push_all_wild:
  "index_wf ix \<Longrightarrow> push_wildcard_matches ix pred [0..<ix_wild_n ix] idxs
     = Some (idxs @ filter (\<lambda>i. i \<notin> set idxs \<and> entry_sat ix pred i) (wilds ix))"
  by (rule push_wild_filter) (auto simp: index_wf_def wilds_def)

lemma entry_sat_exact:
  "index_wf ix \<Longrightarrow> i < ix_entries ix \<Longrightarrow> entry_sat ix (\<lambda>a. is_exact a q) i \<longleftrightarrow> matches_exact (anchor_at ix i) (utf8 q)"
  "index_wf ix \<Longrightarrow> i < ix_entries ix \<Longrightarrow> entry_sat ix (\<lambda>a. is_under_key a q) i \<longleftrightarrow> matches_under_key (anchor_at ix i) (utf8 q)"
  using wf_entry(2) [of ix i] by (auto simp: entry_sat_def is_exact_def is_under_key_def)

lemma lookup_exact_entries:
  assumes "index_wf ix"
  shows "\<exists>is. distinct is
    \<and> set is = {i. i < ix_entries ix \<and> (anchor_at ix i = utf8 q \<or> matches_exact (anchor_at ix i) (utf8 q))}
    \<and> lookup_exact ix q = Some (concat (map (locations_at ix) is))"
proof -
  obtain m where m: "lower_bound ix (utf8 q) = Some m" "m \<le> ix_entries ix"
    "\<forall>i < m. anchor_at ix i < utf8 q" "\<forall>i. m \<le> i \<longrightarrow> i < ix_entries ix \<longrightarrow> utf8 q \<le> anchor_at ix i"
    using lower_bound_finds [OF assms] by blast
  define hit where "hit = (if m < ix_entries ix \<and> anchor_at ix m = utf8 q then [m] else [])"
  have h: "set hit = {i. i < ix_entries ix \<and> anchor_at ix i = utf8 q}"
  proof -
    have "i = m" if "i < ix_entries ix" "anchor_at ix i = utf8 q" for i
    proof (rule ccontr)
      assume "i \<noteq> m"
      then consider "i < m" | "m < i" by linarith
      then show False
      proof cases
        case 2
        then have "anchor_at ix m < utf8 q" using wf_ascending [OF assms 2 that(1)] that(2) by simp
        then show False using m(4) 2 that(1) by force
      qed (use m(3) that in force)
    qed
    then show ?thesis by (auto simp: hit_def)
  qed
  define "is" where "is = hit @ filter (\<lambda>i. i \<notin> set hit \<and> entry_sat ix (\<lambda>a. is_exact a q) i) (wilds ix)"
  have "(if m < ix_entries ix then do { a \<leftarrow> ix_anchor ix m; Some (if a = utf8 q then [m] else []) }
      else Some []) = Some hit"
    using wf_entry(1) [OF assms, of m] by (simp add: hit_def)
  then have "lookup_exact ix q = ix_collect ix is"
    unfolding lookup_exact_def Let_def
    by (simp only: m(1) Option.bind.simps push_all_wild [OF assms] is_def)
  moreover have "distinct is" by (auto simp: is_def hit_def wilds_def)
  moreover have s: "set is = {i. i < ix_entries ix \<and> (anchor_at ix i = utf8 q \<or> matches_exact (anchor_at ix i) (utf8 q))}"
    using entry_sat_exact(1) [OF assms] by (auto simp: is_def h wilds_def matches_exact_def)
  moreover have "ix_collect ix is = Some (concat (map (locations_at ix) is))"
    using s by (intro collect_concat [OF assms]) auto
  ultimately show ?thesis by auto
qed


lemma prefix_between:
  "p \<le> x \<Longrightarrow> x \<le> y \<Longrightarrow> take (length p) y = p \<Longrightarrow> take (length p) x = (p :: 'a::linorder list)"
proof (induction p arbitrary: x y)
  case (Cons a p)
  obtain y' where y: "y = a # y'" "take (length p) y' = p" using Cons.prems(3) by (cases y) auto
  obtain b x' where x: "x = b # x'" using Cons.prems(1) by (cases x) auto
  have "a = b" "p \<le> x'" "x' \<le> y'" using Cons.prems(1,2) x y by (auto simp: Cons_le_Cons)
  with Cons.IH [of x' y'] x y show ?case by simp
qed simp

lemma prefix_le: "take (length p) x = p \<Longrightarrow> p \<le> (x :: 'a::linorder list)"
proof (induction p arbitrary: x)
  case (Cons a p)
  then show ?case by (cases x) (auto simp: Cons_le_Cons)
qed simp

lemma key_loop_finds:
  assumes "index_wf ix"
  shows "key_loop ix q i idxs = Some (idxs @ filter (entry_sat ix (\<lambda>a. is_under_key a q))
    (takeWhile (\<lambda>j. strip_prefix (utf8 q) (anchor_at ix j) \<noteq> None) [i..<ix_entries ix]))"
proof (induction "ix_entries ix - i" arbitrary: i idxs)
  case 0
  then show ?case by (subst key_loop.simps) simp
next
  case (Suc n)
  then have i: "i < ix_entries ix" "n = ix_entries ix - (i + 1)" by simp_all
  obtain t where t: "from_utf8 (anchor_at ix i) = Some t" using wf_entry(2) [OF assms i(1)] by blast
  show ?case
    using Suc.hyps(1) [OF i(2)] wf_entry(1) [OF assms i(1)] i(1) t
    by (subst key_loop.simps) (simp add: upt_conv_Cons entry_sat_def)
qed

lemma takeWhile_filter: "(\<And>i j. i \<in> set xs \<Longrightarrow> j \<in> set xs \<Longrightarrow> i < j \<Longrightarrow> P j \<Longrightarrow> P i) \<Longrightarrow> sorted_wrt (<) xs
    \<Longrightarrow> takeWhile P xs = filter P (xs :: nat list)"
  by (induction xs) (auto simp: filter_empty_conv eq_commute [of "[]"])

lemma under_key_prefix: "\<not> has_wildcard a \<Longrightarrow> matches_under_key a q \<Longrightarrow> strip_prefix q a \<noteq> None"
  by (auto simp: matches_under_key_def strip_prefix_def split: if_splits)

lemma lookup_key_entries:
  assumes "index_wf ix"
  shows "\<exists>is. distinct is \<and> set is = {i. i < ix_entries ix \<and> matches_under_key (anchor_at ix i) (utf8 q)}
    \<and> lookup_key ix q = Some (concat (map (locations_at ix) is))"
proof -
  let ?sat = "entry_sat ix (\<lambda>a. is_under_key a q)" and ?pre = "\<lambda>j. strip_prefix (utf8 q) (anchor_at ix j) \<noteq> None"
  obtain m where m: "lower_bound ix (utf8 q) = Some m" "m \<le> ix_entries ix"
    "\<forall>i < m. anchor_at ix i < utf8 q" "\<forall>i. m \<le> i \<longrightarrow> i < ix_entries ix \<longrightarrow> utf8 q \<le> anchor_at ix i"
    using lower_bound_finds [OF assms] by blast
  have "takeWhile ?pre [m..<ix_entries ix] = filter ?pre [m..<ix_entries ix]"
  proof (rule takeWhile_filter)
    fix i j assume ij: "i \<in> set [m..<ix_entries ix]" "j \<in> set [m..<ix_entries ix]" "i < j" "?pre j"
    then have "anchor_at ix i \<le> anchor_at ix j" using wf_ascending [OF assms, of i j] by simp
    then show "?pre i" using prefix_between [of "utf8 q" "anchor_at ix i" "anchor_at ix j"] m(4) ij
      by (auto simp: strip_prefix_def split: if_splits)
  qed simp
  moreover define hits where "hits = filter ?sat (filter ?pre [m..<ix_entries ix])"
  ultimately have hits: "key_loop ix q m [] = Some hits" by (simp add: key_loop_finds [OF assms])
  define "is" where "is = hits @ filter (\<lambda>i. i \<notin> set hits \<and> ?sat i) (wilds ix)"
  have "lookup_key ix q = ix_collect ix is"
    unfolding lookup_key_def Let_def
    by (simp only: m(1) Option.bind.simps hits push_all_wild [OF assms] is_def)
  moreover have "distinct is" by (auto simp: is_def hits_def wilds_def)
  moreover have "m \<le> i" if "i < ix_entries ix" "?pre i" for i
  proof -
    have "utf8 q \<le> anchor_at ix i"
      using that(2) by (intro prefix_le) (auto simp: strip_prefix_def split: if_splits)
    then show ?thesis using m(3) by (meson not_less)
  qed
  then have s: "set is = {i. i < ix_entries ix \<and> matches_under_key (anchor_at ix i) (utf8 q)}"
    using entry_sat_exact(2) [OF assms] under_key_prefix by (fastforce simp: is_def hits_def wilds_def)
  moreover have "ix_collect ix is = Some (concat (map (locations_at ix) is))"
    using s by (intro collect_concat [OF assms]) auto
  ultimately show ?thesis by auto
qed

section \<open>What is written is read back\<close>

definition anchor_start :: "index_entries \<Rightarrow> nat \<Rightarrow> nat" where
  "anchor_start es i = sum_list (map (\<lambda>e. str_len (fst e)) (take i es))"

definition loc_start :: "index_entries \<Rightarrow> nat \<Rightarrow> nat" where
  "loc_start es i = sum_list (map (\<lambda>e. length (snd e)) (take i es))"

definition desc_block :: "nat \<Rightarrow> index_entries \<Rightarrow> nat \<Rightarrow> bytes" where
  "desc_block ao es i = le32 (ao + anchor_start es i) @ le32 (str_len (fst (es ! i)))
     @ le32 (loc_start es i) @ le32 (length (snd (es ! i)))"

definition loc_block :: "nat \<times> nat \<Rightarrow> bytes" where
  "loc_block p = le32 (fst p) @ le64 (snd p)"

definition wild_entries :: "index_entries \<Rightarrow> nat \<Rightarrow> nat list" where
  "wild_entries es n = filter (\<lambda>i. has_wildcard (utf8 (fst (es ! i)))) [0..<n]"

lemma length_le [simp]: "length (le32 n) = 4" "length (le64 n) = 8"
  by (simp_all add: le32_def le64_def)

lemma length_blocks [simp]: "length (desc_block ao es i) = 16" "length (loc_block p) = 12"
  by (simp_all add: desc_block_def loc_block_def)

lemma serialize_parts:
  "n \<le> length es \<Longrightarrow>
   foldl (serialize_entry ao) \<lparr>ip_descriptors = [], ip_locations = [], ip_wildcards = [], ip_anchors = [], ip_loc_idx = 0\<rparr>
     (List.enumerate 0 (take n es)) =
   \<lparr>ip_descriptors = concat (map (desc_block ao es) [0..<n]),
    ip_locations = concat (map loc_block (concat (map snd (take n es)))),
    ip_wildcards = concat (map le32 (wild_entries es n)),
    ip_anchors = concat (map (\<lambda>e. utf8 (fst e)) (take n es)), ip_loc_idx = loc_start es n\<rparr>"
proof (induction n)
  case 0
  then show ?case by (simp add: wild_entries_def loc_start_def)
next
  case (Suc n)
  have t: "take (Suc n) es = take n es @ [es ! n]" using Suc.prems by (simp add: take_Suc_conv_app_nth)
  have a: "length (concat (map (\<lambda>e. utf8 (fst e)) (take n es))) = anchor_start es n"
    by (simp add: anchor_start_def length_concat comp_def length_utf8)
  show ?case
    using Suc
    by (simp add: t enumerate_append_eq serialize_entry_def a desc_block_def wild_entries_def loc_start_def
        loc_block_def case_prod_beta' Let_def split: prod.splits)
qed

lemma rd_u32_le32: "v < 2 ^ 32 \<Longrightarrow> rd_u32 (pre @ le32 v @ post) (length pre) = Some v"
  by (simp add: rd_u32_def slice_def subslice_def le32_def from_le_to_le_id unat_of_nat)

lemma rd_u64_le64: "v < 2 ^ 64 \<Longrightarrow> rd_u64 (pre @ le64 v @ post) (length pre) = Some v"
  by (simp add: rd_u64_def slice_def subslice_def le64_def from_le_to_le_id unat_of_nat)

lemma block_at:
  assumes "i < length xs" "\<And>x. length (f x) = k"
  shows "\<exists>a c. concat (map f xs) = a @ f (xs ! i) @ c \<and> length a = i * k"
proof (intro exI conjI)
  show "concat (map f xs) = concat (map f (take i xs)) @ f (xs ! i) @ concat (map f (drop (Suc i) xs))"
    using assms(1) by (subst id_take_nth_drop [of i xs]) simp_all
  have "length (concat (map f ys)) = length ys * k" for ys by (induction ys) (simp_all add: assms(2))
  then show "length (concat (map f (take i xs))) = i * k" using assms(1) by simp
qed

lemma rd_u32_block:
  assumes "b = pre @ concat (map f xs) @ post" "i < length xs" "\<And>x. length (f x) = k"
    "f (xs ! i) = u @ le32 v @ w" "v < 2 ^ 32"
  shows "rd_u32 b (length pre + i * k + length u) = Some v"
proof -
  obtain a c where "concat (map f xs) = a @ f (xs ! i) @ c" "length a = i * k"
    using block_at [where f = f, OF assms(2,3)] by blast
  with rd_u32_le32 [OF assms(5), of "pre @ a @ u" "w @ c @ post"] show ?thesis
    by (simp add: assms(1,4) add.assoc)
qed

lemma rd_u64_block:
  assumes "b = pre @ concat (map f xs) @ post" "i < length xs" "\<And>x. length (f x) = k"
    "f (xs ! i) = u @ le64 v @ w" "v < 2 ^ 64"
  shows "rd_u64 b (length pre + i * k + length u) = Some v"
proof -
  obtain a c where "concat (map f xs) = a @ f (xs ! i) @ c" "length a = i * k"
    using block_at [where f = f, OF assms(2,3)] by blast
  with rd_u64_le64 [OF assms(5), of "pre @ a @ u" "w @ c @ post"] show ?thesis
    by (simp add: assms(1,4) add.assoc)
qed

definition locs_at :: "index_entries \<Rightarrow> nat" where
  "locs_at es = 48 + length es * 16"

definition files_at :: "index_entries \<Rightarrow> nat" where
  "files_at es = locs_at es + length (concat (map snd es)) * 12"

definition file_table :: "rust_str list \<Rightarrow> bytes" where
  "file_table fs = concat (map (\<lambda>f. le32 (str_len f) @ utf8 f) fs)"

definition wild_at :: "index_entries \<Rightarrow> rust_str list \<Rightarrow> nat" where
  "wild_at es fs = files_at es + length (file_table fs)"

definition anchors_at :: "index_entries \<Rightarrow> rust_str list \<Rightarrow> nat" where
  "anchors_at es fs = wild_at es fs + length (wild_entries es (length es)) * 4"

definition header_fields :: "index_entries \<Rightarrow> rust_str list \<Rightarrow> nat list" where
  "header_fields es fs = [IX_VERSION, length es, IX_HEADER_LEN, locs_at es, files_at es, anchors_at es fs,
     length fs, wild_at es fs, length (wild_entries es (length es)), 0]"

lemma wild_count: "length (filter (\<lambda>e. has_wildcard (utf8 (fst e))) es) = length (wild_entries es (length es))"
proof -
  have "filter (\<lambda>e. has_wildcard (utf8 (fst e))) es = map ((!) es) (wild_entries es (length es))"
    unfolding wild_entries_def by (subst map_nth [of es, symmetric]) (simp add: filter_map comp_def del: map_nth)
  then show ?thesis by simp
qed

lemma serialize_form:
  "serialize es fs = IX_MAGIC @ concat (map le32 (header_fields es fs))
     @ concat (map (desc_block (anchors_at es fs) es) [0..<length es])
     @ concat (map loc_block (concat (map snd es))) @ file_table fs
     @ concat (map le32 (wild_entries es (length es))) @ concat (map (\<lambda>e. utf8 (fst e)) es)"
proof -
  have l: "sum_list (map (\<lambda>e. length (snd e)) es) = length (concat (map snd es))"
    by (simp add: length_concat comp_def)
  have f: "sum_list (map (\<lambda>f. 4 + str_len f) fs) = length (file_table fs)"
    by (simp add: file_table_def length_concat comp_def length_utf8)
  have ao: "anchors_at es fs = IX_HEADER_LEN + length es * DESC_LEN + length (concat (map snd es)) * LOC_LEN
      + length (file_table fs) + length (wild_entries es (length es)) * WILD_LEN"
    by (simp add: anchors_at_def wild_at_def files_at_def locs_at_def layout_defs)
  show ?thesis
    unfolding serialize_def Let_def wild_count l f
    using serialize_parts [of "length es" es "anchors_at es fs"]
    by (simp add: ao [symmetric]) (simp add: header_fields_def anchors_at_def wild_at_def files_at_def
        locs_at_def layout_defs file_table_def)
qed

lemma length_index_header: "length (IX_MAGIC @ concat (map le32 (header_fields es fs))) = 48"
  by (simp add: header_fields_def IX_MAGIC_def ascii_def)

lemma length_header_parts: "length IX_MAGIC = 8" "length (header_fields es fs) = 10"
  by (simp_all add: header_fields_def IX_MAGIC_def ascii_def)

lemma length_concat_const: "(\<And>x. length (f x) = k) \<Longrightarrow> length (concat (map f xs)) = length xs * k"
  by (induction xs) simp_all

lemma length_serialize: "length (serialize es fs) = anchors_at es fs + length (concat (map (\<lambda>e. utf8 (fst e)) es))"
  unfolding serialize_form append_assoc [symmetric]
  by (simp only: length_append [of _ "concat (map (\<lambda>e. utf8 (fst e)) es)"])
    (simp add: length_header_parts length_concat_const [of _ 16] length_concat_const [of _ 12]
      length_concat_const [of _ 4] anchors_at_def wild_at_def files_at_def locs_at_def)


section \<open>Reading a written index\<close>

text \<open>Entries as \<open>build\<close> collects them, and files small enough for 32-bit offsets.\<close>

definition entries_ok :: "index_entries \<Rightarrow> rust_str list \<Rightarrow> bool" where
  "entries_ok es fs \<longleftrightarrow> sorted_wrt (<) (map (\<lambda>e. utf8 (fst e)) es)
     \<and> (\<forall>e \<in> set es. valid_str (fst e) \<and> (\<forall>l \<in> set (snd e). fst l < length fs \<and> snd l < 2 ^ 64))
     \<and> (\<forall>f \<in> set fs. valid_str f) \<and> length (serialize es fs) < 2 ^ 32"

definition written_index :: "index_entries \<Rightarrow> rust_str list \<Rightarrow> reg_index" where
  "written_index es fs = \<lparr>ix_bytes = serialize es fs, ix_files = fs, ix_entries = length es,
     ix_desc_off = IX_HEADER_LEN, ix_locs_off = locs_at es, ix_wild_off = wild_at es fs,
     ix_wild_n = length (wild_entries es (length es))\<rparr>"

lemma anchors_below: "entries_ok es fs \<Longrightarrow> anchors_at es fs + anchor_start es (length es) < 2 ^ 32"
proof -
  assume "entries_ok es fs"
  then have "length (serialize es fs) < 2 ^ 32" by (simp add: entries_ok_def)
  moreover have "length (concat (map (\<lambda>e. utf8 (fst e)) es)) = anchor_start es (length es)"
    by (simp add: anchor_start_def length_concat comp_def length_utf8)
  ultimately show ?thesis by (simp only: length_serialize)
qed

lemma starts_mono:
  "i \<le> j \<Longrightarrow> anchor_start es i \<le> anchor_start es j" "i \<le> j \<Longrightarrow> loc_start es i \<le> loc_start es j"
  by (auto simp: anchor_start_def loc_start_def take_add dest!: le_Suc_ex)

lemma starts_Suc:
  "i < length es \<Longrightarrow> anchor_start es (Suc i) = anchor_start es i + str_len (fst (es ! i))"
  "i < length es \<Longrightarrow> loc_start es (Suc i) = loc_start es i + length (snd (es ! i))"
  by (simp_all add: anchor_start_def loc_start_def take_Suc_conv_app_nth)

lemma loc_total: "length (concat (map snd es)) = loc_start es (length es)"
  by (simp add: loc_start_def length_concat comp_def)

text \<open>Every number in the file fits 32 bits.\<close>

lemma fields_small:
  assumes "entries_ok es fs" "i < length es"
  shows "anchors_at es fs + anchor_start es i + str_len (fst (es ! i)) < 2 ^ 32"
    "loc_start es i + length (snd (es ! i)) < 2 ^ 32" "loc_start es i + length (snd (es ! i)) \<le> length (concat (map snd es))"
    "i < 2 ^ 32"
proof -
  note b = anchors_below [OF assms(1)]
  show "anchors_at es fs + anchor_start es i + str_len (fst (es ! i)) < 2 ^ 32"
    using b starts_mono(1) [of "Suc i" "length es" es] starts_Suc(1) [OF assms(2)] assms(2) by simp
  show l: "loc_start es i + length (snd (es ! i)) \<le> length (concat (map snd es))"
    unfolding loc_total using starts_mono(2) [of "Suc i" "length es" es] starts_Suc(2) [OF assms(2)] assms(2) by simp
  then show "loc_start es i + length (snd (es ! i)) < 2 ^ 32" "i < 2 ^ 32"
    using b assms(2) by (simp_all add: anchors_at_def wild_at_def files_at_def locs_at_def)
qed

lemma written_desc:
  assumes "entries_ok es fs" "i < length es"
  shows "ix_desc (written_index es fs) i = Some (anchors_at es fs + anchor_start es i, str_len (fst (es ! i)),
    loc_start es i, length (snd (es ! i)))"
proof -
  note small = fields_small [OF assms]
  let ?H = "IX_MAGIC @ concat (map le32 (header_fields es fs))"
  note rd = rd_u32_block [where b = "serialize es fs" and pre = ?H and f = "desc_block (anchors_at es fs) es"
      and xs = "[0..<length es]" and i = i and k = 16, OF _ _ length_blocks(1)]
  let ?a = "anchors_at es fs + anchor_start es i" and ?l = "str_len (fst (es ! i))" and ?p = "loc_start es i"
  have d: "desc_block (anchors_at es fs) es ([0..<length es] ! i) = [] @ le32 ?a @ (le32 ?l @ le32 ?p @ le32 (length (snd (es ! i))))"
    "desc_block (anchors_at es fs) es ([0..<length es] ! i) = le32 ?a @ le32 ?l @ (le32 ?p @ le32 (length (snd (es ! i))))"
    "desc_block (anchors_at es fs) es ([0..<length es] ! i) = (le32 ?a @ le32 ?l) @ le32 ?p @ le32 (length (snd (es ! i)))"
    "desc_block (anchors_at es fs) es ([0..<length es] ! i) = (le32 ?a @ le32 ?l @ le32 ?p) @ le32 (length (snd (es ! i))) @ []"
    using assms(2) by (simp_all add: desc_block_def)
  have form: "\<exists>post. serialize es fs = ?H @ concat (map (desc_block (anchors_at es fs) es) [0..<length es]) @ post"
    unfolding serialize_form by auto
  then obtain post where b: "serialize es fs = ?H @ concat (map (desc_block (anchors_at es fs) es) [0..<length es]) @ post"
    by blast
  have i: "i < length [0..<length es]" using assms(2) by simp
  have v: "?a < 2 ^ 32" "?l < 2 ^ 32" "?p < 2 ^ 32" "length (snd (es ! i)) < 2 ^ 32"
    using small(1,2) by linarith+
  note reads = rd [OF b i d(1) v(1), unfolded length_index_header] rd [OF b i d(2) v(2), unfolded length_index_header]
    rd [OF b i d(3) v(3), unfolded length_index_header] rd [OF b i d(4) v(4), unfolded length_index_header]
  have o: "ix_desc_off (written_index es fs) + i * DESC_LEN = 48 + i * 16" "ix_bytes (written_index es fs) = serialize es fs"
    by (simp_all add: written_index_def layout_defs)
  show ?thesis
    unfolding ix_desc_def Let_def o using reads by simp
qed

lemma written_simps [simp]:
  "ix_bytes (written_index es fs) = serialize es fs" "ix_files (written_index es fs) = fs"
  "ix_entries (written_index es fs) = length es" "ix_desc_off (written_index es fs) = IX_HEADER_LEN"
  "ix_locs_off (written_index es fs) = locs_at es" "ix_wild_off (written_index es fs) = wild_at es fs"
  "ix_wild_n (written_index es fs) = length (wild_entries es (length es))"
  by (simp_all add: written_index_def)

lemma length_desc_part: "length (concat (map (desc_block ao es) xs)) = length xs * 16"
  by (rule length_concat_const) simp

lemma length_loc_part: "length (concat (map loc_block ps)) = length ps * 12"
  by (rule length_concat_const) simp

lemma written_anchor:
  assumes "entries_ok es fs" "i < length es"
  shows "ix_anchor (written_index es fs) i = Some (utf8 (fst (es ! i)))"
proof -
  define P where "P = IX_MAGIC @ concat (map le32 (header_fields es fs))
     @ concat (map (desc_block (anchors_at es fs) es) [0..<length es])
     @ concat (map loc_block (concat (map snd es))) @ file_table fs
     @ concat (map le32 (wild_entries es (length es)))"
  have lp: "length P = anchors_at es fs"
    using length_index_header [of es fs]
    by (simp add: P_def length_desc_part length_loc_part length_concat_const [of le32 4] anchors_at_def wild_at_def
        files_at_def locs_at_def)
  have e: "concat (map (\<lambda>e. utf8 (fst e)) es) = concat (map (\<lambda>e. utf8 (fst e)) (take i es)) @ utf8 (fst (es ! i))
      @ concat (map (\<lambda>e. utf8 (fst e)) (drop (Suc i) es))"
    using assms(2) by (subst id_take_nth_drop [of i es]) simp_all
  have a: "length (concat (map (\<lambda>e. utf8 (fst e)) (take i es))) = anchor_start es i"
    by (simp add: anchor_start_def length_concat comp_def length_utf8)
  define Q where "Q = P @ concat (map (\<lambda>e. utf8 (fst e)) (take i es))"
  have b: "serialize es fs = Q @ utf8 (fst (es ! i)) @ concat (map (\<lambda>e. utf8 (fst e)) (drop (Suc i) es))"
    unfolding serialize_form e P_def Q_def by simp
  have "length Q = anchors_at es fs + anchor_start es i" by (simp add: Q_def lp a)
  then have "slice (anchors_at es fs + anchor_start es i) (anchors_at es fs + anchor_start es i + str_len (fst (es ! i)))
      (serialize es fs) = Some (utf8 (fst (es ! i)))"
    unfolding b by (simp add: slice_def subslice_def length_utf8)
  then show ?thesis using written_desc [OF assms] by (simp add: ix_anchor_def)
qed

lemma written_wild:
  assumes "entries_ok es fs" "k < length (wild_entries es (length es))"
  shows "ix_wild (written_index es fs) k = Some (wild_entries es (length es) ! k)"
proof -
  define P where "P = IX_MAGIC @ concat (map le32 (header_fields es fs))
     @ concat (map (desc_block (anchors_at es fs) es) [0..<length es])
     @ concat (map loc_block (concat (map snd es))) @ file_table fs"
  have lp: "length P = wild_at es fs"
    using length_index_header [of es fs]
    by (simp add: P_def length_desc_part length_loc_part wild_at_def files_at_def locs_at_def)
  have "wild_entries es (length es) ! k \<in> set (wild_entries es (length es))" using assms(2) by simp
  then have "wild_entries es (length es) ! k < length es" by (simp add: wild_entries_def)
  then have v: "wild_entries es (length es) ! k < 2 ^ 32" using fields_small(4) [OF assms(1)] by simp
  have b: "serialize es fs = P @ concat (map le32 (wild_entries es (length es))) @ concat (map (\<lambda>e. utf8 (fst e)) es)"
    unfolding serialize_form P_def by simp
  have d: "le32 (wild_entries es (length es) ! k) = [] @ le32 (wild_entries es (length es) ! k) @ []" by simp
  from rd_u32_block [where f = le32, OF b assms(2) length_le(1) d v] lp show ?thesis
    by (simp add: ix_wild_def layout_defs)
qed

lemma written_location:
  assumes "entries_ok es fs" "k < length (concat (map snd es))"
  shows "rd_u32 (serialize es fs) (locs_at es + k * LOC_LEN) = Some (fst (concat (map snd es) ! k))"
    "rd_u64 (serialize es fs) (locs_at es + k * LOC_LEN + 4) = Some (snd (concat (map snd es) ! k))"
    "fst (concat (map snd es) ! k) < length fs"
proof -
  define P where "P = IX_MAGIC @ concat (map le32 (header_fields es fs))
     @ concat (map (desc_block (anchors_at es fs) es) [0..<length es])"
  have lp: "length P = locs_at es"
    using length_index_header [of es fs] by (simp add: P_def length_desc_part locs_at_def)
  have b: "serialize es fs = P @ concat (map loc_block (concat (map snd es))) @ (file_table fs
     @ concat (map le32 (wild_entries es (length es))) @ concat (map (\<lambda>e. utf8 (fst e)) es))"
    unfolding serialize_form P_def by simp
  define p where "p = concat (map snd es) ! k"
  have "p \<in> set (concat (map snd es))" unfolding p_def using assms(2) by (rule nth_mem)
  then have v: "fst p < length fs" "snd p < 2 ^ 64" using assms(1) by (auto simp: entries_ok_def)
  then show "fst (concat (map snd es) ! k) < length fs" by (simp add: p_def)
  have "length ys * 4 \<le> length (file_table ys)" for ys
    by (induction ys) (simp_all add: file_table_def length_utf8)
  from this [of fs] have "length fs < 2 ^ 32"
    using anchors_below [OF assms(1)] by (simp add: anchors_at_def wild_at_def)
  then have f: "fst p < 2 ^ 32" using v by simp
  have d: "loc_block (concat (map snd es) ! k) = [] @ le32 (fst p) @ le64 (snd p)"
    "loc_block (concat (map snd es) ! k) = le32 (fst p) @ le64 (snd p) @ []"
    by (simp_all add: loc_block_def p_def)
  from rd_u32_block [where f = loc_block, OF b assms(2) length_blocks(2) d(1) f] lp
  show "rd_u32 (serialize es fs) (locs_at es + k * LOC_LEN) = Some (fst (concat (map snd es) ! k))"
    by (simp add: layout_defs p_def)
  from rd_u64_block [where f = loc_block, OF b assms(2) length_blocks(2) d(2) v(2)] lp
  show "rd_u64 (serialize es fs) (locs_at es + k * LOC_LEN + 4) = Some (snd (concat (map snd es) ! k))"
    by (simp add: layout_defs p_def)
qed

lemma locations_from_written:
  assumes "entries_ok es fs" "\<forall>k \<in> set ks. k < length (concat (map snd es))"
  shows "locations_from (written_index es fs) ks
    = Some (map (\<lambda>k. case concat (map snd es) ! k of (f, off) \<Rightarrow> \<lparr>lc_file = utf8 (fs ! f), lc_offset = off\<rparr>) ks)"
  using assms(2)
proof (induction ks)
  case (Cons k ks)
  then show ?case
    using written_location [OF assms(1), of k] by (auto simp: Let_def split: prod.splits)
qed simp

lemma slice_of_concat:
  assumes "i < length xss"
  shows "map ((!) (concat xss)) [sum_list (map length (take i xss))..<sum_list (map length (take i xss)) + length (xss ! i)] = xss ! i"
proof -
  have "concat xss = concat (take i xss) @ xss ! i @ concat (drop (Suc i) xss)"
    using assms by (subst id_take_nth_drop [of i xss]) simp_all
  then show ?thesis
    by (intro nth_equalityI) (simp_all add: nth_append length_concat)
qed

lemma written_locations:
  assumes "entries_ok es fs" "i < length es"
  shows "ix_locations (written_index es fs) (loc_start es i) (length (snd (es ! i)))
    = Some (map (\<lambda>(f, off). \<lparr>lc_file = utf8 (fs ! f), lc_offset = off\<rparr>) (snd (es ! i)))"
proof -
  have "map ((!) (concat (map snd es))) [loc_start es i..<loc_start es i + length (snd (es ! i))] = snd (es ! i)"
    using slice_of_concat [of i "map snd es"] assms(2) by (simp add: loc_start_def take_map comp_def)
  from arg_cong [OF this, of "map (\<lambda>(f, off). \<lparr>lc_file = utf8 (fs ! f), lc_offset = off\<rparr>)"]
  have "map (\<lambda>k. case concat (map snd es) ! k of (f, off) \<Rightarrow> \<lparr>lc_file = utf8 (fs ! f), lc_offset = off\<rparr>)
      [loc_start es i..<loc_start es i + length (snd (es ! i))]
    = map (\<lambda>(f, off). \<lparr>lc_file = utf8 (fs ! f), lc_offset = off\<rparr>) (snd (es ! i))"
    unfolding list.map_comp comp_def .
  then show ?thesis
    using locations_from_written [OF assms(1)] fields_small(3) [OF assms] by (simp add: ix_locations_def)
qed

lemma decode_files_written:
  "\<forall>f \<in> set fs. valid_str f \<and> str_len f < 2 ^ 32 \<Longrightarrow> length pre + length (file_table fs) = wild_off
     \<Longrightarrow> b = pre @ file_table fs @ post
     \<Longrightarrow> decode_files b wild_off (length fs) (length pre) = Some (Some (fs, wild_off))"
proof (induction fs arbitrary: pre)
  case (Cons f fs)
  have t: "file_table (f # fs) = le32 (str_len f) @ utf8 f @ file_table fs" by (simp add: file_table_def)
  have r: "rd_u32 b (length pre) = Some (str_len f)"
    using rd_u32_le32 [of "str_len f" pre "utf8 f @ file_table fs @ post"] Cons.prems by (simp add: t)
  have s: "slice (length pre + 4) (length pre + 4 + str_len f) b = Some (utf8 f)"
    using Cons.prems(3) by (simp add: t slice_def subslice_def length_utf8)
  have w: "length pre + 4 + str_len f + length (file_table fs) = wild_off"
    using Cons.prems(2) by (simp add: t length_utf8)
  have "decode_files b wild_off (length fs) (length (pre @ le32 (str_len f) @ utf8 f)) = Some (Some (fs, wild_off))"
    using Cons.prems w by (intro Cons.IH) (simp_all add: t length_utf8)
  then show ?case
    using r s w Cons.prems(1) by (simp add: Let_def from_utf8_utf8 length_utf8 add.assoc)
qed (simp add: file_table_def)

lemma validate_entries_complete:
  assumes "\<forall>i \<in> set is. \<exists>o' l li c. ix_desc ix i = Some (o', l, li, c) \<and> ao \<le> o' \<and> o' + l \<le> length (ix_bytes ix)
      \<and> li + c \<le> n \<and> ix_anchor ix i = Some (A i) \<and> from_utf8 (A i) \<noteq> None"
    and "sorted_wrt (<) (case previous of None \<Rightarrow> map A is | Some p \<Rightarrow> p # map A is)"
    and "map (ix_wild ix) [seen..<ix_wild_n ix] = map Some (filter (\<lambda>i. has_wildcard (A i)) is)"
    and "seen \<le> ix_wild_n ix"
  shows "validate_entries ix ao n is previous seen = Some (Some (ix_wild_n ix))"
  using assms
proof (induction "is" arbitrary: previous seen)
  case (Cons i "is")
  obtain o' l li c where d: "ix_desc ix i = Some (o', l, li, c)" "ao \<le> o'" "o' + l \<le> length (ix_bytes ix)"
      "li + c \<le> n" "ix_anchor ix i = Some (A i)" "from_utf8 (A i) \<noteq> None"
    using Cons.prems(1) by auto
  have p: "\<not> (case previous of Some v \<Rightarrow> A i \<le> v | None \<Rightarrow> False)"
    using Cons.prems(2) by (auto split: option.splits)
  have srt: "sorted_wrt (<) (A i # map A is)" using Cons.prems(2) by (auto split: option.splits)
  show ?case
  proof (cases "has_wildcard (A i)")
    case True
    then have lt: "seen < ix_wild_n ix" using Cons.prems(3) by (cases "seen < ix_wild_n ix") auto
    then have w: "ix_wild ix seen = Some i"
      "map (ix_wild ix) [seen + 1..<ix_wild_n ix] = map Some (filter (\<lambda>i. has_wildcard (A i)) is)"
      using Cons.prems(3) True by (simp_all add: upt_conv_Cons)
    have "validate_entries ix ao n is (Some (A i)) (seen + 1) = Some (Some (ix_wild_n ix))"
      using Cons.prems(1) srt w(2) lt by (intro Cons.IH) auto
    then show ?thesis using d p True lt w(1) by simp
  next
    case False
    have "validate_entries ix ao n is (Some (A i)) seen = Some (Some (ix_wild_n ix))"
      using Cons.prems(1,3,4) srt False by (intro Cons.IH) auto
    then show ?thesis using d p False by simp
  qed
qed auto

lemma validate_locations_complete:
  "\<forall>i \<in> set is. \<exists>f. rd_u32 (ix_bytes ix) (ix_locs_off ix + i * LOC_LEN) = Some f \<and> f < length (ix_files ix)
     \<Longrightarrow> validate_locations ix is = Some True"
  by (induction "is") auto

lemma written_valid:
  assumes "entries_ok es fs"
  shows "validate_records (written_index es fs) (anchors_at es fs) (length (concat (map snd es))) = Some True"
proof -
  let ?ix = "written_index es fs" and ?n = "length (concat (map snd es))"
  define A where "A i = utf8 (fst (es ! i))" for i
  have "validate_entries ?ix (anchors_at es fs) ?n [0..<length es] None 0 = Some (Some (ix_wild_n ?ix))"
  proof (rule validate_entries_complete [where A = A])
    have "length (serialize es fs) = anchors_at es fs + anchor_start es (length es)"
      by (simp add: length_serialize anchor_start_def length_concat comp_def length_utf8)
    then have "anchors_at es fs + anchor_start es i + str_len (fst (es ! i)) \<le> length (serialize es fs)" if "i < length es" for i
      using starts_mono(1) [of "Suc i" "length es" es] starts_Suc(1) [OF that] that by simp
    moreover have "from_utf8 (A i) \<noteq> None" if "i < length es" for i
      using assms that by (simp add: A_def from_utf8_utf8 entries_ok_def)
    ultimately show "\<forall>i \<in> set [0..<length es]. \<exists>o' l li c. ix_desc ?ix i = Some (o', l, li, c) \<and> anchors_at es fs \<le> o'
        \<and> o' + l \<le> length (ix_bytes ?ix) \<and> li + c \<le> ?n \<and> ix_anchor ?ix i = Some (A i) \<and> from_utf8 (A i) \<noteq> None"
      using written_desc [OF assms] written_anchor [OF assms] fields_small(3) [OF assms] by (simp add: A_def)
    show "sorted_wrt (<) (case None of None \<Rightarrow> map A [0..<length es] | Some p \<Rightarrow> p # map A [0..<length es])"
      using assms by (simp add: entries_ok_def A_def sorted_wrt_iff_nth_less)
    show "map (ix_wild ?ix) [0..<ix_wild_n ?ix] = map Some (filter (\<lambda>i. has_wildcard (A i)) [0..<length es])"
      using written_wild [OF assms] by (intro nth_equalityI) (simp_all add: wild_entries_def A_def)
  qed simp
  moreover have "validate_locations ?ix [0..<?n] = Some True"
    using written_location(1,3) [OF assms] by (intro validate_locations_complete) auto
  ultimately show ?thesis by (simp add: validate_records_def)
qed

lemma header_read:
  assumes "entries_ok es fs" "i < 10"
  shows "rd_u32 (serialize es fs) (8 + i * 4) = Some (header_fields es fs ! i)"
proof -
  have "length (file_table fs) \<ge> length fs" by (induction fs) (simp_all add: file_table_def length_utf8)
  then have "\<forall>v \<in> set (header_fields es fs). v < 2 ^ 32"
    using anchors_below [OF assms(1)]
    by (simp add: header_fields_def anchors_at_def wild_at_def files_at_def locs_at_def IX_VERSION_def layout_defs)
  then have "header_fields es fs ! i < 2 ^ 32" using assms(2) nth_mem [of i "header_fields es fs"]
    by (simp add: length_header_parts)
  moreover have b: "serialize es fs = IX_MAGIC @ concat (map le32 (header_fields es fs)) @ (concat (map (desc_block (anchors_at es fs) es) [0..<length es])
     @ concat (map loc_block (concat (map snd es))) @ file_table fs
     @ concat (map le32 (wild_entries es (length es))) @ concat (map (\<lambda>e. utf8 (fst e)) es))"
    unfolding serialize_form by simp
  moreover have "i < length (header_fields es fs)" using assms(2) by (simp add: header_fields_def)
  ultimately show ?thesis
    using rd_u32_block [where f = le32 and i = i and k = 4 and xs = "header_fields es fs" and u = "[]" and w = "[]" and pre = IX_MAGIC]
    by (simp add: length_header_parts)
qed

lemma decode_written:
  assumes "entries_ok es fs"
  shows "decode_index (serialize es fs) = Some (Some (written_index es fs))"
proof -
  let ?b = "serialize es fs"
  note rd = header_read [OF assms]
  have fields: "rd_u32 ?b 8 = Some IX_VERSION" "rd_u32 ?b 12 = Some (length es)" "rd_u32 ?b 16 = Some IX_HEADER_LEN"
    "rd_u32 ?b 20 = Some (locs_at es)" "rd_u32 ?b 24 = Some (files_at es)" "rd_u32 ?b 28 = Some (anchors_at es fs)"
    "rd_u32 ?b 32 = Some (length fs)" "rd_u32 ?b 36 = Some (wild_at es fs)"
    "rd_u32 ?b 40 = Some (length (wild_entries es (length es)))"
    using rd [of 0] rd [of 1] rd [of 2] rd [of 3] rd [of 4] rd [of 5] rd [of 6] rd [of 7] rd [of 8]
    by (simp_all add: header_fields_def)
  have len: "anchors_at es fs \<le> length ?b" by (simp add: length_serialize)
  then have pre: "\<not> (length ?b < IX_HEADER_LEN \<or> take 8 ?b \<noteq> IX_MAGIC)"
    by (auto simp: layout_defs anchors_at_def wild_at_def files_at_def locs_at_def serialize_form length_header_parts)
  have ft: "length fs * 4 \<le> length (file_table fs)" by (induction fs) (simp_all add: file_table_def length_utf8)
  have cond: "\<not> (IX_HEADER_LEN \<noteq> IX_HEADER_LEN \<or> IX_HEADER_LEN + length es * DESC_LEN \<noteq> locs_at es \<or> files_at es < locs_at es
        \<or> (files_at es - locs_at es) mod LOC_LEN \<noteq> 0 \<or> wild_at es fs < files_at es
        \<or> wild_at es fs + length (wild_entries es (length es)) * WILD_LEN \<noteq> anchors_at es fs \<or> length ?b < anchors_at es fs
        \<or> (wild_at es fs - files_at es) div 4 < length fs)"
    using len ft by (auto simp: layout_defs anchors_at_def wild_at_def files_at_def locs_at_def)
  define P where "P = IX_MAGIC @ concat (map le32 (header_fields es fs))
     @ concat (map (desc_block (anchors_at es fs) es) [0..<length es]) @ concat (map loc_block (concat (map snd es)))"
  have lp: "length P = files_at es"
    using length_index_header [of es fs] by (simp add: P_def length_desc_part length_loc_part files_at_def locs_at_def)
  have b: "?b = P @ file_table fs @ concat (map le32 (wild_entries es (length es))) @ concat (map (\<lambda>e. utf8 (fst e)) es)"
    unfolding serialize_form P_def by simp
  have "str_len f \<le> length (file_table ys)" if "f \<in> set ys" for f ys
    using that by (induction ys) (auto simp: file_table_def length_utf8)
  then have "\<forall>f \<in> set fs. valid_str f \<and> str_len f < 2 ^ 32"
    using assms anchors_below [OF assms] by (fastforce simp: entries_ok_def anchors_at_def wild_at_def)
  from decode_files_written [OF this _ b] lp
  have files: "decode_files ?b (wild_at es fs) (length fs) (files_at es) = Some (Some (fs, wild_at es fs))"
    by (simp add: wild_at_def)
  have n: "(files_at es - locs_at es) div LOC_LEN = length (concat (map snd es))"
    by (simp add: files_at_def layout_defs)
  show ?thesis
    unfolding decode_index_def if_not_P [OF pre] fields Option.bind.simps Let_def
    using written_valid [OF assms] cond files by (simp add: n written_index_def)
qed

lemma written_wf: "entries_ok es fs \<Longrightarrow> index_wf (written_index es fs)"
  using decode_result [of "serialize es fs"] decode_written [of es fs] by auto

lemma written_content:
  assumes "entries_ok es fs" "i < length es"
  shows "anchor_at (written_index es fs) i = utf8 (fst (es ! i))"
    "locations_at (written_index es fs) i = map (\<lambda>(f, off). \<lparr>lc_file = utf8 (fs ! f), lc_offset = off\<rparr>) (snd (es ! i))"
  using written_anchor [OF assms] written_desc [OF assms] written_locations [OF assms]
  by (simp_all add: anchor_at_def locations_at_def)

text \<open>C10. The index file that is written for a corpus loads, with the same files, the same anchors in
  the same order and the same locations under each of them.\<close>

theorem index_roundtrip:
  assumes "entries_ok es fs"
  shows "\<exists>ix. decode_index (serialize es fs) = Some (Some ix) \<and> ix_files ix = fs
    \<and> map (anchor_at ix) [0..<ix_entries ix] = map (\<lambda>e. utf8 (fst e)) es
    \<and> map (locations_at ix) [0..<ix_entries ix]
      = map (\<lambda>e. map (\<lambda>(f, off). \<lparr>lc_file = utf8 (fs ! f), lc_offset = off\<rparr>) (snd e)) es"
  using decode_written [OF assms] written_content [OF assms]
  by (intro exI [of _ "written_index es fs"]) (auto intro!: nth_equalityI)

text \<open>C17. Whatever bytes the index file holds, loading does not panic: they are rejected, or give an
  index whose lookups do not panic either, name only the listed files, and find exactly the entries
  a search through all anchors would, wildcard anchors included.\<close>

theorem index_lookups:
  assumes "decode_index b \<noteq> Some None"
  shows "\<exists>ix is js. decode_index b = Some (Some ix) \<and> distinct is \<and> distinct js
    \<and> set is = {i. i < ix_entries ix \<and> (anchor_at ix i = utf8 q \<or> matches_exact (anchor_at ix i) (utf8 q))}
    \<and> lookup_exact ix q = Some (concat (map (locations_at ix) is))
    \<and> set js = {i. i < ix_entries ix \<and> matches_under_key (anchor_at ix i) (utf8 q)}
    \<and> lookup_key ix q = Some (concat (map (locations_at ix) js))
    \<and> (\<forall>i < ix_entries ix. \<forall>loc \<in> set (locations_at ix i). lc_file loc \<in> utf8 ` set (ix_files ix))"
proof -
  obtain ix where ix: "decode_index b = Some (Some ix)" "index_wf ix"
    using decode_result [of b] assms by (metis option.exhaust)
  from lookup_exact_entries [OF ix(2), of q] lookup_key_entries [OF ix(2), of q] wf_entry(4) [OF ix(2)] ix(1)
  show ?thesis by blast
qed

definition sample_index_entries :: index_entries where
  "sample_index_entries = [(lit ''a'', [(0, 5), (1, 0)]), (lit ''b<x>'', [(1, 7)])]"

definition sample_index_files :: "rust_str list" where
  "sample_index_files = [lit ''f'', lit ''g'']"

lemma sample_index_ok: "entries_ok sample_index_entries sample_index_files"
  by (simp add: entries_ok_def sample_index_entries_def sample_index_files_def length_serialize anchors_at_def wild_at_def
      files_at_def locs_at_def file_table_def wild_entries_def lit_def valid_str_def is_scalar_def utf8_char_def
      str_len_def utf8_len_def has_wildcard_def upt_rec nth_Cons')

theorem index_roundtrip_witness:
  "\<exists>ix. decode_index (serialize sample_index_entries sample_index_files) = Some (Some ix) \<and> ix_files ix = sample_index_files"
  using index_roundtrip [OF sample_index_ok] by blast

theorem index_lookups_witness:
  "\<exists>ix. decode_index (serialize sample_index_entries sample_index_files) = Some (Some ix) \<and> lookup_key ix [] \<noteq> None"
  using index_lookups [of "serialize sample_index_entries sample_index_files" "[]"] decode_written [OF sample_index_ok] by auto

end
