(* ===== verification/Reg_Query.thy ===== *)
theory Reg_Query
  imports Reg_Lookup
begin

text \<open>
  \<open>crates/registry-manual/src/query.rs\<close>: answering a query through the index when there is one, in
  three tiers that fall back to the scan of the corpus, and the choice of the most specific
  records. The outer \<open>None\<close> stands for a panic while the index is read.
\<close>

section \<open>Specificity\<close>

definition specificity :: "rust_str \<Rightarrow> nat list" where
  "specificity a =
     map (\<lambda>component.
         if \<not> has_wildcard (utf8 component) then 0
         else if spans_components (utf8 component) then 2
         else 1)
       (split_on 0x5C a)"

definition keep_best :: "record_kind \<Rightarrow> hit list \<Rightarrow> hit list" where
  "keep_best kind hits =
     (case map (\<lambda>h. specificity (rr_anchor (ht_record h))) (filter (\<lambda>h. record_kind (ht_record h) = kind) hits) of
        [] \<Rightarrow> hits
      | s # ss \<Rightarrow>
          let best = fold min ss s in
          filter (\<lambda>h. record_kind (ht_record h) \<noteq> kind \<or> specificity (rr_anchor (ht_record h)) = best) hits)"

definition apply_specificity :: "hit list \<Rightarrow> hit list" where
  "apply_specificity hits = fold keep_best [KeyDoc, ValueDoc] hits"

section \<open>The tiers\<close>

definition hit_at :: "reg_fs \<Rightarrow> (reg_record \<Rightarrow> bool) \<Rightarrow> location \<Rightarrow> hit option" where
  "hit_at fs pred loc =
     (case rf_read fs (lc_file loc) of
        Inl _ \<Rightarrow> None
      | Inr text \<Rightarrow>
          map_option (\<lambda>r. \<lparr>ht_provider = provider_of (lc_file loc), ht_file = lc_file loc, ht_record = r\<rparr>)
            (find (\<lambda>r. rr_fence_offset r = lc_offset loc \<and> pred r) (records_of text)))"

text \<open>A set of paths in their order; paths with the same components are one element.\<close>

fun dedup_paths :: "bytes list \<Rightarrow> bytes list" where
  "dedup_paths [] = []"
| "dedup_paths (p # ps) = p # filter (\<lambda>q. path_components q \<noteq> path_components p) (dedup_paths ps)"

definition distinct_files :: "location list \<Rightarrow> bytes list" where
  "distinct_files locs = sort_key path_components (dedup_paths (map lc_file locs))"

definition load_index :: "reg_fs \<Rightarrow> bytes \<Rightarrow> reg_index option option" where
  "load_index fs path = (case rf_bytes fs path of Inl _ \<Rightarrow> Some None | Inr b \<Rightarrow> decode_index b)"

definition tiers ::
  "reg_fs \<Rightarrow> bytes \<Rightarrow> (reg_index \<Rightarrow> location list option) \<Rightarrow> (bytes \<Rightarrow> reg_error + hit list)
    \<Rightarrow> (reg_error + hit list) \<Rightarrow> (reg_record \<Rightarrow> bool) \<Rightarrow> (reg_error + hit list) option" where
  "tiers fs ix_path lookup file_scan corpus_scan pred = do {
     loaded \<leftarrow> load_index fs ix_path;
     case loaded of
       None \<Rightarrow> Some corpus_scan
     | Some ix \<Rightarrow> do {
         locs \<leftarrow> lookup ix;
         if locs = [] then Some corpus_scan
         else
           let found = map (hit_at fs pred) locs;
               hits = map the (filter (\<lambda>h. h \<noteq> None) found);
               stale = list_ex (\<lambda>h. h = None) found in
           if \<not> stale \<and> hits \<noteq> [] then Some (Inr (sort_hits hits))
           else Some (case scan_all file_scan (distinct_files locs) of
               Inl e \<Rightarrow> Inl e
             | Inr hits \<Rightarrow> if hits \<noteq> [] then Inr (sort_hits hits) else corpus_scan)
       }
   }"

definition cascade ::
  "reg_fs \<Rightarrow> bytes \<Rightarrow> (reg_index \<Rightarrow> location list option) \<Rightarrow> (bytes \<Rightarrow> reg_error + hit list)
    \<Rightarrow> (reg_error + hit list) \<Rightarrow> (reg_record \<Rightarrow> bool) \<Rightarrow> (reg_error + hit list) option" where
  "cascade fs ix_path lookup file_scan corpus_scan pred =
     map_option (\<lambda>r. result_bind r (\<lambda>hits. Inr (apply_specificity hits)))
       (tiers fs ix_path lookup file_scan corpus_scan pred)"

definition resolve_exact :: "reg_fs \<Rightarrow> bytes \<Rightarrow> rust_str \<Rightarrow> (reg_error + hit list) option" where
  "resolve_exact fs ix_path folded_anchor =
     cascade fs ix_path (\<lambda>ix. lookup_exact ix folded_anchor) (file_exact fs folded_anchor)
       (corpus_exact fs folded_anchor) (\<lambda>r. is_exact (rr_anchor r) folded_anchor)"

definition resolve_key :: "reg_fs \<Rightarrow> bytes \<Rightarrow> rust_str \<Rightarrow> (reg_error + hit list) option" where
  "resolve_key fs ix_path folded_path =
     cascade fs ix_path (\<lambda>ix. lookup_key ix folded_path) (file_key fs folded_path)
       (corpus_key fs folded_path) (\<lambda>r. is_under_key (rr_anchor r) folded_path)"

section \<open>Stable sorting\<close>

text \<open>Lists that agree on every key sort to the same list.\<close>

lemma sort_key_agree:
  assumes "\<And>k. filter (\<lambda>x. f x = k) xs = filter (\<lambda>x. f x = k) ys"
  shows "sort_key f xs = sort_key f ys"
proof (rule properties_for_sort_key)
  show "mset (sort_key f ys) = mset xs"
  proof (rule multiset_eqI)
    fix x
    have "count (mset zs) x = count (mset (filter (\<lambda>y. f y = f x) zs)) x" for zs
      by (induction zs) auto
    from this [of xs] this [of ys] have "count (mset xs) x = count (mset ys) x" by (simp only: assms)
    then show "count (mset (sort_key f ys)) x = count (mset xs) x" by simp
  qed
  have flip: "filter (\<lambda>x. f k = f x) zs = filter (\<lambda>x. f x = f k) zs" for k zs
    by (rule filter_cong) auto
  show "filter (\<lambda>x. f k = f x) (sort_key f ys) = filter (\<lambda>x. f k = f x) xs" for k
    unfolding flip by (simp add: sort_key_stable assms)
qed simp

section \<open>The entries that are built\<close>

definition locs_for :: "bytes \<Rightarrow> index_entries \<Rightarrow> (nat \<times> nat) list" where
  "locs_for u es = concat (map snd (filter (\<lambda>e. utf8 (fst e) = u) es))"

abbreviation keys :: "index_entries \<Rightarrow> bytes list" where
  "keys es \<equiv> map (\<lambda>e. utf8 (fst e)) es"

lemma entry_push_keys: "set (keys (entry_push a v es)) = insert (utf8 a) (set (keys es))"
  by (induction a v es rule: entry_push.induct) auto

lemma entry_push_sorted: "sorted_wrt (<) (keys es) \<Longrightarrow> sorted_wrt (<) (keys (entry_push a v es))"
proof (induction a v es rule: entry_push.induct)
  case (2 a v k vs es)
  have all: "\<forall>e \<in> set es. utf8 k < utf8 (fst e)" and srt: "sorted_wrt (<) (keys es)" using 2(2) by auto
  consider "utf8 a = utf8 k" | "utf8 a < utf8 k" | "utf8 k < utf8 a" by fastforce
  then show ?case
  proof cases
    case 3
    have "\<forall>w \<in> set (keys (entry_push a v es)). utf8 k < w"
      unfolding entry_push_keys using all 3 by simp
    then show ?thesis using 2(1) srt 3 by auto
  qed (use all srt in auto)
qed simp

lemma locs_for_simps [simp]:
  "locs_for u [] = []" "locs_for u (e # es) = (if utf8 (fst e) = u then snd e else []) @ locs_for u es"
  by (simp_all add: locs_for_def)

lemma locs_for_none: "u \<notin> set (keys es) \<Longrightarrow> locs_for u es = []"
  by (induction es) auto

lemma entry_push_locs:
  "sorted_wrt (<) (keys es) \<Longrightarrow> locs_for u (entry_push a v es) = locs_for u es @ (if u = utf8 a then [v] else [])"
proof (induction a v es rule: entry_push.induct)
  case (2 a v k vs es)
  have all: "\<forall>e \<in> set es. utf8 k < utf8 (fst e)" using 2(2) by auto
  consider "utf8 a = utf8 k" | "utf8 a < utf8 k" | "utf8 k < utf8 a" by fastforce
  then show ?case
  proof cases
    case 3
    then have "\<not> utf8 a < utf8 k" "utf8 a \<noteq> utf8 k" by auto
    with 2(1) 2(2) show ?thesis by simp
  next
    case 1
    then have "locs_for (utf8 k) es = []" using all by (intro locs_for_none) auto
    with 1 show ?thesis by auto
  next
    case lt: 2
    then have "locs_for (utf8 a) es = []" using all by (intro locs_for_none) auto
    with lt show ?thesis by auto
  qed
qed simp

lemma locs_for_entry:
  assumes "sorted_wrt (<) (keys es)" "e \<in> set es"
  shows "locs_for (utf8 (fst e)) es = snd e"
  using assms
proof (induction es)
  case (Cons e' es)
  then show ?case using locs_for_none [of "utf8 (fst e')" es] by fastforce
qed simp

text \<open>The records of the corpus in order, each with the number of its file.\<close>

definition text_of :: "reg_fs \<Rightarrow> bytes \<Rightarrow> rust_str" where
  "text_of fs p = (case rf_read fs p of Inr t \<Rightarrow> t | Inl _ \<Rightarrow> [])"

fun numbered :: "reg_fs \<Rightarrow> nat \<Rightarrow> bytes list \<Rightarrow> (nat \<times> reg_record) list" where
  "numbered fs k [] = []"
| "numbered fs k (p # ps) = map (Pair k) (records_of (text_of fs p)) @ numbered fs (k + 1) ps"

definition push_record :: "index_entries \<Rightarrow> nat \<times> reg_record \<Rightarrow> index_entries" where
  "push_record es kr = entry_push (rr_anchor (snd kr)) (fst kr, rr_fence_offset (snd kr)) es"

lemma collected_entries:
  assumes "sorted_wrt (<) (keys es)"
  shows "sorted_wrt (<) (keys (foldl push_record es rs))
    \<and> set (keys (foldl push_record es rs)) = set (keys es) \<union> (\<lambda>kr. utf8 (rr_anchor (snd kr))) ` set rs
    \<and> locs_for u (foldl push_record es rs) = locs_for u es @
       map (\<lambda>kr. (fst kr, rr_fence_offset (snd kr))) (filter (\<lambda>kr. utf8 (rr_anchor (snd kr)) = u) rs)"
  using assms
proof (induction rs arbitrary: es)
  case (Cons kr rs)
  have "sorted_wrt (<) (keys (push_record es kr))" using Cons.prems by (simp add: push_record_def entry_push_sorted)
  from Cons.IH [OF this] show ?case
    using entry_push_keys [of "rr_anchor (snd kr)" _ es] entry_push_locs [OF Cons.prems]
    by (simp add: push_record_def)
qed simp

lemma foldl_numbered:
  "foldl (\<lambda>es r. entry_push (rr_anchor r) (k, rr_fence_offset r) es) es rs = foldl push_record es (map (Pair k) rs)"
  by (induction rs arbitrary: es) (simp_all add: push_record_def)

lemma index_files_collects:
  assumes "index_files fs ps es files = Inr (es', files')" "distinct (files @ map from_utf8_lossy ps)"
  shows "files' = files @ map from_utf8_lossy ps \<and> es' = foldl push_record es (numbered fs (length files) ps)
    \<and> (\<forall>p \<in> set ps. \<exists>t. rf_read fs p = Inr t)"
  using assms
proof (induction ps arbitrary: es files)
  case (Cons p ps)
  have pos: "position (\<lambda>f. f = from_utf8_lossy p) files = None" using Cons.prems(2) by (auto simp: position_None)
  obtain t where t: "rf_read fs p = Inr t" using Cons.prems(1) pos by (cases "rf_read fs p") (simp_all add: Let_def)
  have "index_files fs ps (foldl push_record es (map (Pair (length files)) (records_of t))) (files @ [from_utf8_lossy p]) = Inr (es', files')"
    using Cons.prems(1) pos t by (simp add: Let_def foldl_numbered)
  from Cons.IH [OF this] Cons.prems(2) t show ?case by (simp add: text_of_def)
qed simp

section \<open>The records of a file\<close>

lemma parse_lines_offsets:
  "sorted_wrt (<) (map rr_fence_offset (fst (parse_lines off n ls)))
   \<and> (\<forall>r \<in> set (fst (parse_lines off n ls)). off \<le> rr_fence_offset r \<and> rr_fence_offset r \<le> off + str_len (join_with [10] ls))"
proof (induction ls arbitrary: off n)
  case (Cons l ls)
  show ?case
  proof (cases "ls = []")
    case False
    then have "str_len (join_with [10] (l # ls)) = str_len l + 1 + str_len (join_with [10] ls)"
      by (cases ls) (simp_all add: utf8_len_def)
    with Cons [of "off + str_len l + 1" "n + 1"] show ?thesis by (fastforce simp: fst_parse_Cons split: option.splits)
  qed (simp add: fst_parse_Cons split: option.splits)
qed simp

lemma fence_anchor_valid: "fence_anchor l = Some a \<Longrightarrow> valid_str l \<Longrightarrow> valid_str a"
  using fence_anchor_occurs [of l a] by (auto simp: valid_str_def occurs_in_iff)

lemma parse_lines_valid:
  "\<forall>l \<in> set ls. valid_str l \<Longrightarrow> r \<in> set (fst (parse_lines off n ls)) \<Longrightarrow> valid_str (rr_anchor r)"
proof (induction ls arbitrary: off n)
  case (Cons l ls)
  then show ?case
    using record_after_facts(1) [of l ls] fence_anchor_valid [of l]
    by (fastforce simp: fst_parse_Cons no_fence_def split: option.splits)
qed simp

lemma split_on_subset: "l \<in> set (split_on c s) \<Longrightarrow> set l \<subseteq> set s"
proof (induction s arbitrary: l)
  case (Cons x s)
  then show ?case by (cases "split_on c s") (fastforce split: if_splits)+
qed simp

lemma records_of_facts:
  "distinct (map rr_fence_offset (records_of text))"
  "r \<in> set (records_of text) \<Longrightarrow> rr_fence_offset r \<le> str_len text"
  "valid_str text \<Longrightarrow> r \<in> set (records_of text) \<Longrightarrow> valid_str (rr_anchor r)"
proof -
  show "distinct (map rr_fence_offset (records_of text))"
    using parse_lines_offsets [of 0 1 "split_on 10 text"]
    by (simp add: records_of_def parse_fragment_lines strict_sorted_iff)
  show "r \<in> set (records_of text) \<Longrightarrow> rr_fence_offset r \<le> str_len text"
    using parse_lines_offsets [of 0 1 "split_on 10 text"]
    by (simp add: records_of_def parse_fragment_lines join_split)
  assume "valid_str text"
  then have "\<forall>l \<in> set (split_on 10 text). valid_str l" using split_on_subset by (fastforce simp: valid_str_def)
  then show "r \<in> set (records_of text) \<Longrightarrow> valid_str (rr_anchor r)"
    using parse_lines_valid by (simp add: records_of_def parse_fragment_lines)
qed

section \<open>A fresh index\<close>

text \<open>
  The corpus and the index agree: \<open>build\<close> on this very corpus wrote the index file. Texts are valid
  and of a size that a 64-bit offset reaches, as every Rust string is; the paths are text, and no
  two of them are the same.
\<close>

definition fresh_index :: "reg_fs \<Rightarrow> bytes \<Rightarrow> bool" where
  "fresh_index fs ix_path \<longleftrightarrow>
     (\<exists>b. build_index fs = Inr b \<and> rf_bytes fs ix_path = Inr b \<and> length b < 2 ^ 32)
     \<and> (\<forall>p t. rf_read fs p = Inr t \<longrightarrow> valid_str t \<and> str_len t < 2 ^ 64)
     \<and> (\<forall>ps. fragments fs = Inr ps \<longrightarrow> (\<forall>p \<in> set ps. from_utf8 p \<noteq> None) \<and> distinct (map path_components ps))"

lemma from_utf8_lossy_inv: "from_utf8 p \<noteq> None \<Longrightarrow> utf8 (from_utf8_lossy p) = p \<and> valid_str (from_utf8_lossy p)"
  using utf8_from_utf8 [of p] from_utf8_lossy_utf8 by (cases "from_utf8 p") fastforce+

lemma numbered_range: "kr \<in> set (numbered fs n ps) \<Longrightarrow> n \<le> fst kr \<and> fst kr < n + length ps
    \<and> snd kr \<in> set (records_of (text_of fs (ps ! (fst kr - n))))"
  by (induction fs n ps rule: numbered.induct) (fastforce simp: nth_Cons')+

lemma entry_push_names: "fst ` set (entry_push a v es) \<subseteq> insert a (fst ` set es)"
  by (induction a v es rule: entry_push.induct) auto

lemma collected_names: "fst ` set (foldl push_record es rs) \<subseteq> fst ` set es \<union> (\<lambda>kr. rr_anchor (snd kr)) ` set rs"
proof (induction rs arbitrary: es)
  case (Cons kr rs)
  have "fst ` set (push_record es kr) \<subseteq> insert (rr_anchor (snd kr)) (fst ` set es)"
    unfolding push_record_def by (rule entry_push_names)
  with Cons [of "push_record es kr"] show ?case by auto
qed simp

text \<open>What the loaded index holds.\<close>

lemma fresh_index_content:
  assumes "fresh_index fs ix_path"
  shows "\<exists>ix ps. load_index fs ix_path = Some (Some ix) \<and> fragments fs = Inr ps \<and> index_wf ix
    \<and> (\<forall>p \<in> set ps. \<exists>t. rf_read fs p = Inr t) \<and> distinct (map path_components ps)
    \<and> set (map (anchor_at ix) [0..<ix_entries ix]) = (\<lambda>kr. utf8 (rr_anchor (snd kr))) ` set (numbered fs 0 ps)
    \<and> (\<forall>i < ix_entries ix. locations_at ix i =
        map (\<lambda>kr. \<lparr>lc_file = ps ! fst kr, lc_offset = rr_fence_offset (snd kr)\<rparr>)
          (filter (\<lambda>kr. utf8 (rr_anchor (snd kr)) = anchor_at ix i) (numbered fs 0 ps)))"
proof -
  obtain b where b: "build_index fs = Inr b" "rf_bytes fs ix_path = Inr b" "length b < 2 ^ 32"
    and texts: "\<And>p t. rf_read fs p = Inr t \<Longrightarrow> valid_str t \<and> str_len t < 2 ^ 64"
    using assms by (auto simp: fresh_index_def)
  obtain ps where ps: "fragments fs = Inr ps" using b(1) by (cases "fragments fs") (simp_all add: build_index_def)
  then have p: "\<forall>p \<in> set ps. from_utf8 p \<noteq> None" "distinct (map path_components ps)"
    using assms by (auto simp: fresh_index_def)
  have inv: "\<forall>p \<in> set ps. utf8 (from_utf8_lossy p) = p \<and> valid_str (from_utf8_lossy p)"
    using p(1) from_utf8_lossy_inv by blast
  have dps: "distinct ps" using p(2) by (simp add: distinct_map)
  have "inj_on from_utf8_lossy (set ps)" using inv by (intro inj_onI) metis
  then have d: "distinct ([] @ map from_utf8_lossy ps)" using dps by (simp add: distinct_map)
  obtain es files where ef: "index_files fs ps [] [] = Inr (es, files)" and ser: "b = serialize es files"
    using b(1) ps by (cases "index_files fs ps [] []") (auto simp: build_index_def)
  note c = index_files_collects [OF ef d]
  have es: "es = foldl push_record [] (numbered fs 0 ps)" and files: "files = map from_utf8_lossy ps"
    and reads: "\<forall>p \<in> set ps. \<exists>t. rf_read fs p = Inr t" using c by auto
  note col = collected_entries [of "[]", simplified, of "numbered fs 0 ps", folded es]
  have entry: "snd e = map (\<lambda>kr. (fst kr, rr_fence_offset (snd kr)))
      (filter (\<lambda>kr. utf8 (rr_anchor (snd kr)) = utf8 (fst e)) (numbered fs 0 ps))" if "e \<in> set es" for e
    using locs_for_entry [of es e] that col by simp
  have rec: "valid_str (rr_anchor (snd kr)) \<and> rr_fence_offset (snd kr) < 2 ^ 64 \<and> fst kr < length files"
    if "kr \<in> set (numbered fs 0 ps)" for kr
  proof -
    have k: "fst kr < length ps" "snd kr \<in> set (records_of (text_of fs (ps ! fst kr)))"
      using numbered_range [OF that] by auto
    then obtain t where "rf_read fs (ps ! fst kr) = Inr t" using reads nth_mem by blast
    then show ?thesis
      using k texts [of "ps ! fst kr" t] records_of_facts(2) [of "snd kr" t] records_of_facts(3) [of t "snd kr"] files by (auto simp: text_of_def)
  qed
  have ok: "entries_ok es files"
    unfolding entries_ok_def
  proof (intro conjI)
    show "\<forall>e \<in> set es. valid_str (fst e) \<and> (\<forall>l \<in> set (snd e). fst l < length files \<and> snd l < 2 ^ 64)"
    proof
      fix e assume e: "e \<in> set es"
      have "fst e \<in> (\<lambda>kr. rr_anchor (snd kr)) ` set (numbered fs 0 ps)"
        using collected_names [of "[]" "numbered fs 0 ps"] e unfolding es by force
      then show "valid_str (fst e) \<and> (\<forall>l \<in> set (snd e). fst l < length files \<and> snd l < 2 ^ 64)"
        using rec entry [OF e] by auto
    qed
    show "\<forall>f \<in> set files. valid_str f" using inv files by auto
  qed (use col b(3) ser in simp_all)
  let ?ix = "written_index es files"
  have path: "utf8 (files ! k) = ps ! k" if "k < length ps" for k using inv that files by simp
  have loc: "locations_at ?ix i = map (\<lambda>kr. \<lparr>lc_file = ps ! fst kr, lc_offset = rr_fence_offset (snd kr)\<rparr>)
      (filter (\<lambda>kr. utf8 (rr_anchor (snd kr)) = anchor_at ?ix i) (numbered fs 0 ps))" if "i < length es" for i
    unfolding written_content(1) [OF ok that] written_content(2) [OF ok that] entry [OF nth_mem [OF that]] list.map_comp
    using rec path by (intro map_cong) (auto simp: files)
  have keys: "set (map (anchor_at ?ix) [0..<length es]) = (\<lambda>kr. utf8 (rr_anchor (snd kr))) ` set (numbered fs 0 ps)"
  proof -
    have "map (anchor_at ?ix) [0..<length es] = keys es"
      using written_content(1) [OF ok] by (intro nth_equalityI) simp_all
    then show ?thesis using col by simp
  qed
  have "load_index fs ix_path = Some (Some ?ix)" using b(2) ser decode_written [OF ok] by (simp add: load_index_def)
  then show ?thesis using ps reads p(2) loc keys written_wf [OF ok] by (intro exI [of _ ?ix] exI [of _ ps]) simp
qed

section \<open>The cascade answers as the scan\<close>

lemma scan_complete_file:
  assumes "rf_read fs file = Inr t"
  shows "file_exact fs q file = Inr (map (hit_of file) (filter (\<lambda>r. is_exact (rr_anchor r) q) (records_of t)))"
    "file_key fs q file = Inr (map (hit_of file) (filter (\<lambda>r. is_under_key (rr_anchor r) q) (records_of t)))"
  unfolding file_exact_def file_key_def
  by (intro scan_file_filter [OF assms]; auto intro: occurs_exact occurs_under_key)+

definition found_hit :: "bytes list \<Rightarrow> nat \<times> reg_record \<Rightarrow> hit" where
  "found_hit ps kr = hit_of (ps ! fst kr) (snd kr)"

lemma scan_numbered:
  "concat (map (\<lambda>p. map (hit_of p) (filter P (records_of (text_of fs p)))) ps)
     = map (\<lambda>kr. hit_of (ps ! (fst kr - n)) (snd kr)) (filter (\<lambda>kr. P (snd kr)) (numbered fs n ps))"
proof (induction fs n ps rule: numbered.induct)
  case (2 fs n p ps)
  have "map (\<lambda>kr. hit_of (ps ! (fst kr - (n + 1))) (snd kr)) (filter (\<lambda>kr. P (snd kr)) (numbered fs (n + 1) ps))
      = map (\<lambda>kr. hit_of ((p # ps) ! (fst kr - n)) (snd kr)) (filter (\<lambda>kr. P (snd kr)) (numbered fs (n + 1) ps))"
    by (intro map_cong refl) (fastforce simp: nth_Cons' dest: numbered_range)
  with 2 show ?case by (simp add: filter_map comp_def)
qed simp

lemma scan_all_readable:
  "\<forall>p \<in> set ps. scan p = Inr (f p) \<Longrightarrow> scan_all scan ps = Inr (concat (map f ps))"
  by (induction ps) simp_all

lemma find_unique:
  "distinct (map f rs) \<Longrightarrow> r \<in> set rs \<Longrightarrow> find (\<lambda>x. f x = f r \<and> P x) rs = (if P r then Some r else None)"
proof (induction rs)
  case (Cons x rs)
  then show ?case by (auto simp: find_None_iff image_iff)
qed simp

lemma concat_single:
  "distinct is \<Longrightarrow> i \<in> set is \<Longrightarrow> (\<And>j. j \<in> set is \<Longrightarrow> j \<noteq> i \<Longrightarrow> f j = []) \<Longrightarrow> concat (map f is) = f i"
proof (induction "is")
  case (Cons j "is")
  show ?case
  proof (cases "i = j")
    case True
    then have "concat (map f is) = []" using Cons.prems by (auto simp: concat_eq_Nil_conv)
    with True show ?thesis by simp
  qed (use Cons in auto)
qed simp

lemma dedup_paths_subset: "set (dedup_paths ps) \<subseteq> set ps"
  by (induction ps rule: dedup_paths.induct) auto

lemma dedup_paths_set: "inj_on path_components (set ps) \<Longrightarrow> set (dedup_paths ps) = set ps"
proof (induction ps rule: dedup_paths.induct)
  case (2 p ps)
  then have "set (dedup_paths ps) = set ps" by (meson inj_on_subset set_subset_Cons)
  with 2(2) show ?case by (auto simp: inj_on_def)
qed simp

lemma dedup_paths_distinct: "distinct (map path_components (dedup_paths ps))"
proof (induction ps rule: dedup_paths.induct)
  case (2 p ps)
  then have "distinct (map path_components (filter (\<lambda>q. path_components q \<noteq> path_components p) (dedup_paths ps)))"
    by (simp add: distinct_map inj_on_def)
  then show ?case by auto
qed simp

text \<open>The files an index names, in their order, are the files of the corpus that it names.\<close>

lemma distinct_files_filter:
  assumes "sorted (map path_components ps)" "distinct (map path_components ps)" "lc_file ` set locs \<subseteq> set ps"
  shows "distinct_files locs = filter (\<lambda>p. p \<in> lc_file ` set locs) ps"
proof -
  let ?F = "map lc_file locs"
  have inj: "inj_on path_components (set ps)" using assms(2) by (simp add: distinct_map)
  have set: "set (distinct_files locs) = lc_file ` set locs"
    using dedup_paths_set [of ?F] inj_on_subset [OF inj] assms(3) by (simp add: distinct_files_def)
  have srt: "sorted (map path_components (distinct_files locs))" by (simp add: distinct_files_def)
  have "mset (map path_components (distinct_files locs)) = mset (map path_components (dedup_paths ?F))"
    by (simp add: distinct_files_def)
  then have dst: "distinct (map path_components (distinct_files locs))"
    using dedup_paths_distinct [of ?F] by (metis mset_eq_imp_distinct_iff)
  have "map path_components (distinct_files locs) = map path_components (filter (\<lambda>p. p \<in> lc_file ` set locs) ps)"
  proof (rule sorted_distinct_set_unique [OF srt dst])
    show "sorted (map path_components (filter (\<lambda>p. p \<in> lc_file ` set locs) ps))" by (rule sorted_filter [OF assms(1)])
    show "distinct (map path_components (filter (\<lambda>p. p \<in> lc_file ` set locs) ps))" using assms(2) by (rule distinct_map_filter)
    show "set (map path_components (distinct_files locs)) = set (map path_components (filter (\<lambda>p. p \<in> lc_file ` set locs) ps))"
      using set assms(3) by (auto simp: image_def)
  qed
  then show ?thesis
    using inj_on_map_eq_map [of path_components "distinct_files locs" "filter (\<lambda>p. p \<in> lc_file ` set locs) ps"]
      set assms(3) inj_on_subset [OF inj] by auto
qed

lemma fragments_sorted: "fragments fs = Inr ps \<Longrightarrow> sorted (map path_components ps)"
  by (auto simp: fragments_def result_bind_def split: fs_error.splits sum.splits)


lemma numbered_member:
  "k < length ps \<Longrightarrow> r \<in> set (records_of (text_of fs (ps ! k))) \<Longrightarrow> (n + k, r) \<in> set (numbered fs n ps)"
proof (induction fs n ps arbitrary: k rule: numbered.induct)
  case (2 fs n p ps)
  then show ?case using "2.IH" [of "k - 1"] by (cases k) auto
qed simp

lemma wf_inj: "index_wf ix \<Longrightarrow> \<forall>i \<in> I. i < ix_entries ix \<Longrightarrow> inj_on (anchor_at ix) I"
  using wf_ascending [of ix] by (intro inj_onI) (metis less_irrefl linorder_neqE_nat)

locale registry_query =
  fixes lookup :: "reg_index \<Rightarrow> location list option"
    and file_scan :: "reg_fs \<Rightarrow> bytes \<Rightarrow> reg_error + hit list"
    and sat :: "bytes \<Rightarrow> bool"
  assumes file_scan_text: "rf_read fs file = Inr t \<Longrightarrow>
      file_scan fs file = Inr (map (hit_of file) (filter (\<lambda>r. sat (utf8 (rr_anchor r))) (records_of t)))"
    and lookup_finds: "index_wf ix \<Longrightarrow> \<exists>is. distinct is \<and> (\<forall>i \<in> set is. i < ix_entries ix)
      \<and> (\<forall>i < ix_entries ix. sat (anchor_at ix i) \<longrightarrow> i \<in> set is)
      \<and> lookup ix = Some (concat (map (locations_at ix) is))"
begin

abbreviation record_sat :: "reg_record \<Rightarrow> bool" where
  "record_sat r \<equiv> sat (utf8 (rr_anchor r))"

definition scan :: "reg_fs \<Rightarrow> reg_error + hit list" where
  "scan fs = result_bind (fragments fs) (\<lambda>files.
     result_bind (scan_all (file_scan fs) files) (\<lambda>hits. Inr (sort_hits hits)))"

lemma scan_readable:
  assumes "\<forall>p \<in> set files. \<exists>t. rf_read fs p = Inr t"
  shows "scan_all (file_scan fs) files
    = Inr (concat (map (\<lambda>p. map (hit_of p) (filter record_sat (records_of (text_of fs p)))) files))"
  using assms file_scan_text by (intro scan_all_readable) (auto simp: text_of_def)

lemma scan_hits:
  assumes "fragments fs = Inr ps" "\<forall>p \<in> set ps. \<exists>t. rf_read fs p = Inr t"
  shows "scan fs = Inr (sort_hits (map (found_hit ps) (filter (\<lambda>kr. record_sat (snd kr)) (numbered fs 0 ps))))"
  using scan_numbered [of record_sat fs ps 0]
  by (simp add: scan_def assms(1) scan_readable [OF assms(2)] found_hit_def [abs_def])

lemma hit_at_record:
  assumes "kr \<in> set (numbered fs 0 ps)" "\<forall>p \<in> set ps. \<exists>t. rf_read fs p = Inr t"
  shows "hit_at fs record_sat \<lparr>lc_file = ps ! fst kr, lc_offset = rr_fence_offset (snd kr)\<rparr>
    = (if record_sat (snd kr) then Some (found_hit ps kr) else None)"
proof -
  have k: "fst kr < length ps" "snd kr \<in> set (records_of (text_of fs (ps ! fst kr)))"
    using numbered_range [OF assms(1)] by auto
  then obtain t where t: "rf_read fs (ps ! fst kr) = Inr t" using assms(2) nth_mem by blast
  then have "snd kr \<in> set (records_of t)" using k by (simp add: text_of_def)
  from find_unique [OF records_of_facts(1) this] t show ?thesis
    by (simp add: hit_at_def found_hit_def hit_of_def)
qed

lemma hits_agree:
  assumes "distinct is" "inj_on u (set is)" "\<forall>i \<in> set is. sat (u i)"
    and "\<forall>kr \<in> set R. record_sat (snd kr) \<longrightarrow> utf8 (rr_anchor (snd kr)) \<in> u ` set is"
  shows "sort_hits (concat (map (\<lambda>i. map (found_hit ps) (filter (\<lambda>kr. utf8 (rr_anchor (snd kr)) = u i) R)) is))
    = sort_hits (map (found_hit ps) (filter (\<lambda>kr. record_sat (snd kr)) R))"
  unfolding sort_hits_def
proof (rule sort_key_agree)
  fix k :: "bytes \<times> bytes"
  obtain v w where k: "k = (v, w)" by (cases k)
  let ?key = "\<lambda>h. (utf8 (ht_provider h), utf8 (rr_anchor (ht_record h)))"
  let ?at = "\<lambda>i. filter (\<lambda>h. ?key h = k) (map (found_hit ps) (filter (\<lambda>kr. utf8 (rr_anchor (snd kr)) = u i) R))"
  have anc: "rr_anchor (ht_record (found_hit ps kr)) = rr_anchor (snd kr)" for kr
    by (simp add: found_hit_def hit_of_def)
  have other: "?at i = []" if "u i \<noteq> w" for i
    using that by (auto simp: filter_empty_conv anc k)
  have "concat (map ?at is) = filter (\<lambda>h. ?key h = k) (map (found_hit ps) (filter (\<lambda>kr. record_sat (snd kr)) R))"
  proof (cases "w \<in> u ` set is")
    case True
    then obtain i where i: "i \<in> set is" "u i = w" by auto
    have "?at j = []" if "j \<in> set is" "j \<noteq> i" for j
      using other [of j] assms(2) i that by (auto simp: inj_on_def)
    then have "concat (map ?at is) = ?at i" by (rule concat_single [OF assms(1) i(1)])
    also have "\<dots> = filter (\<lambda>h. ?key h = k) (map (found_hit ps) (filter (\<lambda>kr. record_sat (snd kr)) R))"
    proof -
      have "sat w" using assms(3) i by auto
      then have "filter (\<lambda>kr. ?key (found_hit ps kr) = k \<and> utf8 (rr_anchor (snd kr)) = u i) R
          = filter (\<lambda>kr. ?key (found_hit ps kr) = k \<and> record_sat (snd kr)) R"
        using i(2) by (intro filter_cong refl) (auto simp: anc k)
      then show ?thesis by (simp add: filter_map comp_def conj_commute)
    qed
    finally show ?thesis .
  next
    case False
    then have "\<forall>i \<in> set is. u i \<noteq> w" by auto
    then have "concat (map ?at is) = []" using other by (simp add: concat_eq_Nil_conv)
    moreover have "filter (\<lambda>h. ?key h = k) (map (found_hit ps) (filter (\<lambda>kr. record_sat (snd kr)) R)) = []"
      using assms(4) False by (auto simp: filter_empty_conv anc k)
    ultimately show ?thesis by simp
  qed
  then show "filter (\<lambda>h. ?key h = k) (concat (map (\<lambda>i. map (found_hit ps) (filter (\<lambda>kr. utf8 (rr_anchor (snd kr)) = u i) R)) is))
    = filter (\<lambda>h. ?key h = k) (map (found_hit ps) (filter (\<lambda>kr. record_sat (snd kr)) R))"
    by (simp add: filter_concat comp_def)
qed

lemma all_found:
  assumes "distinct is" "inj_on u (set is)"
    and found: "\<And>i. i \<in> set is \<Longrightarrow> map hitf (locs i) = map (\<lambda>kr. if sat (u i) then Some (found_hit ps kr) else None)
          (filter (\<lambda>kr. utf8 (rr_anchor (snd kr)) = u i) R)"
    and occurs: "\<And>i. i \<in> set is \<Longrightarrow> \<exists>kr \<in> set R. utf8 (rr_anchor (snd kr)) = u i"
    and indexed: "\<And>kr. kr \<in> set R \<Longrightarrow> record_sat (snd kr) \<Longrightarrow> utf8 (rr_anchor (snd kr)) \<in> u ` set is"
    and none: "None \<notin> set (map hitf (concat (map locs is)))"
  shows "sort_hits (map the (map hitf (concat (map locs is))))
    = sort_hits (map (found_hit ps) (filter (\<lambda>kr. record_sat (snd kr)) R))"
proof -
  have sat: "sat (u i)" if i: "i \<in> set is" for i
  proof (rule ccontr)
    assume "\<not> sat (u i)"
    moreover obtain kr where "kr \<in> set R" "utf8 (rr_anchor (snd kr)) = u i" using occurs [OF i] by blast
    ultimately have "None \<in> set (map hitf (locs i))" unfolding found [OF i] by force
    then show False using none i by auto
  qed
  have "map (\<lambda>l. the (hitf l)) (locs i) = map (found_hit ps) (filter (\<lambda>kr. utf8 (rr_anchor (snd kr)) = u i) R)"
    if "i \<in> set is" for i
    using arg_cong [OF found [OF that], of "map the"] sat [OF that] by (simp add: comp_def)
  then have "map the (map hitf (concat (map locs is)))
      = concat (map (\<lambda>i. map (found_hit ps) (filter (\<lambda>kr. utf8 (rr_anchor (snd kr)) = u i) R)) is)"
    unfolding map_concat list.map_comp comp_def by (intro arg_cong [where f = concat] map_cong refl) simp
  then show ?thesis using hits_agree [OF assms(1,2)] sat indexed by simp
qed

text \<open>The files the index does not name for a query have no record that satisfies it.\<close>

lemma unnamed_silent:
  assumes "\<And>kr. kr \<in> set (numbered fs 0 ps) \<Longrightarrow> record_sat (snd kr) \<Longrightarrow> ps ! fst kr \<in> F" "p \<in> set ps" "p \<notin> F"
  shows "map (hit_of p) (filter record_sat (records_of (text_of fs p))) = []"
proof -
  obtain k where k: "k < length ps" "p = ps ! k" using assms(2) by (auto simp: in_set_conv_nth)
  have "(k, r) \<in> set (numbered fs 0 ps)" if "r \<in> set (records_of (text_of fs p))" for r
    using numbered_member [of k ps r fs 0] k that by simp
  then have "\<not> record_sat r" if "r \<in> set (records_of (text_of fs p))" for r
    using assms(1) [of "(k, r)"] assms(3) k that by auto
  then show ?thesis by (simp add: filter_empty_conv)
qed

lemma rescan_named:
  assumes "\<forall>p \<in> set ps. \<exists>t. rf_read fs p = Inr t"
    and "\<And>kr. kr \<in> set (numbered fs 0 ps) \<Longrightarrow> record_sat (snd kr) \<Longrightarrow> ps ! fst kr \<in> F"
  shows "scan_all (file_scan fs) (filter (\<lambda>p. p \<in> F) ps) = scan_all (file_scan fs) ps"
proof -
  let ?h = "\<lambda>p. map (hit_of p) (filter record_sat (records_of (text_of fs p)))"
  have "concat (map ?h (filter (\<lambda>p. p \<in> F) qs)) = concat (map ?h qs)" if "set qs \<subseteq> set ps" for qs
    using that unnamed_silent [OF assms(2)] by (induction qs) auto
  then have "concat (map ?h (filter (\<lambda>p. p \<in> F) ps)) = concat (map ?h ps)" by simp
  then show ?thesis using scan_readable assms(1) by simp
qed

lemma tiers_fresh:
  assumes "fresh_index fs ix_path"
  shows "tiers fs ix_path lookup (file_scan fs) (scan fs) record_sat = Some (scan fs)"
proof -
  obtain ix ps where load: "load_index fs ix_path = Some (Some ix)" and ps: "fragments fs = Inr ps" and wf: "index_wf ix"
    and reads: "\<forall>p \<in> set ps. \<exists>t. rf_read fs p = Inr t" and dist: "distinct (map path_components ps)"
    and keys: "set (map (anchor_at ix) [0..<ix_entries ix]) = (\<lambda>kr. utf8 (rr_anchor (snd kr))) ` set (numbered fs 0 ps)"
    and content: "\<And>i. i < ix_entries ix \<Longrightarrow> locations_at ix i =
        map (\<lambda>kr. \<lparr>lc_file = ps ! fst kr, lc_offset = rr_fence_offset (snd kr)\<rparr>)
          (filter (\<lambda>kr. utf8 (rr_anchor (snd kr)) = anchor_at ix i) (numbered fs 0 ps))"
    using fresh_index_content [OF assms] by blast
  obtain "is" where idx: "distinct is" "\<forall>i \<in> set is. i < ix_entries ix"
      "\<forall>i < ix_entries ix. sat (anchor_at ix i) \<longrightarrow> i \<in> set is"
      "lookup ix = Some (concat (map (locations_at ix) is))"
    using lookup_finds [OF wf] by blast
  define R where "R = numbered fs 0 ps"
  define locs where "locs = concat (map (locations_at ix) is)"
  define fd where "fd = map (hit_at fs record_sat) locs"
  have indexed: "utf8 (rr_anchor (snd kr)) \<in> anchor_at ix ` set is" if "kr \<in> set R" "record_sat (snd kr)" for kr
    using that idx(3) keys by (force simp: R_def)
  have occurs: "\<exists>kr \<in> set R. utf8 (rr_anchor (snd kr)) = anchor_at ix i" if "i \<in> set is" for i
  proof -
    have "anchor_at ix i \<in> set (map (anchor_at ix) [0..<ix_entries ix])" using idx(2) that by simp
    then show ?thesis unfolding keys R_def by (auto simp: eq_commute)
  qed
  have found: "map (hit_at fs record_sat) (locations_at ix i)
      = map (\<lambda>kr. if sat (anchor_at ix i) then Some (found_hit ps kr) else None)
          (filter (\<lambda>kr. utf8 (rr_anchor (snd kr)) = anchor_at ix i) R)" if "i \<in> set is" for i
    using idx(2) that hit_at_record [OF _ reads] by (auto simp: content R_def)
  have named: "ps ! fst kr \<in> lc_file ` set locs" if kr: "kr \<in> set R" "record_sat (snd kr)" for kr
  proof -
    obtain i where "i \<in> set is" "anchor_at ix i = utf8 (rr_anchor (snd kr))" using indexed [OF kr] by force
    then show ?thesis using idx(2) kr(1) by (force simp: content R_def locs_def)
  qed
  have "lc_file loc \<in> set ps" if "loc \<in> set locs" for loc
    using that idx(2) content numbered_range [of _ fs 0 ps] by (fastforce simp: locs_def)
  then have "distinct_files locs = filter (\<lambda>p. p \<in> lc_file ` set locs) ps"
    using fragments_sorted [OF ps] dist by (intro distinct_files_filter) auto
  then have rescan: "scan_all (file_scan fs) (distinct_files locs) = scan_all (file_scan fs) ps"
    using rescan_named [OF reads] named by (simp add: R_def)
  have fresh: "sort_hits (map the fd) = sort_hits (map (found_hit ps) (filter (\<lambda>kr. record_sat (snd kr)) R))"
    if "None \<notin> set fd"
    unfolding fd_def locs_def using that
    by (intro all_found [OF idx(1) wf_inj [OF wf idx(2)] found occurs indexed]) (simp_all add: fd_def locs_def)
  have "map the (filter (\<lambda>h. h \<noteq> None) fd) = map the fd" if "None \<notin> set fd"
    using that by (intro arg_cong [where f = "map the"] filter_True) metis
  then have hits: "Inr (sort_hits (map the (filter (\<lambda>h. h \<noteq> None) fd))) = scan fs" if "None \<notin> set fd"
    using that fresh scan_hits [OF ps reads] by (simp add: R_def)
  have "scan fs = result_bind (scan_all (file_scan fs) ps) (\<lambda>hits. Inr (sort_hits hits))" by (simp add: scan_def ps)
  then show ?thesis using hits rescan scan_readable [OF reads]
    by (auto simp: tiers_def load idx(4) Let_def list_ex_iff simp flip: locs_def fd_def)
qed

end

interpretation exact_query: registry_query "\<lambda>ix. lookup_exact ix q" "\<lambda>fs. file_exact fs q"
  "\<lambda>a. matches_exact a (utf8 q)" for q
proof unfold_locales
  fix fs :: reg_fs and f t assume "rf_read fs f = Inr t"
  from scan_complete_file(1) [OF this, of q]
  show "file_exact fs q f = Inr (map (hit_of f) (filter (\<lambda>r. matches_exact (utf8 (rr_anchor r)) (utf8 q)) (records_of t)))"
    by (simp add: is_exact_def)
next
  fix ix assume "index_wf ix"
  from lookup_exact_entries [OF this, of q]
  show "\<exists>is. distinct is \<and> (\<forall>i \<in> set is. i < ix_entries ix)
      \<and> (\<forall>i < ix_entries ix. matches_exact (anchor_at ix i) (utf8 q) \<longrightarrow> i \<in> set is)
      \<and> lookup_exact ix q = Some (concat (map (locations_at ix) is))" by blast
qed

interpretation key_query: registry_query "\<lambda>ix. lookup_key ix q" "\<lambda>fs. file_key fs q"
  "\<lambda>a. matches_under_key a (utf8 q)" for q
proof unfold_locales
  fix fs :: reg_fs and f t assume "rf_read fs f = Inr t"
  from scan_complete_file(2) [OF this, of q]
  show "file_key fs q f = Inr (map (hit_of f) (filter (\<lambda>r. matches_under_key (utf8 (rr_anchor r)) (utf8 q)) (records_of t)))"
    by (simp add: is_under_key_def)
next
  fix ix assume "index_wf ix"
  from lookup_key_entries [OF this, of q]
  show "\<exists>is. distinct is \<and> (\<forall>i \<in> set is. i < ix_entries ix)
      \<and> (\<forall>i < ix_entries ix. matches_under_key (anchor_at ix i) (utf8 q) \<longrightarrow> i \<in> set is)
      \<and> lookup_key ix q = Some (concat (map (locations_at ix) is))" by blast
qed

end
