(* ===== verification/Reg_Resolve.thy ===== *)
theory Reg_Resolve
  imports Reg_Query
begin

text \<open>
  What the answers of \<open>resolve_exact\<close> and \<open>resolve_key\<close> are worth: through any index
  they are true, through a fresh one they are complete, and of the records found exactly the most
  specific of each kind are kept.
\<close>

section \<open>Any index: the answers are true\<close>

definition true_hit :: "reg_fs \<Rightarrow> (reg_record \<Rightarrow> bool) \<Rightarrow> hit \<Rightarrow> bool" where
  "true_hit fs P h \<longleftrightarrow>
     (\<exists>t. rf_read fs (ht_file h) = Inr t \<and> ht_record h \<in> set (records_of t))
     \<and> ht_provider h = provider_of (ht_file h) \<and> P (ht_record h)"

lemma true_hit_at: "hit_at fs P loc = Some h \<Longrightarrow> true_hit fs P h"
  by (auto simp: hit_at_def true_hit_def find_Some_iff in_set_conv_nth split: sum.splits)

lemma scan_all_members:
  "scan_all scan ps = Inr hits \<Longrightarrow> h \<in> set hits \<Longrightarrow> \<exists>p hs. scan p = Inr hs \<and> h \<in> set hs"
proof (induction ps arbitrary: hits)
  case (Cons p ps)
  then show ?case by (fastforce simp: result_bind_def split: sum.splits)
qed simp

locale faithful_query = registry_query +
  assumes unreadable: "rf_read fs file = Inl e \<Longrightarrow> file_scan fs file = Inr hits \<Longrightarrow> hits = []"
begin

lemma file_scan_true:
  assumes "file_scan fs file = Inr hits" "h \<in> set hits"
  shows "true_hit fs record_sat h"
proof (cases "rf_read fs file")
  case (Inl e)
  with unreadable assms show ?thesis by fastforce
next
  case (Inr t)
  with file_scan_text [OF Inr] assms show ?thesis by (auto simp: true_hit_def hit_of_def)
qed

lemma scan_all_true: "scan_all (file_scan fs) ps = Inr hits \<Longrightarrow> h \<in> set hits \<Longrightarrow> true_hit fs record_sat h"
  by (drule (1) scan_all_members) (auto intro: file_scan_true)

lemma scan_true: "scan fs = Inr hits \<Longrightarrow> h \<in> set hits \<Longrightarrow> true_hit fs record_sat h"
  by (auto simp: scan_def result_bind_def sort_hits_def split: sum.splits intro: scan_all_true)

lemma lookup_total: "decode_index b = Some (Some ix) \<Longrightarrow> lookup ix \<noteq> None"
  using lookup_finds decode_result [of b] by fastforce

lemma tiers_true:
  "\<exists>r. tiers fs ix_path lookup (file_scan fs) (scan fs) record_sat = Some r
    \<and> (\<forall>hits. r = Inr hits \<longrightarrow> (\<forall>h \<in> set hits. true_hit fs record_sat h))"
proof -
  obtain loaded where loaded: "load_index fs ix_path = Some loaded"
    using decode_result by (fastforce simp: load_index_def split: sum.splits)
  show ?thesis
  proof (cases loaded)
    case None
    then show ?thesis using loaded scan_true by (auto simp: tiers_def)
  next
    case (Some ix)
    then obtain locs where locs: "lookup ix = Some locs"
      using loaded lookup_total by (fastforce simp: load_index_def split: sum.splits)
    have found: "true_hit fs record_sat (the x)" if "x \<in> hit_at fs record_sat ` set locs" "x \<noteq> None" for x
      using that true_hit_at by force
    have "\<forall>h \<in> set (sort_hits (map the (filter (\<lambda>h. h \<noteq> None) (map (hit_at fs record_sat) locs)))). true_hit fs record_sat h"
      using found by (auto simp: sort_hits_def)
    moreover have "\<forall>h \<in> set (sort_hits hits). true_hit fs record_sat h"
      if "scan_all (file_scan fs) (distinct_files locs) = Inr hits" for hits
      using scan_all_true [OF that] by (simp add: sort_hits_def)
    ultimately show ?thesis using scan_true
      by (simp add: tiers_def loaded Some locs Let_def split: sum.splits)
  qed
qed

end

lemma unreadable_scan: "rf_read fs file = Inl e \<Longrightarrow> scan_file fs file needle P = Inr hits \<Longrightarrow> hits = []"
  by (auto simp: scan_file_def split: fs_error.splits)

interpretation exact_answers: faithful_query "\<lambda>ix. lookup_exact ix q" "\<lambda>fs. file_exact fs q"
  "\<lambda>a. matches_exact a (utf8 q)" for q
  by unfold_locales (simp add: file_exact_def unreadable_scan)

interpretation key_answers: faithful_query "\<lambda>ix. lookup_key ix q" "\<lambda>fs. file_key fs q"
  "\<lambda>a. matches_under_key a (utf8 q)" for q
  by unfold_locales (simp add: file_key_def unreadable_scan)

lemma corpus_scans:
  "corpus_exact fs q = exact_query.scan q fs" "corpus_key fs q = key_query.scan q fs"
  "(\<lambda>r. is_exact (rr_anchor r) q) = (\<lambda>r. matches_exact (utf8 (rr_anchor r)) (utf8 q))"
  "(\<lambda>r. is_under_key (rr_anchor r) q) = (\<lambda>r. matches_under_key (utf8 (rr_anchor r)) (utf8 q))"
  by (simp_all add: exact_query.scan_def corpus_exact_def key_query.scan_def corpus_key_def is_exact_def is_under_key_def)

section \<open>The most specific records\<close>

lemma fold_min_least: "fold min ss (s :: 'a :: linorder) \<in> insert s (set ss) \<and> (\<forall>x \<in> insert s (set ss). fold min ss s \<le> x)"
  using Min.set_eq_fold [of s ss, symmetric] Min_in [of "set (s # ss)"] Min_le [of "set (s # ss)"] by simp

lemma keep_best_filter:
  "keep_best k hits = filter (\<lambda>h. record_kind (ht_record h) = k \<longrightarrow>
     (\<forall>g \<in> set hits. record_kind (ht_record g) = k \<longrightarrow>
        specificity (rr_anchor (ht_record h)) \<le> specificity (rr_anchor (ht_record g)))) hits"
proof -
  let ?s = "\<lambda>h. specificity (rr_anchor (ht_record h))" and ?K = "filter (\<lambda>h. record_kind (ht_record h) = k) hits"
  show ?thesis
  proof (cases "map ?s ?K")
    case Nil
    then have "\<forall>h \<in> set hits. record_kind (ht_record h) \<noteq> k" by (simp add: filter_empty_conv)
    with Nil show ?thesis by (simp add: keep_best_def)
  next
    case (Cons s ss)
    have "insert s (set ss) = ?s ` set ?K" using arg_cong [OF Cons, of set] by simp
    note least = fold_min_least [of ss s, unfolded this]
    have best: "fold min ss s \<in> ?s ` set ?K" by (rule conjunct1 [OF least])
    have low: "fold min ss s \<le> x" if "x \<in> ?s ` set ?K" for x by (rule bspec [OF conjunct2 [OF least] that])
    have kept: "?s h = fold min ss s \<longleftrightarrow> (\<forall>g \<in> set ?K. ?s h \<le> ?s g)" if h: "h \<in> set ?K" for h
    proof
      assume "?s h = fold min ss s"
      then show "\<forall>g \<in> set ?K. ?s h \<le> ?s g" using low by simp
    next
      assume all: "\<forall>g \<in> set ?K. ?s h \<le> ?s g"
      from best obtain g where "g \<in> set ?K" "fold min ss s = ?s g" by blast
      with all low [of "?s h"] h show "?s h = fold min ss s" by (intro antisym) simp_all
    qed
    have "record_kind (ht_record h) \<noteq> k \<or> ?s h = fold min ss s \<longleftrightarrow>
        (record_kind (ht_record h) = k \<longrightarrow> (\<forall>g \<in> set hits. record_kind (ht_record g) = k \<longrightarrow> ?s h \<le> ?s g))"
      if "h \<in> set hits" for h
      using kept [of h] that by (cases "record_kind (ht_record h) = k") (simp_all add: Ball_def imp_conjL)
    then show ?thesis unfolding keep_best_def Cons list.case Let_def by (rule filter_cong [OF refl])
  qed
qed

text \<open>C34. Of the records that answer a query exactly the most specific of each kind are kept, in their
  order: a record stays unless one of the same kind names the key more narrowly.\<close>

theorem most_specific_kept:
  "apply_specificity hits = filter (\<lambda>h. \<forall>g \<in> set hits. record_kind (ht_record g) = record_kind (ht_record h) \<longrightarrow>
     specificity (rr_anchor (ht_record h)) \<le> specificity (rr_anchor (ht_record g))) hits"
proof -
  let ?best = "\<lambda>k h. record_kind (ht_record h) = k \<longrightarrow> (\<forall>g \<in> set hits. record_kind (ht_record g) = k \<longrightarrow>
     specificity (rr_anchor (ht_record h)) \<le> specificity (rr_anchor (ht_record g)))"
  have vals: "h \<in> set (keep_best KeyDoc hits) \<longleftrightarrow> h \<in> set hits" if "record_kind (ht_record h) = ValueDoc" for h
    using that by (simp add: keep_best_filter)
  have "keep_best ValueDoc (keep_best KeyDoc hits) = filter (?best ValueDoc) (keep_best KeyDoc hits)"
    unfolding keep_best_filter [of ValueDoc] using vals by (intro filter_cong refl) metis
  also have "\<dots> = filter (\<lambda>h. ?best KeyDoc h \<and> ?best ValueDoc h) hits"
    unfolding keep_best_filter [of KeyDoc] filter_filter ..
  also have "\<dots> = filter (\<lambda>h. ?best (record_kind (ht_record h)) h) hits"
  proof (rule filter_cong [OF refl])
    fix h
    show "?best KeyDoc h \<and> ?best ValueDoc h \<longleftrightarrow> ?best (record_kind (ht_record h)) h"
      by (cases "record_kind (ht_record h)") simp_all
  qed
  finally show ?thesis by (simp add: apply_specificity_def)
qed

section \<open>The answers\<close>

lemma answers_kept: "result_bind r (\<lambda>hits. Inr (apply_specificity hits)) = Inr kept \<longleftrightarrow> (\<exists>hits. r = Inr hits \<and> kept = apply_specificity hits)"
  by (cases r) auto

lemma apply_specificity_subset: "set (apply_specificity hits) \<subseteq> set hits"
  by (auto simp: apply_specificity_def keep_best_filter)

text \<open>C13. Whatever bytes the index file holds, stale, corrupt or missing, a query does not panic, and every
  record in its answer is one the corpus file it names holds now and that satisfies the query.\<close>

theorem resolve_true:
  "(\<exists>r. resolve_exact fs ix_path q = Some r
      \<and> (\<forall>hits. r = Inr hits \<longrightarrow> (\<forall>h \<in> set hits. true_hit fs (\<lambda>r. is_exact (rr_anchor r) q) h)))
    \<and> (\<exists>r. resolve_key fs ix_path q = Some r
      \<and> (\<forall>hits. r = Inr hits \<longrightarrow> (\<forall>h \<in> set hits. true_hit fs (\<lambda>r. is_under_key (rr_anchor r) q) h)))"
  using exact_answers.tiers_true [of fs ix_path q] key_answers.tiers_true [of fs ix_path q]
  unfolding resolve_exact_def resolve_key_def cascade_def corpus_scans
  by (force simp: answers_kept dest: subsetD [OF apply_specificity_subset])

text \<open>C3. A query through an index that is up to date with the corpus gives exactly the answer of the
  authoritative scan of the whole corpus: the same records in the same order.\<close>

theorem resolve_fresh:
  assumes "fresh_index fs ix_path"
  shows "resolve_exact fs ix_path q = Some (result_bind (corpus_exact fs q) (\<lambda>hits. Inr (apply_specificity hits)))
    \<and> resolve_key fs ix_path q = Some (result_bind (corpus_key fs q) (\<lambda>hits. Inr (apply_specificity hits)))"
  using exact_query.tiers_fresh [OF assms, of q] key_query.tiers_fresh [OF assms, of q]
  unfolding resolve_exact_def resolve_key_def cascade_def corpus_scans by simp

section \<open>A corpus with its index\<close>

definition indexed_entries :: index_entries where
  "indexed_entries = [(lit ''x'', [(0, 0)])]"

definition indexed_fs :: reg_fs where
  "indexed_fs = \<lparr>rf_dir = Inr [Inr (ascii ''d/a.regman'')], rf_read = (\<lambda>_. Inr sample_fragment),
     rf_bytes = (\<lambda>_. Inr (serialize indexed_entries [lit ''d/a.regman'']))\<rparr>"

lemmas path_eval = extension_def file_name_def file_stem_def rsplit_once_def split_once_def ascii_def lit_def from_utf8_ascii

lemma indexed_fragments: "fragments indexed_fs = Inr [ascii ''d/a.regman'']"
  by (simp add: fragments_def indexed_fs_def path_eval)

lemma indexed_records: "records_of sample_fragment = [\<lparr>rr_fence_offset = 0, rr_anchor = lit ''x'', rr_canonical = lit ''A b'',
     rr_type = None, rr_default = None, rr_valid = None, rr_applies = None, rr_deprecated = None, rr_body = lit ''Text''\<rparr>]"
  by (simp add: records_of_def sample_fragment_parse)

lemma indexed_name: "from_utf8 (ascii ''d/a.regman'') = Some (lit ''d/a.regman'')"
  by (simp add: ascii_def lit_def from_utf8_ascii)

lemma indexed_lossy: "from_utf8_lossy (ascii ''d/a.regman'') = lit ''d/a.regman''"
  by (simp add: ascii_def lit_def from_utf8_lossy_ascii)

lemma indexed_build: "build_index indexed_fs = Inr (serialize indexed_entries [lit ''d/a.regman''])"
  by (simp add: build_index_def indexed_fragments indexed_lossy indexed_records Let_def indexed_entries_def)
    (simp add: indexed_fs_def indexed_records)

lemma indexed_length: "length (serialize indexed_entries [lit ''d/a.regman'']) < 2 ^ 32"
  by (simp add: length_serialize indexed_entries_def anchors_at_def wild_at_def
      files_at_def locs_at_def file_table_def wild_entries_def lit_def utf8_char_def has_wildcard_def)

lemma indexed_text: "valid_str sample_fragment \<and> str_len sample_fragment < 2 ^ 64"
  by (simp add: sample_fragment_def lit_def valid_str_def is_scalar_def str_len_def utf8_len_def)

lemma indexed_fresh: "fresh_index indexed_fs ix_path"
  unfolding fresh_index_def indexed_build indexed_fragments using indexed_length indexed_text
  by (simp add: indexed_fs_def indexed_name)

theorem resolve_fresh_witness:
  "resolve_exact indexed_fs [] (lit ''x'')
    = Some (result_bind (corpus_exact indexed_fs (lit ''x'')) (\<lambda>hits. Inr (apply_specificity hits)))"
  using resolve_fresh [OF indexed_fresh] by blast

theorem resolve_true_witness:
  "\<exists>r. resolve_exact indexed_fs [] (lit ''x'') = Some r
    \<and> (\<forall>hits. r = Inr hits \<longrightarrow> (\<forall>h \<in> set hits. true_hit indexed_fs (\<lambda>r. is_exact (rr_anchor r) (lit ''x'')) h))"
  using resolve_true [of indexed_fs "[]" "lit ''x''"] by blast

definition sample_hit :: "rust_str \<Rightarrow> hit" where
  "sample_hit a = \<lparr>ht_provider = lit ''p'', ht_file = [], ht_record = \<lparr>rr_fence_offset = 0, rr_anchor = a, rr_canonical = a,
     rr_type = None, rr_default = None, rr_valid = None, rr_applies = None, rr_deprecated = None, rr_body = []\<rparr>\<rparr>"

theorem most_specific_kept_witness:
  "apply_specificity [sample_hit (lit ''m'' @ [92] @ lit ''<x>''), sample_hit (lit ''m'' @ [92] @ lit ''k'')]
    = [sample_hit (lit ''m'' @ [92] @ lit ''k'')]"
  unfolding most_specific_kept
  by (simp add: sample_hit_def record_kind_def specificity_def lit_def has_wildcard_def ends_dots_def strip_suffix_def subslice_def ascii_def utf8_char_def)

end
