(* ===== verification/Uki_Pe.thy ===== *)
theory Uki_Pe
  imports RustStd
begin

text \<open>
  Unified kernel images (\<open>src/uu/mkuki/src/mkuki.rs\<close>): reading the headers of a PE/COFF stub, making
  room for more section headers, and appending the payload sections. Offsets into the image are
  naturals, the fields of the headers have their width. A slice out of range panics.
\<close>

section \<open>Errors\<close>

datatype pe_part = PeSignature | CoffHeader | OptionalHeader | SectionTable

datatype uki_error =
    NotMz
  | TruncatedPe pe_part
  | PeOffsetOverflow
  | TruncatedInteger
  | NoPeSignature
  | OptionalHeaderTooSmall
  | UnsupportedMagic u16
  | ZeroAlignment
  | NoRawSections
  | VirtualAddressOverflow
  | RawPointerOverflow
  | InvalidAlignment
  | AlignmentOverflow
  | TooManyToAdd
  | TooManySections
  | HeadersTooLarge
  | ExpansionUnderflow
  | ExpansionTooLarge
  | PayloadEmpty rust_str
  | PayloadTooLarge rust_str
  | NameTooLongForSection rust_str
  | FileTooLarge
  | HeadersOverlap

datatype uki_stop = UkiFails uki_error | UkiPanics

type_synonym 'a uki = "uki_stop + 'a"

abbreviation uki_fail :: "uki_error \<Rightarrow> 'a uki" where
  "uki_fail e \<equiv> Inl (UkiFails e)"

abbreviation uki_or :: "uki_error \<Rightarrow> 'a option \<Rightarrow> 'a uki" where
  "uki_or e \<equiv> ok_or (UkiFails e)"

section \<open>Bytes of an image\<close>

definition PE_OFFSET_PTR :: nat where "PE_OFFSET_PTR = 0x3c"
definition COFF_HEADER_SIZE :: nat where "COFF_HEADER_SIZE = 20"
definition SECTION_HEADER_SIZE :: nat where "SECTION_HEADER_SIZE = 40"

definition IMAGE_SCN_CNT_INITIALIZED_DATA :: u32 where "IMAGE_SCN_CNT_INITIALIZED_DATA = 0x00000040"
definition IMAGE_SCN_MEM_READ :: u32 where "IMAGE_SCN_MEM_READ = 0x40000000"
definition SECTION_CHARACTERISTICS :: u32 where
  "SECTION_CHARACTERISTICS = IMAGE_SCN_CNT_INITIALIZED_DATA OR IMAGE_SCN_MEM_READ"

definition require :: "bytes \<Rightarrow> nat \<Rightarrow> nat \<Rightarrow> pe_part \<Rightarrow> unit uki" where
  "require img off len what =
     (if 2 ^ 64 \<le> off + len then uki_fail PeOffsetOverflow
      else if length img < off + len then uki_fail (TruncatedPe what)
      else Inr ())"

definition read_u16 :: "bytes \<Rightarrow> nat \<Rightarrow> u16 uki" where
  "read_u16 buf off =
     (if off + 2 \<le> length buf then Inr (from_le (subslice off (off + 2) buf)) else uki_fail TruncatedInteger)"

definition read_u32 :: "bytes \<Rightarrow> nat \<Rightarrow> u32 uki" where
  "read_u32 buf off =
     (if off + 4 \<le> length buf then Inr (from_le (subslice off (off + 4) buf)) else uki_fail TruncatedInteger)"

definition write_bytes :: "bytes \<Rightarrow> nat \<Rightarrow> bytes \<Rightarrow> bytes uki" where
  "write_bytes buf off x = (case put off x buf of Some b \<Rightarrow> Inr b | None \<Rightarrow> Inl UkiPanics)"

definition write_u16 :: "bytes \<Rightarrow> nat \<Rightarrow> u16 \<Rightarrow> bytes uki" where
  "write_u16 buf off v = write_bytes buf off (to_le 2 v)"

definition write_u32 :: "bytes \<Rightarrow> nat \<Rightarrow> u32 \<Rightarrow> bytes uki" where
  "write_u32 buf off v = write_bytes buf off (to_le 4 v)"

definition align_u32 :: "u32 \<Rightarrow> u32 \<Rightarrow> u32 uki" where
  "align_u32 v align =
     result_bind (uki_or InvalidAlignment (checked_sub align 1)) (\<lambda>add.
     result_bind (uki_or AlignmentOverflow (checked_add v add)) (\<lambda>bumped.
     Inr (bumped div align * align)))"

text \<open>\<open>u32::try_from\<close> of a \<open>usize\<close>.\<close>

definition to_u32 :: "nat \<Rightarrow> u32 option" where
  "to_u32 n = (if n < 2 ^ 32 then Some (of_nat n) else None)"

section \<open>Reading the headers\<close>

record existing_section =
  es_virtual_address :: u32
  es_virtual_size :: u32
  es_raw_pointer :: u32
  es_raw_size :: u32

record pe_info =
  coff_off :: nat
  section_table_off :: nat
  section_count :: u16
  section_alignment :: u32
  file_alignment :: u32
  size_of_image_off :: nat
  size_of_headers_off :: nat
  size_of_headers :: u32
  first_raw_section_off :: nat
  next_virtual_address :: u32
  next_raw_pointer :: u32

definition read_section :: "bytes \<Rightarrow> nat \<Rightarrow> existing_section uki" where
  "read_section img off =
     result_bind (read_u32 img (off + 8)) (\<lambda>vs.
     result_bind (read_u32 img (off + 12)) (\<lambda>va.
     result_bind (read_u32 img (off + 16)) (\<lambda>rs.
     result_bind (read_u32 img (off + 20)) (\<lambda>rp.
     Inr \<lparr>es_virtual_address = va, es_virtual_size = vs, es_raw_pointer = rp, es_raw_size = rs\<rparr>))))"

fun read_section_list :: "bytes \<Rightarrow> nat list \<Rightarrow> existing_section list uki" where
  "read_section_list img [] = Inr []"
| "read_section_list img (off # offs) =
     result_bind (read_section img off) (\<lambda>s.
     result_bind (read_section_list img offs) (\<lambda>ss. Inr (s # ss)))"

definition header_offs :: "nat \<Rightarrow> nat \<Rightarrow> nat list" where
  "header_offs table count = map (\<lambda>i. table + i * SECTION_HEADER_SIZE) [0..<count]"

definition read_sections :: "bytes \<Rightarrow> nat \<Rightarrow> u16 \<Rightarrow> existing_section list uki" where
  "read_sections img table count = read_section_list img (header_offs table (unat count))"

text \<open>The ends of the sections, in memory and in the file.\<close>

fun section_ends :: "existing_section list \<Rightarrow> u32 \<Rightarrow> u32 \<Rightarrow> (u32 \<times> u32) uki" where
  "section_ends [] va raw = Inr (va, raw)"
| "section_ends (s # ss) va raw =
     result_bind (uki_or VirtualAddressOverflow (checked_add (es_virtual_address s) (es_virtual_size s))) (\<lambda>ve.
     result_bind (uki_or RawPointerOverflow (checked_add (es_raw_pointer s) (es_raw_size s))) (\<lambda>re.
     section_ends ss (max va ve) (max raw re)))"

definition min_opt :: "'a::linorder list \<Rightarrow> 'a option" where
  "min_opt xs = (if xs = [] then None else Some (fold min xs (hd xs)))"

definition parse_pe :: "bytes \<Rightarrow> pe_info uki" where
  "parse_pe img =
     (if length img < PE_OFFSET_PTR + 4 \<or> take 2 img \<noteq> ascii ''MZ'' then uki_fail NotMz
      else
        result_bind (read_u32 img PE_OFFSET_PTR) (\<lambda>p. let pe_off = unat p in
        result_bind (require img pe_off 4 PeSignature) (\<lambda>_.
        if subslice pe_off (pe_off + 4) img \<noteq> ascii ''PE'' @ [0, 0] then uki_fail NoPeSignature
        else let coff = pe_off + 4 in
        result_bind (require img coff COFF_HEADER_SIZE CoffHeader) (\<lambda>_.
        result_bind (read_u16 img (coff + 2)) (\<lambda>count.
        result_bind (read_u16 img (coff + 16)) (\<lambda>osize. let optional_size = unat osize;
            optional_off = coff + COFF_HEADER_SIZE in
        result_bind (require img optional_off optional_size OptionalHeader) (\<lambda>_.
        if optional_size < 64 then uki_fail OptionalHeaderTooSmall else
        result_bind (read_u16 img optional_off) (\<lambda>magic.
        if magic \<noteq> 0x010b \<and> magic \<noteq> 0x020b then uki_fail (UnsupportedMagic magic)
        else let table = optional_off + optional_size in
        result_bind (require img table (unat count * SECTION_HEADER_SIZE) SectionTable) (\<lambda>_.
        result_bind (read_u32 img (optional_off + 32)) (\<lambda>salign.
        result_bind (read_u32 img (optional_off + 36)) (\<lambda>falign.
        result_bind (read_u32 img (optional_off + 60)) (\<lambda>headers.
        if salign = 0 \<or> falign = 0 then uki_fail ZeroAlignment else
        result_bind (read_sections img table count) (\<lambda>sections.
        result_bind (uki_or NoRawSections
            (min_opt (filter (\<lambda>p. p \<noteq> 0) (map es_raw_pointer sections)))) (\<lambda>first_raw.
        result_bind (section_ends sections 0 0) (\<lambda>(next_va, next_raw).
        Inr \<lparr>coff_off = coff, section_table_off = table, section_count = count,
             section_alignment = salign, file_alignment = falign,
             size_of_image_off = optional_off + 56, size_of_headers_off = optional_off + 60,
             size_of_headers = headers, first_raw_section_off = unat first_raw,
             next_virtual_address = next_va, next_raw_pointer = next_raw\<rparr>)))))))))))))))"

section \<open>Room for section headers\<close>

text \<open>The loop that moves the raw pointers of the sections behind the inserted bytes.\<close>

fun move_pointers :: "nat \<Rightarrow> u32 \<Rightarrow> nat list \<Rightarrow> bytes \<Rightarrow> bytes uki" where
  "move_pointers first delta [] img = Inr img"
| "move_pointers first delta (h # hs) img =
     result_bind (read_u32 img (h + 20)) (\<lambda>rp.
     result_bind
       (if rp \<noteq> 0 \<and> first \<le> unat rp then
          result_bind (uki_or RawPointerOverflow (checked_add rp delta)) (\<lambda>moved. write_u32 img (h + 20) moved)
        else Inr img)
       (move_pointers first delta hs))"

text \<open>\<open>splice\<close> of an empty range: insertion; past the end it panics.\<close>

definition insert_zeroes :: "bytes \<Rightarrow> nat \<Rightarrow> nat \<Rightarrow> bytes uki" where
  "insert_zeroes img at n =
     (if at \<le> length img then Inr (take at img @ replicate n 0 @ drop at img) else Inl UkiPanics)"

definition ensure_section_header_room :: "bytes \<Rightarrow> pe_info \<Rightarrow> u16 \<Rightarrow> (bytes \<times> pe_info) uki" where
  "ensure_section_header_room img info new_count =
     (let required_end = section_table_off info + unat new_count * SECTION_HEADER_SIZE;
          first = first_raw_section_off info in
      if required_end \<le> first then Inr (img, info)
      else
        result_bind (uki_or HeadersTooLarge (to_u32 required_end)) (\<lambda>re.
        result_bind (align_u32 re (file_alignment info)) (\<lambda>aligned.
        if unat aligned < first then uki_fail ExpansionUnderflow
        else let delta = unat aligned - first in
        result_bind (insert_zeroes img first delta) (\<lambda>img.
        result_bind (uki_or ExpansionTooLarge (to_u32 delta)) (\<lambda>delta.
        result_bind (move_pointers first delta (header_offs (section_table_off info) (unat (section_count info))) img) (\<lambda>img.
        result_bind (uki_or RawPointerOverflow (checked_add (next_raw_pointer info) delta)) (\<lambda>next_raw.
        Inr (img, info\<lparr>first_raw_section_off := unat aligned, next_raw_pointer := next_raw\<rparr>))))))))"

section \<open>Appending sections\<close>

record payload_section =
  ps_name :: rust_str
  ps_data :: bytes

text \<open>\<open>Vec::resize\<close> with zero bytes.\<close>

definition resize_to :: "nat \<Rightarrow> bytes \<Rightarrow> bytes" where
  "resize_to n b = take n b @ replicate (n - length b) 0"

definition write_section_header :: "rust_str \<Rightarrow> u32 \<Rightarrow> u32 \<Rightarrow> u32 \<Rightarrow> u32 \<Rightarrow> bytes \<Rightarrow> bytes uki" where
  "write_section_header name virtual_size virtual_address raw_size raw_pointer dst =
     (let dst = replicate (length dst) 0 in
      if 8 < str_len name then uki_fail (NameTooLongForSection name)
      else
        result_bind (write_bytes dst 0 (utf8 name)) (\<lambda>dst.
        result_bind (write_u32 dst 8 virtual_size) (\<lambda>dst.
        result_bind (write_u32 dst 12 virtual_address) (\<lambda>dst.
        result_bind (write_u32 dst 16 raw_size) (\<lambda>dst.
        result_bind (write_u32 dst 20 raw_pointer) (\<lambda>dst.
        write_u32 dst 36 SECTION_CHARACTERISTICS))))))"

text \<open>One round of the loop: the image, and where the next section goes in memory and in the file.\<close>

definition append_section :: "pe_info \<Rightarrow> nat \<Rightarrow> payload_section \<Rightarrow> bytes \<times> u32 \<times> u32 \<Rightarrow> (bytes \<times> u32 \<times> u32) uki" where
  "append_section info i s = (\<lambda>(img, next_va, next_raw).
     if ps_data s = [] then uki_fail (PayloadEmpty (ps_name s))
     else
       result_bind (uki_or (PayloadTooLarge (ps_name s)) (to_u32 (length (ps_data s)))) (\<lambda>virtual_size.
       result_bind (align_u32 next_va (section_alignment info)) (\<lambda>next_va.
       result_bind (align_u32 next_raw (file_alignment info)) (\<lambda>next_raw.
       result_bind (align_u32 virtual_size (file_alignment info)) (\<lambda>raw_size.
       let raw_start = unat next_raw; raw_end = raw_start + unat raw_size;
           img = (if length img < raw_start then resize_to raw_start img else img);
           img = resize_to raw_end (img @ ps_data s);
           off = section_table_off info + (unat (section_count info) + i) * SECTION_HEADER_SIZE in
       if length img < off + SECTION_HEADER_SIZE then Inl UkiPanics
       else
         result_bind (write_section_header (ps_name s) virtual_size next_va raw_size next_raw
             (subslice off (off + SECTION_HEADER_SIZE) img)) (\<lambda>header.
         result_bind (write_bytes img off header) (\<lambda>img.
         result_bind (uki_or VirtualAddressOverflow (checked_add next_va virtual_size)) (\<lambda>next_va.
         result_bind (uki_or FileTooLarge (checked_add next_raw raw_size)) (\<lambda>next_raw.
         Inr (img, next_va, next_raw))))))))))"

fun append_sections :: "pe_info \<Rightarrow> nat \<Rightarrow> payload_section list \<Rightarrow> bytes \<times> u32 \<times> u32 \<Rightarrow> (bytes \<times> u32 \<times> u32) uki" where
  "append_sections info i [] st = Inr st"
| "append_sections info i (s # ss) st =
     result_bind (append_section info i s st) (append_sections info (i + 1) ss)"

definition build_uki :: "bytes \<Rightarrow> payload_section list \<Rightarrow> bytes uki" where
  "build_uki img sections =
     result_bind (parse_pe img) (\<lambda>info.
     result_bind (if length sections < 2 ^ 16 then Inr (of_nat (length sections)) else uki_fail TooManyToAdd) (\<lambda>added.
     result_bind (uki_or TooManySections (checked_add (section_count info) added)) (\<lambda>new_count.
     result_bind (ensure_section_header_room img info new_count) (\<lambda>(img, info).
     let img = (if length img < unat (next_raw_pointer info) then resize_to (unat (next_raw_pointer info)) img else img) in
     result_bind (append_sections info 0 sections (img, next_virtual_address info, next_raw_pointer info)) (\<lambda>(img, next_va, next_raw).
     result_bind (write_u16 img (coff_off info + 2) new_count) (\<lambda>img.
     result_bind (uki_or HeadersTooLarge
         (to_u32 (section_table_off info + unat new_count * SECTION_HEADER_SIZE))) (\<lambda>required_end.
     result_bind (align_u32 required_end (file_alignment info)) (\<lambda>required_headers.
     if first_raw_section_off info < unat required_headers then uki_fail HeadersOverlap
     else
       result_bind (write_u32 img (size_of_headers_off info) (max (size_of_headers info) required_headers)) (\<lambda>img.
       result_bind (align_u32 next_va (section_alignment info)) (\<lambda>size_of_image.
       write_u32 img (size_of_image_off info) size_of_image))))))))))"

section \<open>Reading what was written\<close>

lemma put_outside:
  assumes "put off x s = Some t" "b \<le> off \<or> off + length x \<le> a"
  shows "subslice a b t = subslice a b s"
proof -
  have t: "t = take off s @ x @ drop (off + length x) s" and l: "off + length x \<le> length s"
    using assms(1) by (auto simp: put_def split: if_splits)
  from assms(2) show ?thesis
  proof
    assume "b \<le> off"
    then have "subslice a b t = subslice a b (take off s)" using l by (simp add: t subslice_append_left)
    also have "\<dots> = subslice a b s" using \<open>b \<le> off\<close> by (simp add: subslice_def drop_take min_def)
    finally show ?thesis .
  next
    assume "off + length x \<le> a"
    then show ?thesis using l by (simp add: t subslice_append_right) (simp add: subslice_def)
  qed
qed

lemma put_inside:
  assumes "put off x s = Some t" "b = off + length x"
  shows "subslice off b t = x"
  using assms by (auto simp: put_def subslice_def split: if_splits)

lemma write_bytes_Inr: "write_bytes s off x = Inr t \<longleftrightarrow> put off x s = Some t"
  by (auto simp: write_bytes_def split: option.splits)

lemma write_bytes_ok: "off + length x \<le> length s \<Longrightarrow> \<exists>t. write_bytes s off x = Inr t"
  by (simp add: write_bytes_def put_def)

lemma read_u32_Inr: "read_u32 s off = Inr v \<longleftrightarrow> off + 4 \<le> length s \<and> v = from_le (subslice off (off + 4) s)"
  by (auto simp: read_u32_def)

lemma read_u16_Inr: "read_u16 s off = Inr v \<longleftrightarrow> off + 2 \<le> length s \<and> v = from_le (subslice off (off + 2) s)"
  by (auto simp: read_u16_def)

lemma read_u32_written: "write_u32 s off v = Inr t \<Longrightarrow> read_u32 t off = Inr v"
  unfolding write_u32_def write_bytes_Inr read_u32_Inr
proof -
  assume p: "put off (to_le 4 v) s = Some t"
  have "subslice off (off + 4) t = to_le 4 v" using put_inside [OF p, of "off + 4"] by simp
  moreover have "off + 4 \<le> length t" using p put_length [OF p] by (auto simp: put_def split: if_splits)
  ultimately show "off + 4 \<le> length t \<and> v = from_le (subslice off (off + 4) t)" by (simp add: from_le_to_le_id)
qed

lemma read_u16_written: "write_u16 s off v = Inr t \<Longrightarrow> read_u16 t off = Inr v"
  unfolding write_u16_def write_bytes_Inr read_u16_Inr
proof -
  assume p: "put off (to_le 2 v) s = Some t"
  have "subslice off (off + 2) t = to_le 2 v" using put_inside [OF p, of "off + 2"] by simp
  moreover have "off + 2 \<le> length t" using p put_length [OF p] by (auto simp: put_def split: if_splits)
  ultimately show "off + 2 \<le> length t \<and> v = from_le (subslice off (off + 2) t)" by (simp add: from_le_to_le_id)
qed

text \<open>Two images that agree on a range.\<close>

definition agree :: "nat \<Rightarrow> nat \<Rightarrow> bytes \<Rightarrow> bytes \<Rightarrow> bool" where
  "agree a b s t \<longleftrightarrow> b \<le> length s \<and> b \<le> length t \<and> (\<forall>i. a \<le> i \<longrightarrow> i < b \<longrightarrow> s ! i = t ! i)"

lemma agree_refl: "b \<le> length s \<Longrightarrow> agree a b s s"
  by (simp add: agree_def)

lemma agree_trans: "agree a b s t \<Longrightarrow> agree a b t u \<Longrightarrow> agree a b s u"
  by (simp add: agree_def)

lemma agree_mono: "agree a b s t \<Longrightarrow> a \<le> c \<Longrightarrow> d \<le> b \<Longrightarrow> agree c d s t"
  by (auto simp: agree_def)

lemma agree_subslice: "agree a b s t \<Longrightarrow> a \<le> c \<Longrightarrow> d \<le> b \<Longrightarrow> subslice c d s = subslice c d t"
  by (auto simp: agree_def subslice_def intro!: nth_equalityI)

lemma agree_u32: "agree a b s t \<Longrightarrow> a \<le> off \<Longrightarrow> off + 4 \<le> b \<Longrightarrow> read_u32 t off = read_u32 s off"
  using agree_subslice [of a b s t off "off + 4"] by (auto simp: read_u32_def agree_def)

lemma agree_u16: "agree a b s t \<Longrightarrow> a \<le> off \<Longrightarrow> off + 2 \<le> b \<Longrightarrow> read_u16 t off = read_u16 s off"
  using agree_subslice [of a b s t off "off + 2"] by (auto simp: read_u16_def agree_def)

lemma agree_section: "agree a b s t \<Longrightarrow> a \<le> off + 8 \<Longrightarrow> off + 24 \<le> b \<Longrightarrow> read_section t off = read_section s off"
  by (simp add: read_section_def agree_u32)

lemma put_agree:
  assumes "put off x s = Some t" "b \<le> off \<or> off + length x \<le> a" "b \<le> length s"
  shows "agree a b s t"
proof -
  have t: "t = take off s @ x @ drop (off + length x) s" and l: "off + length x \<le> length s"
    using assms(1) by (auto simp: put_def split: if_splits)
  have "t ! i = s ! i" if "i < length s" "i < off \<or> off + length x \<le> i" for i
    using that l by (auto simp: t nth_append min_def)
  then show ?thesis using assms(2,3) l by (auto simp: agree_def put_length [OF assms(1)])
qed

lemma write_u32_agree: "write_u32 s off v = Inr t \<Longrightarrow> b \<le> off \<or> off + 4 \<le> a \<Longrightarrow> b \<le> length s \<Longrightarrow> agree a b s t"
  unfolding write_u32_def write_bytes_Inr by (erule put_agree) simp_all

lemma write_u16_agree: "write_u16 s off v = Inr t \<Longrightarrow> b \<le> off \<or> off + 2 \<le> a \<Longrightarrow> b \<le> length s \<Longrightarrow> agree a b s t"
  unfolding write_u16_def write_bytes_Inr by (erule put_agree) simp_all

lemma write_length: "write_u32 s off v = Inr t \<Longrightarrow> length t = length s" "write_u16 s off w = Inr t \<Longrightarrow> length t = length s"
  "write_bytes s off x = Inr t \<Longrightarrow> length t = length s"
  by (auto simp: write_u32_def write_u16_def write_bytes_Inr dest: put_length)

section \<open>Alignment\<close>

lemma align_u32_Inr:
  assumes "align_u32 v n = Inr w"
  shows "unat v \<le> unat w \<and> unat w < unat v + unat n \<and> unat n dvd unat w \<and> 0 < unat n"
proof -
  have n: "1 \<le> n" and le: "unat v + unat (n - 1) < 2 ^ 32" and w: "w = (v + (n - 1)) div n * n"
    using assms by (auto simp: align_u32_def checked_sub_def checked_add_def split: if_splits)
  have u1: "unat (n - 1) = unat n - 1" using n by (simp add: unat_sub word_le_nat_alt)
  have pos: "0 < unat n" using n by (simp add: word_le_nat_alt)
  have u2: "unat (v + (n - 1)) = unat v + (unat n - 1)" using le u1 by (simp add: unat_word_ariths)
  have "(unat v + (unat n - 1)) div unat n * unat n \<le> unat v + (unat n - 1)" by simp
  also have "\<dots> < 2 ^ 32" using u2 unsigned_less [of "v + (n - 1)", where ?'a = nat] by simp
  finally have small: "(unat v + (unat n - 1)) div unat n * unat n < 2 ^ 32" .
  have q: "unat ((v + (n - 1)) div n) = (unat v + (unat n - 1)) div unat n" by (simp only: unat_div u2)
  have "unat w = (unat v + (unat n - 1)) div unat n * unat n"
    using q small by (subst w, subst unat_mult_lem [THEN iffD1]) simp_all
  then have d: "unat n dvd unat w" by simp
  have m: "(unat v + (unat n - 1)) mod unat n \<le> unat n - 1" using pos by (metis Suc_diff_1 less_Suc_eq_le mod_less_divisor)
  have "unat w + (unat v + (unat n - 1)) mod unat n = unat v + (unat n - 1)"
    using \<open>unat w = _\<close> by (simp only: div_mult_mod_eq)
  with m pos have "unat v \<le> unat w \<and> unat w < unat v + unat n" by linarith
  with d pos show ?thesis by simp
qed

lemma checked_add_Some: "checked_add v w = Some (u :: 'a::len word) \<Longrightarrow> unat u = unat v + unat w \<and> u = v + w"
  by (auto simp: checked_add_def unat_word_ariths split: if_splits)

lemma to_u32_Some: "to_u32 n = Some v \<Longrightarrow> unat v = n"
  by (auto simp: to_u32_def unat_of_nat split: if_splits)

lemma uki_or_Inr: "uki_or e x = Inr y \<longleftrightarrow> x = Some y"
  by (cases x) simp_all

lemma bind_Inr: "result_bind r f = Inr y \<longleftrightarrow> (\<exists>x. r = Inr x \<and> f x = Inr y)"
  by (cases r) simp_all

end
