(* ===== verification/Uki_Build.thy ===== *)
theory Uki_Build
  imports Uki_Pe
begin

text \<open>
  What \<open>build_uki\<close> makes of a stub: the headers it leaves readable, the sections it keeps and the ones it adds.
\<close>

section \<open>The headers of an image\<close>

text \<open>What the header fields of an image are when \<open>parse_pe\<close> accepts it.\<close>

definition pe_at :: "bytes \<Rightarrow> pe_info \<Rightarrow> bool" where
  "pe_at img info \<longleftrightarrow>
     64 \<le> length img \<and> take 2 img = ascii ''MZ''
     \<and> (\<exists>p. read_u32 img 60 = Inr p \<and> coff_off info = unat p + 4
          \<and> subslice (unat p) (unat p + 4) img = ascii ''PE'' @ [0, 0])
     \<and> read_u16 img (coff_off info + 2) = Inr (section_count info)
     \<and> (\<exists>n. read_u16 img (coff_off info + 16) = Inr n \<and> 64 \<le> unat n
          \<and> section_table_off info = coff_off info + 20 + unat n)
     \<and> (\<exists>magic. read_u16 img (coff_off info + 20) = Inr magic \<and> (magic = 0x010b \<or> magic = 0x020b))
     \<and> section_table_off info + unat (section_count info) * 40 \<le> length img
     \<and> read_u32 img (coff_off info + 52) = Inr (section_alignment info) \<and> section_alignment info \<noteq> 0
     \<and> read_u32 img (coff_off info + 56) = Inr (file_alignment info) \<and> file_alignment info \<noteq> 0
     \<and> read_u32 img (coff_off info + 80) = Inr (size_of_headers info)
     \<and> size_of_image_off info = coff_off info + 76 \<and> size_of_headers_off info = coff_off info + 80"

definition sections_at :: "bytes \<Rightarrow> pe_info \<Rightarrow> existing_section list \<Rightarrow> bool" where
  "sections_at img info ss \<longleftrightarrow>
     read_sections img (section_table_off info) (section_count info) = Inr ss
     \<and> map_option unat (min_opt (filter (\<lambda>p. p \<noteq> 0) (map es_raw_pointer ss))) = Some (first_raw_section_off info)
     \<and> section_ends ss 0 0 = Inr (next_virtual_address info, next_raw_pointer info)"

lemma require_Inr: "require img off len what = Inr u \<longleftrightarrow> off + len < 2 ^ 64 \<and> off + len \<le> length img"
  by (auto simp: require_def)

lemmas pe_sizes = PE_OFFSET_PTR_def COFF_HEADER_SIZE_def SECTION_HEADER_SIZE_def

lemma parse_pe_accepts:
  assumes "parse_pe img = Inr info"
  shows "pe_at img info \<and> (\<exists>ss. sections_at img info ss)"
  using assms unfolding parse_pe_def
  by (auto simp: bind_Inr uki_or_Inr require_Inr pe_at_def sections_at_def pe_sizes Let_def split: if_splits)

lemma u32_bound: "unat (p :: u32) < 4294967296"
  using unsigned_less [of p, where ?'a = nat] by simp

lemma u16_bound: "unat (n :: u16) < 65536"
  using unsigned_less [of n, where ?'a = nat] by simp

lemma parse_pe_complete:
  assumes "pe_at img info" "sections_at img info ss"
  shows "parse_pe img = Inr info"
proof -
  obtain p n magic where p: "read_u32 img 60 = Inr p" "coff_off info = unat p + 4" "subslice (unat p) (unat p + 4) img = ascii ''PE'' @ [0, 0]"
    and n: "read_u16 img (coff_off info + 16) = Inr n" "64 \<le> unat n" "section_table_off info = coff_off info + 20 + unat n"
    and magic: "read_u16 img (coff_off info + 20) = Inr magic" "magic = 0x010b \<or> magic = 0x020b"
    using assms(1) by (auto simp: pe_at_def)
  obtain fr where fr: "min_opt (filter (\<lambda>p. p \<noteq> 0) (map es_raw_pointer ss)) = Some fr" "unat fr = first_raw_section_off info"
    using assms(2) by (auto simp: sections_at_def)
  note b = u32_bound [of p] u16_bound [of n] u16_bound [of "section_count info"]
  have len: "section_table_off info + unat (section_count info) * 40 \<le> length img" using assms(1) by (simp add: pe_at_def)
  have req: "require img (unat p) 4 w = Inr ()" "require img (unat p + 4) 20 w = Inr ()"
    "require img (24 + unat p) (unat n) w = Inr ()" "require img (24 + unat p + unat n) (unat (section_count info) * 40) w = Inr ()" for w
    using b len n(3) p(2) by (simp_all add: require_Inr)
  show ?thesis using assms p n magic req fr
    by (cases info) (simp add: parse_pe_def pe_at_def sections_at_def Let_def pe_sizes)
qed

section \<open>Moving the sections behind the inserted bytes\<close>

lemma read_section_Inr: "read_section img off = Inr s \<longleftrightarrow>
    read_u32 img (off + 8) = Inr (es_virtual_size s) \<and> read_u32 img (off + 12) = Inr (es_virtual_address s)
    \<and> read_u32 img (off + 16) = Inr (es_raw_size s) \<and> read_u32 img (off + 20) = Inr (es_raw_pointer s)"
  by (cases s) (auto simp: read_section_def bind_Inr)

definition moved :: "nat \<Rightarrow> u32 \<Rightarrow> existing_section \<Rightarrow> existing_section" where
  "moved first delta s = (if es_raw_pointer s \<noteq> 0 \<and> first \<le> unat (es_raw_pointer s)
     then s\<lparr>es_raw_pointer := es_raw_pointer s + delta\<rparr> else s)"

lemma move_pointer_step:
  assumes "move_pointers first delta (h # hs) img = Inr out" "read_section img h = Inr s"
  shows "\<exists>mid. move_pointers first delta hs mid = Inr out \<and> length mid = length img
    \<and> read_section mid h = Inr (moved first delta s)
    \<and> unat (es_raw_pointer (moved first delta s)) \<le> unat (es_raw_pointer s) + unat delta
    \<and> (es_raw_pointer s \<noteq> 0 \<longrightarrow> first \<le> unat (es_raw_pointer s) \<longrightarrow>
        unat (es_raw_pointer (moved first delta s)) = unat (es_raw_pointer s) + unat delta)
    \<and> (\<forall>a b. b \<le> h + 20 \<or> h + 24 \<le> a \<longrightarrow> b \<le> length img \<longrightarrow> agree a b img mid)"
proof -
  let ?rp = "es_raw_pointer s"
  have rp: "read_u32 img (h + 20) = Inr ?rp" using assms(2) by (simp add: read_section_Inr)
  show ?thesis
  proof (cases "?rp \<noteq> 0 \<and> first \<le> unat ?rp")
    case True
    then obtain m mid where m: "checked_add ?rp delta = Some m" "write_u32 img (h + 20) m = Inr mid"
      and r: "move_pointers first delta hs mid = Inr out"
      using assms(1) rp by (auto simp: bind_Inr uki_or_Inr)
    note ag = write_u32_agree [OF m(2)]
    have l: "h + 24 \<le> length img" using rp by (simp add: read_u32_Inr)
    have "read_section mid h = Inr (s\<lparr>es_raw_pointer := m\<rparr>)"
      using assms(2) read_u32_written [OF m(2)] agree_u32 [OF ag, of "h + 20" h] l
      by (simp add: read_section_Inr)
    with True m(1) r ag show ?thesis
      by (intro exI [of _ mid]) (auto simp: moved_def write_length(1) [OF m(2)] dest: checked_add_Some)
  next
    case False
    then show ?thesis using assms rp
      by (intro exI [of _ img]) (auto simp: bind_Inr moved_def agree_refl)
  qed
qed

lemma move_pointers_sections:
  assumes "move_pointers first delta hs img = Inr out" "sorted_wrt (\<lambda>a b. a + 40 \<le> b) hs"
    and "read_section_list img hs = Inr ss"
  shows "read_section_list out hs = Inr (map (moved first delta) ss) \<and> length out = length img
    \<and> (\<forall>a b. (\<forall>h \<in> set hs. b \<le> h + 20 \<or> h + 24 \<le> a) \<longrightarrow> b \<le> length img \<longrightarrow> agree a b img out)
    \<and> (\<forall>s \<in> set ss. es_raw_pointer s \<noteq> 0 \<longrightarrow> first \<le> unat (es_raw_pointer s) \<longrightarrow>
        unat (es_raw_pointer (moved first delta s)) = unat (es_raw_pointer s) + unat delta)"
  using assms
proof (induction hs arbitrary: img ss)
  case Nil
  then show ?case by (simp add: agree_refl)
next
  case (Cons h hs)
  obtain s rest where s: "read_section img h = Inr s" "read_section_list img hs = Inr rest" "ss = s # rest"
    using Cons.prems(3) by (auto simp: bind_Inr)
  obtain mid where mid: "move_pointers first delta hs mid = Inr out" "length mid = length img"
      "read_section mid h = Inr (moved first delta s)"
      "es_raw_pointer s \<noteq> 0 \<longrightarrow> first \<le> unat (es_raw_pointer s) \<longrightarrow>
        unat (es_raw_pointer (moved first delta s)) = unat (es_raw_pointer s) + unat delta"
      "\<forall>a b. b \<le> h + 20 \<or> h + 24 \<le> a \<longrightarrow> b \<le> length img \<longrightarrow> agree a b img mid"
    using move_pointer_step [OF Cons.prems(1) s(1)] by blast
  have far: "h + 40 \<le> k" if "k \<in> set hs" for k using Cons.prems(2) that by simp
  have rest: "read_section_list mid ks = read_section_list img ks" if "\<forall>k \<in> set ks. h + 40 \<le> k \<and> k + 24 \<le> length img" for ks
    using that
  proof (induction ks)
    case (Cons k ks)
    then have "agree k (k + 24) img mid" using mid(5) by auto
    then show ?case using Cons agree_section [of k "k + 24" img mid k] by simp
  qed simp
  have inside: "\<forall>k \<in> set ks. k + 24 \<le> length img" if "read_section_list img ks = Inr zs" for ks zs
    using that by (induction ks arbitrary: zs) (auto simp: bind_Inr read_section_Inr read_u32_Inr)
  have "read_section_list mid hs = Inr rest" using rest inside [OF s(2)] far s(2) by simp
  from Cons.IH [OF mid(1) _ this] Cons.prems(2)
  have ih: "read_section_list out hs = Inr (map (moved first delta) rest)" "length out = length mid"
    "\<forall>a b. (\<forall>k \<in> set hs. b \<le> k + 20 \<or> k + 24 \<le> a) \<longrightarrow> b \<le> length mid \<longrightarrow> agree a b mid out"
    "\<forall>s \<in> set rest. es_raw_pointer s \<noteq> 0 \<longrightarrow> first \<le> unat (es_raw_pointer s) \<longrightarrow>
        unat (es_raw_pointer (moved first delta s)) = unat (es_raw_pointer s) + unat delta"
    by auto
  have "h + 24 \<le> length img" using s(1) by (auto simp: read_section_Inr read_u32_Inr)
  moreover have "\<forall>k \<in> set hs. h + 24 \<le> k + 20 \<or> k + 24 \<le> h" using far by fastforce
  ultimately have "agree h (h + 24) mid out" using ih(3) mid(2) by simp
  then have "read_section out h = Inr (moved first delta s)" using agree_section [of h "h + 24" mid out h] mid(3) by simp
  moreover have "agree a b img out" if "\<forall>k \<in> set (h # hs). b \<le> k + 20 \<or> k + 24 \<le> a" "b \<le> length img" for a b
    using agree_trans mid(2,5) ih(3) that by (metis list.set_intros)
  ultimately show ?case using ih mid(2,4) s(3) by auto
qed

lemma header_offs_sorted: "sorted_wrt (\<lambda>a b. a + 40 \<le> b) (header_offs table n)"
  by (auto simp: header_offs_def sorted_wrt_map SECTION_HEADER_SIZE_def intro: sorted_wrt_mono_rel [OF _ sorted_wrt_upt])

section \<open>A stub that sections can be added to\<close>

text \<open>
  Its headers come before the data of its sections, the data lie in the file, and the file ends with
  them. The PE header does not overlap the DOS header.
\<close>

definition stub_layout :: "bytes \<Rightarrow> pe_info \<Rightarrow> existing_section list \<Rightarrow> bool" where
  "stub_layout img info ss \<longleftrightarrow>
     pe_at img info \<and> sections_at img info ss \<and> 68 \<le> coff_off info
     \<and> section_table_off info + unat (section_count info) * 40 \<le> first_raw_section_off info
     \<and> (\<forall>s \<in> set ss. unat (es_raw_pointer s) + unat (es_raw_size s) \<le> length img)
     \<and> length img \<le> unat (next_raw_pointer info)"

lemma fold_min: "fold min xs (a :: 'a::linorder) \<in> insert a (set xs) \<and> (\<forall>x \<in> insert a (set xs). fold min xs a \<le> x)"
proof (induction xs arbitrary: a)
  case (Cons x xs)
  from Cons [of "min x a"] show ?case by (auto simp: min_def split: if_splits)
qed simp

lemma min_opt_Some: "min_opt xs = Some m \<Longrightarrow> m \<in> set xs \<and> (\<forall>x \<in> set xs. m \<le> x)"
  using fold_min [of xs "hd xs"] by (cases xs) (auto simp: min_opt_def)

lemma first_raw_least:
  assumes "sections_at img info ss" "s \<in> set ss" "es_raw_pointer s \<noteq> 0"
  shows "first_raw_section_off info \<le> unat (es_raw_pointer s)"
proof -
  obtain fr where fr: "min_opt (filter (\<lambda>p. p \<noteq> 0) (map es_raw_pointer ss)) = Some fr" "unat fr = first_raw_section_off info"
    using assms(1) by (auto simp: sections_at_def)
  with min_opt_Some [OF fr(1)] assms(2,3) have "fr \<le> es_raw_pointer s" by auto
  with fr(2) show ?thesis by (simp add: word_le_nat_alt)
qed

lemma first_raw_mem:
  assumes "sections_at img info ss"
  shows "\<exists>s \<in> set ss. es_raw_pointer s \<noteq> 0 \<and> unat (es_raw_pointer s) = first_raw_section_off info"
proof -
  obtain fr where fr: "min_opt (filter (\<lambda>p. p \<noteq> 0) (map es_raw_pointer ss)) = Some fr" "unat fr = first_raw_section_off info"
    using assms(1) by (auto simp: sections_at_def)
  with min_opt_Some [OF fr(1)] show ?thesis by auto
qed

lemma insert_zeroes_shift:
  assumes "insert_zeroes img at n = Inr out"
  shows "at \<le> length img \<and> length out = length img + n \<and> agree 0 at img out
    \<and> (\<forall>a b. at \<le> a \<longrightarrow> subslice (a + n) (b + n) out = subslice a b img)"
proof -
  have l: "at \<le> length img" and out: "out = take at img @ replicate n 0 @ drop at img"
    using assms by (auto simp: insert_zeroes_def split: if_splits)
  have "subslice (a + n) (b + n) out = subslice a b img" if "at \<le> a" for a b
    using l that by (simp add: out subslice_def)
  with l show ?thesis by (auto simp: out agree_def nth_append)
qed

definition room_made :: "bytes \<Rightarrow> pe_info \<Rightarrow> existing_section list \<Rightarrow> u32 \<Rightarrow> bytes \<Rightarrow> pe_info \<Rightarrow> bool" where
  "room_made img info ss delta out info' \<longleftrightarrow>
     length out = length img + unat delta
     \<and> info' = info\<lparr>first_raw_section_off := first_raw_section_off info + unat delta, next_raw_pointer := next_raw_pointer info + delta\<rparr>
     \<and> unat (next_raw_pointer info + delta) = unat (next_raw_pointer info) + unat delta
     \<and> read_sections out (section_table_off info) (section_count info) = Inr (map (moved (first_raw_section_off info) delta) ss)
     \<and> (\<forall>a b. (\<forall>h \<in> set (header_offs (section_table_off info) (unat (section_count info))). b \<le> h + 20 \<or> h + 24 \<le> a)
          \<longrightarrow> b \<le> first_raw_section_off info \<longrightarrow> agree a b img out)
     \<and> (\<forall>s \<in> set ss. es_raw_pointer s \<noteq> 0 \<longrightarrow>
          unat (es_raw_pointer (moved (first_raw_section_off info) delta s)) = unat (es_raw_pointer s) + unat delta)
     \<and> (\<forall>a b. first_raw_section_off info \<le> a \<longrightarrow> b \<le> length img \<longrightarrow> subslice (a + unat delta) (b + unat delta) out = subslice a b img)"

lemma moved_zero: "moved first 0 = (\<lambda>s. s)"
  by (rule ext) (simp add: moved_def)

lemma header_offs_bound: "h \<in> set (header_offs table n) \<Longrightarrow> table \<le> h \<and> h + 40 \<le> table + n * 40"
proof -
  assume "h \<in> set (header_offs table n)"
  then obtain i where i: "i < n" "h = table + i * 40" by (auto simp: header_offs_def SECTION_HEADER_SIZE_def)
  then have "(i + 1) * 40 \<le> n * 40" by (intro mult_le_mono1) simp
  with i show ?thesis by simp
qed

lemma section_header_room:
  assumes "stub_layout img info ss" "ensure_section_header_room img info new_count = Inr (out, info')"
  shows "\<exists>delta. room_made img info ss delta out info'
    \<and> section_table_off info + unat new_count * 40 \<le> first_raw_section_off info'"
proof -
  let ?first = "first_raw_section_off info" and ?table = "section_table_off info" and ?n = "unat (section_count info)"
  note l = assms(1) [unfolded stub_layout_def]
  obtain f where "f \<in> set ss" "es_raw_pointer f \<noteq> 0" "unat (es_raw_pointer f) = ?first"
    using first_raw_mem l by blast
  with l have fl: "?first \<le> length img" by (metis add_leD1)
  show ?thesis
  proof (cases "?table + unat new_count * 40 \<le> ?first")
    case True
    then have out: "out = img" "info' = info" using assms(2) by (auto simp: ensure_section_header_room_def SECTION_HEADER_SIZE_def)
    have "room_made img info ss 0 img info"
      using l fl by (auto simp: room_made_def moved_zero sections_at_def agree_def)
    with True out show ?thesis by blast
  next
    case False
    then obtain re aligned mid delta next_raw where
        re: "to_u32 (?table + unat new_count * 40) = Some re" "align_u32 re (file_alignment info) = Inr aligned"
      and ge: "?first \<le> unat aligned" and mid: "insert_zeroes img ?first (unat aligned - ?first) = Inr mid"
      and delta: "to_u32 (unat aligned - ?first) = Some delta"
      and mv: "move_pointers ?first delta (header_offs ?table ?n) mid = Inr out"
      and nr: "checked_add (next_raw_pointer info) delta = Some next_raw"
      and info': "info' = info\<lparr>first_raw_section_off := unat aligned, next_raw_pointer := next_raw\<rparr>"
      using assms(2) by (auto simp: ensure_section_header_room_def SECTION_HEADER_SIZE_def bind_Inr uki_or_Inr Let_def split: if_splits)
    have ud: "unat delta = unat aligned - ?first" using to_u32_Some [OF delta] .
    have "?table + unat new_count * 40 \<le> unat aligned"
      using align_u32_Inr [OF re(2)] to_u32_Some [OF re(1)] by simp
    note ins = insert_zeroes_shift [OF mid, folded ud]
    have low: "agree 0 (?table + ?n * 40) img mid" using ins l by (auto intro: agree_mono)
    have secs: "read_section_list img (header_offs ?table ?n) = Inr ss" using l by (simp add: sections_at_def read_sections_def)
    have "read_section_list mid hs = read_section_list img hs" if "set hs \<subseteq> set (header_offs ?table ?n)" for hs
      using that
    proof (induction hs)
      case (Cons h hs)
      then have "read_section mid h = read_section img h" using header_offs_bound [of h ?table ?n] by (intro agree_section [OF low]) auto
      then show ?case using Cons by simp
    qed simp
    with secs have "read_section_list mid (header_offs ?table ?n) = Inr ss" by simp
    note m = move_pointers_sections [OF mv header_offs_sorted this]
    have hi: "agree a b mid out" if "?first \<le> a" "b \<le> length mid" for a b
    proof -
      have "\<forall>h \<in> set (header_offs ?table ?n). b \<le> h + 20 \<or> h + 24 \<le> a"
        using header_offs_bound [of _ ?table ?n] l that(1) by fastforce
      with m that(2) show ?thesis by blast
    qed
    have cut: "subslice (a + unat delta) (b + unat delta) out = subslice a b img" if "?first \<le> a" "b \<le> length img" for a b
    proof -
      have "agree a (b + unat delta) mid out" using that ins by (intro hi) simp_all
      from agree_subslice [OF this, of "a + unat delta" "b + unat delta"] ins that show ?thesis by simp
    qed
    have lo: "agree a b img out" if "\<forall>h \<in> set (header_offs ?table ?n). b \<le> h + 20 \<or> h + 24 \<le> a" "b \<le> ?first" for a b
      using m that ins fl by (intro agree_trans [OF agree_mono [of 0 ?first img mid a b]]) auto
    have "room_made img info ss delta out info'"
      unfolding room_made_def
    proof (intro conjI)
      show "length out = length img + unat delta" using m ins by simp
      show "info' = info\<lparr>first_raw_section_off := ?first + unat delta, next_raw_pointer := next_raw_pointer info + delta\<rparr>"
        using info' ge ud checked_add_Some [OF nr] by simp
      show "unat (next_raw_pointer info + delta) = unat (next_raw_pointer info) + unat delta" using checked_add_Some [OF nr] by metis
      show "read_sections out ?table (section_count info) = Inr (map (moved ?first delta) ss)" using m by (simp add: read_sections_def)
      show "\<forall>s \<in> set ss. es_raw_pointer s \<noteq> 0 \<longrightarrow> unat (es_raw_pointer (moved ?first delta s)) = unat (es_raw_pointer s) + unat delta"
        using m first_raw_least l by blast
    qed (use lo cut in blast)+
    moreover have "first_raw_section_off info' = unat aligned" using info' by simp
    ultimately show ?thesis using \<open>?table + _ \<le> unat aligned\<close> by auto
  qed
qed

section \<open>Adding a section\<close>

lemma subslice_subslice: "b \<le> n \<Longrightarrow> subslice a b (subslice off (off + n) s) = subslice (off + a) (off + b) s"
  by (auto simp: subslice_def drop_take min_def add.commute)

lemma read_u32_part:
  "subslice off (off + n) s = h \<Longrightarrow> off + n \<le> length s \<Longrightarrow> k + 4 \<le> n \<Longrightarrow> read_u32 s (off + k) = read_u32 h k"
  by (auto simp: read_u32_def subslice_subslice add.assoc)

lemma section_header_written:
  assumes "write_section_header name vs va rs rp dst = Inr h" "length dst = 40"
  shows "length h = 40 \<and> subslice 0 8 h = utf8 name @ replicate (8 - str_len name) 0
    \<and> read_section h 0 = Inr \<lparr>es_virtual_address = va, es_virtual_size = vs, es_raw_pointer = rp, es_raw_size = rs\<rparr>"
proof -
  let ?z = "replicate 40 0 :: bytes"
  obtain d0 d1 d2 d3 d4 where n: "str_len name \<le> 8" and
      d: "put 0 (utf8 name) ?z = Some d0" "write_u32 d0 8 vs = Inr d1" "write_u32 d1 12 va = Inr d2"
      "write_u32 d2 16 rs = Inr d3" "write_u32 d3 20 rp = Inr d4" "write_u32 d4 36 SECTION_CHARACTERISTICS = Inr h"
    using assms by (auto simp: write_section_header_def Let_def bind_Inr write_bytes_Inr split: if_splits)
  have l: "length d0 = 40" "length d1 = 40" "length d2 = 40" "length d3 = 40" "length d4 = 40" "length h = 40"
    using put_length [OF d(1)] d(2-6) [THEN write_length(1)] by simp_all
  have d0: "d0 = utf8 name @ replicate (40 - str_len name) 0"
    using d(1) n by (auto simp: put_def length_utf8 split: if_splits)
  have "replicate (40 - str_len name) (0 :: u8) = replicate (8 - str_len name) 0 @ replicate 32 0"
    using n by (simp flip: replicate_add)
  then have name: "subslice 0 8 d0 = utf8 name @ replicate (8 - str_len name) 0"
    using n by (simp add: d0 subslice_def length_utf8)
  have a1: "agree a b d0 d1" if "b \<le> 8 \<or> 12 \<le> a" "b \<le> 40" for a b using write_u32_agree [OF d(2)] that l by simp
  have a2: "agree a b d1 d2" if "b \<le> 12 \<or> 16 \<le> a" "b \<le> 40" for a b using write_u32_agree [OF d(3)] that l by simp
  have a3: "agree a b d2 d3" if "b \<le> 16 \<or> 20 \<le> a" "b \<le> 40" for a b using write_u32_agree [OF d(4)] that l by simp
  have a4: "agree a b d3 d4" if "b \<le> 20 \<or> 24 \<le> a" "b \<le> 40" for a b using write_u32_agree [OF d(5)] that l by simp
  have a5: "agree a b d4 h" if "b \<le> 36 \<or> 40 \<le> a" "b \<le> 40" for a b using write_u32_agree [OF d(6)] that l by simp
  have "agree 0 8 d0 h" by (intro agree_trans [OF a1 agree_trans [OF a2 agree_trans [OF a3 agree_trans [OF a4 a5]]]]) simp_all
  then have "subslice 0 8 h = subslice 0 8 d0" using agree_subslice [of 0 8 d0 h 0 8] by simp
  moreover have "agree 8 12 d1 h" "agree 12 16 d2 h" "agree 16 20 d3 h" "agree 20 24 d4 h"
    by (rule agree_trans [OF a2 agree_trans [OF a3 agree_trans [OF a4 a5]]] agree_trans [OF a3 agree_trans [OF a4 a5]]
        agree_trans [OF a4 a5] a5; simp)+
  then have "read_u32 h 8 = Inr vs" "read_u32 h 12 = Inr va" "read_u32 h 16 = Inr rs" "read_u32 h 20 = Inr rp"
    using d(2-5) [THEN read_u32_written] agree_u32 [of 8 12 d1 h 8] agree_u32 [of 12 16 d2 h 12]
      agree_u32 [of 16 20 d3 h 16] agree_u32 [of 20 24 d4 h 20] by simp_all
  ultimately show ?thesis using name l by (simp add: read_section_Inr)
qed

lemma if_Inr: "(if c then Inl e else r) = Inr y \<longleftrightarrow> \<not> c \<and> r = Inr y"
  by simp

text \<open>A payload where the header at an offset says it is.\<close>

definition section_placed :: "pe_info \<Rightarrow> bytes \<Rightarrow> nat \<Rightarrow> payload_section \<Rightarrow> existing_section \<Rightarrow> bool" where
  "section_placed info img off p s \<longleftrightarrow>
     read_section img off = Inr s
     \<and> subslice off (off + 8) img = utf8 (ps_name p) @ replicate (8 - str_len (ps_name p)) 0
     \<and> unat (es_virtual_size s) = length (ps_data p) \<and> length (ps_data p) \<le> unat (es_raw_size s)
     \<and> subslice (unat (es_raw_pointer s)) (unat (es_raw_pointer s) + length (ps_data p)) img = ps_data p
     \<and> unat (es_raw_pointer s) + unat (es_raw_size s) \<le> length img
     \<and> unat (section_alignment info) dvd unat (es_virtual_address s)
     \<and> unat (file_alignment info) dvd unat (es_raw_pointer s)"

lemma placed_agree:
  assumes "section_placed info img off p s" "agree off (off + 40) img out"
    and "agree (unat (es_raw_pointer s)) (unat (es_raw_pointer s) + unat (es_raw_size s)) img out"
  shows "section_placed info out off p s"
  using assms agree_section [OF assms(2), of off] agree_subslice [OF assms(2), of off "off + 8"]
    agree_subslice [OF assms(3), of "unat (es_raw_pointer s)" "unat (es_raw_pointer s) + length (ps_data p)"]
  by (auto simp: section_placed_def agree_def)

lemma append_section_placed:
  assumes "append_section info i p (img, va, raw) = Inr (out, va', raw')" "length img \<le> unat raw"
    and "off = section_table_off info + (unat (section_count info) + i) * 40" "off + 40 \<le> length img"
  shows "\<exists>s. section_placed info out off p s \<and> length out = unat raw'
    \<and> unat va \<le> unat (es_virtual_address s) \<and> unat va' = unat (es_virtual_address s) + unat (es_virtual_size s)
    \<and> unat raw \<le> unat (es_raw_pointer s) \<and> unat raw' = unat (es_raw_pointer s) + unat (es_raw_size s)
    \<and> (\<forall>a b. b \<le> off \<or> off + 40 \<le> a \<longrightarrow> b \<le> length img \<longrightarrow> agree a b img out)"
proof -
  let ?d = "ps_data p"
  obtain vs q r rs h where vs: "to_u32 (length ?d) = Some vs"
    and q: "align_u32 va (section_alignment info) = Inr q" and r: "align_u32 raw (file_alignment info) = Inr r"
    and rs: "align_u32 vs (file_alignment info) = Inr rs"
    and img2: "let img1 = (if length img < unat r then resize_to (unat r) img else img);
        img2 = resize_to (unat r + unat rs) (img1 @ ?d) in
        write_section_header (ps_name p) vs q rs r (subslice off (off + 40) img2) = Inr h
        \<and> put off h img2 = Some out \<and> off + 40 \<le> length img2"
    and va': "checked_add q vs = Some va'" and raw': "checked_add r rs = Some raw'"
    using assms(1) unfolding append_section_def assms(3)
    by (auto simp: bind_Inr uki_or_Inr write_bytes_Inr SECTION_HEADER_SIZE_def Let_def if_Inr)
  note qa = align_u32_Inr [OF q] and ra = align_u32_Inr [OF r] and rsa = align_u32_Inr [OF rs]
  have len: "unat vs = length ?d" using to_u32_Some [OF vs] .
  define img1 where "img1 = (if length img < unat r then resize_to (unat r) img else img)"
  define img2 where "img2 = resize_to (unat r + unat rs) (img1 @ ?d)"
  have l1: "length img1 = unat r" and a1: "agree 0 (length img) img img1"
    using assms(2) ra by (auto simp: img1_def resize_to_def agree_def nth_append)
  have l2: "length img2 = unat r + unat rs" and a2: "agree 0 (unat r) img1 img2"
    and sub2: "subslice (unat r) (unat r + length ?d) img2 = ?d"
    using l1 rsa len by (auto simp: img2_def resize_to_def agree_def nth_append subslice_def)
  have h: "write_section_header (ps_name p) vs q rs r (subslice off (off + 40) img2) = Inr h" and put: "put off h img2 = Some out"
    and off: "off + 40 \<le> length img2"
    using img2 by (simp_all add: img1_def img2_def Let_def)
  note hw = section_header_written [OF h] and pl = put_length [OF put]
  have lh: "length h = 40" using hw off by simp
  have in': "subslice off (off + 40) out = h" using put_inside [OF put, of "off + 40"] lh by simp
  have ag: "agree a b img2 out" if "b \<le> off \<or> off + 40 \<le> a" "b \<le> length img2" for a b
    using put_agree [OF put] that lh by simp
  let ?s = "\<lparr>es_virtual_address = q, es_virtual_size = vs, es_raw_pointer = r, es_raw_size = rs\<rparr>"
  have rd: "read_section out off = Inr ?s"
    using hw off read_u32_part [OF in'] pl by (simp add: read_section_Inr)
  have data: "subslice (unat r) (unat r + length ?d) out = ?d"
    using agree_subslice [OF ag [of "unat r + length ?d" "unat r"]] sub2 l2 rsa len assms(2,4) ra by simp
  have nm: "subslice off (off + 8) out = utf8 (ps_name p) @ replicate (8 - str_len (ps_name p)) 0"
    using hw off in' subslice_subslice [of 8 40 0 off out] by simp
  have "section_placed info out off p ?s"
    using rd data nm len qa ra rsa l2 pl by (simp add: section_placed_def)
  moreover have "agree a b img out" if "b \<le> off \<or> off + 40 \<le> a" "b \<le> length img" for a b
    using that l1 l2 ra assms(2) by (intro agree_trans [OF agree_mono [OF a1] agree_trans [OF agree_mono [OF a2] ag]]) auto
  ultimately show ?thesis
    using checked_add_Some [OF va', THEN conjunct1] checked_add_Some [OF raw', THEN conjunct1] qa ra l2 pl by (intro exI [of _ ?s]) simp
qed

section \<open>Adding all sections\<close>

fun sections_placed :: "pe_info \<Rightarrow> bytes \<Rightarrow> nat \<Rightarrow> payload_section list \<Rightarrow> existing_section list \<Rightarrow> bool" where
  "sections_placed info img off [] [] = True"
| "sections_placed info img off (p # ps) (s # ss) =
     (section_placed info img off p s \<and> sections_placed info img (off + 40) ps ss)"
| "sections_placed info img off _ _ = False"

abbreviation section_end :: "existing_section \<Rightarrow> nat" where
  "section_end s \<equiv> unat (es_virtual_address s) + unat (es_virtual_size s)"

abbreviation raw_end :: "existing_section \<Rightarrow> nat" where
  "raw_end s \<equiv> unat (es_raw_pointer s) + unat (es_raw_size s)"

text \<open>Sections one after the other, in memory and in the file.\<close>

definition follows :: "existing_section \<Rightarrow> existing_section \<Rightarrow> bool" where
  "follows s t \<longleftrightarrow> section_end s \<le> unat (es_virtual_address t) \<and> raw_end s \<le> unat (es_raw_pointer t)"

lemma append_sections_placed:
  assumes "append_sections info i ps (img, va, raw) = Inr (out, va', raw')" "length img \<le> unat raw"
    and "off = section_table_off info + (unat (section_count info) + i) * 40" "off + length ps * 40 \<le> length img"
  shows "\<exists>ss. sections_placed info out off ps ss \<and> length img \<le> length out \<and> length out \<le> unat raw'
    \<and> unat va \<le> unat va' \<and> unat raw \<le> unat raw'
    \<and> (\<forall>s \<in> set ss. unat va \<le> unat (es_virtual_address s) \<and> section_end s \<le> unat va'
         \<and> unat raw \<le> unat (es_raw_pointer s) \<and> raw_end s \<le> unat raw')
    \<and> sorted_wrt follows ss
    \<and> (\<forall>a b. b \<le> off \<or> off + length ps * 40 \<le> a \<longrightarrow> b \<le> length img \<longrightarrow> agree a b img out)"
  using assms
proof (induction ps arbitrary: i img va raw off)
  case Nil
  then show ?case by (intro exI [of _ "[]"]) (simp add: agree_refl)
next
  case (Cons p ps)
  obtain mid va1 raw1 where a: "append_section info i p (img, va, raw) = Inr (mid, va1, raw1)"
    and r: "append_sections info (i + 1) ps (mid, va1, raw1) = Inr (out, va', raw')"
    using Cons.prems(1) by (auto simp: bind_Inr)
  have "off + 40 \<le> length img" using Cons.prems(4) by simp
  from append_section_placed [OF a Cons.prems(2,3) this] obtain s where
      s: "section_placed info mid off p s" and len: "length mid = unat raw1"
    and va: "unat va \<le> unat (es_virtual_address s)" "unat va1 = section_end s"
    and raw: "unat raw \<le> unat (es_raw_pointer s)" "unat raw1 = raw_end s"
    and ag: "\<forall>a b. b \<le> off \<or> off + 40 \<le> a \<longrightarrow> b \<le> length img \<longrightarrow> agree a b img mid" by blast
  have grow: "length img \<le> length mid" using Cons.prems(2) raw len by simp
  have lr: "length mid \<le> unat raw1" using len by simp
  have o1: "off + 40 = section_table_off info + (unat (section_count info) + (i + 1)) * 40" using Cons.prems(3) by simp
  have o2: "off + 40 + length ps * 40 \<le> length mid" using Cons.prems(4) grow by simp
  obtain ss where ss: "sections_placed info out (off + 40) ps ss"
    and ord: "length mid \<le> length out" "length out \<le> unat raw'" "unat va1 \<le> unat va'" "unat raw1 \<le> unat raw'"
    and in': "\<forall>s \<in> set ss. unat va1 \<le> unat (es_virtual_address s) \<and> section_end s \<le> unat va'
         \<and> unat raw1 \<le> unat (es_raw_pointer s) \<and> raw_end s \<le> unat raw'"
    and so: "sorted_wrt follows ss"
    and ag': "\<forall>a b. b \<le> off + 40 \<or> off + 40 + length ps * 40 \<le> a \<longrightarrow> b \<le> length mid \<longrightarrow> agree a b mid out"
    using Cons.IH [OF r lr o1 o2] by blast
  have "section_placed info out off p s"
  proof (rule placed_agree [OF s])
    show "agree off (off + 40) mid out" using ag' grow Cons.prems(4) by simp
    have "off + 40 + length ps * 40 \<le> unat (es_raw_pointer s)" using raw(1) Cons.prems(2,4) by simp
    then show "agree (unat (es_raw_pointer s)) (raw_end s) mid out" using ag' raw(2) len by simp
  qed
  moreover have "agree a b img out" if "b \<le> off \<or> off + length (p # ps) * 40 \<le> a" "b \<le> length img" for a b
  proof (rule agree_trans [of a b img mid])
    show "agree a b img mid" using ag that by auto
    show "agree a b mid out" using ag' that grow by auto
  qed
  moreover have "sorted_wrt follows (s # ss)" using so in' va raw by (simp add: follows_def)
  moreover have "\<forall>t \<in> set (s # ss). unat va \<le> unat (es_virtual_address t) \<and> section_end t \<le> unat va'
         \<and> unat raw \<le> unat (es_raw_pointer t) \<and> raw_end t \<le> unat raw'"
    using in' va raw ord by auto
  ultimately show ?case using ss grow ord va raw by (intro exI [of _ "s # ss"]) auto
qed

lemma placed_length: "sections_placed info img off ps ss \<Longrightarrow> length ss = length ps"
  by (induction info img off ps ss rule: sections_placed.induct) auto

lemma read_placed:
  "sections_placed info img off ps ss \<Longrightarrow> read_section_list img (map (\<lambda>i. off + i * 40) [0..<length ps]) = Inr ss"
proof (induction info img off ps ss rule: sections_placed.induct)
  case (2 info img off p ps s ss)
  have "map (\<lambda>i. off + i * 40) [0..<Suc (length ps)] = off # map (\<lambda>i. (off + 40) + i * 40) [0..<length ps]"
    by (simp add: upt_conv_Cons map_Suc_upt [symmetric] del: upt_Suc)
  then show ?case using 2 by (simp add: section_placed_def del: upt_Suc)
qed simp_all

lemma sections_placed_agree:
  assumes "sections_placed info img off ps ss" "agree lo (length img) img out" "lo \<le> off"
    and "\<forall>s \<in> set ss. lo \<le> unat (es_raw_pointer s)" "off + length ps * 40 \<le> length img"
  shows "sections_placed info out off ps ss"
  using assms
proof (induction info img off ps ss rule: sections_placed.induct)
  case (2 info img off p ps s ss)
  have s: "section_placed info img off p s" using 2(2) by simp
  then have "raw_end s \<le> length img" by (simp add: section_placed_def)
  then have "agree (unat (es_raw_pointer s)) (raw_end s) img out"
    using 2(5) by (intro agree_mono [OF 2(3)]) simp_all
  moreover have "agree off (off + 40) img out" using 2(4,6) by (intro agree_mono [OF 2(3)]) simp_all
  ultimately have "section_placed info out off p s" using placed_agree [OF s] by simp
  moreover have "sections_placed info out (off + 40) ps ss" using 2 by (intro 2(1)) simp_all
  ultimately show ?case by simp
qed simp_all

section \<open>The image that is built\<close>

text \<open>A section of the stub as it is found in the image: only its place in the file may have moved.\<close>

definition section_kept :: "bytes \<Rightarrow> bytes \<Rightarrow> existing_section \<Rightarrow> existing_section \<Rightarrow> bool" where
  "section_kept stub img s t \<longleftrightarrow>
     es_virtual_address t = es_virtual_address s \<and> es_virtual_size t = es_virtual_size s
     \<and> es_raw_size t = es_raw_size s \<and> (es_raw_pointer t = 0 \<longleftrightarrow> es_raw_pointer s = 0)
     \<and> (es_raw_pointer s \<noteq> 0 \<longrightarrow>
          subslice (unat (es_raw_pointer t)) (raw_end t) img = subslice (unat (es_raw_pointer s)) (raw_end s) stub)"

lemma if_else_Inr: "(if c then r else Inl e) = Inr y \<longleftrightarrow> c \<and> r = Inr y"
  by simp

lemma build_stages:
  assumes "build_uki stub ps = Inr out"
  obtains info n img info' img1 va raw img2 img3 headers size where
    "parse_pe stub = Inr info" "unat n = unat (section_count info) + length ps"
    "ensure_section_header_room stub info n = Inr (img, info')"
    "append_sections info' 0 ps (if length img < unat (next_raw_pointer info') then resize_to (unat (next_raw_pointer info')) img else img,
       next_virtual_address info', next_raw_pointer info') = Inr (img1, va, raw)"
    "write_u16 img1 (coff_off info' + 2) n = Inr img2"
    "write_u32 img2 (size_of_headers_off info') headers = Inr img3"
    "write_u32 img3 (size_of_image_off info') size = Inr out"
proof -
  obtain info n img info' img1 va raw img2 img3 re h size where a:
    "parse_pe stub = Inr info" "length ps < 2 ^ 16" "checked_add (section_count info) (of_nat (length ps)) = Some n"
    "ensure_section_header_room stub info n = Inr (img, info')"
    "append_sections info' 0 ps (if length img < unat (next_raw_pointer info') then resize_to (unat (next_raw_pointer info')) img else img,
       next_virtual_address info', next_raw_pointer info') = Inr (img1, va, raw)"
    "write_u16 img1 (coff_off info' + 2) n = Inr img2"
    "write_u32 img2 (size_of_headers_off info') (max (size_of_headers info') h) = Inr img3"
    "write_u32 img3 (size_of_image_off info') size = Inr out"
    using assms by (auto simp: build_uki_def bind_Inr uki_or_Inr if_Inr if_else_Inr Let_def)
  have "unat n = unat (section_count info) + length ps"
    using checked_add_Some [OF a(3), THEN conjunct1] a(2) by (simp add: unat_of_nat)
  with a that show thesis by blast
qed

lemma header_offs_add: "header_offs table (m + n) = header_offs table m @ map (\<lambda>i. (table + m * 40) + i * 40) [0..<n]"
proof -
  have "[m..<m + n] = map (\<lambda>i. i + m) [0..<n]" by (simp add: map_add_upt add.commute)
  then have "[0..<m + n] = [0..<m] @ map (\<lambda>i. i + m) [0..<n]" using upt_add_eq_append [of 0 m n] by simp
  then show ?thesis by (simp add: header_offs_def SECTION_HEADER_SIZE_def algebra_simps)
qed

lemma read_section_list_append:
  "read_section_list img (hs @ ks) = result_bind (read_section_list img hs) (\<lambda>ss. result_bind (read_section_list img ks) (\<lambda>ts. Inr (ss @ ts)))"
  by (induction hs) (auto simp: result_bind_def split: sum.splits)

lemma read_section_list_agree:
  assumes "agree a b s t" "\<forall>h \<in> set hs. a \<le> h \<and> h + 40 \<le> b"
  shows "read_section_list t hs = read_section_list s hs"
  using assms(2) by (induction hs) (simp_all add: agree_section [OF assms(1)])

lemma section_ends_bound:
  "section_ends ss va raw = Inr (v, r) \<Longrightarrow> unat va \<le> unat v \<and> unat raw \<le> unat r \<and> (\<forall>s \<in> set ss. section_end s \<le> unat v \<and> raw_end s \<le> unat r)"
proof (induction ss arbitrary: va raw)
  case (Cons s ss)
  then obtain ve re where e: "checked_add (es_virtual_address s) (es_virtual_size s) = Some ve"
    "checked_add (es_raw_pointer s) (es_raw_size s) = Some re" and r: "section_ends ss (max va ve) (max raw re) = Inr (v, r)"
    by (auto simp: bind_Inr uki_or_Inr)
  have m: "unat (max x y) = max (unat x) (unat y)" for x y :: u32 by (simp add: max_def word_le_nat_alt)
  from Cons.IH [OF r] checked_add_Some [OF e(1), THEN conjunct1] checked_add_Some [OF e(2), THEN conjunct1]
  show ?case by (auto simp: m)
qed simp

lemma section_ends_ok:
  "\<forall>s \<in> set ss. section_end s < 2 ^ 32 \<and> raw_end s < 2 ^ 32 \<Longrightarrow> \<exists>v r. section_ends ss va raw = Inr (v, r)"
  by (induction ss arbitrary: va raw) (auto simp: checked_add_def)

lemma header_offs_off: "(\<forall>h \<in> set (header_offs table n). b \<le> h + 20 \<or> h + 24 \<le> a)" if "b \<le> table \<or> table + n * 40 \<le> a" for a b table n
  using that header_offs_bound [of _ table n] by fastforce

text \<open>The stages of a build, as far as they concern the bytes before the section table and the table.\<close>

lemma built_bytes:
  assumes "stub_layout stub info ss" "build_uki stub ps = Inr out"
  shows "\<exists>delta n headers olds news. unat n = unat (section_count info) + length ps
    \<and> (\<forall>a b. b \<le> section_table_off info \<longrightarrow> b \<le> coff_off info + 2 \<or> coff_off info + 4 \<le> a \<and> (b \<le> coff_off info + 76 \<or> coff_off info + 84 \<le> a)
         \<longrightarrow> agree a b stub out)
    \<and> read_u16 out (coff_off info + 2) = Inr n \<and> read_u32 out (coff_off info + 80) = Inr headers
    \<and> read_section_list out (header_offs (section_table_off info) (unat (section_count info))) = Inr olds
    \<and> list_all2 (section_kept stub out) ss olds
    \<and> sections_placed info out (section_table_off info + unat (section_count info) * 40) ps news
    \<and> sorted_wrt follows news \<and> (\<forall>s \<in> set olds. \<forall>t \<in> set news. follows s t)
    \<and> (\<forall>s \<in> set (olds @ news). section_end s < 2 ^ 32 \<and> raw_end s < 2 ^ 32)
    \<and> section_table_off info + unat n * 40 \<le> length out
    \<and> olds = map (moved (first_raw_section_off info) delta) ss"
proof -
  let ?table = "section_table_off info" and ?n = "unat (section_count info)" and ?coff = "coff_off info" and ?first = "first_raw_section_off info"
  note l = assms(1) [unfolded stub_layout_def]
  have pe: "parse_pe stub = Inr info" using l parse_pe_complete by blast
  obtain n img info' img1 va raw img2 img3 headers size where n: "unat n = ?n + length ps"
    and room: "ensure_section_header_room stub info n = Inr (img, info')"
    and app: "append_sections info' 0 ps (if length img < unat (next_raw_pointer info') then resize_to (unat (next_raw_pointer info')) img else img,
       next_virtual_address info', next_raw_pointer info') = Inr (img1, va, raw)"
    and w1: "write_u16 img1 (coff_off info' + 2) n = Inr img2"
    and w2: "write_u32 img2 (size_of_headers_off info') headers = Inr img3"
    and w3: "write_u32 img3 (size_of_image_off info') size = Inr out"
    using assms(2) by (rule build_stages) (use pe in auto)
  obtain delta where rm: "room_made stub info ss delta img info'" and fit: "?table + unat n * 40 \<le> first_raw_section_off info'"
    using section_header_room [OF assms(1) room] by blast
  note r = rm [unfolded room_made_def]
  have inf: "section_table_off info' = ?table" "section_count info' = section_count info" "coff_off info' = ?coff"
    "size_of_headers_off info' = ?coff + 80" "size_of_image_off info' = ?coff + 76" "section_alignment info' = section_alignment info"
    "file_alignment info' = file_alignment info" "next_virtual_address info' = next_virtual_address info"
    "first_raw_section_off info' = ?first + unat delta" "unat (next_raw_pointer info') = unat (next_raw_pointer info) + unat delta"
    using r l by (simp_all add: pe_at_def)
  obtain f where f: "f \<in> set ss" "es_raw_pointer f \<noteq> 0" "unat (es_raw_pointer f) = ?first"
    using first_raw_mem l by blast
  have fl: "?first \<le> length stub" using l f by (metis add_leD1)
  have tab: "?coff + 84 \<le> ?table" using l by (auto simp: pe_at_def)
  define img' where "img' = (if length img < unat (next_raw_pointer info') then resize_to (unat (next_raw_pointer info')) img else img)"
  have li: "length img' = unat (next_raw_pointer info')" "length img \<le> length img'" and ai: "agree 0 (length img) img img'"
    using l r inf by (auto simp: img'_def resize_to_def agree_def nth_append)
  have off: "?table + ?n * 40 = section_table_off info' + (unat (section_count info') + 0) * 40" using inf by simp
  have fits: "?table + ?n * 40 + length ps * 40 \<le> length img'"
    using fit n inf li r fl by (simp add: add_mult_distrib)
  obtain news where pl: "sections_placed info' img1 (?table + ?n * 40) ps news" and grow: "length img' \<le> length img1"
    and rng: "\<forall>s \<in> set news. unat (next_virtual_address info') \<le> unat (es_virtual_address s) \<and> section_end s \<le> unat va
         \<and> unat (next_raw_pointer info') \<le> unat (es_raw_pointer s) \<and> raw_end s \<le> unat raw"
    and so: "sorted_wrt follows news"
    and ag1: "\<forall>a b. b \<le> ?table + ?n * 40 \<or> ?table + ?n * 40 + length ps * 40 \<le> a \<longrightarrow> b \<le> length img' \<longrightarrow> agree a b img' img1"
    using append_sections_placed [OF app [folded img'_def] _ off fits] li by auto
  have len: "length img2 = length img1" "length img3 = length img1" "length out = length img1"
    using write_length(2) [OF w1] write_length(1) [OF w2] write_length(1) [OF w3] by simp_all
  have a2: "agree a b img1 img2" if "b \<le> ?coff + 2 \<or> ?coff + 4 \<le> a" "b \<le> length img1" for a b
    using that inf by (auto intro!: write_u16_agree [OF w1])
  have a3: "agree a b img2 img3" if "b \<le> ?coff + 80 \<or> ?coff + 84 \<le> a" "b \<le> length img1" for a b
    using that inf len by (auto intro!: write_u32_agree [OF w2])
  have a4: "agree a b img3 out" if "b \<le> ?coff + 76 \<or> ?coff + 80 \<le> a" "b \<le> length img1" for a b
    using that inf len by (auto intro!: write_u32_agree [OF w3])
  have late: "agree a b img1 out" if "b \<le> ?coff + 2 \<or> ?coff + 4 \<le> a \<and> (b \<le> ?coff + 76 \<or> ?coff + 84 \<le> a)" "b \<le> length img1" for a b
    using that by (intro agree_trans [OF a2 agree_trans [OF a3 a4]]) auto
  have early: "agree a b img img1" if "b \<le> ?table + ?n * 40 \<or> ?table + unat n * 40 \<le> a" "b \<le> length img" for a b
    using that ag1 n li by (intro agree_trans [OF agree_mono [OF ai]]) (auto simp: add_mult_distrib)
  have end_table: "?table + unat n * 40 \<le> length img" using fit inf r fl by simp
  let ?olds = "map (moved ?first delta) ss"
  have old1: "read_section_list img (header_offs ?table ?n) = Inr ?olds" using r by (simp add: read_sections_def)
  have "agree ?table (?table + ?n * 40) img out"
    using end_table n tab li grow by (intro agree_trans [OF early late]) (auto simp: add_mult_distrib)
  then have old: "read_section_list out (header_offs ?table ?n) = Inr ?olds"
    using read_section_list_agree old1 header_offs_bound by metis
  have rp: "unat (es_raw_pointer (moved ?first delta s)) = unat (es_raw_pointer s) + unat delta" if "s \<in> set ss" "es_raw_pointer s \<noteq> 0" for s
    using r that by blast
  have kept: "section_kept stub out s (moved ?first delta s)" if s: "s \<in> set ss" for s
  proof -
    have m: "es_virtual_address (moved ?first delta s) = es_virtual_address s" "es_virtual_size (moved ?first delta s) = es_virtual_size s"
      "es_raw_size (moved ?first delta s) = es_raw_size s" by (simp_all add: moved_def)
    have nz: "es_raw_pointer (moved ?first delta s) = 0 \<longleftrightarrow> es_raw_pointer s = 0"
    proof (cases "es_raw_pointer s = 0")
      case False
      with rp [OF s] have "0 < unat (es_raw_pointer (moved ?first delta s))" by (simp add: unat_gt_0)
      then show ?thesis using False by auto
    qed (simp add: moved_def)
    have "subslice (unat (es_raw_pointer s) + unat delta) (raw_end s + unat delta) out = subslice (unat (es_raw_pointer s)) (raw_end s) stub"
      if nz: "es_raw_pointer s \<noteq> 0"
    proof -
      have ge: "?first \<le> unat (es_raw_pointer s)" using first_raw_least l s nz by blast
      have le: "raw_end s \<le> length stub" using l s by blast
      have "agree (unat (es_raw_pointer s) + unat delta) (raw_end s + unat delta) img out"
        using ge le fit inf r tab li grow by (intro agree_trans [OF early late]) auto
      then have "subslice (unat (es_raw_pointer s) + unat delta) (raw_end s + unat delta) img
          = subslice (unat (es_raw_pointer s) + unat delta) (raw_end s + unat delta) out"
        by (rule agree_subslice) simp_all
      moreover have "subslice (unat (es_raw_pointer s) + unat delta) (raw_end s + unat delta) img = subslice (unat (es_raw_pointer s)) (raw_end s) stub"
        using r ge le by blast
      ultimately show ?thesis by simp
    qed
    with m nz rp [OF s] show ?thesis by (simp add: section_kept_def ac_simps)
  qed
  have placed: "sections_placed info out (?table + ?n * 40) ps news"
  proof (rule sections_placed_agree)
    show "agree (?coff + 84) (length img1) img1 out" by (rule late) simp_all
    have "sections_placed i img off ps ss \<Longrightarrow> section_alignment i = section_alignment j \<Longrightarrow> file_alignment i = file_alignment j
        \<Longrightarrow> sections_placed j img off ps ss" for i j img off ps ss
      by (induction i img off ps ss rule: sections_placed.induct) (auto simp: section_placed_def)
    from this [OF pl inf(6,7)] show "sections_placed info img1 (?table + ?n * 40) ps news" .
    show "\<forall>s \<in> set news. ?coff + 84 \<le> unat (es_raw_pointer s)" using rng li fits tab by fastforce
  qed (use tab fits grow in simp_all)
  have ends: "section_ends ss 0 0 = Inr (next_virtual_address info, next_raw_pointer info)" using l by (simp add: sections_at_def)
  note sb = section_ends_bound [OF ends]
  have old_ends: "section_end s \<le> unat (next_virtual_address info) \<and> raw_end s \<le> unat (next_raw_pointer info')" if s: "s \<in> set ?olds" for s
  proof -
    obtain t where t: "t \<in> set ss" "s = moved ?first delta t" using s by auto
    have "raw_end s \<le> raw_end t + unat delta" using rp [OF t(1)] t(2) by (cases "es_raw_pointer t = 0") (simp_all add: moved_def)
    with t sb inf show ?thesis by (fastforce simp: moved_def)
  qed
  have fol: "\<forall>s \<in> set ?olds. \<forall>t \<in> set news. follows s t" using old_ends rng inf by (fastforce simp: follows_def)
  have small: "\<forall>s \<in> set (?olds @ news). section_end s < 2 ^ 32 \<and> raw_end s < 2 ^ 32"
    using old_ends rng u32_bound [of va] u32_bound [of raw] u32_bound [of "next_virtual_address info"] u32_bound [of "next_raw_pointer info'"]
    by fastforce
  have hdr: "agree a b stub out" if "b \<le> ?table" "b \<le> ?coff + 2 \<or> ?coff + 4 \<le> a \<and> (b \<le> ?coff + 76 \<or> ?coff + 84 \<le> a)" for a b
  proof -
    have "agree a b stub img" using r header_offs_off [of b ?table ?n a] that l by simp
    then show ?thesis using that end_table li grow by (intro agree_trans [OF _ agree_trans [OF early late]]) auto
  qed
  have "read_u16 out (?coff + 2) = Inr n"
    using agree_u16 [OF agree_trans [OF a3 a4], of "?coff + 4" "?coff + 2" "?coff + 2"] read_u16_written [OF w1] inf tab end_table li grow by simp
  moreover have "read_u32 out (?coff + 80) = Inr headers"
    using agree_u32 [OF a4, of "?coff + 84" "?coff + 80" "?coff + 80"] read_u32_written [OF w2] inf tab end_table li grow by simp
  ultimately show ?thesis
    using n hdr old placed so fol small end_table li grow len kept
    by (intro exI [of _ delta] exI [of _ n] exI [of _ headers] exI [of _ ?olds] exI [of _ news]) (auto simp: list_all2_conv_all_nth)
qed

text \<open>A stub with one section of four bytes and no room for another section header.\<close>

definition small_stub :: bytes where
  "small_stub = ascii ''MZ'' @ replicate 58 0 @ [64, 0, 0, 0] @ ascii ''PE'' @ [0, 0]
     @ [0, 0, 1, 0] @ replicate 12 0 @ [64, 0, 0, 0]
     @ [0x0b, 2] @ replicate 30 0 @ [0, 16, 0, 0] @ [4, 0, 0, 0] @ replicate 16 0 @ [0, 32, 0, 0] @ [192, 0, 0, 0]
     @ ascii ''.text'' @ [0, 0, 0] @ [4, 0, 0, 0] @ [0, 16, 0, 0] @ [4, 0, 0, 0] @ [192, 0, 0, 0] @ replicate 16 0
     @ [7, 8, 9, 10]"

abbreviation linux_payload :: payload_section where
  "linux_payload \<equiv> \<lparr>ps_name = lit ''.linux'', ps_data = [1, 2, 3]\<rparr>"

lemmas small_defs = small_stub_def ascii_def subslice_def read_u32_def read_u16_def

lemma small_reads:
  "length small_stub = 196" "take 2 small_stub = ascii ''MZ''" "subslice 64 68 small_stub = ascii ''PE'' @ [0, 0]"
  "read_u32 small_stub 60 = Inr 64" "read_u16 small_stub 70 = Inr 1" "read_u16 small_stub 84 = Inr 64"
  "read_u16 small_stub 88 = Inr 0x020b" "read_u32 small_stub 120 = Inr 4096" "read_u32 small_stub 124 = Inr 4"
  "read_u32 small_stub 148 = Inr 192" "read_u32 small_stub 160 = Inr 4" "read_u32 small_stub 164 = Inr 4096"
  "read_u32 small_stub 168 = Inr 4" "read_u32 small_stub 172 = Inr 192"
  by (simp_all add: small_defs)

abbreviation small_info :: pe_info where
  "small_info \<equiv> \<lparr>coff_off = 68, section_table_off = 152, section_count = 1, section_alignment = 4096, file_alignment = 4,
     size_of_image_off = 144, size_of_headers_off = 148, size_of_headers = 192, first_raw_section_off = 192,
     next_virtual_address = 4100, next_raw_pointer = 196\<rparr>"

abbreviation small_section :: existing_section where
  "small_section \<equiv> \<lparr>es_virtual_address = 4096, es_virtual_size = 4, es_raw_pointer = 192, es_raw_size = 4\<rparr>"

lemma small_layout: "stub_layout small_stub small_info [small_section]"
  by (simp add: stub_layout_def pe_at_def sections_at_def small_reads read_sections_def header_offs_def
      read_section_def min_opt_def checked_add_def)

lemma small_parse: "parse_pe small_stub = Inr small_info"
  using small_layout parse_pe_complete unfolding stub_layout_def by blast

section \<open>Writes in range\<close>

lemma write_u32_ok: "off + 4 \<le> length s \<Longrightarrow> \<exists>t. write_u32 s off v = Inr t \<and> length t = length s"
  using write_bytes_ok [of off "to_le 4 v" s] write_length(1) [of s off v] by (auto simp: write_u32_def)

lemma write_u16_ok: "off + 2 \<le> length s \<Longrightarrow> \<exists>t. write_u16 s off v = Inr t \<and> length t = length s"
  using write_bytes_ok [of off "to_le 2 v" s] write_length(2) [of s off v] by (auto simp: write_u16_def)

lemma section_header_ok:
  assumes "str_len name \<le> 8" "length dst = 40"
  shows "\<exists>h. write_section_header name vs va rs rp dst = Inr h"
proof -
  obtain d0 where d0: "write_bytes (replicate 40 0) 0 (utf8 name) = Inr d0" "length d0 = 40"
    using write_bytes_ok [of 0 "utf8 name" "replicate 40 0"] assms(1) write_length(3) by (fastforce simp: length_utf8)
  obtain d1 where d1: "write_u32 d0 8 vs = Inr d1" "length d1 = 40" using write_u32_ok [of 8 d0] d0 by auto
  obtain d2 where d2: "write_u32 d1 12 va = Inr d2" "length d2 = 40" using write_u32_ok [of 12 d1] d1 by auto
  obtain d3 where d3: "write_u32 d2 16 rs = Inr d3" "length d3 = 40" using write_u32_ok [of 16 d2] d2 by auto
  obtain d4 where d4: "write_u32 d3 20 rp = Inr d4" "length d4 = 40" using write_u32_ok [of 20 d3] d3 by auto
  obtain d5 where d5: "write_u32 d4 36 SECTION_CHARACTERISTICS = Inr d5" using write_u32_ok [of 36 d4] d4 by auto
  show ?thesis using assms d0 d1 d2 d3 d4 d5 by (simp add: write_section_header_def)
qed

lemma small_room: "\<exists>img. ensure_section_header_room small_stub small_info 2 = Inr (img, small_info\<lparr>first_raw_section_off := 232, next_raw_pointer := 236\<rparr>)
   \<and> length img = 236"
  by (simp add: ensure_section_header_room_def SECTION_HEADER_SIZE_def to_u32_def align_u32_def checked_sub_def checked_add_def
     insert_zeroes_def header_offs_def write_u32_def write_bytes_def put_def to_le_def read_u32_def small_stub_def ascii_def subslice_def)

lemma small_append:
  assumes "236 \<le> length img"
  shows "\<exists>out. append_section (small_info\<lparr>first_raw_section_off := 232, next_raw_pointer := 236\<rparr>) 0 linux_payload (img, 4100, 236)
    = Inr (out, 8195, 240) \<and> length out = 240"
proof -
  let ?img = "resize_to 240 (img @ [1, 2, 3])"
  have l: "length ?img = 240" using assms by (simp add: resize_to_def)
  have n: "str_len (lit ''.linux'') \<le> 8" by (simp add: lit_def utf8_len_def)
  obtain h where h: "write_section_header (lit ''.linux'') 3 8192 4 236 (subslice 192 232 ?img) = Inr h"
    using section_header_ok [OF n, of "subslice 192 232 ?img" 3 8192 4 236] l by auto
  have "length h = 40" using section_header_written [OF h] l by simp
  then obtain out where "write_bytes ?img 192 h = Inr out" "length out = 240"
    using write_bytes_ok [of 192 h ?img] write_length(3) l by fastforce
  with h l assms show ?thesis
    by (simp add: append_section_def to_u32_def align_u32_def checked_sub_def checked_add_def SECTION_HEADER_SIZE_def)
qed

lemma small_built: "\<exists>out. build_uki small_stub [linux_payload] = Inr out"
proof -
  let ?info = "small_info\<lparr>first_raw_section_off := 232, next_raw_pointer := 236\<rparr>"
  obtain img where img: "ensure_section_header_room small_stub small_info 2 = Inr (img, ?info)" "length img = 236"
    using small_room by blast
  obtain i1 where i1: "append_section ?info 0 linux_payload (img, 4100, 236) = Inr (i1, 8195, 240)" "length i1 = 240"
    using small_append [of img] img(2) by auto
  obtain i2 where i2: "write_u16 i1 70 2 = Inr i2" "length i2 = 240" using write_u16_ok [of 70 i1] i1 by auto
  obtain i3 where i3: "write_u32 i2 148 232 = Inr i3" "length i3 = 240" using write_u32_ok [of 148 i2] i2 by auto
  obtain i4 where i4: "write_u32 i3 144 12288 = Inr i4" using write_u32_ok [of 144 i3] i3 by auto
  show ?thesis using img i1 i2 i3 i4
    by (simp add: build_uki_def small_parse checked_add_def to_u32_def align_u32_def checked_sub_def SECTION_HEADER_SIZE_def)
qed

section \<open>Properties\<close>

text \<open>The header fields that a build writes.\<close>

definition written_fields :: "pe_info \<Rightarrow> nat set" where
  "written_fields info = {coff_off info + 2..<coff_off info + 4} \<union> {coff_off info + 76..<coff_off info + 84}"

lemma read_sections_built:
  assumes "read_section_list out (header_offs table m) = Inr olds" "sections_placed info out (table + m * 40) ps news"
  shows "read_section_list out (header_offs table (m + length ps)) = Inr (olds @ news)"
  using assms read_placed [OF assms(2)] by (simp add: header_offs_add read_section_list_append)

lemma agree_byte: "agree i (Suc i) s t \<Longrightarrow> t ! i = s ! i"
  by (simp add: agree_def)

lemma built_headers:
  assumes "pe_at stub info" "68 \<le> coff_off info"
    and hdr: "\<And>a b. b \<le> section_table_off info \<Longrightarrow> b \<le> coff_off info + 2 \<or> coff_off info + 4 \<le> a \<and> (b \<le> coff_off info + 76 \<or> coff_off info + 84 \<le> a)
         \<Longrightarrow> agree a b stub out"
    and "read_u16 out (coff_off info + 2) = Inr n" "read_u32 out (coff_off info + 80) = Inr headers"
    and "section_table_off info + unat n * 40 \<le> length out"
  shows "pe_at out (info\<lparr>section_count := n, size_of_headers := headers, first_raw_section_off := fr, next_virtual_address := va, next_raw_pointer := raw\<rparr>)"
proof -
  let ?coff = "coff_off info" and ?table = "section_table_off info"
  note l = assms(1) [unfolded pe_at_def]
  obtain p m where p: "read_u32 stub 60 = Inr p" "?coff = unat p + 4" "subslice (unat p) (unat p + 4) stub = ascii ''PE'' @ [0, 0]"
    and m: "read_u16 stub (?coff + 16) = Inr m" "64 \<le> unat m" "?table = ?coff + 20 + unat m" using l by blast
  have t: "?coff + 84 \<le> ?table" using m by simp
  have low: "agree 0 64 stub out" "agree (unat p) (unat p + 4) stub out" using hdr t p(2) assms(2) by simp_all
  have mid: "agree (?coff + 4) (?coff + 76) stub out" using hdr t by simp
  have "take 2 out = take 2 stub" using agree_subslice [OF low(1), of 0 2] by (simp add: subslice_def)
  moreover have "read_u32 out 60 = read_u32 stub 60" using agree_u32 [OF low(1)] by simp
  moreover have "subslice (unat p) (unat p + 4) out = subslice (unat p) (unat p + 4) stub" using agree_subslice [OF low(2)] by simp
  moreover have "read_u16 out (?coff + 16) = read_u16 stub (?coff + 16)" "read_u16 out (?coff + 20) = read_u16 stub (?coff + 20)"
    using agree_u16 [OF mid] by simp_all
  moreover have "read_u32 out (?coff + 52) = read_u32 stub (?coff + 52)" "read_u32 out (?coff + 56) = read_u32 stub (?coff + 56)"
    using agree_u32 [OF mid] by simp_all
  moreover have "64 \<le> length out" using low(1) by (simp add: agree_def)
  ultimately show ?thesis using l p m assms(4-6) by (simp add: pe_at_def)
qed

lemma list_all2_mem: "list_all2 P xs ys \<Longrightarrow> x \<in> set xs \<Longrightarrow> \<exists>y \<in> set ys. P x y"
  by (induction rule: list_all2_induct) auto

lemma min_opt_cons: "x \<in> set xs \<Longrightarrow> \<exists>m. min_opt xs = Some m"
  by (auto simp: min_opt_def)

text \<open>C11. What \<open>build_uki\<close> makes of a stub is an image with the sections of the stub and the payloads: its headers
  parse, every section of the stub keeps its address and its bytes, every payload is found where its own
  header says, at aligned places after everything before it, and no other header byte changes.\<close>

theorem uki_built:
  assumes "stub_layout stub info ss" "build_uki stub ps = Inr out"
  shows "\<exists>info' olds news. parse_pe out = Inr info' \<and> sections_at out info' (olds @ news)
    \<and> unat (section_count info') = unat (section_count info) + length ps
    \<and> section_table_off info' = section_table_off info
    \<and> list_all2 (section_kept stub out) ss olds
    \<and> sections_placed info out (section_table_off info + unat (section_count info) * 40) ps news
    \<and> sorted_wrt follows news \<and> (\<forall>s \<in> set olds. \<forall>t \<in> set news. follows s t)
    \<and> (\<forall>i < section_table_off info. i \<notin> written_fields info \<longrightarrow> out ! i = stub ! i)"
proof -
  let ?coff = "coff_off info" and ?table = "section_table_off info" and ?n = "unat (section_count info)"
  note l = assms(1) [unfolded stub_layout_def]
  obtain delta n headers olds news where n: "unat n = ?n + length ps"
    and hdr: "\<forall>a b. b \<le> ?table \<longrightarrow> b \<le> ?coff + 2 \<or> ?coff + 4 \<le> a \<and> (b \<le> ?coff + 76 \<or> ?coff + 84 \<le> a) \<longrightarrow> agree a b stub out"
    and new: "read_u16 out (?coff + 2) = Inr n" "read_u32 out (?coff + 80) = Inr headers"
    and old: "read_section_list out (header_offs ?table ?n) = Inr olds" and kept: "list_all2 (section_kept stub out) ss olds"
    and pl: "sections_placed info out (?table + ?n * 40) ps news"
    and ord: "sorted_wrt follows news" "\<forall>s \<in> set olds. \<forall>t \<in> set news. follows s t"
    and small: "\<forall>s \<in> set (olds @ news). section_end s < 2 ^ 32 \<and> raw_end s < 2 ^ 32"
    and fits: "?table + unat n * 40 \<le> length out"
    using built_bytes [OF assms] by blast
  obtain va raw where ends: "section_ends (olds @ news) 0 0 = Inr (va, raw)" using section_ends_ok [OF small] by blast
  obtain f where f: "f \<in> set ss" "es_raw_pointer f \<noteq> 0" using first_raw_mem l by blast
  then obtain g where "g \<in> set olds" "section_kept stub out f g" using list_all2_mem [OF kept] by blast
  with f have "es_raw_pointer g \<in> set (filter (\<lambda>p. p \<noteq> 0) (map es_raw_pointer (olds @ news)))" by (auto simp: section_kept_def)
  from min_opt_cons [OF this] obtain fr where fr: "min_opt (filter (\<lambda>p. p \<noteq> 0) (map es_raw_pointer (olds @ news))) = Some fr" by blast
  let ?info = "info\<lparr>section_count := n, size_of_headers := headers, first_raw_section_off := unat fr,
      next_virtual_address := va, next_raw_pointer := raw\<rparr>"
  have "pe_at out ?info" using l by (intro built_headers [of stub, OF _ _ hdr [rule_format] new fits]) simp_all
  moreover have "sections_at out ?info (olds @ news)"
    using read_sections_built [OF old pl] n fr ends by (simp add: sections_at_def read_sections_def)
  moreover have "out ! i = stub ! i" if "i < ?table" "i \<notin> written_fields info" for i
  proof (rule agree_byte)
    show "agree i (Suc i) stub out" using hdr that by (auto simp: written_fields_def not_le not_less)
  qed
  ultimately show ?thesis using n kept pl ord parse_pe_complete
    by (intro exI [of _ ?info] exI [of _ olds] exI [of _ news]) simp
qed

theorem uki_built_witness:
  "\<exists>out info' olds news. build_uki small_stub [linux_payload] = Inr out \<and> parse_pe out = Inr info'
    \<and> unat (section_count info') = 2 \<and> sections_placed small_info out 192 [linux_payload] news
    \<and> list_all2 (section_kept small_stub out) [small_section] olds"
proof -
  obtain out where out: "build_uki small_stub [linux_payload] = Inr out" using small_built by blast
  from uki_built [OF small_layout this] obtain info' olds news where "parse_pe out = Inr info'"
    "unat (section_count info') = unat (section_count small_info) + length [linux_payload]"
    "list_all2 (section_kept small_stub out) [small_section] olds"
    "sections_placed small_info out (section_table_off small_info + unat (section_count small_info) * 40) [linux_payload] news"
    by blast
  with out show ?thesis by (intro exI [of _ out] exI [of _ info'] exI [of _ olds] exI [of _ news]) simp
qed

lemma bind_panics: "result_bind r f = Inl UkiPanics \<longleftrightarrow> r = Inl UkiPanics \<or> (\<exists>x. r = Inr x \<and> f x = Inl UkiPanics)"
  by (cases r) simp_all

lemma ok_or_total [simp]: "ok_or (UkiFails e) x \<noteq> Inl UkiPanics"
  by (cases x) simp_all

lemma no_panics [simp]:
  "read_u32 s off \<noteq> Inl UkiPanics" "read_u16 s off \<noteq> Inl UkiPanics" "require s off n w \<noteq> Inl UkiPanics"
  "align_u32 v a \<noteq> Inl UkiPanics"
  by (auto simp: read_u32_def read_u16_def require_def align_u32_def bind_panics)

lemma if_panics: "(if c then uki_fail e else r) = Inl UkiPanics \<longleftrightarrow> \<not> c \<and> r = Inl UkiPanics"
  by simp

lemma if_total [simp]: "(if c then Inr x else uki_fail e) \<noteq> Inl UkiPanics"
  by simp

lemma read_section_list_total [simp]: "read_section_list img hs \<noteq> Inl UkiPanics"
  by (induction hs) (auto simp: bind_panics read_section_def)

lemma section_ends_total [simp]: "section_ends ss va raw \<noteq> Inl UkiPanics"
  by (induction ss arbitrary: va raw) (auto simp: bind_panics)

lemma parse_pe_total: "parse_pe img \<noteq> Inl UkiPanics"
  by (auto simp: parse_pe_def bind_panics read_sections_def Let_def)

lemma move_pointers_total [simp]: "move_pointers first delta hs img \<noteq> Inl UkiPanics"
proof (induction hs arbitrary: img)
  case (Cons h hs)
  have "write_u32 img (h + 20) v \<noteq> Inl UkiPanics" if "read_u32 img (h + 20) = Inr r" for v r
    using write_u32_ok [of "h + 20" img v] that by (auto simp: read_u32_Inr)
  with Cons show ?case by (auto simp: bind_panics)
qed simp

lemma header_total: "length dst = 40 \<Longrightarrow> write_section_header name vs va rs rp dst \<noteq> Inl UkiPanics"
  using section_header_ok [of name dst vs va rs rp] by (cases "str_len name \<le> 8") (auto simp: write_section_header_def)

lemma append_section_total:
  assumes "length img \<le> unat raw" "section_table_off info + (unat (section_count info) + i) * 40 + 40 \<le> length img"
  shows "append_section info i p (img, va, raw) \<noteq> Inl UkiPanics"
proof -
  define off where "off = section_table_off info + (unat (section_count info) + i) * SECTION_HEADER_SIZE"
  have fit: "off + SECTION_HEADER_SIZE \<le> length img" using assms(2) by (simp add: off_def SECTION_HEADER_SIZE_def)
  have "write_section_header n vs q rs r (subslice off (off + SECTION_HEADER_SIZE) im) \<noteq> Inl UkiPanics"
    if "off + SECTION_HEADER_SIZE \<le> length im" for n vs q rs r im
    using that by (intro header_total) (simp add: SECTION_HEADER_SIZE_def)
  moreover have "write_bytes im off h \<noteq> Inl UkiPanics"
    if "write_section_header n vs q rs r (subslice off (off + SECTION_HEADER_SIZE) im) = Inr h" "off + SECTION_HEADER_SIZE \<le> length im" for n vs q rs r im h
    using section_header_written [OF that(1)] write_bytes_ok [of off h im] that(2) by (auto simp: SECTION_HEADER_SIZE_def)
  moreover have short: False
    if "length (resize_to (unat q + k) x) < off + SECTION_HEADER_SIZE" "align_u32 raw (file_alignment info) = Inr q" for q k x
    using align_u32_Inr [OF that(2)] that(1) assms(1) fit by (simp add: resize_to_def min_def split: if_splits)
  ultimately show ?thesis
    unfolding append_section_def by (auto simp: bind_panics Let_def uki_or_Inr not_less simp flip: off_def dest: short)
qed

lemma append_sections_total:
  assumes "length img \<le> unat raw" "section_table_off info + (unat (section_count info) + i + length ps) * 40 \<le> length img"
  shows "append_sections info i ps (img, va, raw) \<noteq> Inl UkiPanics"
  using assms
proof (induction ps arbitrary: i img va raw)
  case (Cons p ps)
  have fit: "section_table_off info + (unat (section_count info) + i) * 40 + 40 \<le> length img" using Cons.prems(2) by simp
  have "append_sections info (i + 1) ps st \<noteq> Inl UkiPanics" if a: "append_section info i p (img, va, raw) = Inr st" for st
  proof -
    obtain out va' raw' where st: "st = (out, va', raw')" by (cases st)
    from append_section_placed [OF a [unfolded st] Cons.prems(1) refl fit] have "length out = unat raw'" "length img \<le> length out"
      using Cons.prems(1) by auto
    then show ?thesis unfolding st using Cons.prems(2) by (intro Cons.IH) simp_all
  qed
  then show ?case using append_section_total [OF Cons.prems(1) fit] by (auto simp: bind_panics)
qed simp

lemma appended_length:
  assumes "stub_layout stub info ss" "ensure_section_header_room stub info n = Inr (img, info')"
    and "unat n = unat (section_count info) + length ps"
  defines "padded \<equiv> if length img < unat (next_raw_pointer info') then resize_to (unat (next_raw_pointer info')) img else img"
  shows "append_sections info' 0 ps (padded, next_virtual_address info', next_raw_pointer info') \<noteq> Inl UkiPanics
    \<and> (\<forall>out va raw. append_sections info' 0 ps (padded, next_virtual_address info', next_raw_pointer info') = Inr (out, va, raw) \<longrightarrow>
         coff_off info' + 84 \<le> length out \<and> size_of_headers_off info' = coff_off info' + 80 \<and> size_of_image_off info' = coff_off info' + 76)"
proof -
  note l = assms(1) [unfolded stub_layout_def]
  obtain delta where "room_made stub info ss delta img info'" and fit: "section_table_off info + unat n * 40 \<le> first_raw_section_off info'"
    using section_header_room [OF assms(1,2)] by blast
  note r = this(1) [unfolded room_made_def]
  obtain f where "f \<in> set ss" "es_raw_pointer f \<noteq> 0" "unat (es_raw_pointer f) = first_raw_section_off info"
    using first_raw_mem l by blast
  with l have fl: "first_raw_section_off info \<le> length stub" by (metis add_leD1)
  have inf: "section_table_off info' = section_table_off info" "section_count info' = section_count info" "coff_off info' = coff_off info"
    "size_of_headers_off info' = coff_off info + 80" "size_of_image_off info' = coff_off info + 76"
    "first_raw_section_off info' = first_raw_section_off info + unat delta" "unat (next_raw_pointer info') = unat (next_raw_pointer info) + unat delta"
    using r l by (simp_all add: pe_at_def)
  have tab: "coff_off info + 84 \<le> section_table_off info" using l by (auto simp: pe_at_def)
  have len: "length padded = unat (next_raw_pointer info')" using l r inf by (auto simp: padded_def resize_to_def)
  have fits: "section_table_off info + unat n * 40 \<le> length padded" using len fit inf fl l by simp
  have "coff_off info + 84 \<le> length out"
    if "append_sections info' 0 ps (padded, next_virtual_address info', next_raw_pointer info') = Inr (out, va, raw)" for out va raw
    using append_sections_placed [OF that _ refl] len fits assms(3) inf tab by (auto simp: algebra_simps)
  moreover have "append_sections info' 0 ps (padded, next_virtual_address info', next_raw_pointer info') \<noteq> Inl UkiPanics"
    using len fits assms(3) inf by (intro append_sections_total) simp_all
  ultimately show ?thesis using inf by simp
qed

text \<open>C37. A build never panics on a stub of this kind: whatever the payloads, it ends with an image or a
  reported error.\<close>

theorem uki_no_panic:
  assumes "stub_layout stub info ss"
  shows "build_uki stub ps \<noteq> Inl UkiPanics"
proof
  assume p: "build_uki stub ps = Inl UkiPanics"
  note l = assms [unfolded stub_layout_def]
  have pe: "parse_pe stub = Inr info" using l parse_pe_complete by blast
  obtain f where f: "f \<in> set ss" "es_raw_pointer f \<noteq> 0" "unat (es_raw_pointer f) = first_raw_section_off info"
    using first_raw_mem l by blast
  with l have fl: "first_raw_section_off info \<le> length stub" by (metis add_leD1)
  have room: "ensure_section_header_room stub info n \<noteq> Inl UkiPanics" for n
    using fl by (auto simp: ensure_section_header_room_def bind_panics Let_def insert_zeroes_def)
  obtain n img info' where n: "length ps < 2 ^ 16" "checked_add (section_count info) (of_nat (length ps)) = Some n"
    and r: "ensure_section_header_room stub info n = Inr (img, info')"
    using p pe room by (auto simp: build_uki_def bind_panics uki_or_Inr if_else_Inr)
  have "unat n = unat (section_count info) + length ps"
    using checked_add_Some [OF n(2), THEN conjunct1] n(1) by (simp add: unat_of_nat)
  note a = appended_length [OF assms r this]
  have w: "\<exists>t. write_u16 s (coff_off info' + 2) v = Inr t \<and> length t = length s" if "coff_off info' + 84 \<le> length s" for s v
    using that by (intro write_u16_ok) simp
  have w1: "\<exists>t. write_u32 s (coff_off info' + 80) v = Inr t \<and> length t = length s" if "coff_off info' + 84 \<le> length s" for s v
    using that by (intro write_u32_ok) simp
  have w2: "\<exists>t. write_u32 s (coff_off info' + 76) v = Inr t" if "coff_off info' + 84 \<le> length s" for s v
    using write_u32_ok [of "coff_off info' + 76" s v] that by auto
  obtain out va raw where ap: "append_sections info' 0 ps (if length img < unat (next_raw_pointer info')
        then resize_to (unat (next_raw_pointer info')) img else img, next_virtual_address info', next_raw_pointer info') = Inr (out, va, raw)"
    and late: "write_u16 out (coff_off info' + 2) n = Inl UkiPanics
      \<or> (\<exists>i2 h. write_u16 out (coff_off info' + 2) n = Inr i2 \<and> (write_u32 i2 (size_of_headers_off info') h = Inl UkiPanics
          \<or> (\<exists>i3 s. write_u32 i2 (size_of_headers_off info') h = Inr i3 \<and> write_u32 i3 (size_of_image_off info') s = Inl UkiPanics)))"
    using p pe n r a by (auto simp: build_uki_def bind_panics uki_or_Inr if_else_Inr if_panics Let_def) blast+
  have len: "coff_off info' + 84 \<le> length out" "size_of_headers_off info' = coff_off info' + 80" "size_of_image_off info' = coff_off info' + 76"
    using a ap by blast+
  from late show False
  proof (elim disjE exE conjE)
    assume "write_u16 out (coff_off info' + 2) n = Inl UkiPanics"
    with w [OF len(1), of n] show False by auto
  next
    fix i2 h assume i2: "write_u16 out (coff_off info' + 2) n = Inr i2" and h: "write_u32 i2 (size_of_headers_off info') h = Inl UkiPanics"
    show False using w1 [of i2 h] h len write_length(2) [OF i2] by auto
  next
    fix i2 h i3 s assume i2: "write_u16 out (coff_off info' + 2) n = Inr i2" and i3: "write_u32 i2 (size_of_headers_off info') h = Inr i3"
      and s: "write_u32 i3 (size_of_image_off info') s = Inl UkiPanics"
    show False using w2 [of i3 s] s len write_length(2) [OF i2] write_length(1) [OF i3] by auto
  qed
qed

theorem uki_no_panic_witness: "build_uki small_stub [linux_payload, linux_payload] \<noteq> Inl UkiPanics"
  by (rule uki_no_panic [OF small_layout])

text \<open>C38. Without that kind of stub a payload can be lost: when bytes follow the last section of the stub (a
  signature, a symbol table) and reach past the place of the new section, the payload is appended after
  them and cut off again, while the header it gets names those bytes.\<close>

theorem trailing_bytes_replace_payload:
  assumes "append_section info i p (img, va, raw) = Inr (out, va', raw')"
    and "off = section_table_off info + (unat (section_count info) + i) * 40" "off + 40 \<le> unat raw"
    and "unat raw' \<le> length img"
  shows "\<exists>s. read_section out off = Inr s \<and> unat (es_virtual_size s) = length (ps_data p)
    \<and> length out = raw_end s
    \<and> subslice (unat (es_raw_pointer s)) (raw_end s) out = subslice (unat (es_raw_pointer s)) (raw_end s) img"
proof -
  let ?d = "ps_data p"
  obtain vs q r rs h where vs: "to_u32 (length ?d) = Some vs"
    and "align_u32 va (section_alignment info) = Inr q" and r: "align_u32 raw (file_alignment info) = Inr r"
    and "align_u32 vs (file_alignment info) = Inr rs"
    and tail: "let img1 = (if length img < unat r then resize_to (unat r) img else img);
        img2 = resize_to (unat r + unat rs) (img1 @ ?d) in
        write_section_header (ps_name p) vs q rs r (subslice off (off + 40) img2) = Inr h
        \<and> put off h img2 = Some out \<and> off + 40 \<le> length img2"
    and raw': "checked_add r rs = Some raw'"
    using assms(1) unfolding append_section_def assms(2)
    by (auto simp: bind_Inr uki_or_Inr write_bytes_Inr SECTION_HEADER_SIZE_def Let_def if_Inr)
  note ra = align_u32_Inr [OF r] and e = checked_add_Some [OF raw', THEN conjunct1]
  define img2 where "img2 = take (unat r + unat rs) img"
  have "resize_to (unat r + unat rs) (img @ ?d) = img2" "\<not> length img < unat r" using assms(4) e by (simp_all add: resize_to_def img2_def)
  with tail have h: "write_section_header (ps_name p) vs q rs r (subslice off (off + 40) img2) = Inr h"
    and put: "put off h img2 = Some out" and off: "off + 40 \<le> length img2"
    by (simp_all add: Let_def)
  have l2: "length img2 = unat r + unat rs" using assms(4) e by (simp add: img2_def)
  have hl: "length (subslice off (off + 40) img2) = 40" using off by simp
  note hw = section_header_written [OF h hl]
  let ?s = "\<lparr>es_virtual_address = q, es_virtual_size = vs, es_raw_pointer = r, es_raw_size = rs\<rparr>"
  have in': "subslice off (off + 40) out = h" using put_inside [OF put, of "off + 40"] hw by simp
  have "read_section out off = Inr ?s"
    using hw off read_u32_part [OF in'] put_length [OF put] by (simp add: read_section_Inr)
  moreover have "agree (unat r) (unat r + unat rs) img2 out"
    using put_agree [OF put, of "unat r + unat rs" "unat r"] hw l2 ra assms(3) by simp
  then have "subslice (unat r) (unat r + unat rs) out = subslice (unat r) (unat r + unat rs) img2"
    using agree_subslice [of "unat r" "unat r + unat rs" img2 out "unat r" "unat r + unat rs"] by simp
  moreover have "subslice (unat r) (unat r + unat rs) img2 = subslice (unat r) (unat r + unat rs) img"
    by (simp add: img2_def subslice_def drop_take)
  ultimately show ?thesis using to_u32_Some [OF vs] l2 put_length [OF put] by (intro exI [of _ ?s]) simp
qed

theorem trailing_bytes_replace_payload_witness:
  "\<exists>out s. append_section (small_info\<lparr>first_raw_section_off := 232, next_raw_pointer := 236\<rparr>) 0 linux_payload
        (replicate 300 5, 4100, 236) = Inr (out, 8195, 240)
    \<and> read_section out 192 = Inr s \<and> unat (es_virtual_size s) = 3
    \<and> subslice (unat (es_raw_pointer s)) (raw_end s) out = subslice (unat (es_raw_pointer s)) (raw_end s) (replicate 300 5)"
proof -
  obtain out where a: "append_section (small_info\<lparr>first_raw_section_off := 232, next_raw_pointer := 236\<rparr>) 0 linux_payload
      (replicate 300 5, 4100, 236) = Inr (out, 8195, 240)"
    using small_append [of "replicate 300 5"] by auto
  from trailing_bytes_replace_payload [OF this, of 192] a show ?thesis by auto
qed

end
