(* ===== verification/Uki_Run.thy ===== *)
theory Uki_Run
  imports Uki_Build Reg_Scan "HOL-Library.Sublist"
begin

text \<open>
  The commands around the image builder of \<open>src/uu/mkuki/src/mkuki.rs\<close>: finding the kernel, reading the
  command line, writing the image, and the resident loop that builds it again when an input changes.
  Files and directories are what the file system answers; a failed call is an answer too.
\<close>

section \<open>Paths\<close>

text \<open>\<open>Path::parent\<close>: the last component goes, and with it the separators and dots before it.\<close>

function strip_tail :: "bytes \<Rightarrow> bytes" where
  "strip_tail p =
     (if 1 < length p \<and> last p = 0x2F then strip_tail (butlast p)
      else if 1 < length p \<and> last p = 0x2E \<and> p ! (length p - 2) = 0x2F then strip_tail (butlast p)
      else p)"
  by pat_completeness auto
termination
  by (relation "measure length") auto

declare strip_tail.simps [simp del]

definition path_parent :: "bytes \<Rightarrow> bytes option" where
  "path_parent p =
     (if path_components p = [] \<or> path_components p = [(1, [])] then None
      else Some (strip_tail (rev (dropWhile (\<lambda>c. c \<noteq> 0x2F) (rev (strip_tail p))))))"

definition path_join :: "bytes \<Rightarrow> bytes \<Rightarrow> bytes" where
  "path_join dir name =
     (if name \<noteq> [] \<and> hd name = 0x2F then name
      else if dir = [] \<or> last dir = 0x2F then dir @ name else dir @ 0x2F # name)"



section \<open>Configuration\<close>

datatype kernel_source = KernelFile bytes | KernelDirectory bytes
datatype cmdline_source = CmdlineLiteral rust_str | CmdlineFile bytes

record config =
  cf_stub :: "bytes option"
  cf_kernel :: kernel_source
  cf_initramfs :: bytes
  cf_cmdline :: cmdline_source
  cf_out :: bytes

text \<open>What clap matched for the options of the same names.\<close>

record uki_matches =
  ma_stub :: "bytes option"
  ma_kernel :: "bytes option"
  ma_kernel_dir :: "bytes option"
  ma_initramfs :: "bytes option"
  ma_cmdline :: "rust_str option"
  ma_cmdline_file :: "bytes option"
  ma_out :: "bytes option"

datatype config_error = BothCmdlines | MissingCmdline | BothKernels | MissingKernel | MissingInitramfs | MissingOut

definition from_matches :: "uki_matches \<Rightarrow> config_error + config" where
  "from_matches m =
     result_bind (case (ma_cmdline m, ma_cmdline_file m) of
         (Some s, None) \<Rightarrow> Inr (CmdlineLiteral s)
       | (None, Some p) \<Rightarrow> Inr (CmdlineFile p)
       | (Some _, Some _) \<Rightarrow> Inl BothCmdlines
       | (None, None) \<Rightarrow> Inl MissingCmdline) (\<lambda>cmdline.
     result_bind (case (ma_kernel m, ma_kernel_dir m) of
         (Some p, None) \<Rightarrow> Inr (KernelFile p)
       | (None, Some p) \<Rightarrow> Inr (KernelDirectory p)
       | (Some _, Some _) \<Rightarrow> Inl BothKernels
       | (None, None) \<Rightarrow> Inl MissingKernel) (\<lambda>kernel.
     result_bind (ok_or MissingInitramfs (ma_initramfs m)) (\<lambda>initramfs.
     result_bind (ok_or MissingOut (ma_out m)) (\<lambda>out.
     Inr \<lparr>cf_stub = ma_stub m, cf_kernel = kernel, cf_initramfs = initramfs, cf_cmdline = cmdline, cf_out = out\<rparr>))))"

section \<open>Inputs\<close>

datatype run_error =
    ReadFails bytes
  | KernelDirFails bytes
  | KernelEntryFails bytes
  | InspectFails bytes
  | NoKernel bytes
  | SeveralKernels nat bytes
  | NulInCmdline
  | UkiStops uki_stop
  | CreateDirFails bytes
  | InstallFails

datatype entry_kind = KindFile | KindDir | KindOther

text \<open>
  An entry of a directory: its name and its kind, each of which may fail to be read. The writing side of
  the system: the file that \<open>NamedTempFile::new_in\<close> creates in a directory, if it can; after how many bytes
  writing a file fails, if it does; whether a file can be renamed and whether one can be removed.
\<close>

type_synonym dir_item = "(bytes \<times> entry_kind option) option"

record uki_env =
  ue_read :: "bytes \<Rightarrow> bytes option"
  ue_dir :: "bytes \<Rightarrow> dir_item list option"
  ue_create_dir :: "bytes \<Rightarrow> bool"
  ue_temp :: "bytes \<Rightarrow> (bytes \<Rightarrow> bytes option) \<Rightarrow> bytes option"
  ue_write :: "bytes \<Rightarrow> nat option"
  ue_rename :: "bytes \<Rightarrow> bytes \<Rightarrow> bool"
  ue_unlink :: "bytes \<Rightarrow> bool"
  ue_default_stub :: bytes

definition read_input :: "uki_env \<Rightarrow> bytes \<Rightarrow> run_error + bytes" where
  "read_input E path = ok_or (ReadFails path) (ue_read E path)"

definition starts_vmlinuz :: "bytes \<Rightarrow> bool" where
  "starts_vmlinuz name \<longleftrightarrow> strip_prefix (lit ''vmlinuz-'') (from_utf8_lossy name) \<noteq> None"

fun release_kernels :: "bytes \<Rightarrow> dir_item list \<Rightarrow> run_error + bytes list" where
  "release_kernels dir [] = Inr []"
| "release_kernels dir (None # es) = Inl (KernelEntryFails dir)"
| "release_kernels dir (Some (name, kind) # es) =
     (if starts_vmlinuz name then
        (case kind of
           None \<Rightarrow> Inl (InspectFails (path_join dir name))
         | Some k \<Rightarrow> result_bind (release_kernels dir es) (\<lambda>ks. Inr (if k = KindFile then path_join dir name # ks else ks)))
      else release_kernels dir es)"

fun kernel_candidates :: "uki_env \<Rightarrow> bytes \<Rightarrow> dir_item list \<Rightarrow> run_error + bytes list" where
  "kernel_candidates E dir [] = Inr []"
| "kernel_candidates E dir (None # es) = Inl (KernelEntryFails dir)"
| "kernel_candidates E dir (Some (name, kind) # es) =
     (let release = path_join dir name in
      case kind of
        None \<Rightarrow> Inl (InspectFails release)
      | Some k \<Rightarrow>
          if k \<noteq> KindDir then kernel_candidates E dir es
          else case ue_dir E release of
            None \<Rightarrow> Inl (KernelDirFails release)
          | Some items \<Rightarrow>
              result_bind (release_kernels release items) (\<lambda>ks.
              result_bind (kernel_candidates E dir es) (\<lambda>rest. Inr (ks @ rest))))"

fun resolve_kernel :: "uki_env \<Rightarrow> kernel_source \<Rightarrow> run_error + bytes" where
  "resolve_kernel E (KernelFile path) = Inr path"
| "resolve_kernel E (KernelDirectory path) =
     (case ue_dir E path of
        None \<Rightarrow> Inl (KernelDirFails path)
      | Some items \<Rightarrow>
          result_bind (kernel_candidates E path items) (\<lambda>cs.
          case sort_key path_components cs of
            [c] \<Rightarrow> Inr c
          | [] \<Rightarrow> Inl (NoKernel path)
          | _ \<Rightarrow> Inl (SeveralKernels (length cs) path)))"

definition trim_newlines :: "bytes \<Rightarrow> bytes" where
  "trim_newlines b = rev (dropWhile (\<lambda>c. c = 0x0A \<or> c = 0x0D) (rev b))"

definition read_cmdline :: "uki_env \<Rightarrow> cmdline_source \<Rightarrow> run_error + bytes" where
  "read_cmdline E c =
     result_bind (case c of CmdlineLiteral s \<Rightarrow> Inr (utf8 s) | CmdlineFile p \<Rightarrow> read_input E p) (\<lambda>b.
     if 0 \<in> set (trim_newlines b) then Inl NulInCmdline else Inr (trim_newlines b @ [0]))"

section \<open>Building and installing\<close>

definition uki_payloads :: "bytes \<Rightarrow> bytes \<Rightarrow> bytes \<Rightarrow> payload_section list" where
  "uki_payloads cmdline vmlinuz initramfs =
     [\<lparr>ps_name = lit ''.cmdline'', ps_data = cmdline\<rparr>, \<lparr>ps_name = lit ''.linux'', ps_data = vmlinuz\<rparr>,
      \<lparr>ps_name = lit ''.initrd'', ps_data = initramfs\<rparr>]"

definition image_of :: "uki_env \<Rightarrow> config \<Rightarrow> run_error + bytes" where
  "image_of E cf =
     result_bind (case cf_stub cf of Some p \<Rightarrow> read_input E p | None \<Rightarrow> Inr (ue_default_stub E)) (\<lambda>stub.
     result_bind (resolve_kernel E (cf_kernel cf)) (\<lambda>kernel_path.
     result_bind (read_input E kernel_path) (\<lambda>kernel.
     result_bind (read_input E (cf_initramfs cf)) (\<lambda>initramfs.
     result_bind (read_cmdline E (cf_cmdline cf)) (\<lambda>cmdline.
     case build_uki stub (uki_payloads cmdline kernel initramfs) of
       Inl e \<Rightarrow> Inl (UkiStops e) | Inr img \<Rightarrow> Inr img)))))"

text \<open>
  The files of the system are a map. An operation on them returns, with its result, the maps that any other
  program can see on the way, in order; \<open>write_all\<close> may be seen after any byte. A temporary file that
  goes out of scope without being renamed is removed, as far as possible.
\<close>

type_synonym files = "bytes \<Rightarrow> bytes option"

definition drop_temp :: "uki_env \<Rightarrow> bytes \<Rightarrow> files \<Rightarrow> files" where
  "drop_temp E tmp fs = (if ue_unlink E tmp then fs(tmp := None) else fs)"

definition install_dir :: "bytes \<Rightarrow> bytes" where
  "install_dir out =
     (case path_parent out of Some p \<Rightarrow> if p = [] then ascii ''.'' else p | None \<Rightarrow> ascii ''.'')"

definition write_uki_image :: "uki_env \<Rightarrow> bytes \<Rightarrow> bytes \<Rightarrow> files \<Rightarrow> (run_error + unit) \<times> files list" where
  "write_uki_image E out img fs =
     (case ue_temp E (install_dir out) fs of
        None \<Rightarrow> (Inl InstallFails, [])
      | Some tmp \<Rightarrow>
          let part = (\<lambda>n. fs(tmp \<mapsto> take n img)) in
          case ue_write E tmp of
            Some n \<Rightarrow> (Inl InstallFails, map part [0..<Suc n] @ [drop_temp E tmp (part n)])
          | None \<Rightarrow>
              let written = part (length img); seen = map part [0..<Suc (length img)] in
              if ue_rename E tmp out then (Inr (), seen @ [(written(out := written tmp))(tmp := None)])
              else (Inl InstallFails, seen @ [drop_temp E tmp written]))"

definition run_uki :: "uki_env \<Rightarrow> config \<Rightarrow> files \<Rightarrow> (run_error + unit) \<times> files list" where
  "run_uki E cf fs =
     (case image_of E cf of
        Inl e \<Rightarrow> (Inl e, [])
      | Inr img \<Rightarrow>
          (case path_parent (cf_out cf) of
             Some parent \<Rightarrow>
               if parent \<noteq> [] \<and> \<not> ue_create_dir E parent then (Inl (CreateDirFails parent), [])
               else write_uki_image E (cf_out cf) img fs
           | None \<Rightarrow> write_uki_image E (cf_out cf) img fs))"

section \<open>Watching\<close>















section \<open>Runs of the watch loop\<close>

























section \<open>What a run installs\<close>

text \<open>
  The kernels of a directory, read off the listings: the regular files \<open>vmlinuz-*\<close> in the directories in
  it. \<open>listed\<close> says that everything the search has to look at can be read.
\<close>

definition is_vmlinuz :: "bytes \<Rightarrow> bool" where
  "is_vmlinuz name \<longleftrightarrow> prefix (lit ''vmlinuz-'') (from_utf8_lossy name)"

definition vmlinuz_files :: "bytes \<Rightarrow> dir_item list \<Rightarrow> bytes list" where
  "vmlinuz_files dir items = [path_join dir v. Some (v, Some KindFile) \<leftarrow> items, is_vmlinuz v]"

definition kernels_in :: "uki_env \<Rightarrow> bytes \<Rightarrow> dir_item list \<Rightarrow> bytes list" where
  "kernels_in E d items =
     concat [vmlinuz_files (path_join d r) (the (ue_dir E (path_join d r))). Some (r, Some KindDir) \<leftarrow> items]"

definition files_listed :: "dir_item list \<Rightarrow> bool" where
  "files_listed items \<longleftrightarrow> (\<forall>e \<in> set items. \<exists>v k. e = Some (v, k) \<and> (is_vmlinuz v \<longrightarrow> k \<noteq> None))"

definition listed :: "uki_env \<Rightarrow> bytes \<Rightarrow> dir_item list \<Rightarrow> bool" where
  "listed E d items \<longleftrightarrow> (\<forall>e \<in> set items. \<exists>r k. e = Some (r, Some k)
     \<and> (k = KindDir \<longrightarrow> (\<exists>sub. ue_dir E (path_join d r) = Some sub \<and> files_listed sub)))"

lemma starts_vmlinuz_iff: "starts_vmlinuz v \<longleftrightarrow> is_vmlinuz v"
  by (auto simp: starts_vmlinuz_def is_vmlinuz_def strip_prefix_Some prefix_def)

lemma vmlinuz_files_simps [simp]:
  "vmlinuz_files dir [] = []"
  "vmlinuz_files dir (Some (v, k) # es) =
     (if k = Some KindFile \<and> is_vmlinuz v then [path_join dir v] else []) @ vmlinuz_files dir es"
  by (simp_all add: vmlinuz_files_def split: option.split entry_kind.split)

lemma kernels_in_simps [simp]:
  "kernels_in E d [] = []"
  "kernels_in E d (Some (r, Some k) # es) =
     (if k = KindDir then vmlinuz_files (path_join d r) (the (ue_dir E (path_join d r))) else []) @ kernels_in E d es"
  by (simp_all add: kernels_in_def split: entry_kind.split)

lemma listed_simps [simp]:
  "files_listed []" "\<not> files_listed (None # items)"
  "files_listed (Some (v, k) # items) \<longleftrightarrow> (is_vmlinuz v \<longrightarrow> k \<noteq> None) \<and> files_listed items"
  "listed E d []" "\<not> listed E d (None # es)" "\<not> listed E d (Some (r, None) # es)"
  "listed E d (Some (r, Some l) # es) \<longleftrightarrow>
     (l = KindDir \<longrightarrow> (\<exists>sub. ue_dir E (path_join d r) = Some sub \<and> files_listed sub)) \<and> listed E d es"
  by (auto simp: files_listed_def listed_def)

lemma release_kernels_Inr:
  "release_kernels dir items = Inr ks \<longleftrightarrow> files_listed items \<and> ks = vmlinuz_files dir items"
proof (induction dir items arbitrary: ks rule: release_kernels.induct)
  case (3 dir name kind es)
  then show ?case
    by (cases kind) (auto simp: starts_vmlinuz_iff bind_Inr)
qed auto

lemma kernel_candidates_Inr:
  "kernel_candidates E d items = Inr ks \<longleftrightarrow> listed E d items \<and> ks = kernels_in E d items"
proof (induction items arbitrary: ks)
  case (Cons e es)
  consider "e = None" | r where "e = Some (r, None)" | r k where "e = Some (r, Some k)" by (metis option.exhaust surj_pair)
  then show ?case
  proof cases
    case 3
    then show ?thesis
      by (auto simp: Let_def Cons release_kernels_Inr bind_Inr split: option.splits)
  qed simp_all
qed auto


lemma resolve_kernel_Inr:
  "resolve_kernel E src = Inr k \<longleftrightarrow>
     (case src of KernelFile p \<Rightarrow> k = p
      | KernelDirectory d \<Rightarrow> \<exists>items. ue_dir E d = Some items \<and> listed E d items \<and> kernels_in E d items = [k])"
proof (cases src)
  case (KernelDirectory d)
  have sorted: "sort_key path_components cs = [k] \<longleftrightarrow> cs = [k]" for cs
  proof
    assume "sort_key path_components cs = [k]"
    then have "mset cs = {#k#}" by (metis mset_single_iff_right mset_sort)
    then show "cs = [k]" by simp
  qed simp
  have "(case sort_key path_components cs of [c] \<Rightarrow> Inr c | [] \<Rightarrow> Inl (NoKernel d) | _ \<Rightarrow> Inl (SeveralKernels (length cs) d)) = Inr k
      \<longleftrightarrow> sort_key path_components cs = [k]" for cs
    by (auto split: list.splits)
  with sorted KernelDirectory show ?thesis
    by (auto simp: bind_Inr kernel_candidates_Inr split: option.split)
qed auto

text \<open>A line without the line ends after it.\<close>

definition line_of :: "bytes \<Rightarrow> bytes \<Rightarrow> bool" where
  "line_of text line \<longleftrightarrow> (\<exists>ends. text = line @ ends \<and> set ends \<subseteq> {0x0A, 0x0D}) \<and> (line = [] \<or> last line \<notin> {0x0A, 0x0D})"

lemma trim_newlines_iff: "trim_newlines b = line \<longleftrightarrow> line_of b line"
proof -
  let ?p = "\<lambda>c. c = (0x0A :: u8) \<or> c = 0x0D"
  have "line_of b (trim_newlines b)"
  proof -
    have "b = trim_newlines b @ rev (takeWhile ?p (rev b))"
      unfolding trim_newlines_def by (metis rev_append rev_rev_ident takeWhile_dropWhile_id)
    moreover have "set (rev (takeWhile ?p (rev b))) \<subseteq> {0x0A, 0x0D}" by (auto dest: set_takeWhileD)
    moreover have "trim_newlines b = [] \<or> \<not> ?p (last (trim_newlines b))"
      unfolding trim_newlines_def using hd_dropWhile [of ?p "rev b"] by (simp add: last_rev) blast
    ultimately show ?thesis unfolding line_of_def by blast
  qed
  moreover have "trim_newlines b = line" if "line_of b line"
  proof -
    from that obtain ends where b: "b = line @ ends" "set ends \<subseteq> {0x0A, 0x0D}" and l: "line = [] \<or> \<not> ?p (last line)"
      by (auto simp: line_of_def)
    have "dropWhile ?p (rev ends @ rev line) = dropWhile ?p (rev line)"
      using b(2) by (intro dropWhile_append2) auto
    also have "\<dots> = rev line" using l by (auto simp: dropWhile_eq_self_iff hd_rev)
    finally show ?thesis by (simp add: trim_newlines_def b(1))
  qed
  ultimately show ?thesis by blast
qed

text \<open>The image a configuration asks for.\<close>

definition configured_image :: "uki_env \<Rightarrow> config \<Rightarrow> bytes \<Rightarrow> bool" where
  "configured_image E cf img \<longleftrightarrow>
     (\<exists>stub kernel vmlinuz initramfs text line.
        (case cf_stub cf of Some p \<Rightarrow> ue_read E p = Some stub | None \<Rightarrow> stub = ue_default_stub E)
        \<and> (case cf_kernel cf of KernelFile p \<Rightarrow> kernel = p
           | KernelDirectory d \<Rightarrow> \<exists>items. ue_dir E d = Some items \<and> listed E d items \<and> kernels_in E d items = [kernel])
        \<and> ue_read E kernel = Some vmlinuz \<and> ue_read E (cf_initramfs cf) = Some initramfs
        \<and> (case cf_cmdline cf of CmdlineLiteral s \<Rightarrow> text = utf8 s | CmdlineFile p \<Rightarrow> ue_read E p = Some text)
        \<and> line_of text line \<and> 0 \<notin> set line
        \<and> build_uki stub [\<lparr>ps_name = lit ''.cmdline'', ps_data = line @ [0]\<rparr>, \<lparr>ps_name = lit ''.linux'', ps_data = vmlinuz\<rparr>,
             \<lparr>ps_name = lit ''.initrd'', ps_data = initramfs\<rparr>] = Inr img)"

lemma read_input_Inr: "read_input E p = Inr b \<longleftrightarrow> ue_read E p = Some b"
  by (simp add: read_input_def ok_or_def split: option.split)

lemma read_cmdline_Inr:
  "read_cmdline E c = Inr out \<longleftrightarrow>
     (\<exists>text line. (case c of CmdlineLiteral s \<Rightarrow> text = utf8 s | CmdlineFile p \<Rightarrow> ue_read E p = Some text)
        \<and> line_of text line \<and> 0 \<notin> set line \<and> out = line @ [0])"
  by (cases c) (auto simp: read_cmdline_def bind_Inr read_input_Inr simp flip: trim_newlines_iff)

lemma image_of_Inr: "image_of E cf = Inr img \<longleftrightarrow> configured_image E cf img"
proof -
  have stub: "(case cf_stub cf of Some p \<Rightarrow> read_input E p | None \<Rightarrow> Inr (ue_default_stub E)) = Inr s \<longleftrightarrow>
      (case cf_stub cf of Some p \<Rightarrow> ue_read E p = Some s | None \<Rightarrow> s = ue_default_stub E)" for s
    by (auto simp: read_input_Inr split: option.split)
  have built: "(case r of Inl e \<Rightarrow> Inl (UkiStops e) | Inr img \<Rightarrow> Inr img) = Inr img \<longleftrightarrow> r = Inr img" for r
    by (cases r) simp_all
  show ?thesis
    unfolding image_of_def bind_Inr stub built read_input_Inr resolve_kernel_Inr read_cmdline_Inr configured_image_def
      uki_payloads_def
    by blast
qed

text \<open>The directory is there, and the image can be written and renamed.\<close>

definition installable :: "uki_env \<Rightarrow> bytes \<Rightarrow> files \<Rightarrow> bool" where
  "installable E out fs \<longleftrightarrow>
     (\<forall>p. path_parent out = Some p \<longrightarrow> p = [] \<or> ue_create_dir E p)
     \<and> (\<exists>tmp. ue_temp E (install_dir out) fs = Some tmp \<and> ue_write E tmp = None \<and> ue_rename E tmp out)"

lemma write_uki_image_seen:
  assumes "write_uki_image E out img fs = (r, seen)"
    and "\<And>tmp. ue_temp E (install_dir out) fs = Some tmp \<Longrightarrow> tmp \<noteq> out \<and> fs tmp = None"
  shows "(\<forall>fs' \<in> set seen. (fs' out = fs out \<or> fs' out = Some img) \<and> (\<forall>f. f \<noteq> out \<longrightarrow> fs f \<noteq> None \<longrightarrow> fs' f = fs f))
    \<and> (r = Inr () \<longleftrightarrow> (\<exists>tmp. ue_temp E (install_dir out) fs = Some tmp \<and> ue_write E tmp = None \<and> ue_rename E tmp out))
    \<and> (case r of Inr _ \<Rightarrow> last (fs # seen) = fs(out \<mapsto> img)
       | Inl _ \<Rightarrow> (\<forall>fs' \<in> set seen. fs' out = fs out) \<and> ((\<forall>tmp. ue_unlink E tmp) \<longrightarrow> last (fs # seen) = fs))"
proof (cases "ue_temp E (install_dir out) fs")
  case None
  then show ?thesis using assms(1) by (auto simp: write_uki_image_def)
next
  case (Some tmp)
  then have tmp: "tmp \<noteq> out" "fs tmp = None" using assms(2) by blast+
  show ?thesis
  proof (cases "ue_write E tmp")
    case None
    then show ?thesis
      using assms(1) Some tmp
      by (cases "ue_rename E tmp out") (auto simp: write_uki_image_def drop_temp_def fun_eq_iff Let_def)
  next
    case (Some n)
    with \<open>ue_temp E (install_dir out) fs = Some tmp\<close> show ?thesis
      using assms(1) tmp by (auto simp: write_uki_image_def drop_temp_def fun_eq_iff Let_def)
  qed
qed

text \<open>C40. A run installs the configured image as a whole or not at all: whatever happens, and at every moment on
  the way, the output is what it was or the image built from the configured stub, the kernel (of a
  kernel directory the only \<open>vmlinuz-*\<close> file in it), the initramfs and the command line without the line
  ends after it, which has no NUL byte and is ended by one; no other existing file is touched. The
  run succeeds exactly when there is such an image and it can be written and renamed, and then nothing but
  the output has changed; when it fails the output never changes, and no temporary file stays as long as
  files can be removed. The name of the temporary file is new.\<close>

theorem run_installs:
  assumes "run_uki E cf fs = (r, seen)"
    and "\<And>tmp. ue_temp E (install_dir (cf_out cf)) fs = Some tmp \<Longrightarrow> tmp \<noteq> cf_out cf \<and> fs tmp = None"
  shows "(\<forall>fs' \<in> set seen. (fs' (cf_out cf) = fs (cf_out cf)
        \<or> (\<exists>img. configured_image E cf img \<and> fs' (cf_out cf) = Some img))
      \<and> (\<forall>f. f \<noteq> cf_out cf \<longrightarrow> fs f \<noteq> None \<longrightarrow> fs' f = fs f))
    \<and> (r = Inr () \<longleftrightarrow> (\<exists>img. configured_image E cf img) \<and> installable E (cf_out cf) fs)
    \<and> (case r of
         Inr _ \<Rightarrow> \<exists>img. configured_image E cf img \<and> last (fs # seen) = fs(cf_out cf \<mapsto> img)
       | Inl _ \<Rightarrow> (\<forall>fs' \<in> set seen. fs' (cf_out cf) = fs (cf_out cf))
           \<and> ((\<forall>tmp. ue_unlink E tmp) \<longrightarrow> last (fs # seen) = fs))"
proof (cases "image_of E cf")
  case (Inl e)
  then have "\<not> configured_image E cf img" for img by (simp flip: image_of_Inr)
  with Inl assms(1) show ?thesis by (auto simp: run_uki_def)
next
  case (Inr img)
  then have img: "configured_image E cf img" by (simp add: image_of_Inr)
  show ?thesis
  proof (cases "\<exists>p. path_parent (cf_out cf) = Some p \<and> p \<noteq> [] \<and> \<not> ue_create_dir E p")
    case True
    then show ?thesis using assms(1) Inr by (auto simp: run_uki_def installable_def)
  next
    case False
    then have w: "write_uki_image E (cf_out cf) img fs = (r, seen)"
      using assms(1) Inr by (auto simp: run_uki_def split: option.splits if_splits)
    have "installable E (cf_out cf) fs \<longleftrightarrow> (\<exists>tmp. ue_temp E (install_dir (cf_out cf)) fs = Some tmp
        \<and> ue_write E tmp = None \<and> ue_rename E tmp (cf_out cf))"
      using False by (auto simp: installable_def)
    with write_uki_image_seen [OF w assms(2)] img show ?thesis by (auto split: sum.splits)
  qed
qed


text \<open>A configuration that gives an image: the small stub with three payloads of three bytes.\<close>

abbreviation roomy_info :: pe_info where
  "roomy_info \<equiv> small_info\<lparr>first_raw_section_off := 312, next_raw_pointer := 316\<rparr>"

lemma roomy: "\<exists>img. ensure_section_header_room small_stub small_info 4 = Inr (img, roomy_info) \<and> length img = 316"
  by (simp add: ensure_section_header_room_def SECTION_HEADER_SIZE_def to_u32_def align_u32_def checked_sub_def checked_add_def
     insert_zeroes_def header_offs_def write_u32_def write_bytes_def put_def to_le_def read_u32_def small_stub_def ascii_def subslice_def)

lemma roomy_append:
  assumes "align_u32 va 4096 = Inr va1" "align_u32 raw 4 = Inr raw" "checked_add va1 3 = Some va2"
    and "checked_add raw 4 = Some raw2" "unat raw2 = unat raw + 4" "unat raw \<le> length img" "316 \<le> unat raw"
    and "length data = 3" "str_len name \<le> 8" "i < 3"
  shows "\<exists>out. append_section roomy_info i \<lparr>ps_name = name, ps_data = data\<rparr> (img, va, raw) = Inr (out, va2, raw2)
    \<and> length out = unat raw2"
proof -
  let ?img = "resize_to (unat raw2) (img @ data)" and ?off = "152 + (1 + i) * 40"
  have l: "length ?img = unat raw2" using assms by (simp add: resize_to_def)
  have fits: "?off + 40 \<le> unat raw2" using assms by simp
  obtain h where h: "write_section_header name 3 va1 4 raw (subslice ?off (?off + 40) ?img) = Inr h"
    using section_header_ok [OF assms(9), of "subslice ?off (?off + 40) ?img" 3 va1 4 raw] l fits by auto
  have "length h = 40" using section_header_written [OF h] l fits by simp
  then obtain out where out: "write_bytes ?img ?off h = Inr out" "length out = unat raw2"
    using write_bytes_ok [of ?off h ?img] write_length(3) l fits by fastforce
  have "align_u32 (3 :: u32) 4 = Inr 4" "to_u32 3 = Some 3"
    by (simp_all add: align_u32_def checked_sub_def checked_add_def to_u32_def)
  moreover have "data \<noteq> []" "\<not> length img < unat raw" "unat (4 :: u32) = 4" using assms(6,8) by auto
  moreover have "unat raw + 4 = unat raw2" "\<not> unat raw2 < ?off + 40" using assms(5) fits by simp_all
  ultimately show ?thesis using assms(1-4,8) h out l
    by (simp add: append_section_def SECTION_HEADER_SIZE_def Let_def del: add_mult_distrib unat_numeral)
qed

abbreviation three_payloads :: "payload_section list" where
  "three_payloads \<equiv> [\<lparr>ps_name = lit ''.cmdline'', ps_data = [1, 2, 0]\<rparr>, \<lparr>ps_name = lit ''.linux'', ps_data = [3, 4, 5]\<rparr>,
     \<lparr>ps_name = lit ''.initrd'', ps_data = [6, 7, 8]\<rparr>]"

lemma three_built: "\<exists>out. build_uki small_stub three_payloads = Inr out"
proof -
  note arith = align_u32_def checked_sub_def checked_add_def to_u32_def
  obtain img where img: "ensure_section_header_room small_stub small_info 4 = Inr (img, roomy_info)" "length img = 316"
    using roomy by blast
  obtain i1 where i1: "append_section roomy_info 0 \<lparr>ps_name = lit ''.cmdline'', ps_data = [1, 2, 0]\<rparr> (img, 4100, 316) = Inr (i1, 8195, 320)"
      "length i1 = 320"
    using roomy_append [of 4100 8192 316 8195 320 img "[1, 2, 0]" "lit ''.cmdline''" 0] img(2)
    by (auto simp: arith lit_def utf8_len_def)
  obtain i2 where i2: "append_section roomy_info 1 \<lparr>ps_name = lit ''.linux'', ps_data = [3, 4, 5]\<rparr> (i1, 8195, 320) = Inr (i2, 12291, 324)"
      "length i2 = 324"
    using roomy_append [of 8195 12288 320 12291 324 i1 "[3, 4, 5]" "lit ''.linux''" 1] i1(2)
    by (auto simp: arith lit_def utf8_len_def)
  obtain i3 where i3: "append_section roomy_info 2 \<lparr>ps_name = lit ''.initrd'', ps_data = [6, 7, 8]\<rparr> (i2, 12291, 324) = Inr (i3, 16387, 328)"
      "length i3 = 328"
    using roomy_append [of 12291 16384 324 16387 328 i2 "[6, 7, 8]" "lit ''.initrd''" 2] i2(2)
    by (auto simp: arith lit_def utf8_len_def)
  have all: "append_sections roomy_info 0 three_payloads (img, 4100, 316) = Inr (i3, 16387, 328)"
    by (simp only: append_sections.simps i1 i2 i3 result_bind_simps add_0 one_add_one)
  obtain i4 where i4: "write_u16 i3 70 4 = Inr i4" "length i4 = 328" using write_u16_ok [of 70 i3] i3 by auto
  obtain i5 where i5: "write_u32 i4 148 312 = Inr i5" "length i5 = 328" using write_u32_ok [of 148 i4] i4 by auto
  obtain i6 where i6: "write_u32 i5 144 20480 = Inr i6" using write_u32_ok [of 144 i5] i5 by auto
  show ?thesis using img all i4 i5 i6
    by (simp add: build_uki_def small_parse arith SECTION_HEADER_SIZE_def del: append_sections.simps)
qed

definition install_env :: uki_env where
  "install_env = \<lparr>ue_read = [ascii ''k'' \<mapsto> [3, 4, 5], ascii ''i'' \<mapsto> [6, 7, 8]], ue_dir = (\<lambda>_. None),
     ue_create_dir = (\<lambda>_. True), ue_temp = (\<lambda>_ _. Some (ascii ''.tmp'')), ue_write = (\<lambda>_. None),
     ue_rename = (\<lambda>_ _. True), ue_unlink = (\<lambda>_. True), ue_default_stub = small_stub\<rparr>"

definition install_config :: config where
  "install_config = \<lparr>cf_stub = None, cf_kernel = KernelFile (ascii ''k''), cf_initramfs = ascii ''i'',
     cf_cmdline = CmdlineLiteral [1, 2, 10], cf_out = ascii ''o''\<rparr>"

lemma install_configured: "\<exists>img. configured_image install_env install_config img"
proof -
  obtain img where img: "build_uki small_stub three_payloads = Inr img" using three_built by blast
  have line: "line_of [1, 2, 10] [1, 2]" "0 \<notin> set [1, 2 :: u8]" by (simp_all add: line_of_def)
  have u: "[1, 2, 10] = utf8 [1, 2, 10]" by (simp add: utf8_char_def)
  have inputs: "cf_stub install_config = None" "cf_kernel install_config = KernelFile (ascii ''k'')"
    "cf_initramfs install_config = ascii ''i''" "cf_cmdline install_config = CmdlineLiteral [1, 2, 10]"
    "ue_default_stub install_env = small_stub"
    "ue_read install_env (ascii ''k'') = Some [3, 4, 5]" "ue_read install_env (ascii ''i'') = Some [6, 7, 8]"
    by (simp_all add: install_config_def install_env_def ascii_def)
  show ?thesis
    unfolding configured_image_def inputs option.case kernel_source.case cmdline_source.case
    using img line u inputs(6,7) append_Cons append_Nil by metis
qed

theorem run_installs_witness:
  "\<exists>seen img. run_uki install_env install_config (\<lambda>_. None) = (Inr (), seen)
     \<and> configured_image install_env install_config img \<and> last ((\<lambda>_. None) # seen) = [ascii ''o'' \<mapsto> img]"
proof -
  let ?fs = "\<lambda>_. None :: bytes option"
  have out: "cf_out install_config = ascii ''o''" by (simp add: install_config_def)
  obtain r seen where run: "run_uki install_env install_config ?fs = (r, seen)" by fastforce
  have can: "installable install_env (ascii ''o'') ?fs"
    by (simp add: installable_def install_env_def)
  have temp: "tmp \<noteq> cf_out install_config \<and> ?fs tmp = None" if "ue_temp install_env (install_dir (cf_out install_config)) ?fs = Some tmp" for tmp
    using that by (auto simp: install_env_def out ascii_def)
  note all = run_installs [OF run temp, unfolded out]
  then have "r = Inr ()" using can install_configured by blast
  moreover from all have "case r of Inr _ \<Rightarrow> \<exists>img. configured_image install_env install_config img \<and> last (?fs # seen) = [ascii ''o'' \<mapsto> img]
      | Inl _ \<Rightarrow> True" by (cases r) simp_all
  ultimately show ?thesis using run by auto
qed

end
