(* ===== verification/Spec2Isabelle.thy ===== *)
theory Spec2Isabelle
  imports Part_Cli Mkirf_Build Umount Reg_Resolve Uki_Run
begin

text \<open>
  \<^bold>\<open>Verification of peiosutils.\<close> The repository holds the command-line utilities of Peios: one executable
  that runs an applet by name (\<open>src/uu/\<close>), shared code (\<open>src/uucore/\<close>) and libraries (\<open>crates/\<close>). Most
  applets are inherited from a fork of coreutils. This development models the applets written for Peios
  whose mistakes cost a disk, a mount or a boot, and the library that answers questions about the
  registry.

  \<^bold>\<open>Conventions.\<close> \<open>Prelude\<close> and \<open>RustStd\<close> hold what every component shares: machine words, the result
  type (a sum, \<open>Inl\<close> for the error), operations with a state (\<open>op\<close>: the state is kept also when they fail),
  byte buffers, little-endian integers, and the parts of the Rust library in use (text as lists of scalar
  values, UTF-8 and UTF-16, trimming, splitting, parsing and printing of integers, checked arithmetic). A
  panic is a value of its own: \<open>None\<close> of an outer option, or a constructor of the error type.
  Arithmetic on words wraps as in a release build; lengths and indices of buffers in memory are naturals.
  What is not under \<open>src/\<close> is an argument of the definitions: the kernel, the file system, libblkid, the
  checksum crate, the compressors, random bytes and what clap matched on the command line. Nothing
  is assumed of these unless a theorem says so by a hypothesis.

  \<^bold>\<open>part: partition tables\<close> (\<open>src/uu/part/src\<close>). \<open>Gpt_Guid\<close> (\<open>gpt/guid.rs\<close>, \<open>types.rs\<close>), \<open>Gpt_Entry\<close>
  (\<open>gpt/entry.rs\<close>, \<open>error.rs\<close>) and \<open>Gpt_Header\<close> (\<open>gpt/header.rs\<close>, \<open>gpt/mbr.rs\<close>) are the encodings; \<open>Gpt\<close>
  (\<open>gpt/mod.rs\<close>) is the table: create, parse, write, free extents, add, remove, problems. \<open>Part_Device\<close>
  (\<open>device.rs\<close>) is the device: geometry, reads and writes that may fail half way, the guards, the retry of
  the re-read, the disk listing. \<open>Part_Label\<close> (\<open>label.rs\<close>) probes a disk and commits a table; \<open>Part_Cli\<close>
  (\<open>cli.rs\<close>) has the commands. The state is the record \<open>gpt\<close>, and below it the bytes of the disk beside an
  arbitrary kernel state (\<open>part_state\<close>). Its lemmas show that every table the program accepts or makes has a
  sound layout (\<open>gpt_layout\<close>) and stays free of problems under edits (an instance of the locale
  \<open>invariant_system\<close>), that what is written reads back, and, put together, what a command does to a disk:
  it writes only behind its guards, never inside a partition when it edits a table, and after success a
  probe finds exactly the table it computed. The retry loop is a \<open>partial_function\<close>; that it returns is proved.

  \<^bold>\<open>mkirf and mkuki: boot images\<close>. \<open>Mkirf_Cpio\<close> (\<open>cpio.rs\<close>) is the archive writer, \<open>Mkirf_Hooks\<close>
  (\<open>hooks.rs\<close>) finds the boot hooks and puts them in an order, with \<open>Topo\<close> for the theory of such orders,
  \<open>Mkirf_Build\<close> (\<open>walk.rs\<close>, \<open>build.rs\<close>) walks the source tree and assembles the image. The archive reads back
  as the entries given, the order runs every hook once and suppliers first and is found exactly when one
  exists. \<open>Uki_Pe\<close> and \<open>Uki_Build\<close> (\<open>src/uu/mkuki/src/mkuki.rs\<close>) append the kernel, the initramfs and the
  command line to a PE stub: the image that results parses, keeps the sections of the stub and holds every
  payload where its header says, and on such a stub nothing panics. The hypothesis
  \<open>stub_layout\<close> excludes stubs with bytes after their last section; for these a theorem shows how a payload is
  lost. \<open>Uki_Run\<close> holds the commands around it. A run returns every state of the files that can be seen on its
  way, and in each the output is the old one or the whole new image. The resident loop is a step function on
  a state with its place in the code, a clock and the messages taken; the channel gives every message a time
  and need not end. A build starts only when the inputs were quiet, and every burst that ends is followed by
  one within a bounded time. What the file system answers and how long a build takes are parameters.

  \<^bold>\<open>mount and umount\<close>. \<open>Mount_Error\<close>, \<open>Mount_Options\<close>, \<open>Mount_Request\<close>, \<open>Mount_Info\<close>, \<open>Mount_Sys\<close>,
  \<open>Mount_Loop\<close> and \<open>Mount_Flow\<close> follow the files of \<open>src/uu/mount/src\<close>; \<open>Umount\<close> is
  \<open>src/uu/umount/src/umount.rs\<close>. The system calls run against an arbitrary kernel, and the state keeps the
  trace of the calls made, so that a property is a monitor of the trace (\<open>triple\<close>, \<open>keeps\<close>, \<open>makes\<close>): the
  requested policy is set before a mount is attached, every run follows the protocol of the mount interface,
  no descriptor is leaked, a failed mount clears its loop device, a dry run changes nothing. For \<open>umount\<close>
  the monitor records the fate of every mount point from the answers of the kernel, and the exit codes are derived
  from these fates.
  \<open>Mount_Safety\<close> holds those of them that concern several verbs. For the parsers the lemmas say what an
  option string and a mount table mean.

  \<^bold>\<open>The registry manual\<close> (\<open>crates/registry-manual/src\<close>, and \<open>fmt\<close> and \<open>lint\<close> of \<open>src/uu/regman\<close>).
  \<open>Reg_Fold\<close> (\<open>fold.rs\<close> with its table, searched through the locale \<open>binary_search\<close> of \<open>Binary_Search\<close>),
  \<open>Reg_Pattern\<close> (\<open>pattern.rs\<close>), \<open>Reg_Fragment\<close> (\<open>fragment.rs\<close>), \<open>Reg_Fmt\<close>, \<open>Reg_Scan\<close> (\<open>corpus.rs\<close>,
  \<open>scan.rs\<close>), \<open>Reg_Index\<close> and \<open>Reg_Lookup\<close> (\<open>index.rs\<close>, with \<open>Utf8_Strict\<close>), \<open>Reg_Query\<close> and \<open>Reg_Resolve\<close>
  (\<open>query.rs\<close>). A query goes through a cascade: the index, the files it names, the whole corpus. The locale
  \<open>registry_query\<close> states what the two kinds of query share, \<open>faithful_query\<close> extends it; both are
  interpreted on the exact and the key query. Through a fresh index the answer is the one of
  the scan of the corpus; through any bytes in the place of the index it is true and nothing panics.

  \<^bold>\<open>Bounds and fuel\<close>. No definition runs on fuel: \<open>watch_run\<close> counts the steps of a loop that need not end, and its
  theorem speaks of all of its states. Other loops are structural recursion, \<open>function\<close> with a
  measure, or (the retry of the re-read, the walks of the index) an option whose \<open>None\<close> is excluded by a theorem.
  Sizes of files and disks are bounded only where a theorem says so: a disk has fewer than
  \<open>2^64\<close> bytes, a serialized index fewer than \<open>2^32\<close>.

  \<^bold>\<open>Not modelled\<close>. Printing, localisation and the declarations of command-line options; the resident watch
  loops of mkirf and regman; the display of the manuals; \<open>part list\<close>, whose printing formats
  what the modelled probe and disk listing return (sizes in floating point); the bindings for C. The commands
  on security descriptors, tokens and identities rest on crates that are not under \<open>src/\<close>. The inherited
  commands for files, text and processes are left out: their effect is mostly the system calls they make, and
  none of the modelled components uses them.
\<close>

end
